(* ===== verification/Prelude.thy ===== *)
theory Prelude
  imports Main "HOL-Library.Word"
begin

text \<open>
  Shared ground of the development: the types of the C program (fixed-width words, byte
  addresses, sizes), the result type of code that may call \<open>sml_fatal\<close>, the size and bit
  macros of \<open>smlsharp.h\<close> that every component uses, and the lemmas on words, bits and
  lists that the component proofs rest on.  Sizes and addresses are natural numbers: the
  code computes them in \<open>size_t\<close>, \<open>uintptr_t\<close> or \<open>char *\<close> and never near the end of the
  64 bit address space.  Bit masks and header words keep their width.
\<close>

unbundle bit_operations_syntax

named_theorems size_arith \<open>arithmetic of rounded sizes\<close>
named_theorems bit_arith \<open>bits of shifted, incremented and masked words\<close>

section \<open>Types\<close>

type_synonym u8 = "8 word"
type_synonym u16 = "16 word"
type_synonym u32 = "32 word"
type_synonym u64 = "64 word"

text \<open>A byte address; \<open>NULL\<close> is 0.\<close>
type_synonym addr = nat

abbreviation (input) NULL :: addr where
  "NULL \<equiv> 0"

text \<open>
  \<open>sml_fatal\<close> prints a message and aborts: a call of it is a value \<open>Inl\<close> of the result type.
\<close>

datatype fatal = Fatal string

type_synonym 'a result = "fatal + 'a"

section \<open>Size macros\<close>

definition CEILING :: "nat \<Rightarrow> nat \<Rightarrow> nat" where
  "CEILING x y = (x + y - 1) - (x + y - 1) mod y"

text \<open>\<open>__builtin_clz\<close>, \<open>__builtin_ctz\<close> and \<open>__builtin_popcount\<close> of the compiler, on 32 bit words.\<close>

definition builtin_clz :: "u32 \<Rightarrow> nat" where
  "builtin_clz w = length (takeWhile (\<lambda>n. \<not> bit w n) (rev [0..<32]))"

definition builtin_ctz :: "u32 \<Rightarrow> nat" where
  "builtin_ctz w = length (takeWhile (\<lambda>n. \<not> bit w n) [0..<32])"

definition builtin_popcount :: "u32 \<Rightarrow> nat" where
  "builtin_popcount w = length (filter (bit w) [0..<32])"

definition CEIL_LOG2 :: "nat \<Rightarrow> nat" where
  "CEIL_LOG2 x = 32 - builtin_clz (word_of_nat x - 1)"

subsection \<open>Rounding up\<close>

lemma ceiling_ge [size_arith]: "0 < y \<Longrightarrow> x \<le> CEILING x y"
  using mod_less_divisor [of y "x + y - 1"] unfolding CEILING_def by linarith

lemma ceiling_dvd [size_arith]: "0 < y \<Longrightarrow> y dvd CEILING x y"
  unfolding CEILING_def by (rule dvd_minus_mod)

lemma ceiling_less [size_arith]: "0 < y \<Longrightarrow> CEILING x y < x + y"
  unfolding CEILING_def by linarith

lemma ceiling_least:
  assumes "0 < y" and "y dvd m" and "x \<le> m"
  shows "CEILING x y \<le> m"
proof -
  from assms obtain k where k: "m = y * k" by auto
  from ceiling_dvd [OF assms(1)] obtain j where j: "CEILING x y = y * j" by auto
  have "y * j < y * k + y"
    using ceiling_less [OF assms(1), of x] assms(3) k j by linarith
  then have "y * j < y * Suc k" by simp
  then have "j < Suc k"
    using assms(1) by (simp only: mult_less_cancel1)
  then show ?thesis using k j by simp
qed

lemma ceiling_id: "0 < y \<Longrightarrow> y dvd x \<Longrightarrow> CEILING x y = x"
  by (simp add: ceiling_ge ceiling_least le_antisym)

lemma ceiling_mono: "0 < y \<Longrightarrow> x \<le> x' \<Longrightarrow> CEILING x y \<le> CEILING x' y"
  by (meson ceiling_dvd ceiling_ge ceiling_least le_trans)

section \<open>Bits of machine words\<close>

lemma int_bit_succ:
  fixes x :: int
  shows "bit (x + 1) n \<longleftrightarrow> (bit x n \<noteq> (\<forall>k<n. bit x k))"
proof (induction n arbitrary: x)
  case 0
  then show ?case by (simp add: bit_0)
next
  case (Suc n)
  have split: "(\<forall>k<Suc n. bit x k) \<longleftrightarrow> odd x \<and> (\<forall>k<n. bit (x div 2) k)"
    by (auto simp: less_Suc_eq_0_disj bit_0 bit_Suc)
  show ?case
  proof (cases "even x")
    case True
    then have "(x + 1) div 2 = x div 2" by simp
    with True split show ?thesis by (simp add: bit_Suc)
  next
    case False
    then have "(x + 1) div 2 = x div 2 + 1" by presburger
    with False split Suc.IH [of "x div 2"] show ?thesis by (simp add: bit_Suc)
  qed
qed

lemma word_bit_succ [bit_arith]:
  fixes w :: "'a::len word"
  assumes "n < LENGTH('a)"
  shows "bit (w + 1) n \<longleftrightarrow> (bit w n \<noteq> (\<forall>k<n. bit w k))"
proof -
  have "bit (w + 1) n \<longleftrightarrow> bit (uint w + 1) n"
  proof -
    have "bit (w + 1) n \<longleftrightarrow> bit (uint (w + 1)) n"
      using assms by (simp add: bit_uint_iff)
    also have "uint (w + 1) = take_bit LENGTH('a) (uint w + 1)"
      by (simp add: uint_word_ariths take_bit_eq_mod)
    finally show ?thesis using assms by (simp add: bit_take_bit_iff)
  qed
  also have "\<dots> \<longleftrightarrow> (bit (uint w) n \<noteq> (\<forall>k<n. bit (uint w) k))"
    by (rule int_bit_succ)
  finally show ?thesis using assms by (auto simp: bit_uint_iff)
qed


lemma bit_two_power [bit_arith]:
  "bit (2 ^ i :: 'a::len word) n \<longleftrightarrow> n = i \<and> i < LENGTH('a)"
  by (auto simp: bit_exp_iff)

lemma bit_two_power_minus_one [bit_arith]:
  "i < LENGTH('a) \<Longrightarrow> bit (2 ^ i - 1 :: 'a::len word) n \<longleftrightarrow> n < i"
  by (auto simp: bit_mask_iff simp flip: mask_eq_exp_minus_1)

lemma word_eq_two_powerI:
  fixes w :: "'a::len word"
  assumes "n < LENGTH('a)" and "\<And>k. k < LENGTH('a) \<Longrightarrow> bit w k \<longleftrightarrow> k = n"
  shows "w = 2 ^ n"
  by (rule bit_word_eqI) (use assms in \<open>auto simp: bit_two_power\<close>)

lemma word_eq_zeroI:
  fixes w :: "'a::len word"
  assumes "\<And>k. k < LENGTH('a) \<Longrightarrow> \<not> bit w k"
  shows "w = 0"
  by (rule bit_word_eqI) (use assms in auto)

lemma two_power_neq_zero [simp]: "i < LENGTH('a) \<Longrightarrow> (2 ^ i :: 'a::len word) \<noteq> 0"
  by (metis bit_two_power bit_0_eq bot_apply bot_bool_def)

text \<open>The idiom \<open>(t + 1) & ~t\<close> isolates the lowest 0 bit of \<open>t\<close>, \<open>t & -t\<close> the lowest 1 bit.\<close>

lemma bit_lowest_zero [bit_arith]:
  fixes t :: "'a::len word"
  shows "bit ((t + 1) AND NOT t) n \<longleftrightarrow> n < LENGTH('a) \<and> \<not> bit t n \<and> (\<forall>k<n. bit t k)"
  by (cases "n < LENGTH('a)") (auto simp: bit_and_iff bit_not_iff word_bit_succ dest: bit_imp_le_length)

lemma bit_lowest_one [bit_arith]:
  fixes t :: "'a::len word"
  shows "bit (t AND - t) n \<longleftrightarrow> bit t n \<and> (\<forall>k<n. \<not> bit t k)"
proof -
  have "- t = NOT t + 1" by (simp add: minus_eq_not_plus_1)
  then have "t AND - t = (NOT t + 1) AND NOT (NOT t)" by (simp add: and.commute)
  then have "bit (t AND - t) n \<longleftrightarrow>
      n < LENGTH('a) \<and> \<not> bit (NOT t) n \<and> (\<forall>k<n. bit (NOT t) k)"
    by (simp only: bit_lowest_zero)
  then show ?thesis by (auto simp: bit_not_iff dest: bit_imp_le_length)
qed

subsection \<open>Counting builtins\<close>

lemma takeWhile_upt_first:
  assumes "P i" and "i < n" and "\<forall>k<i. \<not> P k"
  shows "takeWhile (\<lambda>k. \<not> P k) [0..<n] = [0..<i]"
proof -
  have "[0..<n] = [0..<i] @ [i..<n]"
    using assms(2) by (metis le0 less_imp_le_nat upt_add_eq_append le_add_diff_inverse)
  moreover have "[i..<n] = i # [Suc i..<n]" using assms(2) by (simp add: upt_conv_Cons)
  moreover have "\<And>k. k \<in> set [0..<i] \<Longrightarrow> \<not> P k" using assms(3) by simp
  ultimately show ?thesis using assms(1) by (simp add: takeWhile_append2 del: set_upt)
qed

lemma builtin_ctz_first:
  assumes "bit w i" and "\<forall>k<i. \<not> bit w k"
  shows "builtin_ctz w = i"
proof -
  have "i < 32" using bit_imp_le_length [OF assms(1)] by simp
  then show ?thesis
    using takeWhile_upt_first [of "bit w" i 32] assms by (simp add: builtin_ctz_def)
qed

lemma builtin_ctz_two_power [simp]: "i < 32 \<Longrightarrow> builtin_ctz (2 ^ i) = i"
  by (rule builtin_ctz_first) (auto simp: bit_two_power)

lemma builtin_popcount_card: "builtin_popcount w = card {n. n < 32 \<and> bit w n}"
proof -
  have "builtin_popcount w = card (set (filter (bit w) [0..<32]))"
    unfolding builtin_popcount_def by (rule distinct_card [symmetric]) simp
  also have "set (filter (bit w) [0..<32]) = {n. n < 32 \<and> bit w n}" by auto
  finally show ?thesis .
qed

lemma builtin_clz_highest:
  assumes "bit w h" and "\<forall>k>h. \<not> bit w k"
  shows "builtin_clz w = 31 - h"
proof -
  have h: "h < 32" using bit_imp_le_length [OF assms(1)] by simp
  have "[0..<32] = [0..<h] @ h # [Suc h..<32]"
    using h by (metis le0 less_imp_le_nat upt_add_eq_append le_add_diff_inverse upt_conv_Cons)
  then have "rev [0..<32] = rev [Suc h..<32] @ h # rev [0..<h]" by simp
  moreover have "\<And>k. k \<in> set (rev [Suc h..<32]) \<Longrightarrow> \<not> bit w k" using assms(2) by auto
  ultimately have "takeWhile (\<lambda>n. \<not> bit w n) (rev [0..<32]) = rev [Suc h..<32]"
    using assms(1) by (simp add: takeWhile_append2 del: set_upt set_rev)
  then show ?thesis by (simp add: builtin_clz_def)
qed

lemma unat_highest_bit:
  fixes w :: "'a::len word"
  assumes "bit w h" and "\<forall>k>h. \<not> bit w k"
  shows "2 ^ h \<le> unat w \<and> unat w < 2 ^ Suc h"
proof
  have b: "bit (unat w) h" using assms(1) by (simp add: bit_unsigned_iff)
  show "2 ^ h \<le> unat w"
  proof (rule ccontr)
    assume "\<not> 2 ^ h \<le> unat w"
    then have "unat w < 2 ^ h" by simp
    then have "unat w div 2 ^ h = 0" by simp
    with b show False by (simp add: bit_iff_odd)
  qed
  have "unat w = take_bit (Suc h) (unat w)"
    by (rule bit_eqI) (use assms(2) in \<open>auto simp: bit_take_bit_iff bit_unsigned_iff less_Suc_eq_le\<close>,
        meson not_le)
  then show "unat w < 2 ^ Suc h" by (metis take_bit_nat_less_exp)
qed

lemma exists_highest_bit:
  fixes w :: "'a::len word"
  assumes "w \<noteq> 0"
  obtains h where "bit w h" and "\<forall>k>h. \<not> bit w k"
proof -
  have fin: "finite {n. bit w n}"
    by (rule finite_subset [of _ "{..<LENGTH('a)}"]) (auto dest: bit_imp_le_length)
  have ne: "{n. bit w n} \<noteq> {}" using assms by (auto simp: bit_eq_iff)
  show ?thesis
  proof (rule that [of "Max {n. bit w n}"])
    show "bit w (Max {n. bit w n})" using Max_in [OF fin ne] by simp
    show "\<forall>k>Max {n. bit w n}. \<not> bit w k" using fin by (metis Max_ge mem_Collect_eq not_le)
  qed
qed

lemma ceil_log2_bounds:
  assumes "2 \<le> x" and "x \<le> 2 ^ 32"
  shows "x \<le> 2 ^ CEIL_LOG2 x \<and> 2 ^ CEIL_LOG2 x < 2 * x \<and> 0 < CEIL_LOG2 x"
proof -
  let ?w = "word_of_nat x - 1 :: u32"
  have w: "?w = word_of_nat (x - 1)" using assms(1) by (simp add: of_nat_diff)
  have u: "unat ?w = x - 1"
    unfolding w unat_of_nat using assms by simp
  then have "?w \<noteq> 0" using assms(1) by auto
  then obtain h where h: "bit ?w h" "\<forall>k>h. \<not> bit ?w k" by (rule exists_highest_bit)
  have "h < 32" using bit_imp_le_length [OF h(1)] by simp
  then have k: "CEIL_LOG2 x = Suc h"
    using builtin_clz_highest [OF h] by (simp add: CEIL_LOG2_def)
  show ?thesis using unat_highest_bit [OF h] u assms(1) unfolding k by auto
qed

section \<open>Results of code that may wait or fail\<close>

abbreviation (input) ret :: "'a \<Rightarrow> 'a result option" where
  "ret x \<equiv> Some (Inr x)"

definition andthen :: "'a result option \<Rightarrow> ('a \<Rightarrow> 'b result option) \<Rightarrow> 'b result option" where
  "andthen m f = Option.bind m (\<lambda>r. case r of Inl e \<Rightarrow> Some (Inl e) | Inr x \<Rightarrow> f x)"

lemma andthen_simps [simp]:
  "andthen None f = None" "andthen (Some (Inl e)) f = Some (Inl e)" "andthen (ret x) f = f x"
  by (simp_all add: andthen_def)

lemma andthen_mono [partial_function_mono]:
  assumes "mono_option A" and "\<And>y. mono_option (\<lambda>f. B y f)"
  shows "mono_option (\<lambda>f. andthen (A f) (\<lambda>y. B y f))"
  unfolding andthen_def
proof (rule bind_mono [OF assms(1)])
  show "mono_option (\<lambda>f. case r of Inl e \<Rightarrow> Some (Inl e) | Inr x \<Rightarrow> B x f)" for r
    using assms(2) by (cases r) (simp_all add: monotone_def flat_ord_def)
qed

end
