(* ===== verification/Memory.thy ===== *)
theory Memory
  imports Prelude
begin

text \<open>
  The byte memory the runtime works on.  Objects, their headers, the bitmaps and the mark
  stack of a segment all live in one byte-addressed store, read and written as the C code
  does: as bytes, as 32 bit words (headers, bitmap words) and as 64 bit words (pointers),
  little-endian as on x86_64, the platform of the runtime.  \<open>memset\<close> and \<open>memcpy\<close> are the
  functions of the C library.
\<close>

type_synonym mem = "addr \<Rightarrow> u8"

fun load_le :: "mem \<Rightarrow> addr \<Rightarrow> nat \<Rightarrow> nat" where
  "load_le m a 0 = 0"
| "load_le m a (Suc n) = unat (m a) + 256 * load_le m (Suc a) n"

fun store_le :: "mem \<Rightarrow> addr \<Rightarrow> nat \<Rightarrow> nat \<Rightarrow> mem" where
  "store_le m a 0 v = m"
| "store_le m a (Suc n) v = (store_le m (Suc a) n (v div 256))(a := word_of_nat v)"

definition load32 :: "mem \<Rightarrow> addr \<Rightarrow> u32" where
  "load32 m a = word_of_nat (load_le m a 4)"

definition store32 :: "mem \<Rightarrow> addr \<Rightarrow> u32 \<Rightarrow> mem" where
  "store32 m a w = store_le m a 4 (unat w)"

text \<open>A pointer-sized load yields an address; addresses are below \<open>2 ^ 64\<close>.\<close>

definition load64 :: "mem \<Rightarrow> addr \<Rightarrow> addr" where
  "load64 m a = load_le m a 8"

definition store64 :: "mem \<Rightarrow> addr \<Rightarrow> addr \<Rightarrow> mem" where
  "store64 m a p = store_le m a 8 p"

definition memset :: "mem \<Rightarrow> addr \<Rightarrow> u8 \<Rightarrow> nat \<Rightarrow> mem" where
  "memset m a c n = (\<lambda>x. if a \<le> x \<and> x < a + n then c else m x)"

definition memcpy :: "mem \<Rightarrow> addr \<Rightarrow> addr \<Rightarrow> nat \<Rightarrow> mem" where
  "memcpy m dst src n = (\<lambda>x. if dst \<le> x \<and> x < dst + n then m (src + (x - dst)) else m x)"

text \<open>\<open>memcmp(p, q, n) == 0\<close>.\<close>

definition memcmp_eq :: "mem \<Rightarrow> addr \<Rightarrow> addr \<Rightarrow> nat \<Rightarrow> bool" where
  "memcmp_eq m p q n = list_all (\<lambda>i. m (p + i) = m (q + i)) [0..<n]"

section \<open>Loads and stores\<close>

lemma load_le_bound: "load_le m a n < 256 ^ n"
proof (induction n arbitrary: a)
  case (Suc n)
  have "unat (m a) < 256" using unsigned_less [of "m a"] by simp
  then show ?case using Suc [of "Suc a"] by simp
qed simp

lemma load_le_cong:
  "(\<And>i. i < n \<Longrightarrow> m (a + i) = m' (b + i)) \<Longrightarrow> load_le m a n = load_le m' b n"
proof (induction n arbitrary: a b)
  case (Suc n)
  have "m a = m' b" using Suc.prems [of 0] by simp
  moreover have "load_le m (Suc a) n = load_le m' (Suc b) n"
    by (rule Suc.IH) (use Suc.prems [of "Suc _"] in simp)
  ultimately show ?case by simp
qed simp

lemma load_le_inj:
  "load_le m a n = load_le m' b n \<Longrightarrow> i < n \<Longrightarrow> m (a + i) = m' (b + i)"
proof (induction n arbitrary: a b i)
  case (Suc n)
  have lt: "unat (m a) < 256" "unat (m' b) < 256"
    using unsigned_less [of "m a"] unsigned_less [of "m' b"] by simp_all
  have eq: "unat (m a) + 256 * load_le m (Suc a) n = unat (m' b) + 256 * load_le m' (Suc b) n"
    using Suc.prems(1) by simp
  have hd: "unat (m a) = unat (m' b)"
    using arg_cong [OF eq, of "\<lambda>x. x mod 256"] lt by simp
  then have tl: "load_le m (Suc a) n = load_le m' (Suc b) n" using eq by simp
  show ?case
  proof (cases i)
    case 0
    then show ?thesis using hd by (simp add: word_unat_eq_iff)
  next
    case (Suc j)
    then show ?thesis using Suc.IH [OF tl, of j] Suc.prems(2) by simp
  qed
qed simp

lemma store_le_other: "x < a \<or> a + n \<le> x \<Longrightarrow> store_le m a n v x = m x"
  by (induction n arbitrary: a v) auto

lemma load_store_le_same: "v < 256 ^ n \<Longrightarrow> load_le (store_le m a n v) a n = v"
proof (induction n arbitrary: a v)
  case (Suc n)
  have "load_le ((store_le m (Suc a) n (v div 256))(a := word_of_nat v)) (Suc a) n
      = load_le (store_le m (Suc a) n (v div 256)) (Suc a) n"
    by (rule load_le_cong) simp
  also have "\<dots> = v div 256" by (rule Suc.IH) (use Suc.prems in simp)
  finally have "load_le (store_le m a (Suc n) v) a (Suc n) = unat (word_of_nat v :: u8) + 256 * (v div 256)"
    by simp
  also have "\<dots> = v" by (simp add: unat_of_nat)
  finally show ?case .
qed simp

lemma load_store_le_other:
  "a + n \<le> b \<or> b + k \<le> a \<Longrightarrow> load_le (store_le m a n v) b k = load_le m b k"
  by (rule load_le_cong) (auto simp: store_le_other)

lemma load32_store32_same [simp]: "load32 (store32 m a w) a = w"
proof -
  have "unat w < 2 ^ LENGTH(32)" by (rule unsigned_less)
  then have "unat w < 256 ^ 4" by simp
  then show ?thesis by (simp only: load32_def store32_def load_store_le_same of_nat_unat ucast_id)
qed

lemma load32_store32_other:
  "a + 4 \<le> b \<or> b + 4 \<le> a \<Longrightarrow> load32 (store32 m a w) b = load32 m b"
  by (simp add: load32_def store32_def load_store_le_other)

lemma load64_store64_same [simp]: "p < 2 ^ 64 \<Longrightarrow> load64 (store64 m a p) a = p"
  by (simp add: load64_def store64_def load_store_le_same)

lemma load64_store64_other:
  "a + 8 \<le> b \<or> b + 8 \<le> a \<Longrightarrow> load64 (store64 m a p) b = load64 m b"
  by (simp add: load64_def store64_def load_store_le_other)

lemma load64_store32_other:
  "a + 4 \<le> b \<or> b + 8 \<le> a \<Longrightarrow> load64 (store32 m a w) b = load64 m b"
  by (simp add: load64_def store32_def load_store_le_other)

lemma load32_store64_other:
  "a + 8 \<le> b \<or> b + 4 \<le> a \<Longrightarrow> load32 (store64 m a p) b = load32 m b"
  by (simp add: load32_def store64_def load_store_le_other)

lemmas load_store_other =
  load32_store32_other load64_store64_other load64_store32_other load32_store64_other

lemma store32_other: "x < a \<or> a + 4 \<le> x \<Longrightarrow> store32 m a w x = m x"
  by (simp add: store32_def store_le_other)

lemma store64_other: "x < a \<or> a + 8 \<le> x \<Longrightarrow> store64 m a p x = m x"
  by (simp add: store64_def store_le_other)

lemma load64_bound: "load64 m a < 2 ^ 64"
  using load_le_bound [of m a 8] by (simp add: load64_def)

lemma load64_store64_load [simp]: "load64 (store64 m a (load64 m' b)) a = load64 m' b"
  by (rule load64_store64_same) (rule load64_bound)

lemma load32_cong:
  "(\<And>i. i < 4 \<Longrightarrow> m (a + i) = m' (b + i)) \<Longrightarrow> load32 m a = load32 m' b"
  unfolding load32_def by (rule arg_cong [of _ _ word_of_nat], rule load_le_cong)

lemma load64_cong:
  "(\<And>i. i < 8 \<Longrightarrow> m (a + i) = m' (b + i)) \<Longrightarrow> load64 m a = load64 m' b"
  unfolding load64_def by (rule load_le_cong)

lemma load64_inj: "load64 m a = load64 m' b \<Longrightarrow> i < 8 \<Longrightarrow> m (a + i) = m' (b + i)"
  unfolding load64_def by (rule load_le_inj)

lemma load32_memset_zero: "a \<le> b \<Longrightarrow> b + 4 \<le> a + n \<Longrightarrow> load32 (memset m a 0 n) b = 0"
  by (simp add: load32_def memset_def eval_nat_numeral)

lemma load32_memset_other:
  "b + 4 \<le> a \<or> a + n \<le> b \<Longrightarrow> load32 (memset m a c n) b = load32 m b"
  by (rule load32_cong) (auto simp: memset_def)

lemma memcmp_eq_iff: "memcmp_eq m p q n \<longleftrightarrow> (\<forall>i<n. m (p + i) = m (q + i))"
  by (auto simp: memcmp_eq_def list_all_iff)

end
