(* ===== verification/Object.thy ===== *)
theory Object
  imports Memory
begin

text \<open>
  The format of heap objects (\<open>object.h\<close>) and the operations on objects (\<open>object.c\<close>):
  header words, record bitmaps, pointer enumeration, structural equality, string and array
  primitives.  An object pointer is the byte address of the payload; the 32 bit header
  stands right before it and the bitmap words of a record right behind its payload.
  Pointers are 8 bytes wide.  The functions of the bignum library that \<open>intinf.h\<close> names
  are parameters.
\<close>

section \<open>Object headers\<close>

abbreviation (input) SIZEOF_PTR :: nat where
  "SIZEOF_PTR \<equiv> 8"

abbreviation (input) SIZEOF_BITMAP :: nat where
  "SIZEOF_BITMAP \<equiv> 4"

abbreviation (input) BITMAP_NUM_BITS :: nat where
  "BITMAP_NUM_BITS \<equiv> 32"

abbreviation (input) TAG_UNBOXED :: u32 where
  "TAG_UNBOXED \<equiv> 0"

abbreviation (input) TAG_BOXED :: u32 where
  "TAG_BOXED \<equiv> 1"

abbreviation (input) OBJ_HEADER_SIZE :: nat where
  "OBJ_HEADER_SIZE \<equiv> 4"

definition OBJ_TYPE_MASK :: u32 where "OBJ_TYPE_MASK = 0x70000000"
definition OBJ_SIZE_MASK :: u32 where "OBJ_SIZE_MASK = 0x0fffffff"
definition OBJ_FLAG_SKIP :: u32 where "OBJ_FLAG_SKIP = 0x80000000"
definition OBJTYPE_UNBOXED_VECTOR :: u32 where "OBJTYPE_UNBOXED_VECTOR = 0x00000000"
definition OBJTYPE_BOXED_VECTOR :: u32 where "OBJTYPE_BOXED_VECTOR = 0x10000000"
definition OBJTYPE_UNBOXED_ARRAY :: u32 where "OBJTYPE_UNBOXED_ARRAY = 0x20000000"
definition OBJTYPE_BOXED_ARRAY :: u32 where "OBJTYPE_BOXED_ARRAY = 0x30000000"
definition OBJTYPE_RECORD :: u32 where "OBJTYPE_RECORD = 0x50000000"
definition OBJTYPE_INTINF :: u32 where "OBJTYPE_INTINF = 0x60000000"
definition OBJTYPE_FORWARDED :: u32 where "OBJTYPE_FORWARDED = 0x70000000"
definition OBJ_FLAG_MAY_HAVE_PTR :: u32 where "OBJ_FLAG_MAY_HAVE_PTR = 0x10000000"

lemmas objtype_defs =
  OBJTYPE_UNBOXED_VECTOR_def OBJTYPE_BOXED_VECTOR_def OBJTYPE_UNBOXED_ARRAY_def
  OBJTYPE_BOXED_ARRAY_def OBJTYPE_RECORD_def OBJTYPE_INTINF_def OBJTYPE_FORWARDED_def

lemmas objmask_defs = OBJ_TYPE_MASK_def OBJ_SIZE_MASK_def OBJ_FLAG_SKIP_def OBJ_FLAG_MAY_HAVE_PTR_def

definition BITMAP_BIT :: "mem \<Rightarrow> addr \<Rightarrow> nat \<Rightarrow> u32" where
  "BITMAP_BIT m bitmaps index =
     drop_bit (index mod BITMAP_NUM_BITS) (load32 m (bitmaps + 4 * (index div BITMAP_NUM_BITS)))
     AND 1"

text \<open>\<open>STRUCT_BITMAP(struct, field)\<close> for a field at byte offset \<open>ofs\<close>.\<close>

definition STRUCT_BITMAP :: "nat \<Rightarrow> u32" where
  "STRUCT_BITMAP ofs = push_bit (ofs div SIZEOF_PTR) TAG_BOXED"

definition OBJTYPE_IS_ARRAY :: "u32 \<Rightarrow> bool" where
  "OBJTYPE_IS_ARRAY w \<longleftrightarrow> w AND 0x60000000 = 0x20000000"

definition OBJ_HEADER_WORD :: "u32 \<Rightarrow> nat \<Rightarrow> u32" where
  "OBJ_HEADER_WORD objtype sz = objtype OR word_of_nat sz"

definition OBJ_BEGIN :: "addr \<Rightarrow> addr" where
  "OBJ_BEGIN obj = obj - 4"

definition OBJ_HEADER :: "mem \<Rightarrow> addr \<Rightarrow> u32" where
  "OBJ_HEADER m obj = load32 m (OBJ_BEGIN obj)"

definition OBJ_TYPE :: "mem \<Rightarrow> addr \<Rightarrow> u32" where
  "OBJ_TYPE m obj = OBJ_HEADER m obj AND OBJ_TYPE_MASK"

definition OBJ_SIZE :: "mem \<Rightarrow> addr \<Rightarrow> nat" where
  "OBJ_SIZE m obj = unat (OBJ_HEADER m obj AND OBJ_SIZE_MASK)"

definition OBJ_BITMAP :: "mem \<Rightarrow> addr \<Rightarrow> addr" where
  "OBJ_BITMAP m obj = obj + OBJ_SIZE m obj"

definition OBJ_BITMAPS_LEN :: "nat \<Rightarrow> nat" where
  "OBJ_BITMAPS_LEN payload_size =
     (payload_size div SIZEOF_PTR + BITMAP_NUM_BITS - 1) div BITMAP_NUM_BITS"

definition OBJ_NUM_BITMAPS :: "mem \<Rightarrow> addr \<Rightarrow> nat" where
  "OBJ_NUM_BITMAPS m obj = OBJ_BITMAPS_LEN (OBJ_SIZE m obj)"

definition OBJ_TOTAL_SIZE :: "mem \<Rightarrow> addr \<Rightarrow> nat" where
  "OBJ_TOTAL_SIZE m obj =
     OBJ_HEADER_SIZE +
     OBJ_SIZE m obj +
     (if OBJ_TYPE m obj = OBJTYPE_RECORD then OBJ_NUM_BITMAPS m obj * SIZEOF_BITMAP else 0)"

text \<open>The length of a string object without its sentinel: a 32 bit subtraction.\<close>

definition OBJ_STR_SIZE :: "mem \<Rightarrow> addr \<Rightarrow> nat" where
  "OBJ_STR_SIZE m obj = unat ((OBJ_HEADER m obj AND OBJ_SIZE_MASK) - 1)"

section \<open>Enumeration of the pointers of an object\<close>

text \<open>
  The slots on which \<open>sml_obj_enum_ptr\<close> calls its function argument, in order.  The
  functions the runtime passes never write headers or bitmaps, so the loop bounds and
  bitmap bits it reads are those of the memory at the call.
\<close>

definition enum_slots :: "mem \<Rightarrow> addr \<Rightarrow> addr list result" where
  "enum_slots m obj =
     (let t = OBJ_TYPE m obj; n = OBJ_SIZE m obj div SIZEOF_PTR in
      if t = OBJTYPE_UNBOXED_ARRAY \<or> t = OBJTYPE_UNBOXED_VECTOR \<or> t = OBJTYPE_INTINF then Inr []
      else if t = OBJTYPE_BOXED_ARRAY \<or> t = OBJTYPE_BOXED_VECTOR then
        Inr (map (\<lambda>i. obj + SIZEOF_PTR * i) [0..<n])
      else if t = OBJTYPE_RECORD then
        Inr (map (\<lambda>i. obj + SIZEOF_PTR * i)
              (filter (\<lambda>i. BITMAP_BIT m (OBJ_BITMAP m obj) i \<noteq> TAG_UNBOXED) [0..<n]))
      else Inl (Fatal ''BUG: invalid object type''))"

definition sml_obj_enum_ptr :: "mem \<Rightarrow> addr \<Rightarrow> (addr \<Rightarrow> 's \<Rightarrow> 's) \<Rightarrow> 's \<Rightarrow> 's result" where
  "sml_obj_enum_ptr m obj trace data =
     (case enum_slots m obj of Inl e \<Rightarrow> Inl e | Inr slots \<Rightarrow> Inr (fold trace slots data))"

section \<open>Structural equality\<close>

text \<open>A loop over field indices that stops at the first field that differs or fails.\<close>

fun all_fields :: "(nat \<Rightarrow> bool result option) \<Rightarrow> nat list \<Rightarrow> bool result option" where
  "all_fields f [] = Some (Inr True)"
| "all_fields f (i # is) =
     (case f i of Some (Inr True) \<Rightarrow> all_fields f is | r \<Rightarrow> r)"

text \<open>
  Objects of different types are comparable only when one is a record all of whose fields
  have the tag of the other, a vector.  The result is the pair to compare, the record
  second, or None for the answer 0.
\<close>

definition equal_types :: "mem \<Rightarrow> addr \<Rightarrow> addr \<Rightarrow> (addr \<times> addr) option" where
  "equal_types m obj1 obj2 =
     (if OBJ_TYPE m obj1 = OBJ_TYPE m obj2 then Some (obj1, obj2)
      else if OBJ_TYPE m obj1 \<noteq> OBJTYPE_RECORD \<and> OBJ_TYPE m obj2 \<noteq> OBJTYPE_RECORD then None
      else
        let (vec, rcd) = (if OBJ_TYPE m obj1 = OBJTYPE_RECORD then (obj2, obj1) else (obj1, obj2));
            uniform = (\<lambda>tag. list_all (\<lambda>i. BITMAP_BIT m (OBJ_BITMAP m rcd) i = tag)
                                [0..<OBJ_SIZE m rcd div SIZEOF_PTR])
        in if OBJ_TYPE m vec = OBJTYPE_UNBOXED_VECTOR then
             (if uniform TAG_UNBOXED then Some (vec, rcd) else None)
           else if OBJ_TYPE m vec = OBJTYPE_BOXED_VECTOR then
             (if uniform TAG_BOXED then Some (vec, rcd) else None)
           else None)"

text \<open>The switch on the type of the first object; \<open>rec\<close> is the recursive call.\<close>

definition equal_contents ::
  "(addr \<Rightarrow> addr \<Rightarrow> bool result option) \<Rightarrow> (addr \<Rightarrow> addr \<Rightarrow> int) \<Rightarrow> mem \<Rightarrow> addr \<Rightarrow> addr
   \<Rightarrow> bool result option" where
  "equal_contents rec sml_intinf_cmp m obj1 obj2 =
     (let t = OBJ_TYPE m obj1; n = OBJ_SIZE m obj1 div SIZEOF_PTR;
          p1 = (\<lambda>i. load64 m (obj1 + SIZEOF_PTR * i)); p2 = (\<lambda>i. load64 m (obj2 + SIZEOF_PTR * i));
          bitmap1 = OBJ_BITMAP m obj1; bitmap2 = OBJ_BITMAP m obj2
      in if t = OBJTYPE_UNBOXED_ARRAY \<or> t = OBJTYPE_BOXED_ARRAY then Some (Inr False)
         else if t = OBJTYPE_UNBOXED_VECTOR then
           Some (Inr (memcmp_eq m obj1 obj2 (OBJ_SIZE m obj1)))
         else if t = OBJTYPE_BOXED_VECTOR then all_fields (\<lambda>i. rec (p1 i) (p2 i)) [0..<n]
         else if t = OBJTYPE_INTINF then Some (Inr (sml_intinf_cmp obj1 obj2 = 0))
         else if t = OBJTYPE_RECORD then
           (if \<not> list_all (\<lambda>i. load32 m (bitmap1 + 4 * i) = load32 m (bitmap2 + 4 * i))
                 [0..<OBJ_NUM_BITMAPS m obj1] then Some (Inr False)
            else all_fields
                   (\<lambda>i. if BITMAP_BIT m bitmap1 i = TAG_UNBOXED then Some (Inr (p1 i = p2 i))
                        else rec (p1 i) (p2 i)) [0..<n])
         else Some (Inl (Fatal ''BUG: invalid object type'')))"

text \<open>
  \<open>sml_obj_equal\<close> follows pointers, so it need not return on a cyclic heap: \<open>fuel\<close> bounds
  the depth of the recursion and None means that it was not enough.
\<close>

fun sml_obj_equal ::
  "(addr \<Rightarrow> addr \<Rightarrow> int) \<Rightarrow> mem \<Rightarrow> nat \<Rightarrow> addr \<Rightarrow> addr \<Rightarrow> bool result option" where
  "sml_obj_equal sml_intinf_cmp m 0 obj1 obj2 = None"
| "sml_obj_equal sml_intinf_cmp m (Suc fuel) obj1 obj2 =
     (if obj1 = obj2 then Some (Inr True)
      else if obj1 = NULL \<or> obj2 = NULL then Some (Inr False)
      else if OBJ_SIZE m obj1 \<noteq> OBJ_SIZE m obj2 then Some (Inr False)
      else case equal_types m obj1 obj2 of
          None \<Rightarrow> Some (Inr False)
        | Some (o1, o2) \<Rightarrow>
            equal_contents (sml_obj_equal sml_intinf_cmp m fuel) sml_intinf_cmp m o1 o2)"

section \<open>Allocation of objects and strings\<close>

text \<open>
  \<open>sml_alloc\<close> of the heap component is the parameter: given the memory and a size it returns
  the address of a fresh block and the memory after the allocation.
\<close>

definition sml_obj_alloc ::
  "(mem \<Rightarrow> nat \<Rightarrow> addr \<times> mem) \<Rightarrow> mem \<Rightarrow> u32 \<Rightarrow> nat \<Rightarrow> addr \<times> mem" where
  "sml_obj_alloc sml_alloc m objtype payload_size =
     (let (obj, m') = sml_alloc m payload_size
      in (obj, store32 m' (OBJ_BEGIN obj) (OBJ_HEADER_WORD objtype payload_size)))"

definition sml_str_new2 ::
  "(mem \<Rightarrow> nat \<Rightarrow> addr \<times> mem) \<Rightarrow> mem \<Rightarrow> addr \<Rightarrow> nat \<Rightarrow> addr \<times> mem" where
  "sml_str_new2 sml_alloc m str len =
     (let (obj, m1) = sml_obj_alloc sml_alloc m OBJTYPE_UNBOXED_VECTOR (len + 1);
          m2 = memcpy m1 obj str len
      in (obj, m2(obj + len := 0)))"

text \<open>\<open>strlen\<close> does not return on memory without a null byte.\<close>

partial_function (option) c_strlen :: "mem \<Rightarrow> addr \<Rightarrow> nat \<Rightarrow> nat option" where
  "c_strlen m s n = (if m (s + n) = 0 then Some n else c_strlen m s (Suc n))"

definition sml_str_new ::
  "(mem \<Rightarrow> nat \<Rightarrow> addr \<times> mem) \<Rightarrow> mem \<Rightarrow> addr \<Rightarrow> (addr \<times> mem) option" where
  "sml_str_new sml_alloc m str =
     map_option (\<lambda>len. sml_str_new2 sml_alloc m str (len mod 2 ^ 32)) (c_strlen m str 0)"

section \<open>Copying between pointer arrays\<close>

text \<open>
  \<open>sml_copyary\<close> over the memory accesses of its environment: \<open>rd\<close> reads a pointer and \<open>wr\<close>
  is \<open>sml_write\<close>.  The indices are 32 bit: \<open>src[si + len]\<close> and the increments wrap.
\<close>

fun copyary_down ::
  "('s \<Rightarrow> addr \<Rightarrow> addr) \<Rightarrow> (addr \<Rightarrow> addr \<Rightarrow> addr \<Rightarrow> 's \<Rightarrow> 's)
   \<Rightarrow> addr \<Rightarrow> nat \<Rightarrow> addr \<Rightarrow> nat \<Rightarrow> nat \<Rightarrow> 's \<Rightarrow> 's" where
  "copyary_down rd wr src si dst di 0 s = s"
| "copyary_down rd wr src si dst di (Suc len) s =
     copyary_down rd wr src si dst di len
       (wr dst (dst + 8 * (di + len)) (rd s (src + 8 * ((si + len) mod 2 ^ 32))) s)"

fun copyary_up ::
  "('s \<Rightarrow> addr \<Rightarrow> addr) \<Rightarrow> (addr \<Rightarrow> addr \<Rightarrow> addr \<Rightarrow> 's \<Rightarrow> 's)
   \<Rightarrow> addr \<Rightarrow> nat \<Rightarrow> addr \<Rightarrow> nat \<Rightarrow> nat \<Rightarrow> 's \<Rightarrow> 's" where
  "copyary_up rd wr src si dst di 0 s = s"
| "copyary_up rd wr src si dst di (Suc len) s =
     copyary_up rd wr src ((si + 1) mod 2 ^ 32) dst ((di + 1) mod 2 ^ 32) len
       (wr dst (dst + 8 * di) (rd s (src + 8 * si)) s)"

definition sml_copyary ::
  "('s \<Rightarrow> addr \<Rightarrow> addr) \<Rightarrow> (addr \<Rightarrow> addr \<Rightarrow> addr \<Rightarrow> 's \<Rightarrow> 's)
   \<Rightarrow> addr \<Rightarrow> nat \<Rightarrow> addr \<Rightarrow> nat \<Rightarrow> nat \<Rightarrow> 's \<Rightarrow> 's" where
  "sml_copyary rd wr src si dst di len s =
     (if src = dst then copyary_down rd wr src si dst di len s
      else copyary_up rd wr src si dst di len s)"

text \<open>The effect of \<open>sml_write\<close> on the memory of the objects (its barrier touches none of it).\<close>

definition write_mem :: "addr \<Rightarrow> addr \<Rightarrow> addr \<Rightarrow> mem \<Rightarrow> mem" where
  "write_mem objaddr writeaddr new_value m = store64 m writeaddr new_value"


section \<open>Headers\<close>

definition valid_objtype :: "u32 \<Rightarrow> bool" where
  "valid_objtype t \<longleftrightarrow>
     t \<in> {OBJTYPE_UNBOXED_VECTOR, OBJTYPE_BOXED_VECTOR, OBJTYPE_UNBOXED_ARRAY,
          OBJTYPE_BOXED_ARRAY, OBJTYPE_RECORD, OBJTYPE_INTINF}"

lemma size_mask_take: "w AND OBJ_SIZE_MASK = take_bit 28 w"
  by (simp add: OBJ_SIZE_MASK_def take_bit_eq_mask mask_eq_exp_minus_1)

lemma size_word_small: "sz < 2 ^ 28 \<Longrightarrow> take_bit 28 (word_of_nat sz :: u32) = word_of_nat sz"
  by (simp add: take_bit_of_nat take_bit_nat_eq_self)

lemma type_mask_of_size:
  assumes "sz < 2 ^ 28"
  shows "word_of_nat sz AND OBJ_TYPE_MASK = 0"
proof -
  have "word_of_nat sz AND OBJ_TYPE_MASK = (word_of_nat sz AND OBJ_SIZE_MASK) AND OBJ_TYPE_MASK"
    by (simp only: size_mask_take size_word_small [OF assms])
  also have "\<dots> = word_of_nat sz AND (OBJ_SIZE_MASK AND OBJ_TYPE_MASK)"
    by (simp only: and.assoc)
  also have "OBJ_SIZE_MASK AND OBJ_TYPE_MASK = 0"
    by (simp add: objmask_defs)
  finally show ?thesis by simp
qed

lemma header_word_size:
  assumes "valid_objtype t" and "sz < 2 ^ 28"
  shows "unat (OBJ_HEADER_WORD t sz AND OBJ_SIZE_MASK) = sz"
proof -
  have "t AND OBJ_SIZE_MASK = 0"
    using assms(1) by (auto simp: valid_objtype_def objtype_defs objmask_defs)
  then have "OBJ_HEADER_WORD t sz AND OBJ_SIZE_MASK = word_of_nat sz AND OBJ_SIZE_MASK"
    by (simp add: OBJ_HEADER_WORD_def bit.conj_disj_distrib2)
  also have "\<dots> = word_of_nat sz" by (simp only: size_mask_take size_word_small [OF assms(2)])
  finally show ?thesis using assms(2) by (simp add: unat_of_nat)
qed

lemma header_word_type:
  assumes "valid_objtype t" and "sz < 2 ^ 28"
  shows "OBJ_HEADER_WORD t sz AND OBJ_TYPE_MASK = t"
proof -
  have "t AND OBJ_TYPE_MASK = t"
    using assms(1) by (auto simp: valid_objtype_def objtype_defs objmask_defs)
  then show ?thesis
    using type_mask_of_size [OF assms(2)]
    by (simp add: OBJ_HEADER_WORD_def bit.conj_disj_distrib2)
qed

lemma obj_size_bound: "OBJ_SIZE m obj < 2 ^ 28"
proof -
  have "unat (take_bit 28 (OBJ_HEADER m obj)) < 2 ^ 28"
    using take_bit_nat_less_exp [of 28 "unat (OBJ_HEADER m obj)"] by (simp add: unsigned_take_bit_eq)
  then show ?thesis by (simp add: OBJ_SIZE_def size_mask_take)
qed

lemma bitmap_bit_iff:
  "BITMAP_BIT m bm i \<noteq> 0 \<longleftrightarrow> bit (load32 m (bm + 4 * (i div 32))) (i mod 32)"
  by (simp add: BITMAP_BIT_def and_one_eq bit_iff_odd_drop_bit mod_2_eq_odd)

lemma bitmap_bit_cases: "BITMAP_BIT m bm i = 0 \<or> BITMAP_BIT m bm i = 1"
  by (simp add: BITMAP_BIT_def and_one_eq mod_2_eq_odd)

lemma bitmaps_cover: "i < sz div 8 \<Longrightarrow> i div 32 < OBJ_BITMAPS_LEN sz"
  by (simp add: OBJ_BITMAPS_LEN_def less_eq_div_iff_mult_less_eq Suc_le_eq [symmetric])


section \<open>Pointer slots\<close>

text \<open>Field \<open>i\<close> of the object holds a pointer to trace, as the comment of \<open>object.h\<close> defines it.\<close>

definition pointer_field :: "mem \<Rightarrow> addr \<Rightarrow> nat \<Rightarrow> bool" where
  "pointer_field m obj i \<longleftrightarrow>
     8 * i + 8 \<le> OBJ_SIZE m obj \<and>
     (OBJ_TYPE m obj = OBJTYPE_BOXED_VECTOR \<or> OBJ_TYPE m obj = OBJTYPE_BOXED_ARRAY \<or>
      OBJ_TYPE m obj = OBJTYPE_RECORD \<and>
        bit (load32 m (obj + OBJ_SIZE m obj + 4 * (i div 32))) (i mod 32))"

lemma objtypes_distinct [simp]:
  "OBJTYPE_UNBOXED_VECTOR \<noteq> OBJTYPE_BOXED_VECTOR" "OBJTYPE_BOXED_VECTOR \<noteq> OBJTYPE_UNBOXED_VECTOR"
  "OBJTYPE_UNBOXED_VECTOR \<noteq> OBJTYPE_UNBOXED_ARRAY" "OBJTYPE_UNBOXED_ARRAY \<noteq> OBJTYPE_UNBOXED_VECTOR"
  "OBJTYPE_UNBOXED_VECTOR \<noteq> OBJTYPE_BOXED_ARRAY" "OBJTYPE_BOXED_ARRAY \<noteq> OBJTYPE_UNBOXED_VECTOR"
  "OBJTYPE_UNBOXED_VECTOR \<noteq> OBJTYPE_RECORD" "OBJTYPE_RECORD \<noteq> OBJTYPE_UNBOXED_VECTOR"
  "OBJTYPE_UNBOXED_VECTOR \<noteq> OBJTYPE_INTINF" "OBJTYPE_INTINF \<noteq> OBJTYPE_UNBOXED_VECTOR"
  "OBJTYPE_BOXED_VECTOR \<noteq> OBJTYPE_UNBOXED_ARRAY" "OBJTYPE_UNBOXED_ARRAY \<noteq> OBJTYPE_BOXED_VECTOR"
  "OBJTYPE_BOXED_VECTOR \<noteq> OBJTYPE_BOXED_ARRAY" "OBJTYPE_BOXED_ARRAY \<noteq> OBJTYPE_BOXED_VECTOR"
  "OBJTYPE_BOXED_VECTOR \<noteq> OBJTYPE_RECORD" "OBJTYPE_RECORD \<noteq> OBJTYPE_BOXED_VECTOR"
  "OBJTYPE_BOXED_VECTOR \<noteq> OBJTYPE_INTINF" "OBJTYPE_INTINF \<noteq> OBJTYPE_BOXED_VECTOR"
  "OBJTYPE_UNBOXED_ARRAY \<noteq> OBJTYPE_BOXED_ARRAY" "OBJTYPE_BOXED_ARRAY \<noteq> OBJTYPE_UNBOXED_ARRAY"
  "OBJTYPE_UNBOXED_ARRAY \<noteq> OBJTYPE_RECORD" "OBJTYPE_RECORD \<noteq> OBJTYPE_UNBOXED_ARRAY"
  "OBJTYPE_UNBOXED_ARRAY \<noteq> OBJTYPE_INTINF" "OBJTYPE_INTINF \<noteq> OBJTYPE_UNBOXED_ARRAY"
  "OBJTYPE_BOXED_ARRAY \<noteq> OBJTYPE_RECORD" "OBJTYPE_RECORD \<noteq> OBJTYPE_BOXED_ARRAY"
  "OBJTYPE_BOXED_ARRAY \<noteq> OBJTYPE_INTINF" "OBJTYPE_INTINF \<noteq> OBJTYPE_BOXED_ARRAY"
  "OBJTYPE_RECORD \<noteq> OBJTYPE_INTINF" "OBJTYPE_INTINF \<noteq> OBJTYPE_RECORD"
  by (simp_all add: objtype_defs)

lemma field_index: "8 * i + 8 \<le> (sz :: nat) \<longleftrightarrow> i < sz div 8"
  by (simp add: less_eq_div_iff_mult_less_eq Suc_le_eq [symmetric] mult.commute add.commute)

lemma enum_slots_valid:
  assumes "valid_objtype (OBJ_TYPE m obj)"
  shows "enum_slots m obj
    = Inr (map (\<lambda>i. obj + 8 * i) (filter (pointer_field m obj) [0..<OBJ_SIZE m obj div 8]))"
proof -
  have rcd: "filter (\<lambda>i. BITMAP_BIT m (OBJ_BITMAP m obj) i \<noteq> 0) [0..<OBJ_SIZE m obj div 8]
      = filter (pointer_field m obj) [0..<OBJ_SIZE m obj div 8]"
    if "OBJ_TYPE m obj = OBJTYPE_RECORD"
    using that
    by (intro filter_cong) (auto simp: pointer_field_def field_index bitmap_bit_iff OBJ_BITMAP_def)
  have all: "filter (pointer_field m obj) [0..<OBJ_SIZE m obj div 8] = [0..<OBJ_SIZE m obj div 8]"
    if "OBJ_TYPE m obj = OBJTYPE_BOXED_ARRAY \<or> OBJ_TYPE m obj = OBJTYPE_BOXED_VECTOR"
    using that by (intro filter_True) (auto simp: pointer_field_def field_index)
  have none: "filter (pointer_field m obj) [0..<OBJ_SIZE m obj div 8] = []"
    if "OBJ_TYPE m obj \<in> {OBJTYPE_UNBOXED_ARRAY, OBJTYPE_UNBOXED_VECTOR, OBJTYPE_INTINF}"
    using that by (intro filter_False) (auto simp: pointer_field_def)
  show ?thesis
    using assms rcd all none by (auto simp: enum_slots_def valid_objtype_def Let_def)
qed

lemma enum_slots_invalid:
  "\<not> valid_objtype (OBJ_TYPE m obj) \<Longrightarrow> enum_slots m obj = Inl (Fatal ''BUG: invalid object type'')"
  by (auto simp: enum_slots_def valid_objtype_def Let_def)

lemma enum_slots_set:
  "enum_slots m obj = Inr slots \<Longrightarrow> set slots = {obj + 8 * i | i. pointer_field m obj i}"
  by (cases "valid_objtype (OBJ_TYPE m obj)")
    (auto simp: enum_slots_valid enum_slots_invalid pointer_field_def field_index)

section \<open>Structural equality\<close>

lemma all_fields_cong:
  "(\<And>i. i \<in> set is \<Longrightarrow> f i = g i) \<Longrightarrow> all_fields f is = all_fields g is"
  by (induction "is") (auto split: option.splits sum.splits bool.splits)

lemma all_fields_total:
  "(\<And>i. i \<in> set is \<Longrightarrow> \<exists>b. f i = Some (Inr b)) \<Longrightarrow> \<exists>b. all_fields f is = Some (Inr b)"
proof (induction "is")
  case (Cons i "is")
  from Cons.prems [of i] obtain b where "f i = Some (Inr b)" by auto
  with Cons.IH Cons.prems show ?case by (cases b) auto
qed auto

lemma bitmaps_equal_bit:
  assumes "list_all (\<lambda>i. load32 m (b1 + 4 * i) = load32 m (b2 + 4 * i)) [0..<OBJ_BITMAPS_LEN sz]"
    and "i < sz div 8"
  shows "BITMAP_BIT m b1 i = BITMAP_BIT m b2 i"
  using assms bitmaps_cover [OF assms(2)] by (simp add: BITMAP_BIT_def list_all_iff)

lemma equal_types_commute:
  "OBJ_TYPE m a \<noteq> OBJ_TYPE m b \<Longrightarrow> equal_types m a b = equal_types m b a"
  by (auto simp: equal_types_def)

lemma equal_contents_commute:
  assumes type: "OBJ_TYPE m a = OBJ_TYPE m b" and sz: "OBJ_SIZE m a = OBJ_SIZE m b"
    and rec: "\<And>p q. rec p q = rec q p" and cmp: "cmp a b = 0 \<longleftrightarrow> cmp b a = 0"
  shows "equal_contents rec cmp m a b = equal_contents rec cmp m b a"
proof -
  have "memcmp_eq m a b n = memcmp_eq m b a n" for n by (auto simp: memcmp_eq_iff)
  moreover have "all_fields (\<lambda>i. rec (load64 m (a + 8 * i)) (load64 m (b + 8 * i))) js
      = all_fields (\<lambda>i. rec (load64 m (b + 8 * i)) (load64 m (a + 8 * i))) js" for js
    by (rule all_fields_cong) (rule rec)
  moreover have "list_all (\<lambda>i. load32 m (OBJ_BITMAP m a + 4 * i) = load32 m (OBJ_BITMAP m b + 4 * i)) js
      = list_all (\<lambda>i. load32 m (OBJ_BITMAP m b + 4 * i) = load32 m (OBJ_BITMAP m a + 4 * i)) js" for js
    by (auto simp: list_all_iff)
  moreover have "all_fields (\<lambda>i. if BITMAP_BIT m (OBJ_BITMAP m a) i = 0
          then Some (Inr (load64 m (a + 8 * i) = load64 m (b + 8 * i)))
          else rec (load64 m (a + 8 * i)) (load64 m (b + 8 * i))) [0..<OBJ_SIZE m b div 8]
      = all_fields (\<lambda>i. if BITMAP_BIT m (OBJ_BITMAP m b) i = 0
          then Some (Inr (load64 m (b + 8 * i) = load64 m (a + 8 * i)))
          else rec (load64 m (b + 8 * i)) (load64 m (a + 8 * i))) [0..<OBJ_SIZE m b div 8]"
    if "list_all (\<lambda>i. load32 m (OBJ_BITMAP m a + 4 * i) = load32 m (OBJ_BITMAP m b + 4 * i))
          [0..<OBJ_BITMAPS_LEN (OBJ_SIZE m b)]"
    using bitmaps_equal_bit [OF that] rec by (intro all_fields_cong) auto
  ultimately show ?thesis
    using assms by (simp add: equal_contents_def OBJ_NUM_BITMAPS_def Let_def)
qed

lemma sml_obj_equal_commute:
  assumes cmp: "\<And>x y. cmp x y = 0 \<longleftrightarrow> cmp y x = (0 :: int)"
  shows "sml_obj_equal cmp m fuel a b = sml_obj_equal cmp m fuel b a"
proof (induction fuel arbitrary: a b)
  case (Suc fuel)
  show ?case
  proof (cases "OBJ_TYPE m a = OBJ_TYPE m b")
    case True
    have "equal_contents (sml_obj_equal cmp m fuel) cmp m a b
        = equal_contents (sml_obj_equal cmp m fuel) cmp m b a" if "OBJ_SIZE m a = OBJ_SIZE m b"
      by (rule equal_contents_commute) (use True that Suc.IH cmp in auto)
    with True show ?thesis by (auto simp: equal_types_def)
  next
    case False
    then show ?thesis using equal_types_commute [OF False] by auto
  qed
qed simp


text \<open>
  A heap of comparable objects \<open>D\<close> as the compiler lays them out: valid headers, fields of
  whole words, bitmap words without bits behind the last field (closures, which have no
  equality, carry one), and pointer fields of vectors and records that are null or point to
  objects of \<open>D\<close>.
\<close>

definition wf_object :: "mem \<Rightarrow> addr \<Rightarrow> bool" where
  "wf_object m a \<longleftrightarrow>
     a \<noteq> NULL \<and> valid_objtype (OBJ_TYPE m a) \<and>
     (OBJ_TYPE m a \<in> {OBJTYPE_BOXED_VECTOR, OBJTYPE_RECORD} \<longrightarrow> 8 dvd OBJ_SIZE m a) \<and>
     (OBJ_TYPE m a = OBJTYPE_RECORD \<longrightarrow>
        (\<forall>i<32 * OBJ_NUM_BITMAPS m a. OBJ_SIZE m a div 8 \<le> i \<longrightarrow>
           \<not> bit (load32 m (OBJ_BITMAP m a + 4 * (i div 32))) (i mod 32)))"

definition wf_heap :: "mem \<Rightarrow> addr set \<Rightarrow> bool" where
  "wf_heap m D \<longleftrightarrow>
     (\<forall>a\<in>D. wf_object m a \<and>
        (OBJ_TYPE m a \<noteq> OBJTYPE_BOXED_ARRAY \<longrightarrow>
          (\<forall>i. pointer_field m a i \<longrightarrow> load64 m (a + 8 * i) \<in> insert NULL D)))"

text \<open>
  Equality of values: equal pointers, equal big integers, or immutable objects with the same
  fields, where a record and a vector of the same contents are the same value.  Arrays are
  equal only to themselves.
\<close>

inductive value_equal :: "(addr \<Rightarrow> addr \<Rightarrow> int) \<Rightarrow> mem \<Rightarrow> addr \<Rightarrow> addr \<Rightarrow> bool"
  for cmp :: "addr \<Rightarrow> addr \<Rightarrow> int" and m :: mem where
  same: "value_equal cmp m a a"
| intinf:
    "\<lbrakk>a \<noteq> NULL; b \<noteq> NULL; OBJ_TYPE m a = OBJTYPE_INTINF; OBJ_TYPE m b = OBJTYPE_INTINF;
      OBJ_SIZE m a = OBJ_SIZE m b; cmp a b = 0\<rbrakk> \<Longrightarrow> value_equal cmp m a b"
| fields:
    "\<lbrakk>a \<noteq> NULL; b \<noteq> NULL; OBJ_SIZE m a = OBJ_SIZE m b;
      OBJ_TYPE m a \<in> {OBJTYPE_UNBOXED_VECTOR, OBJTYPE_BOXED_VECTOR, OBJTYPE_RECORD};
      OBJ_TYPE m b \<in> {OBJTYPE_UNBOXED_VECTOR, OBJTYPE_BOXED_VECTOR, OBJTYPE_RECORD};
      OBJ_TYPE m a = OBJ_TYPE m b \<or> OBJ_TYPE m a = OBJTYPE_RECORD \<or> OBJ_TYPE m b = OBJTYPE_RECORD;
      \<And>i. pointer_field m a i = pointer_field m b i;
      \<And>j. j < OBJ_SIZE m a \<Longrightarrow> \<not> pointer_field m a (j div 8) \<Longrightarrow> m (a + j) = m (b + j);
      \<And>i. pointer_field m a i \<Longrightarrow> value_equal cmp m (load64 m (a + 8 * i)) (load64 m (b + 8 * i))\<rbrakk>
     \<Longrightarrow> value_equal cmp m a b"

lemma all_fields_true_iff:
  "all_fields f is = Some (Inr True) \<longleftrightarrow> (\<forall>i\<in>set is. f i = Some (Inr True))"
  by (induction "is") (auto split: option.splits sum.splits bool.splits)

lemma wf_heapD:
  "wf_heap m D \<Longrightarrow> a \<in> D \<Longrightarrow> wf_object m a"
  "wf_heap m D \<Longrightarrow> a \<in> D \<Longrightarrow> pointer_field m a i \<Longrightarrow> OBJ_TYPE m a \<noteq> OBJTYPE_BOXED_ARRAY \<Longrightarrow> load64 m (a + 8 * i) \<in> insert NULL D"
  by (auto simp: wf_heap_def)

lemma wf_object_type: "wf_object m a \<Longrightarrow> valid_objtype (OBJ_TYPE m a)"
  by (simp add: wf_object_def)

text \<open>The words of the payload that are no pointers, byte by byte.\<close>

lemma load64_eq_bytes: "load64 m a = load64 m b \<longleftrightarrow> (\<forall>i<8. m (a + i) = m (b + i))"
  by (auto intro: load64_cong dest: load64_inj)

lemma plain_words_bytes:
  assumes "8 dvd n"
  shows "(\<forall>i<n div 8. P i \<longrightarrow> load64 m (a + 8 * i) = load64 m (b + 8 * i))
    \<longleftrightarrow> (\<forall>j<n. P (j div 8) \<longrightarrow> m (a + j) = m (b + j))"
proof -
  from assms obtain k where k: "n = 8 * k" by auto
  show ?thesis
  proof (intro iffI allI impI)
    fix j assume w: "\<forall>i<n div 8. P i \<longrightarrow> load64 m (a + 8 * i) = load64 m (b + 8 * i)"
      and j: "j < n" and p: "P (j div 8)"
    have "j div 8 < n div 8" using j k by (simp add: less_mult_imp_div_less)
    with w p have "\<forall>i<8. m (a + 8 * (j div 8) + i) = m (b + 8 * (j div 8) + i)"
      by (auto simp: load64_eq_bytes)
    from this [rule_format, of "j mod 8"] show "m (a + j) = m (b + j)" by (simp add: add.assoc)
  next
    fix i assume w: "\<forall>j<n. P (j div 8) \<longrightarrow> m (a + j) = m (b + j)" and i: "i < n div 8" and p: "P i"
    have "m (a + 8 * i + j) = m (b + 8 * i + j)" if "j < 8" for j
      using w [rule_format, of "8 * i + j"] i p that k by (simp add: add.assoc)
    then show "load64 m (a + 8 * i) = load64 m (b + 8 * i)" by (simp add: load64_eq_bytes)
  qed
qed

lemma record_bitmap_field:
  "OBJ_TYPE m a = OBJTYPE_RECORD \<Longrightarrow> i < OBJ_SIZE m a div 8 \<Longrightarrow>
     BITMAP_BIT m (OBJ_BITMAP m a) i = 0 \<longleftrightarrow> \<not> pointer_field m a i"
  using bitmap_bit_iff [of m "OBJ_BITMAP m a" i]
  by (auto simp: pointer_field_def field_index OBJ_BITMAP_def)

lemma pointer_field_index: "pointer_field m a i \<Longrightarrow> i < OBJ_SIZE m a div 8"
  by (simp add: pointer_field_def field_index)

text \<open>Two records of one size have equal bitmaps exactly when they have the same pointer fields.\<close>

lemma record_bitmaps_equal:
  assumes a: "wf_object m a" "OBJ_TYPE m a = OBJTYPE_RECORD"
    and b: "wf_object m b" "OBJ_TYPE m b = OBJTYPE_RECORD" and sz: "OBJ_SIZE m a = OBJ_SIZE m b"
  shows "(\<forall>i<OBJ_NUM_BITMAPS m a.
            load32 m (OBJ_BITMAP m a + 4 * i) = load32 m (OBJ_BITMAP m b + 4 * i))
    \<longleftrightarrow> (\<forall>i. pointer_field m a i = pointer_field m b i)"
proof
  assume L: "\<forall>i<OBJ_NUM_BITMAPS m a.
            load32 m (OBJ_BITMAP m a + 4 * i) = load32 m (OBJ_BITMAP m b + 4 * i)"
  show "\<forall>i. pointer_field m a i = pointer_field m b i"
  proof
    fix i
    have "load32 m (OBJ_BITMAP m a + 4 * (i div 32)) = load32 m (OBJ_BITMAP m b + 4 * (i div 32))"
      if "i < OBJ_SIZE m b div 8"
      using L bitmaps_cover [OF that] sz by (simp add: OBJ_NUM_BITMAPS_def)
    then show "pointer_field m a i = pointer_field m b i"
      using a b sz by (auto simp: pointer_field_def field_index OBJ_BITMAP_def)
  qed
next
  assume R: "\<forall>i. pointer_field m a i = pointer_field m b i"
  show "\<forall>i<OBJ_NUM_BITMAPS m a.
            load32 m (OBJ_BITMAP m a + 4 * i) = load32 m (OBJ_BITMAP m b + 4 * i)"
  proof (intro allI impI)
    fix i assume i: "i < OBJ_NUM_BITMAPS m a"
    show "load32 m (OBJ_BITMAP m a + 4 * i) = load32 m (OBJ_BITMAP m b + 4 * i)"
    proof (rule bit_word_eqI)
      fix k :: nat assume k: "k < LENGTH(32)"
      let ?j = "32 * i + k"
      have j: "?j div 32 = i" "?j mod 32 = k" and lt: "?j < 32 * OBJ_NUM_BITMAPS m a"
        using k i by auto
      show "bit (load32 m (OBJ_BITMAP m a + 4 * i)) k = bit (load32 m (OBJ_BITMAP m b + 4 * i)) k"
      proof (cases "?j < OBJ_SIZE m a div 8")
        case True
        with R [rule_format, of ?j] a b sz show ?thesis
          unfolding pointer_field_def field_index OBJ_BITMAP_def j by simp
      next
        case False
        have "\<not> bit (load32 m (OBJ_BITMAP m c + 4 * i)) k"
          if "wf_object m c" "OBJ_TYPE m c = OBJTYPE_RECORD" "OBJ_SIZE m c = OBJ_SIZE m a" for c
          using that False lt unfolding wf_object_def OBJ_NUM_BITMAPS_def by (metis j not_le)
        with a b sz show ?thesis by simp
      qed
    qed
  qed
qed


definition same_fields :: "mem \<Rightarrow> addr \<Rightarrow> addr \<Rightarrow> bool" where
  "same_fields m a b \<longleftrightarrow>
     OBJ_SIZE m a = OBJ_SIZE m b \<and>
     OBJ_TYPE m a \<in> {OBJTYPE_UNBOXED_VECTOR, OBJTYPE_BOXED_VECTOR, OBJTYPE_RECORD} \<and>
     OBJ_TYPE m b \<in> {OBJTYPE_UNBOXED_VECTOR, OBJTYPE_BOXED_VECTOR, OBJTYPE_RECORD} \<and>
     (OBJ_TYPE m a = OBJ_TYPE m b \<or> OBJ_TYPE m a = OBJTYPE_RECORD \<or> OBJ_TYPE m b = OBJTYPE_RECORD) \<and>
     (\<forall>i. pointer_field m a i = pointer_field m b i) \<and>
     (\<forall>j<OBJ_SIZE m a. \<not> pointer_field m a (j div 8) \<longrightarrow> m (a + j) = m (b + j))"

lemma same_fields_commute: "same_fields m a b = same_fields m b a"
  by (auto simp: same_fields_def)

lemma pointer_field_vector:
  "OBJ_TYPE m a = OBJTYPE_UNBOXED_VECTOR \<Longrightarrow> \<not> pointer_field m a i"
  "OBJ_TYPE m a = OBJTYPE_BOXED_VECTOR \<Longrightarrow> pointer_field m a i \<longleftrightarrow> i < OBJ_SIZE m a div 8"
  by (auto simp: pointer_field_def field_index)

lemma index_in_words: "8 dvd n \<Longrightarrow> j < n \<Longrightarrow> j div 8 < (n :: nat) div 8"
  by (auto simp: less_mult_imp_div_less mult.commute)

lemma contents_record:
  assumes "wf_object m a" "wf_object m b" and sz: "OBJ_SIZE m a = OBJ_SIZE m b"
    and ty: "OBJ_TYPE m a = OBJTYPE_RECORD" "OBJ_TYPE m b = OBJTYPE_RECORD"
  shows "equal_contents rec cmp m a b = Some (Inr True)
    \<longleftrightarrow> same_fields m a b \<and>
        (\<forall>i. pointer_field m a i \<longrightarrow>
             rec (load64 m (a + 8 * i)) (load64 m (b + 8 * i)) = Some (Inr True))"
proof -
  have d: "8 dvd OBJ_SIZE m a" using assms(1) ty by (simp add: wf_object_def)
  note bm = record_bitmaps_equal [OF assms(1) ty(1) assms(2) ty(2) sz]
  show ?thesis
    using ty sz bm plain_words_bytes [OF d, of "\<lambda>i. \<not> pointer_field m a i" m a b]
    by (auto simp: equal_contents_def Let_def list_all_iff all_fields_true_iff same_fields_def
          record_bitmap_field atLeast0LessThan pointer_field_index)
qed

lemma contents_vector:
  assumes "wf_object m a" and sz: "OBJ_SIZE m a = OBJ_SIZE m b"
    and ty: "OBJ_TYPE m a \<in> {OBJTYPE_UNBOXED_VECTOR, OBJTYPE_BOXED_VECTOR}"
      "OBJ_TYPE m b = OBJ_TYPE m a \<or> OBJ_TYPE m b = OBJTYPE_RECORD"
    and pf: "\<And>i. pointer_field m a i = pointer_field m b i"
  shows "equal_contents rec cmp m a b = Some (Inr True)
    \<longleftrightarrow> same_fields m a b \<and>
        (\<forall>i. pointer_field m a i \<longrightarrow>
             rec (load64 m (a + 8 * i)) (load64 m (b + 8 * i)) = Some (Inr True))"
proof -
  have d: "8 dvd OBJ_SIZE m a" if "OBJ_TYPE m a = OBJTYPE_BOXED_VECTOR"
    using assms(1) that by (simp add: wf_object_def)
  consider "OBJ_TYPE m a = OBJTYPE_UNBOXED_VECTOR" | "OBJ_TYPE m a = OBJTYPE_BOXED_VECTOR"
    using ty(1) by auto
  then show ?thesis
  proof cases
    case 1
    then show ?thesis using pf sz ty(2)
      by (auto simp: equal_contents_def Let_def memcmp_eq_iff same_fields_def pointer_field_vector)
  next
    case 2
    then show ?thesis using pf sz ty(2) index_in_words [OF d [OF 2]]
      by (auto simp: equal_contents_def Let_def all_fields_true_iff same_fields_def
            pointer_field_vector atLeast0LessThan)
  qed
qed

lemma uniform_record:
  assumes "OBJ_TYPE m b = OBJTYPE_RECORD" and "OBJ_SIZE m a = OBJ_SIZE m b"
    and "OBJ_TYPE m a = OBJTYPE_UNBOXED_VECTOR \<and> tag = 0 \<or>
         OBJ_TYPE m a = OBJTYPE_BOXED_VECTOR \<and> tag = 1"
  shows "list_all (\<lambda>i. BITMAP_BIT m (OBJ_BITMAP m b) i = tag) [0..<OBJ_SIZE m b div 8]
    \<longleftrightarrow> (\<forall>i. pointer_field m a i = pointer_field m b i)"
proof -
  let ?n = "OBJ_SIZE m b div 8"
  have zero: "BITMAP_BIT m (OBJ_BITMAP m b) i = 0 \<longleftrightarrow> \<not> pointer_field m b i" if "i < ?n" for i
    using record_bitmap_field [OF assms(1) that] .
  then have one: "BITMAP_BIT m (OBJ_BITMAP m b) i = 1 \<longleftrightarrow> pointer_field m b i" if "i < ?n" for i
    using bitmap_bit_cases [of m "OBJ_BITMAP m b" i] that by fastforce
  have below: "pointer_field m b i \<Longrightarrow> i < ?n" for i by (rule pointer_field_index)
  from assms(3) show ?thesis
  proof (elim disjE conjE)
    assume "OBJ_TYPE m a = OBJTYPE_UNBOXED_VECTOR" "tag = 0"
    then show ?thesis using zero below by (auto simp: list_all_iff pointer_field_vector)
  next
    assume "OBJ_TYPE m a = OBJTYPE_BOXED_VECTOR" "tag = 1"
    then show ?thesis using one below assms(2) by (auto simp: list_all_iff pointer_field_vector)
  qed
qed

text \<open>One level of \<open>sml_obj_equal\<close> on two objects.\<close>

lemma obj_equal_step_vector:
  assumes wf: "wf_object m a" "wf_object m b" and ne: "a \<noteq> b"
    and ty: "OBJ_TYPE m a \<in> {OBJTYPE_UNBOXED_VECTOR, OBJTYPE_BOXED_VECTOR}"
      "OBJ_TYPE m b = OBJTYPE_RECORD"
  shows "sml_obj_equal cmp m (Suc fuel) a b = Some (Inr True)
    \<longleftrightarrow> same_fields m a b \<and>
        (\<forall>i. pointer_field m a i \<longrightarrow>
             sml_obj_equal cmp m fuel (load64 m (a + 8 * i)) (load64 m (b + 8 * i)) = Some (Inr True))"
proof (cases "OBJ_SIZE m a = OBJ_SIZE m b \<and> (\<forall>i. pointer_field m a i = pointer_field m b i)")
  case True
  then have "equal_types m a b = Some (a, b)"
    using ty uniform_record [of m b a 0] uniform_record [of m b a 1] by (auto simp: equal_types_def)
  then show ?thesis
    using True ne wf contents_vector [OF wf(1), of b "sml_obj_equal cmp m fuel" cmp] ty
    by (simp add: wf_object_def)
next
  case False
  then have "OBJ_SIZE m a \<noteq> OBJ_SIZE m b \<or> equal_types m a b = None"
    using ty uniform_record [of m b a 0] uniform_record [of m b a 1] by (auto simp: equal_types_def)
  then show ?thesis using False ne wf by (auto simp: wf_object_def same_fields_def)
qed

lemma obj_equal_step:
  assumes wf: "wf_object m a" "wf_object m b" and ne: "a \<noteq> b"
    and cmp: "\<And>x y. cmp x y = 0 \<longleftrightarrow> cmp y x = (0 :: int)"
  shows "sml_obj_equal cmp m (Suc fuel) a b = Some (Inr True)
    \<longleftrightarrow> OBJ_TYPE m a = OBJTYPE_INTINF \<and> OBJ_TYPE m b = OBJTYPE_INTINF \<and>
          OBJ_SIZE m a = OBJ_SIZE m b \<and> cmp a b = 0 \<or>
        same_fields m a b \<and>
          (\<forall>i. pointer_field m a i \<longrightarrow>
             sml_obj_equal cmp m fuel (load64 m (a + 8 * i)) (load64 m (b + 8 * i)) = Some (Inr True))"
    (is "?L \<longleftrightarrow> ?I \<or> ?F a b")
proof -
  have nn: "a \<noteq> 0" "b \<noteq> 0" using wf by (auto simp: wf_object_def)
  consider (mixed) "OBJ_TYPE m a \<in> {OBJTYPE_UNBOXED_VECTOR, OBJTYPE_BOXED_VECTOR}"
      "OBJ_TYPE m b = OBJTYPE_RECORD"
    | (mixed') "OBJ_TYPE m b \<in> {OBJTYPE_UNBOXED_VECTOR, OBJTYPE_BOXED_VECTOR}"
      "OBJ_TYPE m a = OBJTYPE_RECORD"
    | (eq) "OBJ_TYPE m a = OBJ_TYPE m b"
    | (other) "OBJ_TYPE m a \<noteq> OBJ_TYPE m b"
      "OBJ_TYPE m b = OBJTYPE_RECORD \<longrightarrow> OBJ_TYPE m a \<notin> {OBJTYPE_UNBOXED_VECTOR, OBJTYPE_BOXED_VECTOR}"
      "OBJ_TYPE m a = OBJTYPE_RECORD \<longrightarrow> OBJ_TYPE m b \<notin> {OBJTYPE_UNBOXED_VECTOR, OBJTYPE_BOXED_VECTOR}"
    by blast
  then show ?thesis
  proof cases
    case mixed
    then show ?thesis using obj_equal_step_vector [OF wf ne mixed, of cmp fuel] by auto
  next
    case mixed'
    have "?L \<longleftrightarrow> ?F b a"
      using obj_equal_step_vector [OF wf(2,1) ne [symmetric] mixed', of cmp fuel]
      by (simp only: sml_obj_equal_commute [of cmp, OF cmp, of m "Suc fuel" a b])
    also have "\<dots> \<longleftrightarrow> ?F a b"
      by (subst sml_obj_equal_commute [of cmp, OF cmp, of m fuel]) (auto simp: same_fields_def)
    finally show ?thesis using mixed' by auto
  next
    case eq
    have cases: "OBJ_TYPE m b \<in> {OBJTYPE_UNBOXED_ARRAY, OBJTYPE_BOXED_ARRAY} \<or>
        OBJ_TYPE m b = OBJTYPE_INTINF \<or> OBJ_TYPE m b = OBJTYPE_RECORD \<or>
        OBJ_TYPE m b \<in> {OBJTYPE_UNBOXED_VECTOR, OBJTYPE_BOXED_VECTOR}"
      using wf_object_type [OF wf(2)] by (auto simp: valid_objtype_def)
    have L: "?L \<longleftrightarrow> OBJ_SIZE m a = OBJ_SIZE m b \<and>
        equal_contents (sml_obj_equal cmp m fuel) cmp m a b = Some (Inr True)"
      using eq ne nn by (simp add: equal_types_def)
    have pf: "pointer_field m a i = pointer_field m b i"
      if "OBJ_TYPE m b \<in> {OBJTYPE_UNBOXED_VECTOR, OBJTYPE_BOXED_VECTOR}"
        "OBJ_SIZE m a = OBJ_SIZE m b" for i
      using that eq by (auto simp: pointer_field_vector)
    have nosize: "?F a b \<Longrightarrow> OBJ_SIZE m a = OBJ_SIZE m b" by (simp add: same_fields_def)
    from cases show ?thesis
    proof (elim disjE)
      assume "OBJ_TYPE m b \<in> {OBJTYPE_UNBOXED_ARRAY, OBJTYPE_BOXED_ARRAY}"
      then show ?thesis unfolding L using eq by (auto simp: equal_contents_def same_fields_def)
    next
      assume "OBJ_TYPE m b = OBJTYPE_INTINF"
      then show ?thesis unfolding L using eq by (auto simp: equal_contents_def same_fields_def)
    next
      assume r: "OBJ_TYPE m b = OBJTYPE_RECORD"
      then show ?thesis
        unfolding L using eq contents_record [OF wf, of "sml_obj_equal cmp m fuel" cmp] nosize by auto
    next
      assume v: "OBJ_TYPE m b \<in> {OBJTYPE_UNBOXED_VECTOR, OBJTYPE_BOXED_VECTOR}"
      have "\<not> ?I" using v by auto
      moreover have "?L \<longleftrightarrow> ?F a b" if "OBJ_SIZE m a = OBJ_SIZE m b"
        unfolding L using that v eq pf [OF v that]
        by (subst contents_vector [OF wf(1)]) auto
      ultimately show ?thesis using L nosize by blast
    qed
  next
    case other
    then have "equal_types m a b = None" "\<not> same_fields m a b"
      by (auto simp: equal_types_def same_fields_def)
    then show ?thesis using other(1) ne nn by auto
  qed
qed


text \<open>More fuel never changes an answer.\<close>

lemma all_fields_mono:
  assumes "all_fields f is = Some r" and "\<And>i r. f i = Some r \<Longrightarrow> g i = Some r"
  shows "all_fields g is = Some r"
  using assms(1)
proof (induction "is")
  case (Cons i "is")
  then show ?case using assms(2) [of i]
    by (cases "f i") (auto split: sum.splits bool.splits)
qed simp

lemma equal_contents_mono:
  assumes "equal_contents f cmp m a b = Some r" and "\<And>p q r. f p q = Some r \<Longrightarrow> g p q = Some r"
  shows "equal_contents g cmp m a b = Some r"
proof -
  let ?P = "\<lambda>h i. h (load64 m (a + 8 * i)) (load64 m (b + 8 * i))"
  have "all_fields (?P f) js = Some r \<Longrightarrow> all_fields (?P g) js = Some r" for js
    by (erule all_fields_mono) (rule assms(2))
  moreover have "all_fields (\<lambda>i. if BITMAP_BIT m (OBJ_BITMAP m a) i = 0
        then Some (Inr (load64 m (a + 8 * i) = load64 m (b + 8 * i))) else ?P f i) js = Some r \<Longrightarrow>
      all_fields (\<lambda>i. if BITMAP_BIT m (OBJ_BITMAP m a) i = 0
        then Some (Inr (load64 m (a + 8 * i) = load64 m (b + 8 * i))) else ?P g i) js = Some r" for js
    by (erule all_fields_mono) (use assms(2) in \<open>auto split: if_splits\<close>)
  ultimately show ?thesis
    using assms(1) unfolding equal_contents_def Let_def by (auto split: if_split_asm)
qed

lemma obj_equal_mono:
  "sml_obj_equal cmp m fuel a b = Some r \<Longrightarrow> fuel \<le> fuel' \<Longrightarrow>
     sml_obj_equal cmp m fuel' a b = Some r"
proof (induction fuel arbitrary: fuel' a b r)
  case (Suc fuel)
  then obtain k where k: "fuel' = Suc k" "fuel \<le> k" by (cases fuel') auto
  have step: "equal_contents (sml_obj_equal cmp m fuel) cmp m p q = Some r \<Longrightarrow>
      equal_contents (sml_obj_equal cmp m k) cmp m p q = Some r" for p q
    by (erule equal_contents_mono) (rule Suc.IH [OF _ k(2)])
  show ?case
    using Suc.prems(1) step unfolding k(1)
    by (auto split: if_splits option.splits)
qed simp

lemma obj_equal_sound:
  assumes cmp: "\<And>x y. cmp x y = 0 \<longleftrightarrow> cmp y x = (0 :: int)" and heap: "wf_heap m D"
  shows "a \<in> insert NULL D \<Longrightarrow> b \<in> insert NULL D \<Longrightarrow>
    sml_obj_equal cmp m fuel a b = Some (Inr True) \<Longrightarrow> value_equal cmp m a b"
proof (induction fuel arbitrary: a b)
  case (Suc fuel)
  show ?case
  proof (cases "a = b \<or> a = NULL \<or> b = NULL")
    case True
    then show ?thesis using Suc.prems(3) by (auto intro: value_equal.same split: if_splits)
  next
    case False
    with Suc.prems have D: "a \<in> D" "b \<in> D" "a \<noteq> b" "a \<noteq> NULL" "b \<noteq> NULL" by auto
    note step = obj_equal_step [OF wf_heapD(1) [OF heap D(1)] wf_heapD(1) [OF heap D(2)] D(3),
        where cmp = cmp, OF cmp, of fuel]
    have "value_equal cmp m (load64 m (a + 8 * i)) (load64 m (b + 8 * i))"
      if "same_fields m a b" "pointer_field m a i"
        "sml_obj_equal cmp m fuel (load64 m (a + 8 * i)) (load64 m (b + 8 * i)) = Some (Inr True)" for i
      using that by (intro Suc.IH wf_heapD(2) [OF heap D(1)] wf_heapD(2) [OF heap D(2)])
        (auto simp: same_fields_def)
    then show ?thesis
      using Suc.prems(3) D(4,5) unfolding step
      by (auto simp: same_fields_def intro: value_equal.intinf value_equal.fields)
  qed
qed simp


lemma obj_equal_complete:
  assumes cmp: "\<And>x y. cmp x y = 0 \<longleftrightarrow> cmp y x = (0 :: int)" and heap: "wf_heap m D"
  shows "value_equal cmp m a b \<Longrightarrow> a \<in> insert NULL D \<Longrightarrow> b \<in> insert NULL D \<Longrightarrow>
    \<exists>fuel. sml_obj_equal cmp m fuel a b = Some (Inr True)"
proof (induction rule: value_equal.induct)
  case (same a)
  have "sml_obj_equal cmp m (Suc 0) a a = Some (Inr True)" by simp
  then show ?case by blast
next
  case (intinf a b)
  then have D: "a \<in> D" "b \<in> D" by auto
  have "sml_obj_equal cmp m (Suc 0) a b = Some (Inr True)"
  proof (cases "a = b")
    case False
    show ?thesis
      by (subst obj_equal_step [OF wf_heapD(1) [OF heap D(1)] wf_heapD(1) [OF heap D(2)] False,
            where cmp = cmp, OF cmp]) (use intinf in simp)
  qed simp
  then show ?case by blast
next
  case (fields a b)
  then have D: "a \<in> D" "b \<in> D" by auto
  have sf: "same_fields m a b" using fields by (auto simp: same_fields_def)
  let ?n = "OBJ_SIZE m a div 8"
  let ?E = "\<lambda>f i. sml_obj_equal cmp m f (load64 m (a + 8 * i)) (load64 m (b + 8 * i)) = Some (Inr True)"
  have ex: "\<exists>f. pointer_field m a i \<longrightarrow> ?E f i" for i
  proof (cases "pointer_field m a i")
    case True
    then have "pointer_field m b i" using fields(7) by simp
    with True have "\<exists>f. ?E f i"
      using fields.IH [OF True] wf_heapD(2) [OF heap D(1) True] wf_heapD(2) [OF heap D(2)]
        fields(4,5) by fastforce
    then show ?thesis by blast
  qed simp
  then obtain F where F: "\<And>i. pointer_field m a i \<Longrightarrow> ?E (F i) i" by metis
  define N where "N = Max (F ` {..<?n} \<union> {0})"
  have "F i \<le> N" if "pointer_field m a i" for i
    unfolding N_def using pointer_field_index [OF that] by (intro Max_ge) auto
  then have "?E N i" if "pointer_field m a i" for i
    using obj_equal_mono [OF F [OF that]] that by blast
  then have "sml_obj_equal cmp m (Suc N) a b = Some (Inr True)" if "a \<noteq> b"
    by (subst obj_equal_step [OF wf_heapD(1) [OF heap D(1)] wf_heapD(1) [OF heap D(2)] that,
          where cmp = cmp, OF cmp]) (use sf in simp)
  moreover have "sml_obj_equal cmp m (Suc N) a b = Some (Inr True)" if "a = b" using that by simp
  ultimately show ?case by blast
qed

text \<open>
  Termination: the recursion follows pointers out of vectors and records only, so a rank that
  decreases along those pointers bounds its depth.  Cycles through arrays do no harm.
\<close>

definition ranked :: "mem \<Rightarrow> addr set \<Rightarrow> (addr \<Rightarrow> nat) \<Rightarrow> bool" where
  "ranked m D rk \<longleftrightarrow>
     (\<forall>a\<in>D. OBJ_TYPE m a \<in> {OBJTYPE_BOXED_VECTOR, OBJTYPE_RECORD} \<longrightarrow>
        (\<forall>i. pointer_field m a i \<longrightarrow>
           load64 m (a + 8 * i) = NULL \<or> rk (load64 m (a + 8 * i)) < rk a))"

lemma equal_types_cases:
  assumes "equal_types m a b = Some (x, y)" and "OBJ_SIZE m a = OBJ_SIZE m b"
  shows "(x = a \<and> y = b \<or> x = b \<and> y = a) \<and> OBJ_SIZE m x = OBJ_SIZE m y \<and>
    (OBJ_TYPE m x = OBJ_TYPE m y \<or> OBJ_TYPE m y = OBJTYPE_RECORD \<and>
     OBJ_TYPE m x \<in> {OBJTYPE_UNBOXED_VECTOR, OBJTYPE_BOXED_VECTOR} \<and>
     (\<forall>i. pointer_field m x i = pointer_field m y i))"
proof -
  have "\<forall>i. pointer_field m p i = pointer_field m q i"
    if "OBJ_TYPE m q = OBJTYPE_RECORD" "OBJ_SIZE m p = OBJ_SIZE m q"
      "list_all (\<lambda>i. BITMAP_BIT m (OBJ_BITMAP m q) i = tag) [0..<OBJ_SIZE m q div 8]"
      "OBJ_TYPE m p = OBJTYPE_UNBOXED_VECTOR \<and> tag = 0 \<or> OBJ_TYPE m p = OBJTYPE_BOXED_VECTOR \<and> tag = 1"
    for p q tag
    using uniform_record [OF that(1,2,4)] that(3) by blast
  then show ?thesis
    using assms by (auto simp: equal_types_def Let_def split: if_splits)
qed

lemma equal_contents_total:
  assumes "valid_objtype (OBJ_TYPE m x)" and sz: "OBJ_SIZE m x = OBJ_SIZE m y"
    and ty: "OBJ_TYPE m x = OBJ_TYPE m y \<or> OBJ_TYPE m y = OBJTYPE_RECORD \<and>
      OBJ_TYPE m x \<in> {OBJTYPE_UNBOXED_VECTOR, OBJTYPE_BOXED_VECTOR} \<and>
      (\<forall>i. pointer_field m x i = pointer_field m y i)"
    and rec: "\<And>i. pointer_field m x i \<Longrightarrow> pointer_field m y i \<Longrightarrow>
      OBJ_TYPE m x \<in> {OBJTYPE_BOXED_VECTOR, OBJTYPE_RECORD} \<Longrightarrow>
      OBJ_TYPE m y \<in> {OBJTYPE_BOXED_VECTOR, OBJTYPE_RECORD} \<Longrightarrow>
      \<exists>b. rec (load64 m (x + 8 * i)) (load64 m (y + 8 * i)) = Some (Inr b)"
  shows "\<exists>b. equal_contents rec cmp m x y = Some (Inr b)"
proof -
  let ?same = "list_all (\<lambda>i. load32 m (OBJ_BITMAP m x + 4 * i) = load32 m (OBJ_BITMAP m y + 4 * i))
      [0..<OBJ_NUM_BITMAPS m x]"
  have rcd: "\<exists>b. (if BITMAP_BIT m (OBJ_BITMAP m x) i = 0
        then Some (Inr (load64 m (x + 8 * i) = load64 m (y + 8 * i)))
        else rec (load64 m (x + 8 * i)) (load64 m (y + 8 * i))) = Some (Inr b)"
    if "OBJ_TYPE m x = OBJTYPE_RECORD" "i < OBJ_SIZE m x div 8" ?same for i
  proof -
    have "OBJ_TYPE m y = OBJTYPE_RECORD" using that ty by auto
    then show ?thesis
      using rec [of i] record_bitmap_field [OF that(1,2)] record_bitmap_field [of m y i] that sz
        bitmaps_equal_bit [of m "OBJ_BITMAP m x" "OBJ_BITMAP m y" "OBJ_SIZE m x" i]
      by (auto simp: OBJ_NUM_BITMAPS_def)
  qed
  have vec: "\<exists>b. rec (load64 m (x + 8 * i)) (load64 m (y + 8 * i)) = Some (Inr b)"
    if "OBJ_TYPE m x = OBJTYPE_BOXED_VECTOR" "i < OBJ_SIZE m x div 8" for i
    using rec [of i] that ty sz by (auto simp: pointer_field_vector)
  have "\<exists>b. all_fields (\<lambda>i. rec (load64 m (x + 8 * i)) (load64 m (y + 8 * i)))
      [0..<OBJ_SIZE m x div 8] = Some (Inr b)" if "OBJ_TYPE m x = OBJTYPE_BOXED_VECTOR"
    by (rule all_fields_total) (use vec that in simp)
  moreover have "\<exists>b. all_fields (\<lambda>i. if BITMAP_BIT m (OBJ_BITMAP m x) i = 0
        then Some (Inr (load64 m (x + 8 * i) = load64 m (y + 8 * i)))
        else rec (load64 m (x + 8 * i)) (load64 m (y + 8 * i))) [0..<OBJ_SIZE m x div 8] = Some (Inr b)"
    if "OBJ_TYPE m x = OBJTYPE_RECORD" ?same
    by (rule all_fields_total) (use rcd [OF that(1) _ that(2)] in simp)
  ultimately show ?thesis
    using assms(1) by (auto simp: equal_contents_def Let_def valid_objtype_def)
qed

lemma obj_equal_returns:
  assumes heap: "wf_heap m D" and rk: "ranked m D rk"
  shows "a \<in> insert NULL D \<Longrightarrow> b \<in> insert NULL D \<Longrightarrow>
    a = NULL \<or> b = NULL \<or> min (rk a) (rk b) < fuel \<Longrightarrow>
    \<exists>r. sml_obj_equal cmp m (Suc fuel) a b = Some (Inr r)"
proof (induction fuel arbitrary: a b)
  case 0
  then show ?case by auto
next
  case (Suc fuel)
  show ?case
  proof (cases "a = b \<or> a = NULL \<or> b = NULL \<or> OBJ_SIZE m a \<noteq> OBJ_SIZE m b \<or> equal_types m a b = None")
    case False
    with Suc.prems have D: "a \<in> D" "b \<in> D" and ne: "a \<noteq> b" "a \<noteq> NULL" "b \<noteq> NULL"
      and sz: "OBJ_SIZE m a = OBJ_SIZE m b" by auto
    from False obtain x y where xy: "equal_types m a b = Some (x, y)" by auto
    note c = equal_types_cases [OF xy sz]
    have Dx: "x \<in> D" "y \<in> D" and mn: "min (rk x) (rk y) < Suc fuel"
      using c D Suc.prems(3) ne by (auto simp: min.commute)
    have "\<exists>r. equal_contents (sml_obj_equal cmp m (Suc fuel)) cmp m x y = Some (Inr r)"
    proof (rule equal_contents_total)
      fix i assume pf: "pointer_field m x i" "pointer_field m y i"
        and tys: "OBJ_TYPE m x \<in> {OBJTYPE_BOXED_VECTOR, OBJTYPE_RECORD}"
          "OBJ_TYPE m y \<in> {OBJTYPE_BOXED_VECTOR, OBJTYPE_RECORD}"
      let ?p = "load64 m (x + 8 * i)" and ?q = "load64 m (y + 8 * i)"
      have "?p = NULL \<or> rk ?p < rk x" "?q = NULL \<or> rk ?q < rk y"
        using rk Dx pf tys unfolding ranked_def by blast+
      then have "?p = NULL \<or> ?q = NULL \<or> min (rk ?p) (rk ?q) < fuel" using mn by auto
      then show "\<exists>r. sml_obj_equal cmp m (Suc fuel) ?p ?q = Some (Inr r)"
        using tys by (intro Suc.IH wf_heapD(2) [OF heap Dx(1) pf(1)] wf_heapD(2) [OF heap Dx(2) pf(2)]) auto
    qed (use c wf_object_type [OF wf_heapD(1) [OF heap Dx(1)]] in auto)
    then show ?thesis using ne sz xy by simp
  qed auto
qed


text \<open>
  A small heap for the witnesses: a string at 32 that a boxed vector at 16 and a record at 48
  both point to.
\<close>

definition sample_heap :: mem where
  "sample_heap =
     store32 (store64 (store32 (store32 (store64 (store32 (\<lambda>_. 0)
       12 (OBJ_HEADER_WORD OBJTYPE_BOXED_VECTOR 8)) 16 32)
       28 (OBJ_HEADER_WORD OBJTYPE_UNBOXED_VECTOR 2))
       44 (OBJ_HEADER_WORD OBJTYPE_RECORD 8)) 48 32) 56 1"

lemma sample_loads:
  "load32 sample_heap 12 = OBJ_HEADER_WORD OBJTYPE_BOXED_VECTOR 8"
  "load32 sample_heap 28 = OBJ_HEADER_WORD OBJTYPE_UNBOXED_VECTOR 2"
  "load32 sample_heap 44 = OBJ_HEADER_WORD OBJTYPE_RECORD 8"
  "load32 sample_heap 56 = 1" "load64 sample_heap 16 = 32" "load64 sample_heap 48 = 32"
  by (simp_all add: sample_heap_def load_store_other)

lemma sample_objects:
  "OBJ_TYPE sample_heap 16 = OBJTYPE_BOXED_VECTOR" "OBJ_SIZE sample_heap 16 = 8"
  "OBJ_TYPE sample_heap 32 = OBJTYPE_UNBOXED_VECTOR" "OBJ_SIZE sample_heap 32 = 2"
  "OBJ_TYPE sample_heap 48 = OBJTYPE_RECORD" "OBJ_SIZE sample_heap 48 = 8"
  by (simp_all add: OBJ_TYPE_def OBJ_SIZE_def OBJ_HEADER_def OBJ_BEGIN_def sample_loads
        header_word_type header_word_size valid_objtype_def)

lemma sample_pointers:
  "pointer_field sample_heap 16 i \<longleftrightarrow> i = 0" "\<not> pointer_field sample_heap 32 i"
  "pointer_field sample_heap 48 i \<longleftrightarrow> i = 0"
  by (auto simp: pointer_field_def sample_objects sample_loads)

lemma sample_wf: "wf_heap sample_heap {16, 32, 48}"
proof -
  have "\<not> bit (load32 sample_heap (56 + 4 * (i div 32))) (i mod 32)" if "i < 32" "1 \<le> i" for i
    using that by (simp add: sample_loads bit_1_iff)
  then show ?thesis
    by (auto simp: wf_heap_def wf_object_def sample_objects sample_pointers sample_loads
          valid_objtype_def OBJ_NUM_BITMAPS_def OBJ_BITMAPS_LEN_def OBJ_BITMAP_def)
qed

lemma sample_ranked: "ranked sample_heap {16, 32, 48} (\<lambda>a. if a = 32 then 0 else 1)"
  by (auto simp: ranked_def sample_objects sample_pointers sample_loads)

text \<open>
  C10: \<open>sml_obj_equal\<close> decides equality of values.  On a well-formed heap it answers 1 with
  enough fuel exactly when the two pointers denote equal values: recursively equal fields of
  immutable objects, equal big integers, and identity of arrays.  A record and a vector with
  the same contents are equal values.
\<close>

theorem obj_equal_correct:
  assumes "\<And>x y. sml_intinf_cmp x y = 0 \<longleftrightarrow> sml_intinf_cmp y x = (0 :: int)"
    and "wf_heap m D" and "a \<in> insert NULL D" and "b \<in> insert NULL D"
  shows "(\<exists>fuel. sml_obj_equal sml_intinf_cmp m fuel a b = Some (Inr True))
    \<longleftrightarrow> value_equal sml_intinf_cmp m a b"
  using obj_equal_sound [where cmp = sml_intinf_cmp, OF assms]
    obj_equal_complete [where cmp = sml_intinf_cmp, OF assms(1,2) _ assms(3,4)] by blast

theorem obj_equal_correct_witness:
  "(\<exists>fuel. sml_obj_equal (\<lambda>x y. int x - int y) sample_heap fuel 16 48 = Some (Inr True))
    \<longleftrightarrow> value_equal (\<lambda>x y. int x - int y) sample_heap 16 48"
  by (rule obj_equal_correct [OF _ sample_wf]) auto

text \<open>
  C19: \<open>sml_obj_equal\<close> returns, without a fatal error, on every pair of values of a well-formed
  heap in which the pointers out of vectors and records lead to objects of smaller rank; the
  depth of its recursion is at most the smaller rank, so cycles through arrays do no harm.
\<close>

theorem obj_equal_terminates:
  assumes "wf_heap m D" and "ranked m D rk"
    and "a \<in> insert NULL D" and "b \<in> insert NULL D"
  shows "\<exists>r. sml_obj_equal sml_intinf_cmp m (Suc (Suc (min (rk a) (rk b)))) a b = Some (Inr r)"
  using obj_equal_returns [OF assms] by simp

theorem obj_equal_terminates_witness:
  "\<exists>r. sml_obj_equal (\<lambda>x y. int x - int y) sample_heap
      (Suc (Suc (min (if (16::nat) = 32 then 0 else 1) (if (48::nat) = 32 then 0 else 1)))) 16 48
    = Some (Inr r)"
  by (rule obj_equal_terminates [OF sample_wf sample_ranked]) auto

text \<open>
  C20: \<open>sml_obj_enum_ptr\<close> calls its argument on exactly the pointer fields of an object with a
  valid header, each once and in increasing order; each slot lies inside the payload and the
  bitmap word that classifies it lies inside the object's total size.  An invalid header is a
  fatal error.
\<close>

theorem obj_enum_ptr_slots:
  assumes "OBJ_HEADER_SIZE \<le> obj"
  shows "if valid_objtype (OBJ_TYPE m obj) then
      \<exists>is. sml_obj_enum_ptr m obj trace data = Inr (fold trace (map (\<lambda>i. obj + 8 * i) is) data) \<and>
        sorted_wrt (<) is \<and> set is = {i. pointer_field m obj i} \<and>
        (\<forall>i\<in>set is. obj + 8 * i + 8 \<le> obj + OBJ_SIZE m obj \<and>
           (OBJ_TYPE m obj = OBJTYPE_RECORD \<longrightarrow>
              OBJ_BITMAP m obj + 4 * (i div 32) + 4 \<le> OBJ_BEGIN obj + OBJ_TOTAL_SIZE m obj))
    else sml_obj_enum_ptr m obj trace data = Inl (Fatal ''BUG: invalid object type'')"
proof (cases "valid_objtype (OBJ_TYPE m obj)")
  case True
  let ?is = "filter (pointer_field m obj) [0..<OBJ_SIZE m obj div 8]"
  have eq: "sml_obj_enum_ptr m obj trace data = Inr (fold trace (map (\<lambda>i. obj + 8 * i) ?is) data)"
    by (simp add: sml_obj_enum_ptr_def enum_slots_valid [OF True])
  have set: "set ?is = {i. pointer_field m obj i}" by (auto dest: pointer_field_index)
  have srt: "sorted_wrt (<) ?is" by (intro sorted_wrt_filter sorted_wrt_upt)
  have pay: "obj + 8 * i + 8 \<le> obj + OBJ_SIZE m obj" if "i \<in> set ?is" for i
    using that by (simp add: set pointer_field_def)
  have bmw: "OBJ_BITMAP m obj + 4 * (i div 32) + 4 \<le> OBJ_BEGIN obj + OBJ_TOTAL_SIZE m obj"
    if "i \<in> set ?is" "OBJ_TYPE m obj = OBJTYPE_RECORD" for i
    using that assms bitmaps_cover [OF pointer_field_index [of m obj i]]
    by (simp add: set OBJ_BITMAP_def OBJ_TOTAL_SIZE_def OBJ_BEGIN_def OBJ_NUM_BITMAPS_def)
  show ?thesis using True eq set srt pay bmw by auto
qed (simp add: sml_obj_enum_ptr_def enum_slots_invalid)

theorem obj_enum_ptr_slots_witness:
  "OBJ_HEADER_SIZE \<le> (48 :: nat) \<and> valid_objtype (OBJ_TYPE sample_heap 48) \<and>
   (\<exists>is. sml_obj_enum_ptr sample_heap 48 (#) [] = Inr (fold (#) (map (\<lambda>i. 48 + 8 * i) is) []))"
proof -
  have v: "valid_objtype (OBJ_TYPE sample_heap 48)" by (simp add: sample_objects valid_objtype_def)
  show ?thesis using obj_enum_ptr_slots [of 48 sample_heap "(#)" "[]"] v by auto
qed

section \<open>Strings\<close>

lemma c_strlen_finds:
  assumes "m (s + n) = 0" and "\<forall>k<n. m (s + k) \<noteq> 0" and "i \<le> n"
  shows "c_strlen m s i = Some n"
  using assms(3)
proof (induction "n - i" arbitrary: i)
  case 0
  then show ?case using assms(1) by (simp add: c_strlen.simps)
next
  case (Suc d)
  then have "m (s + i) \<noteq> 0" using assms(2) by simp
  then show ?case using Suc by (subst c_strlen.simps) simp
qed

text \<open>
  C21: \<open>sml_str_new\<close> on a C string makes a string object of exactly its bytes: the header says
  unboxed vector, \<open>OBJ_STR_SIZE\<close> is the length without the terminator, the payload is a copy of
  the bytes and ends with a null byte, and no byte outside the block has changed.  Allocation
  is any function that returns a block disjoint from the C string and keeps what is outside
  the block.
\<close>

theorem str_new_roundtrip:
  assumes "m (str + n) = 0" and "\<forall>k<n. m (str + k) \<noteq> 0" and "n < 2 ^ 28 - 1"
    and "sml_alloc m (n + 1) = (obj, m')" and "OBJ_HEADER_SIZE \<le> obj"
    and "\<forall>x. x + 4 < obj \<or> obj + n + 1 \<le> x \<longrightarrow> m' x = m x"
    and "str + n + 1 \<le> obj - 4 \<or> obj + n + 1 \<le> str"
  shows "\<exists>m''. sml_str_new sml_alloc m str = Some (obj, m'') \<and>
    OBJ_TYPE m'' obj = OBJTYPE_UNBOXED_VECTOR \<and> OBJ_STR_SIZE m'' obj = n \<and>
    (\<forall>k\<le>n. m'' (obj + k) = m (str + k)) \<and>
    (\<forall>x. x + 4 < obj \<or> obj + n + 1 \<le> x \<longrightarrow> m'' x = m x)"
proof -
  have len: "c_strlen m str 0 = Some n" by (rule c_strlen_finds) (use assms in auto)
  have n: "n mod 2 ^ 32 = n" using assms(3) by simp
  let ?w = "OBJ_HEADER_WORD OBJTYPE_UNBOXED_VECTOR (n + 1)"
  let ?m1 = "store32 m' (obj - 4) ?w"
  let ?m2 = "(memcpy ?m1 obj str n)(obj + n := 0)"
  have new: "sml_str_new sml_alloc m str = Some (obj, ?m2)"
    using assms(4) unfolding sml_str_new_def len option.map n
    by (simp add: sml_str_new2_def sml_obj_alloc_def OBJ_BEGIN_def)
  have out: "?m1 x = m x" if "x + 4 < obj \<or> obj + n + 1 \<le> x" for x
    using that assms(5,6) by (subst store32_other) auto
  have hdr: "load32 ?m2 (obj - 4) = ?w"
  proof -
    have "load32 ?m2 (obj - 4) = load32 ?m1 (obj - 4)"
      by (rule load32_cong) (use assms(5) in \<open>auto simp: memcpy_def\<close>)
    then show ?thesis by simp
  qed
  have v: "valid_objtype OBJTYPE_UNBOXED_VECTOR" by (simp add: valid_objtype_def)
  have ty: "OBJ_TYPE ?m2 obj = OBJTYPE_UNBOXED_VECTOR"
    unfolding OBJ_TYPE_def OBJ_HEADER_def OBJ_BEGIN_def hdr
    by (rule header_word_type [OF v]) (use assms(3) in simp)
  have u: "unat (?w AND OBJ_SIZE_MASK) = n + 1"
    by (rule header_word_size [OF v]) (use assms(3) in simp)
  then have sz: "OBJ_STR_SIZE ?m2 obj = n"
    unfolding OBJ_STR_SIZE_def OBJ_HEADER_def OBJ_BEGIN_def hdr
    by (subst unat_sub) (auto simp: word_le_nat_alt)
  have "?m2 (obj + k) = m (str + k)" if "k \<le> n" for k
  proof (cases "k = n")
    case False
    then have "str + k + 4 < obj \<or> obj + n + 1 \<le> str + k" using that assms(5,7) by auto
    with False that out [of "str + k"] show ?thesis by (simp add: memcpy_def)
  qed (use assms(1) in simp)
  moreover have "?m2 x = m x" if "x + 4 < obj \<or> obj + n + 1 \<le> x" for x
    using that out [OF that] by (auto simp: memcpy_def)
  ultimately show ?thesis using new ty sz by blast
qed

theorem str_new_roundtrip_witness:
  "\<exists>m''. sml_str_new (\<lambda>m n. (104, m)) ((\<lambda>_. 0)(16 := 65)) 16 = Some (104, m'') \<and>
    OBJ_TYPE m'' 104 = OBJTYPE_UNBOXED_VECTOR \<and> OBJ_STR_SIZE m'' 104 = 1 \<and>
    m'' 104 = 65 \<and> m'' 105 = 0 \<and> m'' 16 = 65"
proof -
  have "\<exists>m''. sml_str_new (\<lambda>m n. (104, m)) ((\<lambda>_. 0)(16 := 65)) 16 = Some (104, m'') \<and>
    OBJ_TYPE m'' 104 = OBJTYPE_UNBOXED_VECTOR \<and> OBJ_STR_SIZE m'' 104 = 1 \<and>
    (\<forall>k\<le>1. m'' (104 + k) = ((\<lambda>_. 0)(16 := 65) :: mem) (16 + k)) \<and>
    (\<forall>x. x + 4 < 104 \<or> 104 + 1 + 1 \<le> x \<longrightarrow> m'' x = ((\<lambda>_. 0)(16 := 65) :: mem) x)"
    by (rule str_new_roundtrip [of "(\<lambda>_. 0)(16 := 65)" 16 1 "\<lambda>m n. (104, m)" 104 "(\<lambda>_. 0)(16 := 65)"])
      auto
  then obtain m'' where m: "sml_str_new (\<lambda>m n. (104, m)) ((\<lambda>_. 0)(16 := 65)) 16 = Some (104, m'')"
      "OBJ_TYPE m'' 104 = OBJTYPE_UNBOXED_VECTOR" "OBJ_STR_SIZE m'' 104 = 1"
    and b: "\<forall>k\<le>1. m'' (104 + k) = ((\<lambda>_. 0)(16 := 65) :: mem) (16 + k)"
    and o: "\<forall>x. x + 4 < 104 \<or> 104 + 1 + 1 \<le> x \<longrightarrow> m'' x = ((\<lambda>_. 0)(16 := 65) :: mem) x"
    by blast
  show ?thesis
    using m b [rule_format, of 0] b [rule_format, of 1] o [rule_format, of 16] by auto
qed

section \<open>Copying between pointer arrays\<close>

text \<open>
  What \<open>sml_copyary\<close> needs of the store it runs on: a pointer written is the pointer read back,
  and other words keep their value.
\<close>

locale ptr_store =
  fixes rd :: "'s \<Rightarrow> addr \<Rightarrow> addr" and wr :: "addr \<Rightarrow> addr \<Rightarrow> addr \<Rightarrow> 's \<Rightarrow> 's"
  assumes rd_wr_same: "rd (wr o' a (rd s' b) s) a = rd s' b"
    and rd_wr_other: "a + 8 \<le> b \<or> b + 8 \<le> a \<Longrightarrow> rd (wr o' a v s) b = rd s b"
begin

lemma copyary_down_frame:
  "(\<And>i. i < len \<Longrightarrow> a + 8 \<le> dst + 8 * (di + i) \<or> dst + 8 * (di + i) + 8 \<le> a) \<Longrightarrow>
     rd (copyary_down rd wr src si dst di len s) a = rd s a"
proof (induction len arbitrary: s)
  case (Suc len)
  have "a + 8 \<le> dst + 8 * (di + len) \<or> dst + 8 * (di + len) + 8 \<le> a" by (rule Suc.prems) simp
  then have "rd (wr dst (dst + 8 * (di + len)) v s) a = rd s a" for v by (intro rd_wr_other) auto
  then show ?case using Suc by simp
qed simp

lemma copyary_down_copies:
  assumes "si + len \<le> 2 ^ 32"
    and "\<And>i j. i < len \<Longrightarrow> j < i \<Longrightarrow>
      src + 8 * (si + j) + 8 \<le> dst + 8 * (di + i) \<or> dst + 8 * (di + i) + 8 \<le> src + 8 * (si + j)"
    and "i < len"
  shows "rd (copyary_down rd wr src si dst di len s) (dst + 8 * (di + i)) = rd s (src + 8 * (si + i))"
  using assms
proof (induction len arbitrary: s)
  case (Suc len)
  let ?s = "wr dst (dst + 8 * (di + len)) (rd s (src + 8 * (si + len))) s"
  have step: "copyary_down rd wr src si dst di (Suc len) s = copyary_down rd wr src si dst di len ?s"
    using Suc.prems(1) by simp
  show ?case
  proof (cases "i = len")
    case True
    have "rd (copyary_down rd wr src si dst di len ?s) (dst + 8 * (di + len)) = rd ?s (dst + 8 * (di + len))"
      by (rule copyary_down_frame) auto
    then show ?thesis unfolding step True by (simp add: rd_wr_same)
  next
    case False
    then have i: "i < len" using Suc.prems(3) by simp
    have "rd (copyary_down rd wr src si dst di len ?s) (dst + 8 * (di + i)) = rd ?s (src + 8 * (si + i))"
      by (rule Suc.IH) (use Suc.prems i in auto)
    also have "\<dots> = rd s (src + 8 * (si + i))"
      using Suc.prems(2) [of len i] i by (subst rd_wr_other) auto
    finally show ?thesis unfolding step .
  qed
qed simp

text \<open>
  A copy to smaller indices of the same array, by \<open>d\<close> places: the words are written from the
  last one down, so that word \<open>i\<close> gets the last old word whose distance from word \<open>i\<close> of the
  source is a multiple of \<open>d\<close>.
\<close>

lemma copyary_down_shifts:
  assumes "0 < d" and "di + d + len \<le> 2 ^ 32" and "i < len"
  shows "rd (copyary_down rd wr a (di + d) a di len s) (a + 8 * (di + i))
    = rd s (a + 8 * (di + d + (i + d * ((len - 1 - i) div d))))"
  using assms
proof (induction len arbitrary: s)
  case (Suc len)
  let ?s = "wr a (a + 8 * (di + len)) (rd s (a + 8 * (di + d + len))) s"
  have step: "copyary_down rd wr a (di + d) a di (Suc len) s = copyary_down rd wr a (di + d) a di len ?s"
    using Suc.prems(2) by simp
  show ?case
  proof (cases "i = len")
    case True
    have "rd (copyary_down rd wr a (di + d) a di len ?s) (a + 8 * (di + len)) = rd ?s (a + 8 * (di + len))"
      by (rule copyary_down_frame) auto
    then show ?thesis unfolding step True by (simp add: rd_wr_same)
  next
    case False
    then have i: "i < len" using Suc.prems(3) by simp
    then obtain k where len: "len = i + Suc k" using less_imp_Suc_add by fastforce
    have IH: "rd (copyary_down rd wr a (di + d) a di len ?s) (a + 8 * (di + i))
        = rd ?s (a + 8 * (di + d + (i + d * (k div d))))"
      using Suc.IH [of ?s] Suc.prems i len by simp
    show ?thesis
    proof (cases "Suc k mod d = 0")
      case True
      then have q: "Suc k div d = Suc (k div d)" by (simp add: div_Suc)
      have "d * (Suc k div d) = Suc k" using True by (metis add.right_neutral mult_div_mod_eq)
      then have e: "di + d + (i + d * (k div d)) = di + len" "i + d * (Suc k div d) = len"
        "Suc len - 1 - i = Suc k"
        using q len by simp_all
      show ?thesis unfolding step IH e by (rule rd_wr_same)
    next
      case False
      then have q: "Suc k div d = k div d" by (simp add: div_Suc)
      have "d * (k div d) + d \<noteq> Suc k"
        using False by (metis mod_mult_self2_is_0 mult_Suc_right add.commute mod_mult_self1_is_0 mult.commute)
      then have "di + d + (i + d * (k div d)) \<noteq> di + len" using len by simp
      then show ?thesis unfolding step IH using len q by (subst rd_wr_other) auto
    qed
  qed
qed simp

lemma copyary_up_frame:
  "di + len \<le> 2 ^ 32 \<Longrightarrow>
     (\<And>i. i < len \<Longrightarrow> a + 8 \<le> dst + 8 * (di + i) \<or> dst + 8 * (di + i) + 8 \<le> a) \<Longrightarrow>
     rd (copyary_up rd wr src si dst di len s) a = rd s a"
proof (induction len arbitrary: s di si)
  case (Suc len)
  have "rd (copyary_up rd wr src ((si + 1) mod 2 ^ 32) dst (di + 1) len
        (wr dst (dst + 8 * di) (rd s (src + 8 * si)) s)) a
      = rd (wr dst (dst + 8 * di) (rd s (src + 8 * si)) s) a"
    by (rule Suc.IH) (use Suc.prems(1) Suc.prems(2) [of "Suc _"] in auto)
  also have "\<dots> = rd s a" using Suc.prems(2) [of 0] by (subst rd_wr_other) auto
  finally show ?case
    using Suc.prems(1) by (cases len) (simp_all add: rd_wr_other)
qed simp

lemma copyary_up_copies:
  assumes "si + len \<le> 2 ^ 32" and "di + len \<le> 2 ^ 32"
    and "\<And>i j. i < len \<Longrightarrow> j < len \<Longrightarrow>
      src + 8 * (si + j) + 8 \<le> dst + 8 * (di + i) \<or> dst + 8 * (di + i) + 8 \<le> src + 8 * (si + j)"
    and "i < len"
  shows "rd (copyary_up rd wr src si dst di len s) (dst + 8 * (di + i)) = rd s (src + 8 * (si + i))"
  using assms
proof (induction len arbitrary: s si di i)
  case (Suc len)
  let ?s = "wr dst (dst + 8 * di) (rd s (src + 8 * si)) s"
  show ?case
  proof (cases len)
    case 0
    then show ?thesis using Suc.prems(4) by (simp add: rd_wr_same)
  next
    case (Suc k)
    then have m: "(si + 1) mod 2 ^ 32 = si + 1" "(di + 1) mod 2 ^ 32 = di + 1"
      using Suc.prems(1,2) by auto
    have step: "copyary_up rd wr src si dst di (Suc len) s = copyary_up rd wr src (si + 1) dst (di + 1) len ?s"
      unfolding copyary_up.simps m ..
    show ?thesis
    proof (cases i)
      case 0
      have "rd (copyary_up rd wr src (si + 1) dst (di + 1) len ?s) (dst + 8 * di) = rd ?s (dst + 8 * di)"
        by (rule copyary_up_frame) (use Suc.prems(2) in auto)
      then show ?thesis unfolding step 0 by (simp add: rd_wr_same)
    next
      case (Suc j)
      have sep: "src + 8 * (si + 1 + b) + 8 \<le> dst + 8 * (di + 1 + a) \<or>
          dst + 8 * (di + 1 + a) + 8 \<le> src + 8 * (si + 1 + b)" if "a < len" "b < len" for a b
        using Suc.prems(3) [of "Suc a" "Suc b"] that by simp
      have "rd (copyary_up rd wr src (si + 1) dst (di + 1) len ?s) (dst + 8 * (di + 1 + j))
          = rd ?s (src + 8 * (si + 1 + j))"
        by (rule Suc.IH [OF _ _ sep]) (use Suc.prems Suc in auto)
      also have "\<dots> = rd s (src + 8 * (si + 1 + j))"
        using Suc.prems(3) [of 0 "Suc j"] Suc.prems(4) Suc by (subst rd_wr_other) auto
      finally show ?thesis unfolding step Suc by simp
    qed
  qed
qed simp

end

interpretation mem_store: ptr_store load64 write_mem
  by unfold_locales (simp_all add: write_mem_def load64_bound load64_store64_other)


text \<open>
  \<open>sml_copyary\<close> is a \<open>memmove\<close> of pointers: when the regions of two arrays are disjoint, or
  when the copy inside one array moves elements up or does not overlap, every element of the
  destination region gets the value its source had at the call and every other word of memory
  keeps its value.  The 32 bit index arithmetic does not wrap for indices of real arrays.
\<close>

lemma copyary_moves:
  assumes idx: "si + len \<le> 2 ^ 32" "di + len \<le> 2 ^ 32"
    and apart: "if src = dst then si \<le> di \<or> di + len \<le> si
      else src + 8 * (si + len) \<le> dst + 8 * di \<or> dst + 8 * (di + len) \<le> src + 8 * si"
  shows "(\<forall>i<len. load64 (sml_copyary load64 write_mem src si dst di len m) (dst + 8 * (di + i))
                = load64 m (src + 8 * (si + i))) \<and>
    (\<forall>a. a + 8 \<le> dst + 8 * di \<or> dst + 8 * (di + len) \<le> a \<longrightarrow>
       load64 (sml_copyary load64 write_mem src si dst di len m) a = load64 m a)"
proof (cases "src = dst")
  case True
  have "load64 (copyary_down load64 write_mem src si dst di len m) (dst + 8 * (di + i))
      = load64 m (src + 8 * (si + i))" if "i < len" "si \<noteq> di" for i
  proof (rule mem_store.copyary_down_copies [OF idx(1) _ that(1)])
    fix i j assume "i < len" "j < i"
    then have "si + j < di + i \<or> di + i < si + j" using apart True by auto
    then show "src + 8 * (si + j) + 8 \<le> dst + 8 * (di + i) \<or> dst + 8 * (di + i) + 8 \<le> src + 8 * (si + j)"
      using True by auto
  qed
  moreover have "load64 (copyary_down load64 write_mem src si dst di len m) (dst + 8 * (di + i))
      = load64 m (src + 8 * (si + i))" if "i < len" "si = di" for i
    by (rule mem_store.copyary_down_copies [OF idx(1) _ that(1)]) (use True that in auto)
  moreover have "load64 (copyary_down load64 write_mem src si dst di len m) a = load64 m a"
    if "a + 8 \<le> dst + 8 * di \<or> dst + 8 * (di + len) \<le> a" for a
    by (rule mem_store.copyary_down_frame) (use that in auto)
  ultimately show ?thesis using True by (auto simp: sml_copyary_def)
next
  case False
  have "load64 (copyary_up load64 write_mem src si dst di len m) (dst + 8 * (di + i))
      = load64 m (src + 8 * (si + i))" if "i < len" for i
    by (rule mem_store.copyary_up_copies [OF idx _ that]) (use apart False in auto)
  moreover have "load64 (copyary_up load64 write_mem src si dst di len m) a = load64 m a"
    if "a + 8 \<le> dst + 8 * di \<or> dst + 8 * (di + len) \<le> a" for a
    by (rule mem_store.copyary_up_frame [OF idx(2)]) (use that in auto)
  ultimately show ?thesis using False by (auto simp: sml_copyary_def)
qed

lemma copyary_same_array:
  assumes "si + len \<le> 2 ^ 32" and "di + len \<le> 2 ^ 32"
  shows "\<forall>i<len. load64 (sml_copyary load64 write_mem a si a di len m) (a + 8 * (di + i))
      = load64 m (a + 8 * (si + (if di < si then i + (si - di) * ((len - 1 - i) div (si - di)) else i)))"
    and "\<forall>p. p + 8 \<le> a + 8 * di \<or> a + 8 * (di + len) \<le> p
      \<longrightarrow> load64 (sml_copyary load64 write_mem a si a di len m) p = load64 m p"
proof -
  show "\<forall>i<len. load64 (sml_copyary load64 write_mem a si a di len m) (a + 8 * (di + i))
      = load64 m (a + 8 * (si + (if di < si then i + (si - di) * ((len - 1 - i) div (si - di)) else i)))"
  proof (cases "di < si")
    case True
    then obtain d where d: "si = di + d" "0 < d" using less_imp_add_positive by blast
    show ?thesis
      using mem_store.copyary_down_shifts [of d di len _ a m] assms(1) d by (auto simp: sml_copyary_def)
  next
    case False
    then show ?thesis using copyary_moves [OF assms, of a a m] by simp
  qed
  show "\<forall>p. p + 8 \<le> a + 8 * di \<or> a + 8 * (di + len) \<le> p
      \<longrightarrow> load64 (sml_copyary load64 write_mem a si a di len m) p = load64 m p"
    by (auto simp: sml_copyary_def intro!: mem_store.copyary_down_frame)
qed

text \<open>
  C22: what \<open>sml_copyary\<close> does inside one array, for every pair of ranges.  It always copies
  from the end.  When the range moves up or stays, every element gets the value its source had
  at the call, as with \<open>memmove\<close>.  When it moves down by \<open>d = si - di\<close> places, element \<open>i\<close> of the
  destination gets the old element \<open>i + d * ((len - 1 - i) div d)\<close> of the source: its own
  source only if \<open>i\<close> is one of the last \<open>d\<close>, so that an overlapping move down repeats the last
  \<open>d\<close> elements and loses the others.  All other words keep their value.
\<close>

theorem copyary_overlap_down:
  assumes "si + len \<le> 2 ^ 32" and "di + len \<le> 2 ^ 32"
  shows "(\<forall>i<len. load64 (sml_copyary load64 write_mem a si a di len m) (a + 8 * (di + i))
      = load64 m (a + 8 * (si + (if di < si then i + (si - di) * ((len - 1 - i) div (si - di)) else i)))) \<and>
    (\<forall>p. p + 8 \<le> a + 8 * di \<or> a + 8 * (di + len) \<le> p
      \<longrightarrow> load64 (sml_copyary load64 write_mem a si a di len m) p = load64 m p)"
  by (intro conjI copyary_same_array [OF assms])

text \<open>Elements 1 to 4 moved to 0 to 3: element 4 is stored everywhere.\<close>

theorem copyary_overlap_down_witness:
  "\<forall>m. map (\<lambda>i. load64 (sml_copyary load64 write_mem 800 1 800 0 4 m) (800 + 8 * i)) [0, 1, 2, 3]
     = replicate 4 (load64 m 832)"
proof
  fix m :: mem
  have "load64 (sml_copyary load64 write_mem 800 1 800 0 4 m) (800 + 8 * i) = load64 m 832"
    if "i < 4" for i :: nat
    using copyary_overlap_down [of 1 4 0 800 m] that by simp
  from this [of 0] this [of 1] this [of 2] this [of 3]
  show "map (\<lambda>i. load64 (sml_copyary load64 write_mem 800 1 800 0 4 m) (800 + 8 * i)) [0, 1, 2, 3]
     = replicate 4 (load64 m 832)" by (simp add: numeral_eq_Suc)
qed

end
