(* ===== verification/Top.thy ===== *)
theory Top
  imports Object "HOL-Library.Multiset"
begin

text \<open>
  The registry of frame tables and toplevel objects (\<open>top.c\<close>).  The compiler emits for every
  program a table of frame descriptors; the runtime collects their safe points in a block per
  loaded program, sorts it, links the blocks in a list and searches them by return address
  when the collector walks a stack.  The tables are read from the byte memory; a block is a
  record with its items as a list.
\<close>

section \<open>Frame tables\<close>

definition load16 :: "mem \<Rightarrow> addr \<Rightarrow> nat" where
  "load16 m a = load_le m a 2"

text \<open>A signed 64 bit offset, and its addition to a pointer.\<close>

definition load64s :: "mem \<Rightarrow> addr \<Rightarrow> int" where
  "load64s m a = (if load64 m a < 2 ^ 63 then int (load64 m a) else int (load64 m a) - 2 ^ 64)"

definition offset_addr :: "addr \<Rightarrow> int \<Rightarrow> addr" where
  "offset_addr base off = nat ((int base + off) mod 2 ^ 64)"

definition num_safe_points :: "mem \<Rightarrow> addr \<Rightarrow> nat" where
  "num_safe_points m layout = load16 m layout"

definition frame_size :: "mem \<Rightarrow> addr \<Rightarrow> nat" where
  "frame_size m layout = load16 m (layout + 2)"

definition num_roots :: "mem \<Rightarrow> addr \<Rightarrow> nat" where
  "num_roots m layout = load16 m (layout + 4)"

definition root_offset :: "mem \<Rightarrow> addr \<Rightarrow> nat \<Rightarrow> nat" where
  "root_offset m layout i = load16 m (layout + 6 + 2 * i)"

definition LAYOUT_SIZE :: "mem \<Rightarrow> addr \<Rightarrow> nat" where
  "LAYOUT_SIZE m layout = 6 + 2 * num_roots m layout"

definition SAFE_POINTS_OFFSET :: "mem \<Rightarrow> addr \<Rightarrow> nat" where
  "SAFE_POINTS_OFFSET m layout = CEILING (LAYOUT_SIZE m layout) 8"

definition SAFE_POINTS :: "mem \<Rightarrow> addr \<Rightarrow> addr" where
  "SAFE_POINTS m layout = layout + SAFE_POINTS_OFFSET m layout"

definition NEXT_LAYOUT :: "mem \<Rightarrow> addr \<Rightarrow> addr" where
  "NEXT_LAYOUT m layout = SAFE_POINTS m layout + 8 * num_safe_points m layout"

text \<open>The descriptors that the loop \<open>for (t = ftab; t->num_safe_points > 0; t = NEXT_LAYOUT(t))\<close> visits.\<close>

partial_function (option) layouts_from :: "mem \<Rightarrow> addr \<Rightarrow> addr list option" where
  "layouts_from m t =
     (if num_safe_points m t > 0 then
        Option.bind (layouts_from m (NEXT_LAYOUT m t)) (\<lambda>ts. Some (t # ts))
      else Some [])"

section \<open>Blocks of safe points\<close>

record safe_point =
  sp_addr :: addr
  sp_layout :: addr

record sml_gcroot =
  num_points :: nat
  num_tops :: nat
  allocsize :: nat
  gc_item :: "safe_point list"

abbreviation (input) SIZEOF_GCROOT :: nat where
  "SIZEOF_GCROOT \<equiv> 32"

abbreviation (input) SIZEOF_SAFE_POINT :: nat where
  "SIZEOF_SAFE_POINT \<equiv> 16"

definition PAGE_SIZE :: nat where
  "PAGE_SIZE = CEILING SIZEOF_GCROOT 4096"

definition REST_SAFE_POINTS :: "sml_gcroot \<Rightarrow> nat" where
  "REST_SAFE_POINTS g =
     (allocsize g - SIZEOF_GCROOT) div SIZEOF_SAFE_POINT - (num_points g + num_tops g)"

definition TOPS :: "sml_gcroot \<Rightarrow> safe_point list" where
  "TOPS g = drop (num_points g) (gc_item g)"

definition new_gcroot :: sml_gcroot where
  "new_gcroot = \<lparr>num_points = 0, num_tops = 0, allocsize = PAGE_SIZE, gc_item = []\<rparr>"

text \<open>
  \<open>alloc_safe_points\<close> makes room for \<open>inc\<close> items behind those in use and counts them as safe
  points; the caller fills them, which the list model does by appending.
\<close>

definition alloc_safe_points :: "sml_gcroot \<Rightarrow> nat \<Rightarrow> sml_gcroot" where
  "alloc_safe_points g inc =
     (let g1 = (if REST_SAFE_POINTS g < inc then
                  g\<lparr>allocsize := CEILING (SIZEOF_GCROOT +
                      (num_points g + num_tops g + inc) * SIZEOF_SAFE_POINT) PAGE_SIZE\<rparr>
                else g)
      in g1\<lparr>num_points := num_points g1 + inc\<rparr>)"

definition layout_points :: "mem \<Rightarrow> addr \<Rightarrow> addr \<Rightarrow> safe_point list" where
  "layout_points m smltabb t =
     map (\<lambda>i. \<lparr>sp_addr = offset_addr smltabb (load64s m (SAFE_POINTS m t + 8 * i)), sp_layout = t\<rparr>)
       [0..<num_safe_points m t]"

definition sml_gcroot_add :: "mem \<Rightarrow> sml_gcroot \<Rightarrow> addr \<Rightarrow> addr \<Rightarrow> addr \<Rightarrow> sml_gcroot option" where
  "sml_gcroot_add m g smltabb smlftab smlroot =
     (case (if smlftab \<noteq> NULL then layouts_from m smlftab else Some []) of
        None \<Rightarrow> None
      | Some ts \<Rightarrow>
          let inc = sum_list (map (num_safe_points m) ts) + (if smlroot \<noteq> NULL then 1 else 0);
              g1 = alloc_safe_points g inc;
              g2 = g1\<lparr>gc_item := gc_item g1 @ concat (map (layout_points m smltabb) ts)\<rparr>
          in Some (if smlroot \<noteq> NULL then
                     g2\<lparr>gc_item := gc_item g2 @ [\<lparr>sp_addr = smlroot, sp_layout = NULL\<rparr>],
                        num_tops := num_tops g2 + 1, num_points := num_points g2 - 1\<rparr>
                   else g2))"

definition cmp_safe_point :: "safe_point \<Rightarrow> safe_point \<Rightarrow> int" where
  "cmp_safe_point s1 s2 =
     (if sp_layout s1 \<noteq> NULL \<and> sp_layout s2 = NULL then - 1
      else if sp_layout s1 = NULL \<and> sp_layout s2 \<noteq> NULL then 1
      else if sp_addr s1 > sp_addr s2 then 1
      else if sp_addr s1 < sp_addr s2 then - 1
      else 0)"

text \<open>\<open>qsort\<close> of the C library: a sort with the comparison function.\<close>

fun insert_by :: "('a \<Rightarrow> 'a \<Rightarrow> int) \<Rightarrow> 'a \<Rightarrow> 'a list \<Rightarrow> 'a list" where
  "insert_by cmp x [] = [x]"
| "insert_by cmp x (y # ys) = (if cmp x y \<le> 0 then x # y # ys else y # insert_by cmp x ys)"

definition qsort :: "('a \<Rightarrow> 'a \<Rightarrow> int) \<Rightarrow> 'a list \<Rightarrow> 'a list" where
  "qsort cmp xs = foldr (insert_by cmp) xs []"

definition sort_safe_points :: "sml_gcroot \<Rightarrow> sml_gcroot" where
  "sort_safe_points g =
     g\<lparr>gc_item := qsort cmp_safe_point (take (num_points g + num_tops g) (gc_item g))\<rparr>"

section \<open>The list of blocks\<close>

text \<open>The list is [first program] -> [last program] -> ... -> [second program].\<close>

fun register_gcroot :: "sml_gcroot \<Rightarrow> sml_gcroot list \<Rightarrow> sml_gcroot list" where
  "register_gcroot g [] = [g]"
| "register_gcroot g (first # rest) = first # g # rest"

text \<open>
  The functions \<open>sml_loads\<close> are generated code that calls \<open>sml_gcroot\<close> once per object file: the
  list of the arguments (code base, frame table, toplevel objects) of these calls.
\<close>

fun run_loads :: "mem \<Rightarrow> sml_gcroot \<Rightarrow> (addr \<times> addr \<times> addr) list \<Rightarrow> sml_gcroot option" where
  "run_loads m g [] = Some g"
| "run_loads m g ((smltabb, smlftab, smlroot) # ls) =
     (case sml_gcroot_add m g smltabb smlftab smlroot of None \<Rightarrow> None | Some g' \<Rightarrow> run_loads m g' ls)"

definition sml_gcroot_load ::
  "mem \<Rightarrow> (addr \<times> addr \<times> addr) list \<Rightarrow> sml_gcroot list \<Rightarrow> (sml_gcroot \<times> sml_gcroot list) option" where
  "sml_gcroot_load m loads gl =
     (case run_loads m new_gcroot loads of
        None \<Rightarrow> None
      | Some g \<Rightarrow> let g' = sort_safe_points g in Some (g', register_gcroot g' gl))"

definition sml_gcroot_unload :: "nat \<Rightarrow> sml_gcroot list \<Rightarrow> sml_gcroot list" where
  "sml_gcroot_unload i gl = gl[i := (gl ! i)\<lparr>num_points := 0, num_tops := 0\<rparr>]"

function search_range :: "addr \<Rightarrow> safe_point list \<Rightarrow> nat \<Rightarrow> nat \<Rightarrow> safe_point option" where
  "search_range key begin l r =
     (if l < r then
        let c = (l + r) div 2 in
        if sp_addr (begin ! c) = key then Some (begin ! c)
        else if sp_addr (begin ! c) < key then search_range key begin (c + 1) r
        else search_range key begin l c
      else None)"
  by pat_completeness auto
termination
  by (relation "measure (\<lambda>(_, _, l, r). r - l)") auto

definition binary_search :: "addr \<Rightarrow> safe_point list \<Rightarrow> nat \<Rightarrow> safe_point option" where
  "binary_search key begin len = search_range key begin 0 len"

declare search_range.simps [simp del]

fun sml_lookup_frametable :: "sml_gcroot list \<Rightarrow> addr \<Rightarrow> addr result" where
  "sml_lookup_frametable [] retaddr = Inl (Fatal ''frametable lookup failed'')"
| "sml_lookup_frametable (p # ps) retaddr =
     (case binary_search retaddr (gc_item p) (num_points p) of
        Some s \<Rightarrow> Inr (sp_layout s)
      | None \<Rightarrow> sml_lookup_frametable ps retaddr)"

text \<open>The slots of the objects of one toplevel object array.\<close>

fun enum_tops :: "mem \<Rightarrow> addr \<Rightarrow> nat list \<Rightarrow> addr list result" where
  "enum_tops m tops [] = Inr []"
| "enum_tops m tops (j # js) =
     (case enum_slots m (offset_addr tops (load64s m (tops + 8 + 8 * j))) of
        Inl e \<Rightarrow> Inl e
      | Inr ss \<Rightarrow> (case enum_tops m tops js of Inl e \<Rightarrow> Inl e | Inr rest \<Rightarrow> Inr (ss @ rest)))"

fun enum_all_tops :: "mem \<Rightarrow> safe_point list \<Rightarrow> addr list result" where
  "enum_all_tops m [] = Inr []"
| "enum_all_tops m (it # its) =
     (case enum_tops m (sp_addr it) [0..<load64 m (sp_addr it)] of
        Inl e \<Rightarrow> Inl e
      | Inr ss \<Rightarrow> (case enum_all_tops m its of Inl e \<Rightarrow> Inl e | Inr rest \<Rightarrow> Inr (ss @ rest)))"

fun sml_global_enum_ptr :: "mem \<Rightarrow> sml_gcroot list \<Rightarrow> addr list result" where
  "sml_global_enum_ptr m [] = Inr []"
| "sml_global_enum_ptr m (p # ps) =
     (case enum_all_tops m (take (num_tops p) (TOPS p)) of
        Inl e \<Rightarrow> Inl e
      | Inr ss \<Rightarrow> (case sml_global_enum_ptr m ps of Inl e \<Rightarrow> Inl e | Inr rest \<Rightarrow> Inr (ss @ rest)))"

section \<open>Sorting\<close>

text \<open>What the sort needs of the comparison: it is a total preorder.\<close>

locale total_cmp =
  fixes cmp :: "'a \<Rightarrow> 'a \<Rightarrow> int"
  assumes total: "cmp x y \<le> 0 \<or> cmp y x \<le> 0"
    and trans: "cmp x y \<le> 0 \<Longrightarrow> cmp y z \<le> 0 \<Longrightarrow> cmp x z \<le> 0"
begin

lemma insert_by_mset: "mset (insert_by cmp x xs) = add_mset x (mset xs)"
  by (induction xs) auto

lemma insert_by_sorted:
  assumes "sorted_wrt (\<lambda>x y. cmp x y \<le> 0) xs"
  shows "sorted_wrt (\<lambda>x y. cmp x y \<le> 0) (insert_by cmp x xs)"
  using assms
proof (induction xs)
  case (Cons y ys)
  have s: "set (insert_by cmp x ys) = insert x (set ys)"
    using insert_by_mset [of x ys] by (metis set_mset_add_mset_insert set_mset_mset)
  then show ?case using Cons total [of x y] trans by auto
qed simp

lemma qsort_mset: "mset (qsort cmp xs) = mset xs"
  by (induction xs) (auto simp: qsort_def insert_by_mset)

lemma qsort_sorted: "sorted_wrt (\<lambda>x y. cmp x y \<le> 0) (qsort cmp xs)"
  by (induction xs) (auto simp: qsort_def intro: insert_by_sorted)

end

interpretation safe_points: total_cmp cmp_safe_point
  by unfold_locales (auto simp: cmp_safe_point_def split: if_splits)


section \<open>Scanning a frame table\<close>

lemma layouts_from_scan:
  assumes "\<And>k. k < n \<Longrightarrow> num_safe_points m ((NEXT_LAYOUT m ^^ k) t) > 0"
    and "num_safe_points m ((NEXT_LAYOUT m ^^ n) t) = 0"
  shows "layouts_from m t = Some (map (\<lambda>k. (NEXT_LAYOUT m ^^ k) t) [0..<n])"
  using assms
proof (induction n arbitrary: t)
  case 0
  then show ?case by (subst layouts_from.simps) simp
next
  case (Suc n)
  have "layouts_from m (NEXT_LAYOUT m t) = Some (map (\<lambda>k. (NEXT_LAYOUT m ^^ k) (NEXT_LAYOUT m t)) [0..<n])"
    by (rule Suc.IH) (use Suc.prems(1) [of "Suc _"] Suc.prems(2) in \<open>auto simp: funpow_swap1\<close>)
  moreover have "num_safe_points m t > 0" using Suc.prems(1) [of 0] by simp
  ultimately show ?case
    by (subst layouts_from.simps) (simp add: map_upt_Suc funpow_swap1 del: upt_Suc)
qed

lemma layouts_from_ge: "layouts_from m t = Some ts \<Longrightarrow> u \<in> set ts \<Longrightarrow> t \<le> u"
proof (induction ts arbitrary: t)
  case (Cons a ts)
  then have "num_safe_points m t > 0" by (subst (asm) layouts_from.simps) (auto split: if_splits)
  with Cons.prems(1) have a: "a = t" "layouts_from m (NEXT_LAYOUT m t) = Some ts"
    by (subst (asm) layouts_from.simps; auto simp: bind_eq_Some_conv)+
  have "t \<le> NEXT_LAYOUT m t" by (simp add: NEXT_LAYOUT_def SAFE_POINTS_def)
  then show ?case using Cons.IH [OF a(2)] Cons.prems(2) a(1) by fastforce
qed simp

section \<open>Blocks\<close>

text \<open>
  A block under construction: its items are the points and the toplevel entries counted, and
  they fit into the memory allocated for it.
\<close>

definition gcroot_inv :: "sml_gcroot \<Rightarrow> bool" where
  "gcroot_inv g \<longleftrightarrow>
     length (gc_item g) = num_points g + num_tops g \<and>
     length (filter (\<lambda>s. sp_layout s \<noteq> NULL) (gc_item g)) = num_points g \<and>
     SIZEOF_GCROOT + SIZEOF_SAFE_POINT * length (gc_item g) \<le> allocsize g"

lemma page_size: "PAGE_SIZE = 4096"
  by (simp add: PAGE_SIZE_def CEILING_def)

lemma new_gcroot_inv: "gcroot_inv new_gcroot"
  by (simp add: gcroot_inv_def new_gcroot_def page_size)

lemma alloc_safe_points_fits:
  assumes "SIZEOF_GCROOT + SIZEOF_SAFE_POINT * (num_points g + num_tops g) \<le> allocsize g"
  shows "SIZEOF_GCROOT + SIZEOF_SAFE_POINT * (num_points g + num_tops g + inc)
      \<le> allocsize (alloc_safe_points g inc)"
    and "num_points (alloc_safe_points g inc) = num_points g + inc"
    and "num_tops (alloc_safe_points g inc) = num_tops g"
    and "gc_item (alloc_safe_points g inc) = gc_item g"
proof -
  let ?n = "num_points g + num_tops g"
  show "SIZEOF_GCROOT + SIZEOF_SAFE_POINT * (?n + inc) \<le> allocsize (alloc_safe_points g inc)"
  proof (cases "REST_SAFE_POINTS g < inc")
    case True
    then show ?thesis
      using ceiling_ge [of PAGE_SIZE "SIZEOF_GCROOT + (?n + inc) * SIZEOF_SAFE_POINT"]
      by (simp add: alloc_safe_points_def page_size Let_def mult.commute)
  next
    case False
    then have "?n + inc \<le> (allocsize g - 32) div 16" using assms by (simp add: REST_SAFE_POINTS_def)
    then have "16 * (?n + inc) \<le> allocsize g - 32"
      by (metis le_trans mult_le_mono2 times_div_less_eq_dividend)
    then show ?thesis using False assms by (simp add: alloc_safe_points_def)
  qed
qed (simp_all add: alloc_safe_points_def Let_def)

lemma layout_points_length:
  "length (concat (map (layout_points m b) ts)) = sum_list (map (num_safe_points m) ts)"
  by (induction ts) (auto simp: layout_points_def)

lemma gcroot_add_inv:
  assumes inv: "gcroot_inv g" and add: "sml_gcroot_add m g b ft rt = Some g'"
  shows "gcroot_inv g'"
proof -
  from add obtain ts where ts: "(if ft \<noteq> NULL then layouts_from m ft else Some []) = Some ts"
    by (auto simp: sml_gcroot_add_def split: option.splits)
  let ?pts = "concat (map (layout_points m b) ts)"
  let ?inc = "sum_list (map (num_safe_points m) ts) + (if rt \<noteq> NULL then 1 else 0)"
  have nn: "u \<noteq> NULL" if "u \<in> set ts" for u
    using ts layouts_from_ge that by (fastforce split: if_splits)
  have flt: "filter (\<lambda>s. sp_layout s \<noteq> NULL) ?pts = ?pts"
    by (rule filter_True) (use nn in \<open>auto simp: layout_points_def\<close>)
  have fits: "SIZEOF_GCROOT + SIZEOF_SAFE_POINT * (num_points g + num_tops g) \<le> allocsize g"
    using inv by (simp add: gcroot_inv_def)
  note al = alloc_safe_points_fits [OF fits, of ?inc]
  show ?thesis
    using inv add ts al flt layout_points_length [of m b ts]
    by (auto simp: gcroot_inv_def sml_gcroot_add_def Let_def)
qed

lemma run_loads_inv: "gcroot_inv g \<Longrightarrow> run_loads m g ls = Some g' \<Longrightarrow> gcroot_inv g'"
  by (induction m g ls rule: run_loads.induct) (auto split: option.splits dest: gcroot_add_inv)

text \<open>The safe points of a block, and a block that can be searched.\<close>

definition points :: "sml_gcroot \<Rightarrow> safe_point list" where
  "points g = take (num_points g) (gc_item g)"

definition searchable :: "sml_gcroot \<Rightarrow> bool" where
  "searchable g \<longleftrightarrow> num_points g \<le> length (gc_item g) \<and> sorted_wrt (\<lambda>s t. sp_addr s < sp_addr t) (points g)"

lemma sorted_layouts_first:
  assumes "sorted_wrt (\<lambda>s t. cmp_safe_point s t \<le> 0) xs"
  shows "take (length (filter (\<lambda>s. sp_layout s \<noteq> NULL) xs)) xs = filter (\<lambda>s. sp_layout s \<noteq> NULL) xs"
  using assms
proof (induction xs)
  case (Cons x xs)
  show ?case
  proof (cases "sp_layout x = NULL")
    case True
    then have "filter (\<lambda>s. sp_layout s \<noteq> NULL) xs = []"
      using Cons.prems by (auto simp: filter_empty_conv cmp_safe_point_def split: if_splits)
    then show ?thesis using True by simp
  next
    case False
    then show ?thesis using Cons by simp
  qed
qed simp

lemma points_strict:
  "distinct (map sp_addr xs) \<Longrightarrow> sorted_wrt (\<lambda>s t. cmp_safe_point s t \<le> 0) xs \<Longrightarrow>
     \<forall>s\<in>set xs. sp_layout s \<noteq> NULL \<Longrightarrow> sorted_wrt (\<lambda>s t. sp_addr s < sp_addr t) xs"
  by (induction xs) (force simp: cmp_safe_point_def split: if_splits)+

lemma sort_safe_points_searchable:
  assumes inv: "gcroot_inv g"
    and dist: "distinct (map sp_addr (filter (\<lambda>s. sp_layout s \<noteq> NULL) (gc_item g)))"
  shows "searchable (sort_safe_points g)"
    and "mset (points (sort_safe_points g)) = mset (filter (\<lambda>s. sp_layout s \<noteq> NULL) (gc_item g))"
    and "gcroot_inv (sort_safe_points g)"
proof -
  let ?P = "\<lambda>s. sp_layout s \<noteq> NULL" and ?s = "qsort cmp_safe_point (gc_item g)"
  have eq: "gc_item (sort_safe_points g) = ?s" "num_points (sort_safe_points g) = num_points g"
    "num_tops (sort_safe_points g) = num_tops g" "allocsize (sort_safe_points g) = allocsize g"
    using inv by (simp_all add: sort_safe_points_def gcroot_inv_def)
  have ms: "mset ?s = mset (gc_item g)" by (rule safe_points.qsort_mset)
  have fl: "mset (filter ?P ?s) = mset (filter ?P (gc_item g))" by (simp only: mset_filter ms)
  then have len: "length (filter ?P ?s) = num_points g" using inv by (metis gcroot_inv_def size_mset)
  have pts: "points (sort_safe_points g) = filter ?P ?s"
    using sorted_layouts_first [OF safe_points.qsort_sorted, of "gc_item g"] len
    by (simp add: points_def eq)
  show "mset (points (sort_safe_points g)) = mset (filter ?P (gc_item g))"
    unfolding pts by (rule fl)
  have "distinct (map sp_addr (filter ?P ?s))"
    using dist fl by (metis mset_eq_imp_distinct_iff mset_map)
  moreover have "sorted_wrt (\<lambda>s t. cmp_safe_point s t \<le> 0) (filter ?P ?s)"
    by (rule sorted_wrt_filter) (rule safe_points.qsort_sorted)
  ultimately have "sorted_wrt (\<lambda>s t. sp_addr s < sp_addr t) (filter ?P ?s)"
    by (rule points_strict) simp
  then show "searchable (sort_safe_points g)"
    using len length_filter_le [of ?P ?s] unfolding searchable_def pts eq by simp
  show "gcroot_inv (sort_safe_points g)"
    using inv len ms unfolding gcroot_inv_def eq by (metis size_mset)
qed


section \<open>Searching\<close>

lemma search_range_spec:
  assumes "\<And>i j. i < j \<Longrightarrow> j < r \<Longrightarrow> sp_addr (xs ! i) < sp_addr (xs ! j)"
  shows "(\<forall>s. search_range key xs l r = Some s \<longrightarrow> (\<exists>i. l \<le> i \<and> i < r \<and> s = xs ! i \<and> sp_addr (xs ! i) = key)) \<and>
    (\<forall>i. l \<le> i \<and> i < r \<and> sp_addr (xs ! i) = key \<longrightarrow> search_range key xs l r = Some (xs ! i))"
  using assms
proof (induction key xs l r rule: search_range.induct)
  case (1 key xs l r)
  let ?c = "(l + r) div 2"
  note mono = 1(3)
  show ?case
  proof (cases "l < r")
    case False
    then show ?thesis by (subst (1 2) search_range.simps) auto
  next
    case lr: True
    then have c: "l \<le> ?c" "?c < r" by auto
    consider (eq) "sp_addr (xs ! ?c) = key" | (lt) "sp_addr (xs ! ?c) < key" | (gt) "key < sp_addr (xs ! ?c)"
      by linarith
    then show ?thesis
    proof cases
      case eq
      have "i = ?c" if "i < r" "sp_addr (xs ! i) = key" for i
        using that eq mono [of i ?c] mono [of ?c i] c(2) by (metis less_irrefl nat_neq_iff)
      moreover have run: "search_range key xs l r = Some (xs ! ?c)"
        using lr eq by (subst search_range.simps) (simp add: Let_def)
      ultimately show ?thesis unfolding run using c eq by blast
    next
      case lt
      have step: "search_range key xs l r = search_range key xs (?c + 1) r"
        using lr lt by (subst search_range.simps) (simp add: Let_def)
      have above: "?c + 1 \<le> i" if "i < r" "sp_addr (xs ! i) = key" for i
        using that lt mono [of i ?c] c(2) by (metis Suc_eq_plus1 Suc_leI less_asym nat_neq_iff)
      have IH: "(\<forall>s. search_range key xs (?c + 1) r = Some s \<longrightarrow>
            (\<exists>i. ?c + 1 \<le> i \<and> i < r \<and> s = xs ! i \<and> sp_addr (xs ! i) = key)) \<and>
          (\<forall>i. ?c + 1 \<le> i \<and> i < r \<and> sp_addr (xs ! i) = key \<longrightarrow> search_range key xs (?c + 1) r = Some (xs ! i))"
        by (rule 1(1) [OF lr refl]) (use lt mono in auto)
      have "l \<le> i" if "?c + 1 \<le> i" for i using that c(1) by simp
      then show ?thesis unfolding step using IH above by blast
    next
      case gt
      have step: "search_range key xs l r = search_range key xs l ?c"
        using lr gt by (subst search_range.simps) (simp add: Let_def)
      have below: "i < ?c" if "i < r" "sp_addr (xs ! i) = key" for i
        using that gt mono [of ?c i] c(2) by (metis less_asym nat_neq_iff)
      show ?thesis
      proof -
        have IH: "(\<forall>s. search_range key xs l ?c = Some s \<longrightarrow> (\<exists>i. l \<le> i \<and> i < ?c \<and> s = xs ! i \<and> sp_addr (xs ! i) = key)) \<and>
            (\<forall>i. l \<le> i \<and> i < ?c \<and> sp_addr (xs ! i) = key \<longrightarrow> search_range key xs l ?c = Some (xs ! i))"
          by (rule 1(2) [OF lr refl]) (use gt c mono in auto)
        have "i < r" if "i < ?c" for i using that c(2) by simp
        then show ?thesis unfolding step using IH below by blast
      qed
    qed
  qed
qed

lemma binary_search_points:
  assumes "searchable g"
  shows "binary_search key (gc_item g) (num_points g) = find (\<lambda>s. sp_addr s = key) (points g)"
proof -
  let ?n = "num_points g" and ?xs = "gc_item g"
  have nth: "points g ! i = ?xs ! i" if "i < ?n" for i
    using that by (simp add: points_def)
  have len: "length (points g) = ?n" using assms by (simp add: points_def searchable_def)
  have mono: "sp_addr (?xs ! i) < sp_addr (?xs ! j)" if "i < j" "j < ?n" for i j
    using assms that sorted_wrt_nth_less [of "\<lambda>s t. sp_addr s < sp_addr t" "points g" i j] nth len
    by (simp add: searchable_def)
  note spec = search_range_spec [of ?n ?xs key 0, OF mono]
  show ?thesis
  proof (cases "find (\<lambda>s. sp_addr s = key) (points g)")
    case None
    then have "\<forall>s\<in>set (points g). sp_addr s \<noteq> key" by (auto simp: find_None_iff)
    then have "sp_addr (?xs ! i) \<noteq> key" if "i < ?n" for i
      using nth_mem [of i "points g"] that nth [OF that] len by simp
    then have "search_range key ?xs 0 ?n \<noteq> Some s" for s using spec by blast
    then have "search_range key ?xs 0 ?n = None" by (cases "search_range key ?xs 0 ?n") auto
    then show ?thesis using None by (simp add: binary_search_def)
  next
    case (Some s)
    then obtain i where i: "i < ?n" "s = ?xs ! i" "sp_addr s = key"
      using len nth by (auto simp: find_Some_iff)
    then have "search_range key ?xs 0 ?n = Some s" using spec by auto
    then show ?thesis using Some by (simp add: binary_search_def)
  qed
qed

lemma find_distinct:
  "distinct (map f xs) \<Longrightarrow> s \<in> set xs \<Longrightarrow> find (\<lambda>x. f x = f s) xs = Some s"
proof (induction xs)
  case (Cons x xs)
  then show ?case by (cases "s = x") (auto simp: image_iff)
qed simp

lemma lookup_spec:
  assumes "\<forall>g\<in>set gl. searchable g"
  shows "sml_lookup_frametable gl a =
    (case find (\<lambda>s. sp_addr s = a) (concat (map points gl)) of
       Some s \<Rightarrow> Inr (sp_layout s) | None \<Rightarrow> Inl (Fatal ''frametable lookup failed''))"
proof -
  have fa: "find P (xs @ ys) = (case find P xs of None \<Rightarrow> find P ys | Some x \<Rightarrow> Some x)" for P xs and ys :: "'x list"
    by (induction xs) auto
  show ?thesis using assms
    by (induction gl) (auto simp: binary_search_points fa split: option.splits)
qed


section \<open>Properties\<close>

text \<open>A memory with one frame table at 64 (two safe points, one root) for the witnesses.\<close>

definition sample_table :: mem where
  "sample_table =
     store64 (store64 (store_le (store_le (store_le (store_le (\<lambda>_. 0) 64 2 2) 66 2 4) 68 2 1) 70 2 3)
       72 16) 80 (2 ^ 64 - 8)"

lemma sample_table_loads:
  "load_le sample_table 64 2 = 2" "load_le sample_table 66 2 = 4" "load_le sample_table 68 2 = 1"
  "load_le sample_table 70 2 = 3" "load_le sample_table 88 2 = 0"
  "load64 sample_table 72 = 16" "load64 sample_table 80 = 2 ^ 64 - 8"
proof -
  have lt: "(2 :: nat) < 256 ^ 2" "(1 :: nat) < 256 ^ 2" "(3 :: nat) < 256 ^ 2" "(4 :: nat) < 256 ^ 2" by simp_all
  show "load_le sample_table 64 2 = 2" "load_le sample_table 66 2 = 4" "load_le sample_table 68 2 = 1"
    "load_le sample_table 70 2 = 3" "load_le sample_table 88 2 = 0"
    by (simp_all add: sample_table_def store64_def load_store_le_other load_store_le_same lt)
      (simp add: numeral_2_eq_2)
  show "load64 sample_table 72 = 16" "load64 sample_table 80 = 2 ^ 64 - 8"
    by (simp_all add: sample_table_def load64_store64_other)
qed

text \<open>
  The format of a frame table as the compiler's plugin documents it: for each function the frame
  size, the root offsets and the safe points, which are byte offsets from the code base; the
  safe points start at the next multiple of 8 behind the root offsets, and an entry without safe
  points ends the table.
\<close>

record frame_desc =
  fd_frame_size :: nat
  fd_roots :: "nat list"
  fd_points :: "int list"

definition desc_points_offset :: "frame_desc \<Rightarrow> nat" where
  "desc_points_offset d = 8 * ((6 + 2 * length (fd_roots d) + 7) div 8)"

fun table_at :: "mem \<Rightarrow> addr \<Rightarrow> frame_desc list \<Rightarrow> bool" where
  "table_at m t [] \<longleftrightarrow> load_le m t 2 = 0"
| "table_at m t (d # ds) \<longleftrightarrow>
     fd_points d \<noteq> [] \<and> load_le m t 2 = length (fd_points d) \<and> load_le m (t + 2) 2 = fd_frame_size d \<and>
     load_le m (t + 4) 2 = length (fd_roots d) \<and>
     (\<forall>i<length (fd_roots d). load_le m (t + 6 + 2 * i) 2 = fd_roots d ! i) \<and>
     (\<forall>i<length (fd_points d).
        load_le m (t + desc_points_offset d + 8 * i) 8 = nat (fd_points d ! i mod 2 ^ 64)) \<and>
     table_at m (t + desc_points_offset d + 8 * length (fd_points d)) ds"

text \<open>The code addresses of the safe points of a table, each with the address of its descriptor.\<close>

fun table_points :: "addr \<Rightarrow> addr \<Rightarrow> frame_desc list \<Rightarrow> (addr \<times> addr) list" where
  "table_points base t [] = []"
| "table_points base t (d # ds) =
     map (\<lambda>off. (nat ((int base + off) mod 2 ^ 64), t)) (fd_points d) @
     table_points base (t + desc_points_offset d + 8 * length (fd_points d)) ds"

text \<open>
  A program: for each object file the code base, the frame table, the toplevel objects and the
  descriptors that the table holds (none when the pointer to it is null).
\<close>

type_synonym object_file = "addr \<times> addr \<times> addr \<times> frame_desc list"

fun file_at :: "mem \<Rightarrow> object_file \<Rightarrow> bool" where
  "file_at m (base, ftab, root, ds) \<longleftrightarrow> (if ftab = NULL then ds = [] else table_at m ftab ds)"

fun file_load :: "object_file \<Rightarrow> addr \<times> addr \<times> addr" where
  "file_load (base, ftab, root, ds) = (base, ftab, root)"

fun file_points :: "object_file \<Rightarrow> (addr \<times> addr) list" where
  "file_points (base, ftab, root, ds) = table_points base ftab ds"

definition program_points :: "object_file list \<Rightarrow> (addr \<times> addr) list" where
  "program_points prog = concat (map file_points prog)"

definition point_item :: "addr \<times> addr \<Rightarrow> safe_point" where
  "point_item p = \<lparr>sp_addr = fst p, sp_layout = snd p\<rparr>"

lemma point_item_simps [simp]: "sp_addr (point_item p) = fst p" "sp_layout (point_item p) = snd p"
  by (simp_all add: point_item_def)

lemma offset_addr_signed:
  assumes "load64 m a = nat (off mod 2 ^ 64)"
  shows "offset_addr base (load64s m a) = nat ((int base + off) mod 2 ^ 64)"
proof -
  have "int (load64 m a) = off mod 2 ^ 64" using assms by simp
  then have "load64s m a mod 2 ^ 64 = off mod 2 ^ 64"
    unfolding load64s_def by (auto simp: mod_diff_left_eq)
  then have "(int base + load64s m a) mod 2 ^ 64 = (int base + off) mod 2 ^ 64"
    by (rule mod_add_cong [OF refl])
  then show ?thesis by (simp add: offset_addr_def)
qed

lemma ceiling8: "CEILING n 8 = 8 * ((n + 7) div 8)"
  by (simp add: CEILING_def minus_mod_eq_mult_div)

lemma table_descriptor:
  assumes "table_at m t (d # ds)"
  shows "num_safe_points m t = length (fd_points d)"
    and "NEXT_LAYOUT m t = t + desc_points_offset d + 8 * length (fd_points d)"
    and "layout_points m base t
      = map (\<lambda>off. \<lparr>sp_addr = nat ((int base + off) mod 2 ^ 64), sp_layout = t\<rparr>) (fd_points d)"
proof -
  show n: "num_safe_points m t = length (fd_points d)"
    using assms by (simp add: num_safe_points_def load16_def)
  have sp: "SAFE_POINTS m t = t + desc_points_offset d"
    using assms by (simp add: SAFE_POINTS_def SAFE_POINTS_OFFSET_def LAYOUT_SIZE_def num_roots_def load16_def
        ceiling8 desc_points_offset_def)
  then show "NEXT_LAYOUT m t = t + desc_points_offset d + 8 * length (fd_points d)"
    by (simp add: NEXT_LAYOUT_def n)
  have "offset_addr base (load64s m (SAFE_POINTS m t + 8 * i))
      = nat ((int base + fd_points d ! i) mod 2 ^ 64)" if "i < length (fd_points d)" for i
    by (rule offset_addr_signed) (use assms sp that in \<open>simp add: load64_def\<close>)
  then show "layout_points m base t
      = map (\<lambda>off. \<lparr>sp_addr = nat ((int base + off) mod 2 ^ 64), sp_layout = t\<rparr>) (fd_points d)"
    unfolding layout_points_def n by (intro nth_equalityI) simp_all
qed

lemma table_scan:
  "table_at m t ds \<Longrightarrow> \<exists>ts. layouts_from m t = Some ts \<and>
     concat (map (layout_points m base) ts) = map point_item (table_points base t ds)"
proof (induction ds arbitrary: t)
  case Nil
  then show ?case by (subst layouts_from.simps) (simp add: num_safe_points_def load16_def)
next
  case (Cons d ds)
  note td = table_descriptor [OF Cons.prems]
  have "table_at m (NEXT_LAYOUT m t) ds" using Cons.prems unfolding td(2) by simp
  from Cons.IH [OF this] obtain ts where ts: "layouts_from m (NEXT_LAYOUT m t) = Some ts"
    "concat (map (layout_points m base) ts) = map point_item (table_points base (NEXT_LAYOUT m t) ds)"
    by blast
  have "num_safe_points m t > 0" using td(1) Cons.prems by simp
  then have "layouts_from m t = Some (t # ts)" using ts(1) by (subst layouts_from.simps) simp
  then show ?case using ts(2) td by (simp add: point_item_def)
qed

lemma table_points_above: "(p, u) \<in> set (table_points base t ds) \<Longrightarrow> t \<le> u"
  by (induction base t ds rule: table_points.induct) auto

lemma file_points_layout: "file_at m f \<Longrightarrow> q \<in> set (file_points f) \<Longrightarrow> snd q \<noteq> NULL"
  by (cases f; cases q) (auto split: if_splits dest: table_points_above)

lemma gcroot_add_file:
  assumes "file_at m f" and "file_load f = (base, ftab, root)"
  shows "\<exists>g'. sml_gcroot_add m g base ftab root = Some g' \<and>
    filter (\<lambda>s. sp_layout s \<noteq> NULL) (gc_item g')
      = filter (\<lambda>s. sp_layout s \<noteq> NULL) (gc_item g) @ map point_item (file_points f)"
proof -
  obtain ds where f: "f = (base, ftab, root, ds)" using assms(2) by (cases f) simp
  have "\<exists>ts. (if ftab \<noteq> NULL then layouts_from m ftab else Some []) = Some ts \<and>
      concat (map (layout_points m base) ts) = map point_item (file_points f)"
    using assms(1) table_scan [of m ftab ds base] unfolding f by (cases "ftab = NULL") auto
  then obtain ts where ts: "(if ftab \<noteq> NULL then layouts_from m ftab else Some []) = Some ts"
    "concat (map (layout_points m base) ts) = map point_item (file_points f)" by blast
  have "filter (\<lambda>s. sp_layout s \<noteq> NULL) (map point_item (file_points f)) = map point_item (file_points f)"
    by (rule filter_True) (use file_points_layout [OF assms(1)] in auto)
  then show ?thesis
    unfolding sml_gcroot_add_def ts(1) by (simp add: ts(2) Let_def alloc_safe_points_def)
qed

lemma run_loads_program:
  assumes "\<forall>f\<in>set prog. file_at m f"
  shows "\<exists>g'. run_loads m g (map file_load prog) = Some g' \<and>
    filter (\<lambda>s. sp_layout s \<noteq> NULL) (gc_item g')
      = filter (\<lambda>s. sp_layout s \<noteq> NULL) (gc_item g) @ map point_item (program_points prog)"
  using assms
proof (induction prog arbitrary: g)
  case (Cons f prog)
  obtain base ftab root where fl: "file_load f = (base, ftab, root)" by (cases "file_load f")
  obtain g1 where g1: "sml_gcroot_add m g base ftab root = Some g1"
    "filter (\<lambda>s. sp_layout s \<noteq> NULL) (gc_item g1)
      = filter (\<lambda>s. sp_layout s \<noteq> NULL) (gc_item g) @ map point_item (file_points f)"
    using gcroot_add_file [OF _ fl, of m g] Cons.prems by auto
  then show ?case using Cons.IH [of g1] Cons.prems fl by (auto simp: program_points_def)
qed (simp add: program_points_def)

lemma lookup_registered:
  assumes "searchable g" and "\<forall>g\<in>set gl. searchable g" and "gl = [] \<or> a \<notin> sp_addr ` set (points (hd gl))"
    and "s \<in> set (points g)" and "sp_addr s = a" and "distinct (map sp_addr (points g))"
  shows "sml_lookup_frametable (register_gcroot g gl) a = Inr (sp_layout s)"
proof -
  have f: "find (\<lambda>x. sp_addr x = a) (points g) = Some s" using find_distinct [OF assms(6,4)] assms(5) by simp
  have none: "find (\<lambda>x. sp_addr x = a) (points (hd gl)) = None" if "gl \<noteq> []"
    using assms(3) that by (auto simp: find_None_iff image_iff)
  show ?thesis using f none assms(1,2) by (cases gl) (simp_all add: binary_search_points)
qed

lemma lookup_unregistered:
  assumes "searchable g" and "\<forall>g\<in>set gl. searchable g" and "a \<notin> sp_addr ` set (points g)"
  shows "sml_lookup_frametable (register_gcroot g gl) a = sml_lookup_frametable gl a"
proof -
  have "find (\<lambda>x. sp_addr x = a) (points g) = None" using assms(3) by (auto simp: find_None_iff image_iff)
  then show ?thesis using assms(1,2) by (cases gl) (simp_all add: binary_search_points split: option.split)
qed

text \<open>
  C16: loading a program.  The memory holds the frame tables of the program's object files in the
  documented format, and no two safe points of the program have the same address.  Then
  \<open>sml_gcroot_load\<close> returns (its scan of the tables ends) with a block whose items fit into the
  memory allocated for it, and registers it so that \<open>sml_lookup_frametable\<close> answers for each safe
  point, whose address is its offset added to the code base of its object file, the descriptor
  of its function, unless the program loaded first has a safe point at the same address; and
  for every address that is no safe point of the new program the answer stays as it was.
\<close>

theorem gcroot_load_lookup:
  assumes "\<forall>f\<in>set prog. file_at m f" and "distinct (map fst (program_points prog))"
    and "\<forall>g\<in>set gl. searchable g"
  shows "\<exists>g' gl'. sml_gcroot_load m (map file_load prog) gl = Some (g', gl') \<and>
    SIZEOF_GCROOT + SIZEOF_SAFE_POINT * length (gc_item g') \<le> allocsize g' \<and>
    (\<forall>p t. (p, t) \<in> set (program_points prog) \<and> (gl = [] \<or> p \<notin> sp_addr ` set (points (hd gl)))
       \<longrightarrow> sml_lookup_frametable gl' p = Inr t) \<and>
    (\<forall>p. p \<notin> fst ` set (program_points prog)
       \<longrightarrow> sml_lookup_frametable gl' p = sml_lookup_frametable gl p)"
proof -
  let ?P = "\<lambda>s. sp_layout s \<noteq> NULL"
  obtain g where g: "run_loads m new_gcroot (map file_load prog) = Some g"
    and items: "filter ?P (gc_item g) = map point_item (program_points prog)"
    using run_loads_program [OF assms(1), of new_gcroot] by (auto simp: new_gcroot_def)
  have fst: "map sp_addr (map point_item qs) = map fst qs" for qs by simp
  have dist: "distinct (map sp_addr (filter ?P (gc_item g)))" unfolding items fst by (rule assms(2))
  let ?g = "sort_safe_points g"
  note so = sort_safe_points_searchable [OF run_loads_inv [OF new_gcroot_inv g] dist]
  have pts: "set (points ?g) = point_item ` set (program_points prog)"
    using so(2) unfolding items by (metis set_mset_mset set_map)
  have "distinct (map sp_addr (points ?g))" using so(2) dist by (metis mset_eq_imp_distinct_iff mset_map)
  then have "sml_lookup_frametable (register_gcroot ?g gl) p = Inr t"
    if "(p, t) \<in> set (program_points prog)" "gl = [] \<or> p \<notin> sp_addr ` set (points (hd gl))" for p t
    using lookup_registered [OF so(1) assms(3) that(2), of "point_item (p, t)"] that(1) pts by simp
  moreover have "sml_lookup_frametable (register_gcroot ?g gl) p = sml_lookup_frametable gl p"
    if "p \<notin> fst ` set (program_points prog)" for p
    by (rule lookup_unregistered [OF so(1) assms(3)]) (use that pts in \<open>auto simp: image_iff\<close>)
  moreover have "sml_gcroot_load m (map file_load prog) gl = Some (?g, register_gcroot ?g gl)"
    using g by (simp add: sml_gcroot_load_def Let_def)
  moreover have "SIZEOF_GCROOT + SIZEOF_SAFE_POINT * length (gc_item ?g) \<le> allocsize ?g"
    using so(3) by (simp add: gcroot_inv_def)
  ultimately show ?thesis by blast
qed

definition sample_block :: sml_gcroot where
  "sample_block = \<lparr>num_points = 2, num_tops = 1, allocsize = 4096,
     gc_item = [\<lparr>sp_addr = 1016, sp_layout = 64\<rparr>, \<lparr>sp_addr = 1008, sp_layout = 64\<rparr>,
                \<lparr>sp_addr = 2000, sp_layout = 0\<rparr>]\<rparr>"

definition sample_program :: "object_file list" where
  "sample_program = [(1000, 64, 2000, [\<lparr>fd_frame_size = 4, fd_roots = [3], fd_points = [16, - 8]\<rparr>])]"

lemma sample_program_at: "\<forall>f\<in>set sample_program. file_at sample_table f"
proof -
  have "load_le sample_table (70 + 2 * i) 2 = 3" if "i < 1" for i using that sample_table_loads by simp
  moreover have "load_le sample_table (72 + 8 * i) 8 = nat ([16, - 8] ! i mod 2 ^ 64)" if "i < 2" for i
    using that sample_table_loads by (cases i) (auto simp: load64_def)
  ultimately show ?thesis
    using sample_table_loads by (simp add: sample_program_def desc_points_offset_def)
qed

theorem gcroot_load_lookup_witness:
  "\<exists>g' gl'. sml_gcroot_load sample_table [(1000, 64, 2000)] [] = Some (g', gl') \<and>
     sml_lookup_frametable gl' 1016 = Inr 64 \<and> sml_lookup_frametable gl' 992 = Inr 64 \<and>
     sml_lookup_frametable gl' 1008 = Inl (Fatal ''frametable lookup failed'')"
proof -
  have "map file_load sample_program = [(1000, 64, 2000)]"
    and "program_points sample_program = [(1016, 64), (992, 64)]"
    by (simp_all add: sample_program_def program_points_def)
  then show ?thesis using gcroot_load_lookup [OF sample_program_at, of "[]"] by auto
qed

text \<open>
  \<open>sml_lookup_frametable\<close> over any list of searchable blocks answers the layout of the first
  block in list order that has the address, and is a fatal error exactly when none has it;
  the list order is the first program, then the others from the last one loaded.
\<close>

lemma lookup_first_match:
  assumes "\<forall>g\<in>set gl. searchable g"
  shows "sml_lookup_frametable (foldl (\<lambda>l g. register_gcroot g l) [] gl) a =
    (case find (\<lambda>s. sp_addr s = a)
        (concat (map points (case gl of [] \<Rightarrow> [] | first # rest \<Rightarrow> first # rev rest))) of
       Some s \<Rightarrow> Inr (sp_layout s) | None \<Rightarrow> Inl (Fatal ''frametable lookup failed''))"
proof -
  have reg: "foldl (\<lambda>l g. register_gcroot g l) (f # l) gs = f # rev gs @ l" for f gs l
    by (induction gs arbitrary: l) auto
  let ?gl = "case gl of [] \<Rightarrow> [] | first # rest \<Rightarrow> first # rev rest"
  have eq: "foldl (\<lambda>l g. register_gcroot g l) [] gl = ?gl"
    using reg [of _ "[]"] by (cases gl) simp_all
  have "\<forall>g\<in>set ?gl. searchable g" using assms by (cases gl) auto
  then show ?thesis unfolding eq by (rule lookup_spec)
qed

lemma lookup_append:
  "sml_lookup_frametable (xs @ ys) a
   = (case sml_lookup_frametable xs a of Inl e \<Rightarrow> sml_lookup_frametable ys a | Inr t \<Rightarrow> Inr t)"
  by (induction xs) (auto split: option.split)

lemma enum_append:
  "sml_global_enum_ptr m (xs @ ys)
   = (case sml_global_enum_ptr m xs of Inl e \<Rightarrow> Inl e
      | Inr ss \<Rightarrow> (case sml_global_enum_ptr m ys of Inl e \<Rightarrow> Inl e | Inr rest \<Rightarrow> Inr (ss @ rest)))"
  by (induction xs) (auto split: sum.split)

lemma unload_without:
  assumes "i < length gl"
  shows "sml_lookup_frametable (sml_gcroot_unload i gl) a = sml_lookup_frametable (take i gl @ drop (Suc i) gl) a"
    and "sml_global_enum_ptr m (sml_gcroot_unload i gl) = sml_global_enum_ptr m (take i gl @ drop (Suc i) gl)"
proof -
  let ?g = "(gl ! i)\<lparr>num_points := 0, num_tops := 0\<rparr>"
  have un: "sml_gcroot_unload i gl = take i gl @ ?g # drop (Suc i) gl"
    using assms by (simp add: sml_gcroot_unload_def upd_conv_take_nth_drop)
  have "sml_lookup_frametable (?g # gs) a = sml_lookup_frametable gs a" for gs
    by (simp add: binary_search_def search_range.simps)
  then show "sml_lookup_frametable (sml_gcroot_unload i gl) a = sml_lookup_frametable (take i gl @ drop (Suc i) gl) a"
    by (simp only: un lookup_append)
  have "sml_global_enum_ptr m (?g # gs) = sml_global_enum_ptr m gs" for gs
    by (simp split: sum.split)
  then show "sml_global_enum_ptr m (sml_gcroot_unload i gl) = sml_global_enum_ptr m (take i gl @ drop (Suc i) gl)"
    by (simp only: un enum_append)
qed

lemma unload_facts:
  assumes "i < length gl" and "\<forall>g\<in>set gl. searchable g"
  shows "sml_lookup_frametable (sml_gcroot_unload i gl) a = sml_lookup_frametable (take i gl @ drop (Suc i) gl) a"
    and "sml_global_enum_ptr m (sml_gcroot_unload i gl) = sml_global_enum_ptr m (take i gl @ drop (Suc i) gl)"
    and "(\<forall>g\<in>set (take i gl @ drop (Suc i) gl). a \<notin> sp_addr ` set (points g)) \<Longrightarrow>
      sml_lookup_frametable (sml_gcroot_unload i gl) a = Inl (Fatal ''frametable lookup failed'')"
    and "a \<notin> sp_addr ` set (points (gl ! i)) \<Longrightarrow>
      sml_lookup_frametable (sml_gcroot_unload i gl) a = sml_lookup_frametable gl a"
proof -
  note un = unload_without [OF assms(1)]
  show "sml_lookup_frametable (sml_gcroot_unload i gl) a = sml_lookup_frametable (take i gl @ drop (Suc i) gl) a"
    and "sml_global_enum_ptr m (sml_gcroot_unload i gl) = sml_global_enum_ptr m (take i gl @ drop (Suc i) gl)"
    by (rule un)+
  have rest: "\<forall>g\<in>set (take i gl @ drop (Suc i) gl). searchable g"
    using assms(2) by (auto dest: in_set_takeD in_set_dropD)
  show "sml_lookup_frametable (sml_gcroot_unload i gl) a = Inl (Fatal ''frametable lookup failed'')"
    if "\<forall>g\<in>set (take i gl @ drop (Suc i) gl). a \<notin> sp_addr ` set (points g)"
  proof -
    have "find (\<lambda>s. sp_addr s = a) (concat (map points (take i gl @ drop (Suc i) gl))) = None"
      using that by (fastforce simp: find_None_iff)
    then show ?thesis unfolding un(1) lookup_spec [OF rest] by simp
  qed
  show "sml_lookup_frametable (sml_gcroot_unload i gl) a = sml_lookup_frametable gl a"
    if "a \<notin> sp_addr ` set (points (gl ! i))"
  proof -
    have "find (\<lambda>s. sp_addr s = a) (points (gl ! i)) = None" using that by (auto simp: find_None_iff image_iff)
    then have "binary_search a (gc_item (gl ! i)) (num_points (gl ! i)) = None"
      using binary_search_points assms by simp
    then have "sml_lookup_frametable (gl ! i # drop (Suc i) gl) a = sml_lookup_frametable (drop (Suc i) gl) a"
      by simp
    then have "sml_lookup_frametable (take i gl @ gl ! i # drop (Suc i) gl) a
        = sml_lookup_frametable (take i gl @ drop (Suc i) gl) a" by (simp only: lookup_append)
    then show ?thesis unfolding un(1) using id_take_nth_drop [OF assms(1)] by simp
  qed
qed

text \<open>
  C23: \<open>sml_gcroot_unload\<close> takes the safe points and the toplevel objects of its program out of
  the registry: every lookup and the enumeration of the toplevel objects answer as if its block
  were not in the list.  So an address that only the unloaded program has is the fatal error of
  an unknown address from then on, and for an address that the unloaded program did not have
  the answer is the one from before.
\<close>

theorem unload_removes:
  assumes "i < length gl" and "\<forall>g\<in>set gl. searchable g"
  shows "sml_lookup_frametable (sml_gcroot_unload i gl) a = sml_lookup_frametable (take i gl @ drop (Suc i) gl) a \<and>
    sml_global_enum_ptr m (sml_gcroot_unload i gl) = sml_global_enum_ptr m (take i gl @ drop (Suc i) gl) \<and>
    ((\<forall>g\<in>set (take i gl @ drop (Suc i) gl). a \<notin> sp_addr ` set (points g)) \<longrightarrow>
      sml_lookup_frametable (sml_gcroot_unload i gl) a = Inl (Fatal ''frametable lookup failed'')) \<and>
    (a \<notin> sp_addr ` set (points (gl ! i)) \<longrightarrow>
      sml_lookup_frametable (sml_gcroot_unload i gl) a = sml_lookup_frametable gl a)"
  by (intro conjI impI unload_facts [OF assms])

lemma sample_block_sorted:
  "sort_safe_points sample_block = sample_block
      \<lparr>gc_item := [\<lparr>sp_addr = 1008, sp_layout = 64\<rparr>, \<lparr>sp_addr = 1016, sp_layout = 64\<rparr>,
                   \<lparr>sp_addr = 2000, sp_layout = 0\<rparr>]\<rparr>"
  by (simp add: sort_safe_points_def sample_block_def qsort_def cmp_safe_point_def)

theorem unload_removes_witness:
  "sml_lookup_frametable [sort_safe_points sample_block] 1016 = Inr 64 \<and>
   sml_lookup_frametable (sml_gcroot_unload 0 [sort_safe_points sample_block]) 1016
     = Inl (Fatal ''frametable lookup failed'') \<and>
   sml_global_enum_ptr sample_table (sml_gcroot_unload 0 [sort_safe_points sample_block]) = Inr []"
proof -
  let ?gl = "[sort_safe_points sample_block]"
  have ok: "0 < length ?gl" "\<forall>g\<in>set ?gl. searchable g"
    unfolding sample_block_sorted by (simp_all add: searchable_def points_def sample_block_def)
  then have "sml_lookup_frametable ?gl 1016 = Inr 64"
    unfolding lookup_spec [OF ok(2)] unfolding sample_block_sorted by (simp add: points_def sample_block_def)
  moreover have "sml_lookup_frametable (sml_gcroot_unload 0 ?gl) 1016 = Inl (Fatal ''frametable lookup failed'')"
    using unload_removes [OF ok, of 1016 sample_table] by simp
  moreover have "sml_global_enum_ptr sample_table (sml_gcroot_unload 0 ?gl) = Inr []"
    using unload_removes [OF ok, of 1016 sample_table] by simp
  ultimately show ?thesis by simp
qed

end
