(* ===== verification/Bitptr.thy ===== *)
theory Bitptr
  imports Memory
begin

text \<open>
  The bit pointers of \<open>smlsharp.h\<close>: a pointer to a 32 bit bitmap word and a mask that
  selects one bit of it.  \<open>BITPTR_NEXT0\<close> and \<open>BITPTR_NEXT1\<close> search the current word with
  carry tricks instead of a loop; the lemmas show that they find the first clear bit from
  the current position on and the first set bit after it, and that the mask becomes 0
  exactly when there is none.  The allocator's search for a free block rests on them.
\<close>

abbreviation (input) BITPTR_WORDBITS :: nat where
  "BITPTR_WORDBITS \<equiv> 32"

record bitptr =
  bp_ptr :: addr
  bp_mask :: u32

definition BITPTR :: "addr \<Rightarrow> nat \<Rightarrow> bitptr" where
  "BITPTR p n = \<lparr>bp_ptr = p + 4 * (n div 32), bp_mask = push_bit (n mod 32) 1\<rparr>"

definition BITPTR_WORD :: "mem \<Rightarrow> bitptr \<Rightarrow> u32" where
  "BITPTR_WORD m b = load32 m (bp_ptr b)"

definition BITPTR_TEST :: "mem \<Rightarrow> bitptr \<Rightarrow> bool" where
  "BITPTR_TEST m b \<longleftrightarrow> BITPTR_WORD m b AND bp_mask b \<noteq> 0"

definition BITPTRW_SET :: "mem \<Rightarrow> bitptr \<Rightarrow> mem" where
  "BITPTRW_SET m b = store32 m (bp_ptr b) (load32 m (bp_ptr b) OR bp_mask b)"

definition BITPTR_EQUAL :: "bitptr \<Rightarrow> bitptr \<Rightarrow> bool" where
  "BITPTR_EQUAL b1 b2 \<longleftrightarrow> bp_ptr b1 = bp_ptr b2 \<and> bp_mask b1 = bp_mask b2"

definition BITPTR_WORDINDEX :: "bitptr \<Rightarrow> addr \<Rightarrow> nat" where
  "BITPTR_WORDINDEX b begin = (bp_ptr b - begin) div 4"

definition BITPTR_NEXTWORD :: "bitptr \<Rightarrow> bitptr" where
  "BITPTR_NEXTWORD b = \<lparr>bp_ptr = bp_ptr b + 4, bp_mask = 1\<rparr>"

definition BITPTR_NEXT0 :: "mem \<Rightarrow> bitptr \<Rightarrow> bitptr" where
  "BITPTR_NEXT0 m b =
     (let tmp = BITPTR_WORD m b OR (bp_mask b - 1)
      in b\<lparr>bp_mask := (tmp + 1) AND NOT tmp\<rparr>)"

definition BITPTR_NEXT_FAILED :: "bitptr \<Rightarrow> bool" where
  "BITPTR_NEXT_FAILED b \<longleftrightarrow> bp_mask b = 0"

definition BITPTR_NEXT1 :: "mem \<Rightarrow> bitptr \<Rightarrow> bitptr" where
  "BITPTR_NEXT1 m b =
     (let tmp = BITPTR_WORD m b AND - (push_bit 1 (bp_mask b))
      in b\<lparr>bp_mask := tmp AND - tmp\<rparr>)"

definition BITPTR_INC :: "bitptr \<Rightarrow> bitptr" where
  "BITPTR_INC b =
     \<lparr>bp_ptr = bp_ptr b + 4 * unat (drop_bit 31 (bp_mask b)),
      bp_mask = push_bit 1 (bp_mask b) OR drop_bit 31 (bp_mask b)\<rparr>"

definition BITPTR_MASKINDEX :: "bitptr \<Rightarrow> nat" where
  "BITPTR_MASKINDEX b = builtin_ctz (bp_mask b)"

definition BITPTR_INDEX :: "bitptr \<Rightarrow> addr \<Rightarrow> nat" where
  "BITPTR_INDEX b p = BITPTR_WORDINDEX b p * BITPTR_WORDBITS + BITPTR_MASKINDEX b"

text \<open>
  One atomic access of a call of \<open>BITPTRA_TEST_AND_SET\<close>, whose word other threads change in
  between: the load before the loop, then the test of the value read last and the
  compare-and-swap, which stores when the word still holds that value and reads the word
  into \<open>old\<close> otherwise.  The bitmap word is passed in and out.
\<close>

datatype tas_call = TAS_Load | TAS_Loop u32 | TAS_Return bool

fun tas_step :: "u32 \<Rightarrow> u32 \<Rightarrow> tas_call \<Rightarrow> u32 \<times> tas_call" where
  "tas_step bm w TAS_Load = (w, TAS_Loop w)"
| "tas_step bm w (TAS_Loop old) =
     (if old AND bm \<noteq> 0 then (w, TAS_Return True)
      else if w = old then (old OR bm, TAS_Return False)
      else (w, TAS_Loop w))"
| "tas_step bm w (TAS_Return r) = (w, TAS_Return r)"

text \<open>Calls on one word, call \<open>i\<close> with the mask \<open>bm i\<close>, in the order of a schedule.\<close>

fun tas_run :: "(nat \<Rightarrow> u32) \<Rightarrow> nat list \<Rightarrow> u32 \<times> (nat \<Rightarrow> tas_call) \<Rightarrow> u32 \<times> (nat \<Rightarrow> tas_call)" where
  "tas_run bm [] s = s"
| "tas_run bm (i # is) (w, c) =
     (case tas_step (bm i) w (c i) of (w', t) \<Rightarrow> tas_run bm is (w', c(i := t)))"

text \<open>The call when no other thread writes the word between its load and its swap.\<close>

definition BITPTRA_TEST_AND_SET :: "mem \<Rightarrow> bitptr \<Rightarrow> mem \<times> bool" where
  "BITPTRA_TEST_AND_SET m b =
     (if load32 m (bp_ptr b) AND bp_mask b \<noteq> 0 then (m, True)
      else (store32 m (bp_ptr b) (load32 m (bp_ptr b) OR bp_mask b), False))"

section \<open>Bits of a bitmap in memory\<close>

text \<open>Bit \<open>n\<close> of the bitmap that starts at \<open>p\<close>: bit \<open>n mod 32\<close> of its word \<open>n div 32\<close>.\<close>

definition bitmap_bit :: "mem \<Rightarrow> addr \<Rightarrow> nat \<Rightarrow> bool" where
  "bitmap_bit m p n = bit (load32 m (p + 4 * (n div 32))) (n mod 32)"

lemma bitptr_simps [simp]:
  "bp_ptr (BITPTR p n) = p + 4 * (n div 32)"
  "bp_mask (BITPTR p n) = 2 ^ (n mod 32)"
  by (simp_all add: BITPTR_def)

lemma bitptr_test: "BITPTR_TEST m (BITPTR p n) \<longleftrightarrow> bitmap_bit m p n"
proof -
  have "w AND 2 ^ k \<noteq> 0 \<longleftrightarrow> bit w k" if "k < 32" for w :: u32 and k
    using that by (simp add: and_exp_eq_0_iff_not_bit)
  then show ?thesis by (simp add: BITPTR_TEST_def BITPTR_WORD_def bitmap_bit_def)
qed

lemma bitptr_index: "BITPTR_INDEX (BITPTR p n) p = n"
  by (simp add: BITPTR_INDEX_def BITPTR_WORDINDEX_def BITPTR_MASKINDEX_def)

lemma bitptr_wordindex: "BITPTR_WORDINDEX (BITPTR p n) p = n div 32"
  by (simp add: BITPTR_WORDINDEX_def)

lemma bitptr_add: "BITPTR (p + 4 * k) n = BITPTR p (32 * k + n)"
  by (simp add: BITPTR_def)

lemma drop31_two_power: "i < 32 \<Longrightarrow> drop_bit 31 (2 ^ i :: u32) = (if i = 31 then 1 else 0)"
  by (rule bit_word_eqI) (auto simp: bit_drop_bit_eq bit_two_power bit_1_iff)

lemma bitptr_inc: "BITPTR_INC (BITPTR p n) = BITPTR p (Suc n)"
proof (cases "n mod 32 = 31")
  case True
  then have "Suc n div 32 = Suc (n div 32)" and "Suc n mod 32 = 0" by (simp_all add: div_Suc mod_Suc)
  then have "BITPTR p (Suc n) = \<lparr>bp_ptr = p + 4 * Suc (n div 32), bp_mask = 1\<rparr>"
    by (simp only: BITPTR_def push_bit_of_1 power_0)
  moreover have "drop_bit 31 (2 ^ (n mod 32) :: u32) = 1"
    using True by (subst drop31_two_power) simp_all
  moreover have "push_bit 1 (2 ^ (n mod 32) :: u32) = 0"
    unfolding True
    by (rule word_eq_zeroI, subst bit_push_bit_iff, subst bit_two_power) auto
  ultimately show ?thesis
    unfolding BITPTR_INC_def by (simp add: push_bit_of_1)
next
  case False
  then have "Suc n div 32 = n div 32" and "Suc n mod 32 = Suc (n mod 32)" by (simp_all add: div_Suc mod_Suc)
  then have "BITPTR p (Suc n) = \<lparr>bp_ptr = p + 4 * (n div 32), bp_mask = 2 * 2 ^ (n mod 32)\<rparr>"
    by (simp only: BITPTR_def push_bit_of_1 power_Suc)
  moreover have "drop_bit 31 (2 ^ (n mod 32) :: u32) = 0"
    using False by (subst drop31_two_power) simp_all
  moreover have "push_bit 1 (2 ^ (n mod 32) :: u32) = 2 * 2 ^ (n mod 32)"
    by (simp add: push_bit_eq_mult)
  ultimately show ?thesis
    unfolding BITPTR_INC_def by (simp only: bitptr_simps or.right_neutral unsigned_0 mult_0_right add_0_right)
qed

lemma bit_next0:
  assumes "i < 32"
  shows "bit ((w OR (2 ^ i - 1)) + 1 AND NOT (w OR (2 ^ i - 1))) n
    \<longleftrightarrow> n < 32 \<and> i \<le> n \<and> \<not> bit (w :: u32) n \<and> (\<forall>k. i \<le> k \<and> k < n \<longrightarrow> bit w k)"
  using assms
  by (simp only: bit_lowest_zero bit_or_iff) (auto simp: bit_two_power_minus_one not_less)

lemma bitptr_next0_found:
  assumes "n < 32" and "i \<le> n" and "\<not> bitmap_bit m p (32 * k + n)"
    and "\<And>j. i \<le> j \<Longrightarrow> j < n \<Longrightarrow> bitmap_bit m p (32 * k + j)"
  shows "BITPTR_NEXT0 m (BITPTR p (32 * k + i)) = BITPTR p (32 * k + n)"
proof -
  let ?w = "load32 m (p + 4 * k)"
  have i: "i < 32" using assms(1,2) by simp
  have "(?w OR (2 ^ i - 1)) + 1 AND NOT (?w OR (2 ^ i - 1)) = 2 ^ n"
  proof (rule word_eq_two_powerI)
    show "n < LENGTH(32)" using assms(1) by simp
    fix j assume "j < LENGTH(32)"
    then show "bit ((?w OR (2 ^ i - 1)) + 1 AND NOT (?w OR (2 ^ i - 1))) j \<longleftrightarrow> j = n"
      using assms i by (simp only: bit_next0) (auto simp: bitmap_bit_def, metis linorder_less_linear)
  qed
  then show ?thesis
    using assms(1) i by (simp add: BITPTR_NEXT0_def BITPTR_WORD_def BITPTR_def Let_def)
qed

lemma bitptr_next0_failed:
  assumes "i < 32" and "\<And>j. i \<le> j \<Longrightarrow> j < 32 \<Longrightarrow> bitmap_bit m p (32 * k + j)"
  shows "BITPTR_NEXT_FAILED (BITPTR_NEXT0 m (BITPTR p (32 * k + i)))"
    and "bp_ptr (BITPTR_NEXT0 m (BITPTR p (32 * k + i))) = p + 4 * k"
proof -
  let ?w = "load32 m (p + 4 * k)"
  have "(?w OR (2 ^ i - 1)) + 1 AND NOT (?w OR (2 ^ i - 1)) = 0"
  proof (rule word_eq_zeroI)
    fix j assume "j < LENGTH(32)"
    then show "\<not> bit ((?w OR (2 ^ i - 1)) + 1 AND NOT (?w OR (2 ^ i - 1))) j"
      using assms by (simp only: bit_next0) (auto simp: bitmap_bit_def)
  qed
  then show "BITPTR_NEXT_FAILED (BITPTR_NEXT0 m (BITPTR p (32 * k + i)))"
    using assms(1)
    by (simp add: BITPTR_NEXT0_def BITPTR_WORD_def BITPTR_NEXT_FAILED_def Let_def)
  show "bp_ptr (BITPTR_NEXT0 m (BITPTR p (32 * k + i))) = p + 4 * k"
    using assms(1) by (simp add: BITPTR_NEXT0_def Let_def)
qed


text \<open>The position of the first clear bit of the word of bit \<open>n\<close>, from \<open>n\<close> on.\<close>

definition first_clear :: "mem \<Rightarrow> addr \<Rightarrow> nat \<Rightarrow> nat option" where
  "first_clear m p n = List.find (\<lambda>j. \<not> bitmap_bit m p j) [n..<32 * (n div 32) + 32]"

text \<open>The position of the first set bit of the word of bit \<open>n\<close>, after \<open>n\<close>.\<close>

definition first_set_after :: "mem \<Rightarrow> addr \<Rightarrow> nat \<Rightarrow> nat option" where
  "first_set_after m p n = List.find (bitmap_bit m p) [Suc n..<32 * (n div 32) + 32]"

lemma find_upt_SomeD:
  "List.find P [a..<b] = Some j \<Longrightarrow> a \<le> j \<and> j < b \<and> P j \<and> (\<forall>k. a \<le> k \<and> k < j \<longrightarrow> \<not> P k)"
proof -
  assume "List.find P [a..<b] = Some j"
  then obtain i where i: "i < length [a..<b]" "P ([a..<b] ! i)" "j = [a..<b] ! i"
      "\<forall>k<i. \<not> P ([a..<b] ! k)"
    unfolding find_Some_iff by blast
  have "\<not> P k" if "a \<le> k" "k < j" for k
  proof -
    from that(1) obtain d where "k = a + d" by (auto simp: le_iff_add)
    with that(2) i show ?thesis by auto
  qed
  then show ?thesis using i by auto
qed

lemma find_upt_NoneD: "List.find P [a..<b] = None \<Longrightarrow> \<forall>k. a \<le> k \<and> k < b \<longrightarrow> \<not> P k"
  by (auto simp: find_None_iff)

lemma bitptr_split: "BITPTR p n = BITPTR p (32 * (n div 32) + n mod 32)"
  by simp

lemma bitptr_next0_Some:
  assumes "first_clear m p n = Some j"
  shows "BITPTR_NEXT0 m (BITPTR p n) = BITPTR p j"
proof -
  let ?k = "n div 32"
  from find_upt_SomeD [OF assms [unfolded first_clear_def]]
  have j: "n \<le> j" "j < 32 * ?k + 32" "\<not> bitmap_bit m p j"
    "\<And>i. n \<le> i \<Longrightarrow> i < j \<Longrightarrow> bitmap_bit m p i" by auto
  have n: "n = 32 * ?k + n mod 32" by simp
  have jj: "j = 32 * ?k + (j - 32 * ?k)" using j(1) n by linarith
  have "BITPTR_NEXT0 m (BITPTR p (32 * ?k + n mod 32)) = BITPTR p (32 * ?k + (j - 32 * ?k))"
  proof (rule bitptr_next0_found)
    show "j - 32 * ?k < 32" using j(2) by linarith
    show "n mod 32 \<le> j - 32 * ?k" using j(1) n by linarith
    show "\<not> bitmap_bit m p (32 * ?k + (j - 32 * ?k))" using j(3) jj by simp
    show "bitmap_bit m p (32 * ?k + i)" if "n mod 32 \<le> i" "i < j - 32 * ?k" for i
      by (rule j(4)) (use that n in linarith)+
  qed
  then show ?thesis using jj by simp
qed

lemma bitptr_next0_None:
  assumes "first_clear m p n = None"
  shows "BITPTR_NEXT_FAILED (BITPTR_NEXT0 m (BITPTR p n))"
    and "bp_ptr (BITPTR_NEXT0 m (BITPTR p n)) = p + 4 * (n div 32)"
proof -
  let ?k = "n div 32"
  have n: "n = 32 * ?k + n mod 32" by simp
  have set: "bitmap_bit m p (32 * ?k + j)" if "n mod 32 \<le> j" "j < 32" for j
    using find_upt_NoneD [OF assms [unfolded first_clear_def], rule_format, of "32 * ?k + j"] that n
    by simp
  show "BITPTR_NEXT_FAILED (BITPTR_NEXT0 m (BITPTR p n))"
    by (subst bitptr_split) (rule bitptr_next0_failed(1), use set in auto)
  show "bp_ptr (BITPTR_NEXT0 m (BITPTR p n)) = p + 4 * (n div 32)"
    by (simp add: BITPTR_NEXT0_def Let_def)
qed

lemma bit_minus_two_power:
  "i < 32 \<Longrightarrow> bit (- (2 ^ i) :: u32) n \<longleftrightarrow> i \<le> n \<and> n < 32"
  by (cases "n < 32")
    (auto simp: minus_eq_not_minus_1 bit_not_iff bit_two_power_minus_one not_less
      dest: bit_imp_le_length)

lemma bit_next1:
  assumes "i < 32"
  shows "bit (- (push_bit 1 (2 ^ i)) :: u32) n \<longleftrightarrow> Suc i \<le> n \<and> n < 32"
proof (cases "i = 31")
  case True
  have "push_bit 1 (2 ^ i :: u32) = 0"
    unfolding True by (rule word_eq_zeroI, subst bit_push_bit_iff, subst bit_two_power) auto
  then show ?thesis by (simp only: True minus_zero bit_0_eq) auto
next
  case False
  have "push_bit 1 (2 ^ i :: u32) = 2 ^ Suc i" by (simp add: push_bit_eq_mult)
  then show ?thesis
    by (simp only:, subst bit_minus_two_power) (use assms False in simp_all)
qed

lemma mod32: "n mod 32 < (32 :: nat)"
  by simp

lemma bitptr_next1_Some:
  assumes "first_set_after m p n = Some j"
  shows "BITPTR_NEXT1 m (BITPTR p n) = BITPTR p j"
proof -
  let ?k = "n div 32" and ?i = "n mod 32"
  let ?w = "load32 m (p + 4 * ?k)"
  let ?t = "?w AND - (push_bit 1 (2 ^ ?i))"
  from find_upt_SomeD [OF assms [unfolded first_set_after_def]]
  have j: "n < j" "j < 32 * ?k + 32" "bitmap_bit m p j"
    "\<And>i. n < i \<Longrightarrow> i < j \<Longrightarrow> \<not> bitmap_bit m p i" by auto
  define r where "r = j - 32 * ?k"
  have r: "j = 32 * ?k + r" "r < 32" "?i < r"
    using j(1,2) div_mult_mod_eq [of n 32] unfolding r_def by linarith+
  have t: "bit ?t l \<longleftrightarrow> bit ?w l \<and> ?i < l" for l
    by (simp only: bit_and_iff bit_next1 [OF mod32]) (auto dest: bit_imp_le_length)
  have low: "\<not> bit ?w l" if "?i < l" "l < r" for l
    using j(4) [of "32 * ?k + l"] that r div_mult_mod_eq [of n 32] by (auto simp: bitmap_bit_def)
  have hit: "bit ?w r" using j(3) r by (simp add: bitmap_bit_def)
  have "?t AND - ?t = 2 ^ r"
  proof (rule word_eq_two_powerI)
    show "r < LENGTH(32)" using r by simp
    show "bit (?t AND - ?t) l \<longleftrightarrow> l = r" for l
      using low hit r(3) by (simp only: bit_lowest_one t) (metis linorder_less_linear)
  qed
  then show ?thesis
    using r by (simp add: BITPTR_NEXT1_def BITPTR_WORD_def BITPTR_def Let_def)
qed

lemma bitptr_next1_None:
  assumes "first_set_after m p n = None"
  shows "BITPTR_NEXT_FAILED (BITPTR_NEXT1 m (BITPTR p n))"
proof -
  let ?k = "n div 32" and ?i = "n mod 32"
  let ?w = "load32 m (p + 4 * ?k)"
  let ?t = "?w AND - (push_bit 1 (2 ^ ?i))"
  have clear: "\<not> bit ?w l" if "?i < l" "l < 32" for l
    using find_upt_NoneD [OF assms [unfolded first_set_after_def], rule_format, of "32 * ?k + l"]
      that div_mult_mod_eq [of n 32] by (simp add: bitmap_bit_def)
  have "?t = 0"
    by (rule word_eq_zeroI) (use clear in \<open>auto simp only: bit_and_iff bit_next1 [OF mod32]\<close>)
  then show ?thesis
    by (simp add: BITPTR_NEXT1_def BITPTR_WORD_def BITPTR_NEXT_FAILED_def Let_def)
qed

section \<open>Setting a bit\<close>

lemma bitptrw_set_bit:
  "bitmap_bit (BITPTRW_SET m (BITPTR p n)) p k \<longleftrightarrow> k = n \<or> bitmap_bit m p k"
proof (cases "k div 32 = n div 32")
  case True
  then have "k mod 32 = n mod 32 \<longleftrightarrow> k = n" by (metis div_mult_mod_eq)
  then show ?thesis
    using True by (auto simp: BITPTRW_SET_def bitmap_bit_def bit_or_iff bit_two_power)
next
  case False
  then have "load32 (BITPTRW_SET m (BITPTR p n)) (p + 4 * (k div 32)) = load32 m (p + 4 * (k div 32))"
    by (simp add: BITPTRW_SET_def) (rule load32_store32_other, linarith)
  then show ?thesis using False by (auto simp: bitmap_bit_def)
qed

lemma test_and_set_memory:
  "fst (BITPTRA_TEST_AND_SET m b)
   = (if snd (BITPTRA_TEST_AND_SET m b) then m else BITPTRW_SET m b)"
  by (simp add: BITPTRA_TEST_AND_SET_def BITPTRW_SET_def)

lemma test_and_set_seen: "snd (BITPTRA_TEST_AND_SET m (BITPTR p n)) \<longleftrightarrow> bitmap_bit m p n"
  using bitptr_test [of m p n]
  by (simp add: BITPTRA_TEST_AND_SET_def BITPTR_TEST_def BITPTR_WORD_def)


text \<open>A call whose steps no other thread interrupts is the operation the sequential model uses.\<close>

lemma test_and_set_quiet:
  "(case tas_step (bp_mask b) (load32 m (bp_ptr b)) TAS_Load of
      (w, t) \<Rightarrow> tas_step (bp_mask b) w t)
   = (let (m', seen) = BITPTRA_TEST_AND_SET m b in (load32 m' (bp_ptr b), TAS_Return seen))"
  by (simp add: BITPTRA_TEST_AND_SET_def)

section \<open>Concurrent calls of the test-and-set\<close>

definition word_bits :: "u32 \<Rightarrow> nat set" where
  "word_bits w = {n. bit w n}"

lemma word_bits_subset: "word_bits w \<subseteq> {..<32}"
  by (auto simp: word_bits_def dest: bit_imp_le_length)

lemma finite_word_bits [simp]: "finite (word_bits w)"
  by (rule finite_subset [OF word_bits_subset]) simp

lemma card_word_bits: "card (word_bits w) \<le> 32"
  using card_mono [OF _ word_bits_subset] by simp

lemma word_bits_inject: "word_bits v = word_bits w \<Longrightarrow> v = w"
  by (auto simp: word_bits_def bit_eq_iff)

lemma word_bits_or [simp]: "word_bits (v OR w) = word_bits v \<union> word_bits w"
  by (auto simp: word_bits_def bit_or_iff)

lemma and_zero_iff_bits: "v AND w = 0 \<longleftrightarrow> word_bits v \<inter> word_bits w = {}"
proof -
  have "bit (v AND w) n \<longleftrightarrow> bit v n \<and> bit w n" for n by (simp add: bit_and_iff)
  then have "v AND w = 0 \<longleftrightarrow> (\<forall>n. \<not> (bit v n \<and> bit w n))"
    by (metis bit_0_eq bot_apply bit_eqI bot_bool_def)
  then show ?thesis by (auto simp: word_bits_def)
qed

lemma run_snoc: "tas_run bm (is @ [i]) s
   = (case tas_run bm is s of (w, c) \<Rightarrow> case tas_step (bm i) w (c i) of (w', t) \<Rightarrow> (w', c(i := t)))"
  by (induction "is" arbitrary: s) (auto split: prod.splits)

text \<open>
  What holds of the word and the calls after every schedule: the word is the first one with
  the masks of the calls that returned 0; those masks are disjoint from each other and from
  the first word; a call that returned 1 finds its bit set; and a call in the loop holds a
  value the word had, and has taken at most one step more than that value has bits.
\<close>

definition tas_inv :: "(nat \<Rightarrow> u32) \<Rightarrow> u32 \<Rightarrow> (nat \<Rightarrow> nat) \<Rightarrow> u32 \<times> (nat \<Rightarrow> tas_call) \<Rightarrow> bool" where
  "tas_inv bm w0 k s \<longleftrightarrow>
     word_bits w0 \<union> (\<Union>i \<in> {i. snd s i = TAS_Return False}. word_bits (bm i)) = word_bits (fst s)
     \<and> (\<forall>i. snd s i = TAS_Return False \<longrightarrow> word_bits w0 \<inter> word_bits (bm i) = {})
     \<and> (\<forall>i j. snd s i = TAS_Return False \<longrightarrow> snd s j = TAS_Return False \<longrightarrow> i \<noteq> j
          \<longrightarrow> word_bits (bm i) \<inter> word_bits (bm j) = {})
     \<and> (\<forall>i. snd s i = TAS_Return True \<longrightarrow> word_bits (fst s) \<inter> word_bits (bm i) \<noteq> {})
     \<and> (\<forall>i. snd s i = TAS_Load \<longrightarrow> k i = 0)
     \<and> (\<forall>i old. snd s i = TAS_Loop old \<longrightarrow> word_bits old \<subseteq> word_bits (fst s)
          \<and> k i \<le> Suc (card (word_bits old)))"

lemma card_bits_less:
  assumes "word_bits v \<subseteq> word_bits w" and "w \<noteq> v"
  shows "card (word_bits v) < card (word_bits w)"
  using assms by (intro psubset_card_mono) (auto dest: word_bits_inject)

lemma tas_inv_quiet:
  assumes "tas_inv bm w0 k (w, c)" and "\<nexists>r. c i = TAS_Return r" and "t \<noteq> TAS_Return False"
    and "t = TAS_Return True \<longrightarrow> word_bits w \<inter> word_bits (bm i) \<noteq> {}"
    and "t = TAS_Load \<longrightarrow> n = 0"
    and "\<forall>old. t = TAS_Loop old \<longrightarrow> word_bits old \<subseteq> word_bits w \<and> n \<le> Suc (card (word_bits old))"
  shows "tas_inv bm w0 (k(i := n)) (w, c(i := t))"
proof -
  have "{j. (c(i := t)) j = TAS_Return False} = {j. c j = TAS_Return False}"
    using assms(2,3) by auto
  then show ?thesis using assms unfolding tas_inv_def fst_conv snd_conv by simp
qed

lemma tas_inv_won:
  assumes "tas_inv bm w0 k (w, c)" and "c i = TAS_Loop w" and "w AND bm i = 0"
  shows "tas_inv bm w0 (k(i := n)) (w OR bm i, c(i := TAS_Return False))"
proof -
  let ?W = "\<Union>j \<in> {j. c j = TAS_Return False}. word_bits (bm j)"
  have won: "{j. (c(i := TAS_Return False)) j = TAS_Return False} = insert i {j. c j = TAS_Return False}"
    by auto
  have w: "word_bits w0 \<union> ?W = word_bits w" using assms(1) by (simp add: tas_inv_def)
  have clear: "word_bits w \<inter> word_bits (bm i) = {}" using assms(3) by (simp add: and_zero_iff_bits)
  then have "word_bits w0 \<inter> word_bits (bm i) = {}"
    and "\<forall>j. c j = TAS_Return False \<longrightarrow> word_bits (bm j) \<inter> word_bits (bm i) = {}"
    unfolding w [symmetric] by blast+
  moreover have "word_bits w0 \<union> (word_bits (bm i) \<union> ?W) = word_bits w \<union> word_bits (bm i)"
    unfolding w [symmetric] by blast
  moreover have "word_bits w \<subseteq> word_bits (w OR bm i)" by simp
  ultimately show ?thesis using assms(1,2) unfolding tas_inv_def fst_conv snd_conv won
    by (intro conjI) (simp; (blast | force simp: Int_commute))+
qed

lemma tas_inv_step:
  assumes "tas_inv bm w0 k (w, c)" and "tas_step (bm i) w (c i) = (w', t)"
  shows "tas_inv bm w0 (k(i := Suc (k i))) (w', c(i := t))"
proof (cases "c i")
  case TAS_Load
  then have "k i = 0" using assms(1) by (simp add: tas_inv_def)
  then show ?thesis using tas_inv_quiet [OF assms(1), of i t "Suc (k i)"] assms(2) TAS_Load by auto
next
  case (TAS_Return r)
  then have "c(i := t) = c" and "w' = w" using assms(2) by auto
  then show ?thesis using assms(1) TAS_Return by (simp add: tas_inv_def)
next
  case (TAS_Loop old)
  then have old: "word_bits old \<subseteq> word_bits w" and steps: "k i \<le> Suc (card (word_bits old))"
    using assms(1) by (auto simp: tas_inv_def)
  consider (seen) "old AND bm i \<noteq> 0" "w' = w" "t = TAS_Return True"
    | (won) "old AND bm i = 0" "w = old" "w' = w OR bm i" "t = TAS_Return False"
    | (retry) "w \<noteq> old" "w' = w" "t = TAS_Loop w"
  proof (cases "old AND bm i = 0")
    case True
    show ?thesis
    proof (cases "w = old")
      case same: True
      with True assms(2) TAS_Loop have "w' = w OR bm i" and "t = TAS_Return False" by simp_all
      with True same show ?thesis by (rule that(2))
    next
      case False
      with True assms(2) TAS_Loop have "w' = w" and "t = TAS_Loop w" by auto
      with False show ?thesis by (rule that(3))
    qed
  next
    case False
    with assms(2) TAS_Loop have "w' = w" and "t = TAS_Return True" by simp_all
    with False show ?thesis by (rule that(1))
  qed
  then show ?thesis
  proof cases
    case seen
    then have "word_bits w \<inter> word_bits (bm i) \<noteq> {}" using old by (auto simp: and_zero_iff_bits)
    then show ?thesis using tas_inv_quiet [OF assms(1), of i t "Suc (k i)"] TAS_Loop seen by simp
  next
    case won
    then show ?thesis using tas_inv_won [OF assms(1), of i "Suc (k i)"] TAS_Loop by simp
  next
    case retry
    with card_bits_less [OF old] steps have "Suc (k i) \<le> Suc (card (word_bits w))" by simp
    then show ?thesis
      using tas_inv_quiet [OF assms(1), of i t "Suc (k i)"] TAS_Loop retry by simp
  qed
qed

lemma tas_inv_run: "tas_inv bm w0 (count_list is) (tas_run bm is (w0, \<lambda>_. TAS_Load))"
proof (induction "is" rule: rev_induct)
  case Nil
  show ?case by (simp add: tas_inv_def)
next
  case (snoc i "is")
  obtain w c where run: "tas_run bm is (w0, \<lambda>_. TAS_Load) = (w, c)" by force
  obtain w' t where step: "tas_step (bm i) w (c i) = (w', t)" by force
  have "count_list (is @ [i]) = (count_list is)(i := Suc (count_list is i))" by (auto simp: fun_eq_iff)
  moreover have "tas_run bm (is @ [i]) (w0, \<lambda>_. TAS_Load) = (w', c(i := t))"
    using run step by (simp add: run_snoc)
  ultimately show ?case using tas_inv_step [OF snoc [unfolded run] step] by (simp only:)
qed

lemma tas_returns:
  assumes "tas_inv bm w0 k (w, c)" and "34 \<le> k i"
  shows "\<exists>r. c i = TAS_Return r"
proof (cases "c i")
  case (TAS_Loop old)
  then show ?thesis using assms card_word_bits [of old] by (fastforce simp: tas_inv_def)
qed (use assms in \<open>auto simp: tas_inv_def\<close>)

section \<open>Properties\<close>

text \<open>
  C17: the carry tricks of \<open>BITPTR_NEXT0\<close> and \<open>BITPTR_NEXT1\<close> agree with a linear scan of the
  current bitmap word: \<open>BITPTR_NEXT0\<close> moves to the first clear bit at or after the current
  one and \<open>BITPTR_NEXT1\<close> to the first set bit after it, and each reports failure exactly
  when its word holds no such bit.
\<close>

theorem bitptr_next_scan:
  "(case first_clear m p n of
      Some j \<Rightarrow> BITPTR_NEXT0 m (BITPTR p n) = BITPTR p j
    | None \<Rightarrow> BITPTR_NEXT_FAILED (BITPTR_NEXT0 m (BITPTR p n)))
   \<and> (case first_set_after m p n of
      Some j \<Rightarrow> BITPTR_NEXT1 m (BITPTR p n) = BITPTR p j
    | None \<Rightarrow> BITPTR_NEXT_FAILED (BITPTR_NEXT1 m (BITPTR p n)))"
  by (auto split: option.splits
      intro: bitptr_next0_Some bitptr_next0_None bitptr_next1_Some bitptr_next1_None)

text \<open>
  Walking a bitmap with \<open>BITPTR_INC\<close> visits consecutive bits across word boundaries:
  from bit \<open>n\<close> of the bitmap at \<open>p\<close>, \<open>k\<close> increments reach the bit pointer of \<open>n + k\<close>, and
  \<open>BITPTR_INDEX\<close> reads its position back.
\<close>

lemma bitptr_walk:
  "(BITPTR_INC ^^ k) (BITPTR p n) = BITPTR p (n + k)
   \<and> BITPTR_INDEX ((BITPTR_INC ^^ k) (BITPTR p n)) p = n + k"
  by (induction k) (simp_all add: bitptr_inc bitptr_index)

lemma tas_run_atomic:
  assumes "tas_run bm is (w0, \<lambda>_. TAS_Load) = (w, c)"
  shows "\<forall>n. bit w n \<longleftrightarrow> bit w0 n \<or> (\<exists>i. c i = TAS_Return False \<and> bit (bm i) n)"
    and "\<forall>i. c i = TAS_Return False \<longrightarrow> w0 AND bm i = 0"
    and "\<forall>i j. c i = TAS_Return False \<and> c j = TAS_Return False \<and> i \<noteq> j \<longrightarrow> bm i AND bm j = 0"
    and "\<forall>i. c i = TAS_Return True \<longrightarrow> w AND bm i \<noteq> 0"
    and "\<forall>i. 34 \<le> count_list is i \<longrightarrow> (\<exists>r. c i = TAS_Return r)"
proof -
  have inv: "tas_inv bm w0 (count_list is) (w, c)" using tas_inv_run [of bm w0 "is"] assms by simp
  show "\<forall>n. bit w n \<longleftrightarrow> bit w0 n \<or> (\<exists>i. c i = TAS_Return False \<and> bit (bm i) n)"
  proof
    fix n
    have "n \<in> word_bits w
      \<longleftrightarrow> n \<in> word_bits w0 \<union> (\<Union>i \<in> {i. c i = TAS_Return False}. word_bits (bm i))"
      using inv by (simp add: tas_inv_def set_eq_iff)
    then show "bit w n \<longleftrightarrow> bit w0 n \<or> (\<exists>i. c i = TAS_Return False \<and> bit (bm i) n)"
      by (auto simp: word_bits_def)
  qed
  show "\<forall>i. c i = TAS_Return False \<longrightarrow> w0 AND bm i = 0"
    and "\<forall>i j. c i = TAS_Return False \<and> c j = TAS_Return False \<and> i \<noteq> j \<longrightarrow> bm i AND bm j = 0"
    and "\<forall>i. c i = TAS_Return True \<longrightarrow> w AND bm i \<noteq> 0"
    using inv by (auto simp: tas_inv_def and_zero_iff_bits)
  show "\<forall>i. 34 \<le> count_list is i \<longrightarrow> (\<exists>r. c i = TAS_Return r)"
    using tas_returns [OF inv] by blast
qed

text \<open>
  C18: \<open>BITPTRA_TEST_AND_SET\<close> under interference.  Any number of calls on one bitmap word,
  each with its own mask, take their atomic steps in any order.  After every schedule the
  bits of the word are those it had at first and the masks of the calls that returned 0, so
  that no update is lost; a call returned 0 only where its mask was clear at first and no
  other call with a common bit returned 0, so that each bit is won at most once; a call that
  returned 1 finds its bit set; and a call that has been scheduled 34 times has returned,
  since each retry has seen the word gain a bit.
\<close>

theorem test_and_set_atomic:
  assumes "tas_run bm is (w0, \<lambda>_. TAS_Load) = (w, c)"
  shows "(\<forall>n. bit w n \<longleftrightarrow> bit w0 n \<or> (\<exists>i. c i = TAS_Return False \<and> bit (bm i) n)) \<and>
    (\<forall>i. c i = TAS_Return False \<longrightarrow> w0 AND bm i = 0) \<and>
    (\<forall>i j. c i = TAS_Return False \<and> c j = TAS_Return False \<and> i \<noteq> j \<longrightarrow> bm i AND bm j = 0) \<and>
    (\<forall>i. c i = TAS_Return True \<longrightarrow> w AND bm i \<noteq> 0) \<and>
    (\<forall>i. 34 \<le> count_list is i \<longrightarrow> (\<exists>r. c i = TAS_Return r))"
  by (intro conjI tas_run_atomic [OF assms])

text \<open>
  Calls 0 and 1 race for bit 0 and call 2 sets bit 1: call 1 wins bit 0 after both have
  loaded the word, call 2 is overtaken and retries, call 0 finds the bit set.
\<close>

theorem test_and_set_atomic_witness:
  "\<exists>w c. tas_run (\<lambda>i. if i = 2 then 2 else 1) [0, 1, 2, 1, 2, 2, 0, 0] (4, \<lambda>_. TAS_Load) = (w, c)
     \<and> w = 7 \<and> map c [0, 1, 2] = [TAS_Return True, TAS_Return False, TAS_Return False]
     \<and> (\<forall>i j. c i = TAS_Return False \<and> c j = TAS_Return False \<and> i \<noteq> j
          \<longrightarrow> (if i = (2 :: nat) then 2 else 1 :: u32) AND (if j = 2 then 2 else 1) = 0)"
proof -
  let ?r = "tas_run (\<lambda>i. if i = 2 then 2 else 1) [0, 1, 2, 1, 2, 2, 0, 0] (4, \<lambda>_. TAS_Load)"
  obtain w c where r: "?r = (w, c)" using surj_pair [of ?r] by blast
  then have "w = 7" and "map c [0, 1, 2] = [TAS_Return True, TAS_Return False, TAS_Return False]"
    by (simp_all add: eq_commute [of _ c] eq_commute [of _ w])
  then show ?thesis using r test_and_set_atomic [OF r, THEN conjunct2, THEN conjunct2, THEN conjunct1]
    by (intro exI conjI)
qed

end
