(* ===== verification/Segment.thy ===== *)
theory Segment
  imports Object Bitptr
begin

text \<open>
  The segments of \<open>heap_concurrent.c\<close>: 32 KB regions that hold a header, a two-level bitmap of
  the used blocks, a bitmap of the marked blocks, the slots of the mark stack and the blocks
  themselves.  The header fields of a segment are a record in a store indexed by the segment's
  address; bitmaps, stack slots and blocks are bytes of the memory.  The theory models the
  layout computation, the initialisation of a segment, the bitmap operations of the collector
  and the allocator's search for a free block, and shows that the search finds exactly the
  first free block.
\<close>

section \<open>Segment layout\<close>

abbreviation (input) SEGMENT_SIZE :: nat where
  "SEGMENT_SIZE \<equiv> 32768"

abbreviation (input) SEG_RANK :: nat where
  "SEG_RANK \<equiv> 2"

abbreviation (input) BLOCKSIZE_MIN_LOG2 :: nat where
  "BLOCKSIZE_MIN_LOG2 \<equiv> 3"

abbreviation (input) BLOCKSIZE_MIN :: nat where
  "BLOCKSIZE_MIN \<equiv> 8"

abbreviation (input) BLOCKSIZE_MAX_LOG2 :: nat where
  "BLOCKSIZE_MAX_LOG2 \<equiv> 12"

abbreviation (input) BLOCKSIZE_MAX :: nat where
  "BLOCKSIZE_MAX \<equiv> 4096"

abbreviation (input) NUM_SUBHEAPS :: nat where
  "NUM_SUBHEAPS \<equiv> 10"

abbreviation (input) MAXALIGN :: nat where
  "MAXALIGN \<equiv> 16"

abbreviation (input) SIZEOF_SEGMENT :: nat where
  "SIZEOF_SEGMENT \<equiv> 32"

definition BITMAP0_OFFSET :: nat where
  "BITMAP0_OFFSET = CEILING SIZEOF_SEGMENT 4"

record segment_layout =
  blocksize_log2 :: nat
  blocksize_bytes :: nat
  bitmap_offset :: "nat list"
  bitmap_sentinel :: "u32 list"
  bitmap_length :: nat
  bitmap0_length :: nat
  zerofill_limit :: nat
  stack_offset :: nat
  block_offset :: nat
  num_blocks :: nat
  block_limit :: nat

text \<open>The body of the loop of \<open>compute_segment_layout\<close> for a number \<open>n\<close> of blocks of size \<open>2 ^ bl\<close>.\<close>

definition layout_for :: "nat \<Rightarrow> nat \<Rightarrow> segment_layout" where
  "layout_for bl n =
     (let blocksize = 2 ^ bl;
          bmbits0 = CEILING (n + 1) BITPTR_WORDBITS;
          bmoffset1 = BITMAP0_OFFSET + bmbits0 div 8;
          bmlen1 = bmbits0 div BITPTR_WORDBITS;
          bmbits1 = CEILING (bmlen1 + 1) BITPTR_WORDBITS;
          bmoffset2 = bmoffset1 + bmbits1 div 8;
          bmlimit = bmoffset2 + bmbits0 div 8;
          stackoffset = CEILING bmlimit 8;
          stacklimit = stackoffset + 8 * n;
          blockalign = (if MAXALIGN < blocksize then MAXALIGN else blocksize);
          blockoffset = CEILING (stacklimit + OBJ_HEADER_SIZE) blockalign;
          blocklimit = blockoffset + blocksize * n
      in \<lparr>blocksize_log2 = bl, blocksize_bytes = blocksize,
          bitmap_offset = [BITMAP0_OFFSET, bmoffset1, bmoffset2],
          bitmap_sentinel =
            [push_bit (BITPTR_WORDBITS - (bmbits0 - n)) (- 1),
             push_bit (BITPTR_WORDBITS - (bmbits1 - bmlen1)) (- 1)],
          bitmap_length = bmoffset2 - BITMAP0_OFFSET,
          bitmap0_length = bmbits0 div 8,
          zerofill_limit = bmlimit, stack_offset = stackoffset, block_offset = blockoffset,
          num_blocks = n, block_limit = blocklimit\<rparr>)"

fun fit_blocks :: "nat \<Rightarrow> nat \<Rightarrow> nat" where
  "fit_blocks bl 0 = 0"
| "fit_blocks bl (Suc n) =
     (if block_limit (layout_for bl (Suc n)) \<le> SEGMENT_SIZE then Suc n else fit_blocks bl n)"

text \<open>
  The first estimate is the single precision quotient of \<open>SEGMENT_SIZE - BITMAP0_OFFSET\<close> by
  \<open>blocksize + 8 + 1/8\<close>, truncated.  The divisor is exact, and the quotient is nowhere so close
  below an integer that rounding reaches it: the truncation is the integer quotient below.
\<close>

definition compute_segment_layout :: "nat \<Rightarrow> segment_layout" where
  "compute_segment_layout subheap_index =
     (let bl = subheap_index + BLOCKSIZE_MIN_LOG2
      in layout_for bl (fit_blocks bl (8 * (SEGMENT_SIZE - BITMAP0_OFFSET) div (8 * 2 ^ bl + 65))))"

definition init_segment_layout :: "segment_layout list" where
  "init_segment_layout = map compute_segment_layout [0..<NUM_SUBHEAPS]"

section \<open>Segments\<close>

text \<open>The layout pointer of a segment is the index of its layout in the table, or null.\<close>

record segment =
  seg_next :: addr
  seg_layout :: "nat option"
  allocptr_snapshot :: addr
  seg_free_count :: nat

record seg_store =
  bytes :: mem
  segs :: "addr \<Rightarrow> segment"

definition layout_of :: "seg_store \<Rightarrow> addr \<Rightarrow> segment_layout" where
  "layout_of st seg = compute_segment_layout (the (seg_layout (segs st seg)))"

definition upd_seg :: "addr \<Rightarrow> (segment \<Rightarrow> segment) \<Rightarrow> seg_store \<Rightarrow> seg_store" where
  "upd_seg seg f st = st\<lparr>segs := (segs st)(seg := f (segs st seg))\<rparr>"

definition BITMAP_BASE :: "addr \<Rightarrow> segment_layout \<Rightarrow> nat \<Rightarrow> addr" where
  "BITMAP_BASE seg l level = seg + bitmap_offset l ! level"

definition BITMAP_LIMIT :: "addr \<Rightarrow> segment_layout \<Rightarrow> nat \<Rightarrow> addr" where
  "BITMAP_LIMIT seg l level = seg + bitmap_offset l ! (level + 1)"

definition BITMAP0_BASE :: "addr \<Rightarrow> addr" where
  "BITMAP0_BASE seg = seg + BITMAP0_OFFSET"

definition COLLECT_BITMAP_BASE :: "addr \<Rightarrow> segment_layout \<Rightarrow> addr" where
  "COLLECT_BITMAP_BASE seg l = seg + bitmap_offset l ! SEG_RANK"

definition STACK_BASE :: "addr \<Rightarrow> segment_layout \<Rightarrow> addr" where
  "STACK_BASE seg l = seg + stack_offset l"

definition BLOCK_BASE :: "addr \<Rightarrow> segment_layout \<Rightarrow> addr" where
  "BLOCK_BASE seg l = seg + block_offset l"

definition BLOCK_LIMIT :: "addr \<Rightarrow> segment_layout \<Rightarrow> addr" where
  "BLOCK_LIMIT seg l = seg + block_limit l"

definition segment_addr :: "addr \<Rightarrow> addr" where
  "segment_addr p = p - p mod SEGMENT_SIZE"

definition object_index :: "addr \<Rightarrow> segment_layout \<Rightarrow> addr \<Rightarrow> nat" where
  "object_index seg l obj = (obj - BLOCK_BASE seg l) div 2 ^ blocksize_log2 l"

text \<open>The last word of the bitmap of a level holds its sentinel bits.\<close>

definition clear_sentinels :: "addr \<Rightarrow> segment_layout \<Rightarrow> mem \<Rightarrow> mem" where
  "clear_sentinels seg l m = fold (\<lambda>i m. store32 m (BITMAP_LIMIT seg l i - 4) 0) [0..<SEG_RANK] m"

definition set_sentinels :: "addr \<Rightarrow> segment_layout \<Rightarrow> mem \<Rightarrow> mem" where
  "set_sentinels seg l m =
     fold (\<lambda>i m. store32 m (BITMAP_LIMIT seg l i - 4) (bitmap_sentinel l ! i)) [0..<SEG_RANK] m"

definition init_segment :: "addr \<Rightarrow> nat \<Rightarrow> seg_store \<Rightarrow> seg_store" where
  "init_segment seg subheap_index st =
     (if seg_layout (segs st seg) = Some subheap_index then st
      else
        let new = compute_segment_layout subheap_index;
            m1 = (case seg_layout (segs st seg) of
                    None \<Rightarrow> bytes st
                  | Some i \<Rightarrow>
                      let old = compute_segment_layout i; m = clear_sentinels seg old (bytes st)
                      in if zerofill_limit new > zerofill_limit old
                         then memset m (seg + zerofill_limit old) 0 (zerofill_limit new - zerofill_limit old)
                         else m)
        in upd_seg seg (\<lambda>s. s\<lparr>seg_layout := Some subheap_index,
                              allocptr_snapshot := BLOCK_BASE seg new,
                              seg_free_count := num_blocks new\<rparr>)
             (st\<lparr>bytes := set_sentinels seg new m1\<rparr>))"

definition clear_collect_bitmap :: "addr \<Rightarrow> segment_layout \<Rightarrow> mem \<Rightarrow> mem" where
  "clear_collect_bitmap seg l m = memset m (COLLECT_BITMAP_BASE seg l) 0 (bitmap0_length l)"

text \<open>
  The inner loop of \<open>copy_collect_bitmap\<close>: from the words of the lower bitmap it builds the
  words of the upper one, a bit per word, set when the word is full.
\<close>

function summarize :: "addr \<Rightarrow> addr \<Rightarrow> u32 \<Rightarrow> u32 \<Rightarrow> addr \<Rightarrow> mem \<Rightarrow> mem \<times> addr \<times> u32" where
  "summarize lower limit bitw word upper m =
     (if lower < limit then
        let word' = (if load32 m lower = - 1 then word OR bitw else word); bit' = push_bit 1 bitw
        in if bit' = 0 then summarize (lower + 4) limit 1 0 (upper + 4) (store32 m upper word')
           else summarize (lower + 4) limit bit' word' upper m
      else (m, upper, word))"
  by pat_completeness auto
termination
  by (relation "measure (\<lambda>(lower, limit, _). limit - lower)") auto

declare summarize.simps [simp del]

definition copy_collect_bitmap :: "addr \<Rightarrow> segment_layout \<Rightarrow> mem \<Rightarrow> mem" where
  "copy_collect_bitmap seg l m =
     (let m1 = memcpy m (BITMAP0_BASE seg) (COLLECT_BITMAP_BASE seg l) (bitmap0_length l);
          sp = BITMAP_LIMIT seg l 0 - 4;
          m2 = store32 m1 sp (load32 m1 sp OR bitmap_sentinel l ! 0);
          (m3, upper, word) =
            summarize (BITMAP0_BASE seg) (BITMAP_LIMIT seg l 0) 1 0 (BITMAP_LIMIT seg l 0) m2
      in store32 m3 upper (word OR bitmap_sentinel l ! 1))"

text \<open>Counters of used and free blocks, for the statistics the runtime prints.\<close>

record stat_segment =
  num_marked :: nat
  num_unmarked :: nat
  num_marked_before_allocptr :: nat
  num_unmarked_before_allocptr :: nat

fun stat_loop ::
  "mem \<Rightarrow> nat \<Rightarrow> nat \<Rightarrow> bitptr \<Rightarrow> addr \<Rightarrow> addr \<Rightarrow> stat_segment \<Rightarrow> stat_segment" where
  "stat_loop m bs 0 b block allocptr st = st"
| "stat_loop m bs (Suc k) b block allocptr st =
     stat_loop m bs k (BITPTR_INC b) (block + bs) allocptr
       (if BITPTR_TEST m b then
          st\<lparr>num_marked := num_marked st + 1,
             num_marked_before_allocptr :=
               num_marked_before_allocptr st + (if block < allocptr then 1 else 0)\<rparr>
        else
          st\<lparr>num_unmarked := num_unmarked st + 1,
             num_unmarked_before_allocptr :=
               num_unmarked_before_allocptr st + (if block < allocptr then 1 else 0)\<rparr>)"

definition stat_segment :: "mem \<Rightarrow> addr \<Rightarrow> segment_layout \<Rightarrow> addr \<Rightarrow> stat_segment" where
  "stat_segment m seg l allocptr =
     stat_loop m (blocksize_bytes l) (num_blocks l) (BITPTR (BITMAP0_BASE seg) 0) (BLOCK_BASE seg l)
       allocptr \<lparr>num_marked = 0, num_unmarked = 0,
                 num_marked_before_allocptr = 0, num_unmarked_before_allocptr = 0\<rparr>"

definition stat_segment_add :: "stat_segment \<Rightarrow> stat_segment \<Rightarrow> stat_segment" where
  "stat_segment_add s1 s2 =
     \<lparr>num_marked = num_marked s1 + num_marked s2,
      num_unmarked = num_unmarked s1 + num_unmarked s2,
      num_marked_before_allocptr = num_marked_before_allocptr s1 + num_marked_before_allocptr s2,
      num_unmarked_before_allocptr = num_unmarked_before_allocptr s1 + num_unmarked_before_allocptr s2\<rparr>"

text \<open>The 0 bits of a segment's bitmap, all of them or those in the words behind \<open>allocptr\<close>.\<close>

definition free_count :: "mem \<Rightarrow> addr \<Rightarrow> segment_layout \<Rightarrow> addr \<Rightarrow> nat" where
  "free_count m seg l allocptr =
     (let p = (if allocptr = NULL then BITMAP0_BASE seg
               else bp_ptr (BITPTR (BITMAP0_BASE seg) (object_index seg l allocptr)) + 4)
      in sum_list (map (\<lambda>i. builtin_popcount (NOT (load32 m (p + 4 * i))))
           [0..<(BITMAP_LIMIT seg l 0 - p) div 4]))"

section \<open>The allocation pointer\<close>

record alloc_ptr =
  ap_b :: bitptr
  ap_p :: addr
  ap_blocksize_bytes :: nat

text \<open>\<open>dummy_bitmap\<close> is a word of ones outside of every segment.\<close>

abbreviation (input) DUMMY_BITMAP :: addr where
  "DUMMY_BITMAP \<equiv> 4"

definition dummy_bitptr :: bitptr where
  "dummy_bitptr = \<lparr>bp_ptr = DUMMY_BITMAP, bp_mask = 1\<rparr>"

definition ALLOC_PTR_TO_SEGMENT :: "alloc_ptr \<Rightarrow> addr" where
  "ALLOC_PTR_TO_SEGMENT ptr = segment_addr (bp_ptr (ap_b ptr))"

definition clear_alloc_ptr :: "alloc_ptr \<Rightarrow> alloc_ptr" where
  "clear_alloc_ptr ptr = ptr\<lparr>ap_b := dummy_bitptr, ap_p := NULL\<rparr>"

definition init_alloc_ptr :: "nat \<Rightarrow> alloc_ptr" where
  "init_alloc_ptr bl = clear_alloc_ptr \<lparr>ap_b = dummy_bitptr, ap_p = NULL, ap_blocksize_bytes = 2 ^ bl\<rparr>"

function bitptr_linear_search :: "mem \<Rightarrow> addr \<Rightarrow> addr \<Rightarrow> bitptr" where
  "bitptr_linear_search m start limit =
     (if start < limit then
        let b = BITPTR_NEXT0 m \<lparr>bp_ptr = start, bp_mask = 1\<rparr>
        in if BITPTR_NEXT_FAILED b then bitptr_linear_search m (start + 4) limit else b
      else \<lparr>bp_ptr = start, bp_mask = 0\<rparr>)"
  by pat_completeness auto
termination
  by (relation "measure (\<lambda>(_, start, limit). limit - start)") auto

declare bitptr_linear_search.simps [simp del]

text \<open>
  \<open>find_bitmap\<close>, with the loops over bitmap levels unrolled for \<open>SEG_RANK = 2\<close>: the rest of the
  current word, then the upper bitmap from the next word on, then down to the word found.
\<close>

definition find_bitmap :: "seg_store \<Rightarrow> alloc_ptr \<Rightarrow> addr \<times> alloc_ptr" where
  "find_bitmap st ptr =
     (if ap_p ptr = NULL then (NULL, ptr)
      else
        let m = bytes st; seg = ALLOC_PTR_TO_SEGMENT ptr; l = layout_of st seg;
            base = BITMAP0_BASE seg;
            b = BITPTR_NEXT0 m (ap_b ptr);
            found =
              (if \<not> BITPTR_NEXT_FAILED b then Some b
               else
                 let index = BITPTR_WORDINDEX b base + 1;
                     base1 = BITMAP_BASE seg l 1;
                     b1 = BITPTR_NEXT0 m (BITPTR base1 index);
                     b2 = (if BITPTR_NEXT_FAILED b1
                           then bitptr_linear_search m (bp_ptr b1 + 4) (BITMAP_LIMIT seg l 1)
                           else b1)
                 in if BITPTR_NEXT_FAILED b2 then None
                    else Some (BITPTR_NEXT0 m
                           (BITPTR (BITMAP_BASE seg l 0 + 4 * BITPTR_INDEX b2 base1) 0)))
        in case found of
            None \<Rightarrow> (NULL, ptr)
          | Some b' \<Rightarrow>
              let index = BITPTR_INDEX b' base;
                  obj = BLOCK_BASE seg l + index * 2 ^ blocksize_log2 l
              in (obj, ptr\<lparr>ap_b := BITPTR_INC b', ap_p := obj + ap_blocksize_bytes ptr\<rparr>))"

section \<open>The layout is sound\<close>

text \<open>\<open>W0\<close> and \<open>W1\<close> are the numbers of words of the two bitmap levels.\<close>

definition words0 :: "segment_layout \<Rightarrow> nat" where
  "words0 l = num_blocks l div 32 + 1"

definition words1 :: "segment_layout \<Rightarrow> nat" where
  "words1 l = words0 l div 32 + 1"

definition layout_ok :: "segment_layout \<Rightarrow> bool" where
  "layout_ok l \<longleftrightarrow>
     blocksize_bytes l = 2 ^ blocksize_log2 l \<and> num_blocks l mod 32 \<noteq> 0 \<and>
     bitmap_offset l = [BITMAP0_OFFSET, BITMAP0_OFFSET + 4 * words0 l,
                        BITMAP0_OFFSET + 4 * words0 l + 4 * words1 l] \<and>
     bitmap0_length l = 4 * words0 l \<and>
     zerofill_limit l = BITMAP0_OFFSET + 8 * words0 l + 4 * words1 l \<and>
     bitmap_sentinel l = [push_bit (num_blocks l mod 32) (- 1), push_bit (words0 l mod 32) (- 1)] \<and>
     zerofill_limit l \<le> stack_offset l \<and> 8 dvd stack_offset l \<and>
     stack_offset l + 8 * num_blocks l + OBJ_HEADER_SIZE \<le> block_offset l \<and>
     8 dvd block_offset l \<and>
     block_limit l = block_offset l + blocksize_bytes l * num_blocks l \<and> block_limit l \<le> SEGMENT_SIZE"

lemma bitmap0_offset [simp]: "BITMAP0_OFFSET = 32"
  by (simp add: BITMAP0_OFFSET_def CEILING_def)

lemma ceiling_words: "CEILING (n + 1) 32 = 32 * (n div 32 + 1)"
proof -
  have "CEILING (n + 1) 32 = (n + 32) - (n + 32) mod 32" by (simp add: CEILING_def)
  also have "\<dots> = 32 * ((n + 32) div 32)" by (simp only: minus_mod_eq_mult_div)
  also have "(n + 32) div 32 = n div 32 + 1" by (rule div_add_self2) simp
  finally show ?thesis .
qed


lemma sentinel_shift: "32 - (32 * (n div 32 + 1) - n) = n mod (32 :: nat)"
proof -
  have n: "n = 32 * (n div 32) + n mod 32" by simp
  have "32 - (32 * (q + 1) - (32 * q + r)) = r" if "r < 32" for q r :: nat using that by simp
  from this [of "n mod 32" "n div 32"] show ?thesis using n by simp
qed

lemma layout_for_fields:
  "blocksize_log2 (layout_for bl n) = bl" "blocksize_bytes (layout_for bl n) = 2 ^ bl"
  "num_blocks (layout_for bl n) = n"
  by (simp_all add: layout_for_def Let_def)

lemma layout_for_eq:
  assumes w: "w0 = n div 32 + 1" "w1 = w0 div 32 + 1" and so: "so = CEILING (32 + 8 * w0 + 4 * w1) 8"
    and bo: "bo = CEILING (so + 8 * n + 4) (if MAXALIGN < (2 :: nat) ^ bl then MAXALIGN else 2 ^ bl)"
  shows "layout_for bl n =
    \<lparr>blocksize_log2 = bl, blocksize_bytes = 2 ^ bl,
     bitmap_offset = [32, 32 + 4 * w0, 32 + 4 * w0 + 4 * w1],
     bitmap_sentinel = [push_bit (n mod 32) (- 1), push_bit (w0 mod 32) (- 1)],
     bitmap_length = 4 * w0 + 4 * w1, bitmap0_length = 4 * w0,
     zerofill_limit = 32 + 8 * w0 + 4 * w1, stack_offset = so, block_offset = bo,
     num_blocks = n, block_limit = bo + 2 ^ bl * n\<rparr>"
proof -
  have c0: "CEILING (n + 1) 32 = 32 * w0" and c1: "CEILING (w0 + 1) 32 = 32 * w1"
    using ceiling_words [of n] ceiling_words [of w0] w by simp_all
  have d: "32 * k div 32 = (k :: nat)" "32 * k div 8 = 4 * (k :: nat)" for k by simp_all
  have s0: "32 - (32 * w0 - n) = n mod 32" unfolding w(1) by (rule sentinel_shift)
  have s1: "32 - (32 * w1 - w0) = w0 mod 32" unfolding w(2) by (rule sentinel_shift)
  have so': "CEILING (32 + 4 * w0 + 4 * w1 + 4 * w0) 8 = so" unfolding so by (simp add: algebra_simps)
  show ?thesis
    unfolding layout_for_def Let_def c0 d c1 s0 s1 bitmap0_offset so' bo [symmetric]
    by (simp add: algebra_simps)
qed

lemma layout_for_ok:
  assumes "3 \<le> bl" and "n mod 32 \<noteq> 0" and "block_limit (layout_for bl n) \<le> SEGMENT_SIZE"
  shows "layout_ok (layout_for bl n)"
proof -
  define w0 where "w0 = n div 32 + 1"
  define w1 where "w1 = w0 div 32 + 1"
  define so where "so = CEILING (32 + 8 * w0 + 4 * w1) 8"
  define al where "al = (if MAXALIGN < (2 :: nat) ^ bl then MAXALIGN else 2 ^ bl)"
  define bo where "bo = CEILING (so + 8 * n + 4) al"
  note eq = layout_for_eq [OF w0_def w1_def so_def bo_def [unfolded al_def]]
  have "(2 :: nat) ^ 3 dvd 2 ^ bl" using assms(1) by (rule le_imp_power_dvd)
  then have al: "8 dvd al" "0 < al" by (auto simp: al_def)
  have so: "32 + 8 * w0 + 4 * w1 \<le> so" "8 dvd so"
    unfolding so_def by (rule ceiling_ge ceiling_dvd; simp)+
  have bo: "so + 8 * n + 4 \<le> bo" "8 dvd bo"
    unfolding bo_def using ceiling_ge [OF al(2)] ceiling_dvd [OF al(2)] al(1) by (blast intro: dvd_trans)+
  have "bo + 2 ^ bl * n \<le> SEGMENT_SIZE" using assms(3) unfolding eq by simp
  then show ?thesis
    unfolding layout_ok_def eq words0_def words1_def using so bo assms(2)
    by (simp flip: w0_def w1_def) (simp add: w0_def w1_def)
qed

lemma block_limit_mono: "n \<le> n' \<Longrightarrow> block_limit (layout_for bl n) \<le> block_limit (layout_for bl n')"
proof -
  let ?w = "\<lambda>n. n div 32 + 1 :: nat" and ?al = "if MAXALIGN < (2 :: nat) ^ bl then MAXALIGN else 2 ^ bl"
  let ?so = "\<lambda>n. CEILING (32 + 8 * ?w n + 4 * (?w n div 32 + 1)) 8"
  assume le: "n \<le> n'"
  then have w: "?w n \<le> ?w n'" by (simp add: div_le_mono)
  then have "?w n div 32 \<le> ?w n' div 32" by (rule div_le_mono)
  then have "?so n \<le> ?so n'" using w by (intro ceiling_mono) auto
  then have "CEILING (?so n + 8 * n + 4) ?al \<le> CEILING (?so n' + 8 * n' + 4) ?al"
    using le by (intro ceiling_mono) auto
  then show ?thesis
    using le by (simp add: layout_for_eq [OF refl refl refl refl] add_mono)
qed

lemma fit_blocks_eq:
  assumes "k \<le> n" and "block_limit (layout_for bl k) \<le> SEGMENT_SIZE"
    and "k = n \<or> SEGMENT_SIZE < block_limit (layout_for bl (Suc k))"
  shows "fit_blocks bl n = k"
  using assms
proof (induction n)
  case (Suc n)
  show ?case
  proof (cases "k = Suc n")
    case False
    then have "SEGMENT_SIZE < block_limit (layout_for bl (Suc k))" "k \<le> n" using Suc.prems by auto
    moreover from this have "SEGMENT_SIZE < block_limit (layout_for bl (Suc n))"
      using block_limit_mono [of "Suc k" "Suc n" bl] by linarith
    ultimately show ?thesis using Suc.IH Suc.prems by simp
  qed (use Suc.prems in simp)
qed simp

text \<open>The number of blocks per segment of each of the ten block sizes.\<close>

lemma layout_num_blocks:
  assumes "i < NUM_SUBHEAPS"
  shows "num_blocks (compute_segment_layout i) = [2013, 1349, 812, 452, 240, 123, 62, 31, 15, 7] ! i"
    and "block_limit (compute_segment_layout i) \<le> SEGMENT_SIZE"
proof -
  have lim: "block_limit (layout_for bl n) = CEILING (CEILING (32 + 8 * (n div 32 + 1) +
      4 * ((n div 32 + 1) div 32 + 1)) 8 + 8 * n + 4) (if MAXALIGN < (2 :: nat) ^ bl then MAXALIGN else 2 ^ bl)
      + 2 ^ bl * n" for bl n
    by (simp add: layout_for_eq [OF refl refl refl refl])
  have "i \<in> {0, 1, 2, 3, 4, 5, 6, 7, 8, 9}" using assms by auto
  then have "fit_blocks (i + 3) (8 * (SEGMENT_SIZE - BITMAP0_OFFSET) div (8 * 2 ^ (i + 3) + 65))
      = [2013, 1349, 812, 452, 240, 123, 62, 31, 15, 7] ! i \<and>
    block_limit (layout_for (i + 3) ([2013, 1349, 812, 452, 240, 123, 62, 31, 15, 7] ! i)) \<le> SEGMENT_SIZE"
    by (elim insertE emptyE; hypsubst; intro conjI fit_blocks_eq; simp add: lim CEILING_def)
  then show "num_blocks (compute_segment_layout i) = [2013, 1349, 812, 452, 240, 123, 62, 31, 15, 7] ! i"
    "block_limit (compute_segment_layout i) \<le> SEGMENT_SIZE"
    by (simp_all add: compute_segment_layout_def Let_def layout_for_fields)
qed

lemma compute_segment_layout_ok:
  assumes "i < NUM_SUBHEAPS"
  shows "layout_ok (compute_segment_layout i)"
    and "blocksize_log2 (compute_segment_layout i) = i + 3"
proof -
  let ?n = "num_blocks (compute_segment_layout i)"
  have eq: "compute_segment_layout i = layout_for (i + 3) ?n"
    by (simp add: compute_segment_layout_def Let_def layout_for_fields)
  have "i \<in> {0, 1, 2, 3, 4, 5, 6, 7, 8, 9}" using assms by auto
  then have "?n mod 32 \<noteq> 0"
    unfolding layout_num_blocks(1) [OF assms] by (elim insertE emptyE) simp_all
  moreover have "block_limit (layout_for (i + 3) ?n) \<le> SEGMENT_SIZE"
    using layout_num_blocks(2) [OF assms] eq by metis
  ultimately have "layout_ok (layout_for (i + 3) ?n)" by (intro layout_for_ok) auto
  then show "layout_ok (compute_segment_layout i)" using eq by metis
  show "blocksize_log2 (compute_segment_layout i) = i + 3"
    by (simp add: compute_segment_layout_def Let_def layout_for_fields)
qed

section \<open>Bitmaps of a segment\<close>

lemma word_all_ones: "w = (- 1 :: u32) \<longleftrightarrow> (\<forall>k<32. bit w k)"
proof
  assume "\<forall>k<32. bit w k"
  then show "w = - 1" by (intro bit_word_eqI) simp
qed simp

lemma bit_sentinel: "k < 32 \<Longrightarrow> bit (push_bit i (- 1) :: u32) k \<longleftrightarrow> i \<le> k"
  by (simp add: bit_not_iff bit_mask_iff not_less)

lemma bitmap_bit_word: "k < 32 \<Longrightarrow> bitmap_bit m p (32 * i + k) = bit (load32 m (p + 4 * i)) k"
  by (simp add: bitmap_bit_def)

lemma full_word_bits:
  "load32 m (p + 4 * i) = - 1 \<longleftrightarrow> (\<forall>k<32. bitmap_bit m p (32 * i + k))"
  by (simp add: word_all_ones bitmap_bit_word)

lemma bitmap_bit_cong:
  assumes "\<And>a. p + 4 * (n div 32) \<le> a \<Longrightarrow> a < p + 4 * (n div 32) + 4 \<Longrightarrow> m a = m' a"
  shows "bitmap_bit m p n = bitmap_bit m' p n"
proof -
  have "load32 m (p + 4 * (n div 32)) = load32 m' (p + 4 * (n div 32))"
    by (rule load32_cong) (use assms in auto)
  then show ?thesis by (simp add: bitmap_bit_def)
qed

lemma push_bit_mask:
  "push_bit 1 (2 ^ (q mod 32) :: u32) = (if q mod 32 = 31 then 0 else 2 ^ (Suc q mod 32))"
proof (cases "q mod 32 = 31")
  case True
  have "push_bit 1 (2 ^ 31 :: u32) = 0"
    by (rule word_eq_zeroI, subst bit_push_bit_iff, subst bit_two_power) auto
  then show ?thesis unfolding True by simp
next
  case False
  then have "Suc q mod 32 = Suc (q mod 32)" by (simp add: mod_Suc)
  then show ?thesis using False by (simp add: push_bit_eq_mult)
qed

text \<open>The loop after \<open>q\<close> of the \<open>w\<close> lower words: the finished upper words and the bits collected.\<close>

definition summary_inv :: "mem \<Rightarrow> addr \<Rightarrow> addr \<Rightarrow> nat \<Rightarrow> u32 \<Rightarrow> mem \<Rightarrow> bool" where
  "summary_inv m0 b0 b1 q word m \<longleftrightarrow>
     (\<forall>i<q div 32. \<forall>k<32. bit (load32 m (b1 + 4 * i)) k \<longleftrightarrow> load32 m0 (b0 + 4 * (32 * i + k)) = - 1) \<and>
     (\<forall>k<32. bit word k \<longleftrightarrow> k < q mod 32 \<and> load32 m0 (b0 + 4 * (32 * (q div 32) + k)) = - 1) \<and>
     (\<forall>a. a < b1 \<or> b1 + 4 * (q div 32) \<le> a \<longrightarrow> m a = m0 a)"

lemma summary_step:
  assumes inv: "summary_inv m0 b0 b1 q word m"
    and full: "load32 m (b0 + 4 * q) = load32 m0 (b0 + 4 * q)"
    and w': "word' = (if load32 m (b0 + 4 * q) = - 1 then word OR 2 ^ (q mod 32) else word)"
  shows "if q mod 32 = 31
    then summary_inv m0 b0 b1 (Suc q) 0 (store32 m (b1 + 4 * (q div 32)) word')
    else summary_inv m0 b0 b1 (Suc q) word' m"
proof -
  have word': "bit word' k \<longleftrightarrow> k < Suc (q mod 32) \<and> load32 m0 (b0 + 4 * (32 * (q div 32) + k)) = - 1"
    if "k < 32" for k
  proof -
    have "bit word' k \<longleftrightarrow> bit word k \<or> k = q mod 32 \<and> load32 m0 (b0 + 4 * q) = - 1"
      unfolding w' full by (auto simp: bit_or_iff bit_two_power)
    moreover have "bit word k \<longleftrightarrow> k < q mod 32 \<and> load32 m0 (b0 + 4 * (32 * (q div 32) + k)) = - 1"
      using inv that by (simp add: summary_inv_def)
    moreover have "32 * (q div 32) + k = q" if "k = q mod 32" using that by simp
    ultimately show ?thesis by (metis less_Suc_eq)
  qed
  show ?thesis
  proof (cases "q mod 32 = 31")
    case False
    then have "Suc q div 32 = q div 32" "Suc q mod 32 = Suc (q mod 32)" by (simp_all add: div_Suc mod_Suc)
    then show ?thesis using inv False word' by (simp add: summary_inv_def)
  next
    case True
    then have sq: "Suc q div 32 = Suc (q div 32)" "Suc q mod 32 = 0" by (simp_all add: div_Suc mod_Suc)
    let ?m = "store32 m (b1 + 4 * (q div 32)) word'"
    have old: "load32 ?m (b1 + 4 * i) = load32 m (b1 + 4 * i)" if "i < q div 32" for i
      using that by (subst load32_store32_other) auto
    have "bit (load32 ?m (b1 + 4 * i)) k \<longleftrightarrow> load32 m0 (b0 + 4 * (32 * i + k)) = - 1"
      if "i < Suc (q div 32)" "k < 32" for i k
    proof (cases "i = q div 32")
      case i: True
      then show ?thesis using word' [OF that(2)] True that(2) by simp
    next
      case False
      then show ?thesis using that inv old [of i] by (simp add: summary_inv_def)
    qed
    moreover have "?m a = m0 a" if "a < b1 \<or> b1 + 4 * Suc (q div 32) \<le> a" for a
      using that inv by (subst store32_other) (auto simp: summary_inv_def)
    ultimately show ?thesis using True sq by (simp add: summary_inv_def)
  qed
qed

lemma summarize_spec:
  assumes "b0 + 4 * w \<le> b1"
  shows "q \<le> w \<Longrightarrow> summary_inv m0 b0 b1 q word m \<Longrightarrow>
    \<exists>m' word'. summarize (b0 + 4 * q) (b0 + 4 * w) (2 ^ (q mod 32)) word (b1 + 4 * (q div 32)) m
        = (m', b1 + 4 * (w div 32), word') \<and> summary_inv m0 b0 b1 w word' m'"
proof (induction "w - q" arbitrary: q word m)
  case 0
  then show ?case by (subst summarize.simps) auto
next
  case (Suc d)
  then have q: "q < w" by simp
  have full: "load32 m (b0 + 4 * q) = load32 m0 (b0 + 4 * q)"
    by (rule load32_cong) (use Suc.prems(2) assms q in \<open>auto simp: summary_inv_def\<close>)
  define word' where "word' = (if load32 m (b0 + 4 * q) = - 1 then word OR 2 ^ (q mod 32) else word)"
  note step = summary_step [OF Suc.prems(2) full word'_def]
  have d: "d = w - Suc q" "Suc q \<le> w" using Suc.hyps(2) q by auto
  show ?case
  proof (cases "q mod 32 = 31")
    case True
    then have sq: "Suc q div 32 = Suc (q div 32)" "Suc q mod 32 = 0" by (simp_all add: div_Suc mod_Suc)
    have "summarize (b0 + 4 * q) (b0 + 4 * w) (2 ^ (q mod 32)) word (b1 + 4 * (q div 32)) m
        = summarize (b0 + 4 * Suc q) (b0 + 4 * w) (2 ^ (Suc q mod 32)) 0 (b1 + 4 * (Suc q div 32))
            (store32 m (b1 + 4 * (q div 32)) word')"
      unfolding sq using q True push_bit_mask [of q]
      by (subst summarize.simps) (simp add: Let_def word'_def add.assoc add.commute [of 4])
    then show ?thesis using Suc.hyps(1) [OF d] step True by simp
  next
    case False
    then have sq: "Suc q div 32 = q div 32" by (simp add: div_Suc mod_Suc)
    have pb: "push_bit 1 (2 ^ (q mod 32) :: u32) = 2 ^ (Suc q mod 32)"
      using False push_bit_mask [of q] by (simp only: if_False)
    have nz: "(2 ^ (Suc q mod 32) :: u32) \<noteq> 0" by (rule two_power_neq_zero) simp
    have "summarize (b0 + 4 * q) (b0 + 4 * w) (2 ^ (q mod 32)) word (b1 + 4 * (q div 32)) m
        = summarize (b0 + 4 * q + 4) (b0 + 4 * w) (2 ^ (Suc q mod 32)) word' (b1 + 4 * (q div 32)) m"
      by (subst summarize.simps) (use q pb nz in \<open>simp only: Let_def word'_def if_False if_True; simp\<close>)
    then have "summarize (b0 + 4 * q) (b0 + 4 * w) (2 ^ (q mod 32)) word (b1 + 4 * (q div 32)) m
        = summarize (b0 + 4 * Suc q) (b0 + 4 * w) (2 ^ (Suc q mod 32)) word' (b1 + 4 * (Suc q div 32)) m"
      unfolding sq by (simp add: add.assoc add.commute [of 4])
    then show ?thesis using Suc.hyps(1) [OF d] step False by simp
  qed
qed


text \<open>
  The used-block bitmap of a segment: \<open>sentinels\<close> behind the last block and the last word, and
  an upper level that says exactly which words of the lower level are full.
\<close>

abbreviation base0 :: "addr \<Rightarrow> addr" where
  "base0 seg \<equiv> seg + 32"

definition base1 :: "addr \<Rightarrow> segment_layout \<Rightarrow> addr" where
  "base1 seg l = seg + 32 + 4 * words0 l"

definition base2 :: "addr \<Rightarrow> segment_layout \<Rightarrow> addr" where
  "base2 seg l = seg + 32 + 4 * words0 l + 4 * words1 l"

definition bitmaps_ok :: "mem \<Rightarrow> addr \<Rightarrow> segment_layout \<Rightarrow> bool" where
  "bitmaps_ok m seg l \<longleftrightarrow>
     (\<forall>j. num_blocks l \<le> j \<and> j < 32 * words0 l \<longrightarrow> bitmap_bit m (base0 seg) j) \<and>
     (\<forall>k<words0 l. bitmap_bit m (base1 seg l) k \<longleftrightarrow> (\<forall>i<32. bitmap_bit m (base0 seg) (32 * k + i))) \<and>
     (\<forall>k. words0 l \<le> k \<and> k < 32 * words1 l \<longrightarrow> bitmap_bit m (base1 seg l) k)"

text \<open>Block \<open>j\<close> is used, block \<open>j\<close> is marked by the collector.\<close>

definition used :: "mem \<Rightarrow> addr \<Rightarrow> nat \<Rightarrow> bool" where
  "used m seg j = bitmap_bit m (base0 seg) j"

definition marked :: "mem \<Rightarrow> addr \<Rightarrow> segment_layout \<Rightarrow> nat \<Rightarrow> bool" where
  "marked m seg l j = bitmap_bit m (base2 seg l) j"

lemma layout_bases:
  assumes "layout_ok l"
  shows "BITMAP0_BASE seg = base0 seg" "BITMAP_BASE seg l 0 = base0 seg"
    "BITMAP_BASE seg l 1 = base1 seg l" "BITMAP_LIMIT seg l 0 = base1 seg l"
    "BITMAP_LIMIT seg l 1 = base2 seg l" "COLLECT_BITMAP_BASE seg l = base2 seg l"
    "bitmap0_length l = 4 * words0 l"
  using assms
  by (simp_all add: layout_ok_def BITMAP0_BASE_def BITMAP_BASE_def BITMAP_LIMIT_def
      COLLECT_BITMAP_BASE_def base1_def base2_def)

lemma layout_sentinels:
  assumes "layout_ok l"
  shows "bitmap_sentinel l ! 0 = push_bit (num_blocks l mod 32) (- 1)"
    "bitmap_sentinel l ! 1 = push_bit (words0 l mod 32) (- 1)"
  using assms by (simp_all add: layout_ok_def)

lemma words_bounds:
  "num_blocks l < 32 * words0 l" "32 * (words0 l - 1) \<le> num_blocks l" "words0 l - 1 = num_blocks l div 32"
  "words0 l < 32 * words1 l" "words1 l - 1 = words0 l div 32" "0 < words0 l" "0 < words1 l"
proof -
  have lt: "n < 32 * (n div 32 + 1)" for n :: nat
    using div_mult_mod_eq [of n 32] mod_less_divisor [of 32 n] by (simp add: mult.commute)
  show "num_blocks l < 32 * words0 l" "words0 l < 32 * words1 l" unfolding words0_def words1_def by (rule lt)+
qed (simp_all add: words0_def words1_def)

lemma copy_collect_bitmap_spec:
  assumes l: "layout_ok l"
  shows "bitmaps_ok (copy_collect_bitmap seg l m) seg l"
    and "j < num_blocks l \<Longrightarrow> used (copy_collect_bitmap seg l m) seg j = marked m seg l j"
    and "a < base0 seg \<or> base2 seg l \<le> a \<Longrightarrow> copy_collect_bitmap seg l m a = m a"
proof -
  let ?w = "words0 l" and ?b0 = "base0 seg" and ?b1 = "base1 seg l" and ?b2 = "base2 seg l"
  define m1 where "m1 = memcpy m ?b0 ?b2 (4 * ?w)"
  define sp where "sp = ?b1 - 4"
  define s0 where "s0 = (push_bit (num_blocks l mod 32) (- 1) :: u32)"
  define s1 where "s1 = (push_bit (?w mod 32) (- 1) :: u32)"
  define m2 where "m2 = store32 m1 sp (load32 m1 sp OR s0)"
  have b01: "?b0 + 4 * ?w = ?b1" by (simp add: base1_def)
  have sp: "sp = ?b0 + 4 * (?w - 1)" using words_bounds(6) [of l] by (simp add: sp_def base1_def)
  have "summary_inv m2 ?b0 ?b1 0 0 m2" by (simp add: summary_inv_def)
  from summarize_spec [of ?b0 ?w ?b1 0 m2 0 m2] this b01 obtain m3 word where
    sm: "summarize ?b0 ?b1 1 0 ?b1 m2 = (m3, ?b1 + 4 * (?w div 32), word)"
    and inv: "summary_inv m2 ?b0 ?b1 ?w word m3" by auto
  let ?up = "?b1 + 4 * (?w div 32)"
  have eq: "copy_collect_bitmap seg l m = store32 m3 ?up (word OR s1)"
    unfolding copy_collect_bitmap_def layout_bases [OF l] layout_sentinels [OF l] Let_def
      m1_def [symmetric] sp_def [symmetric] s0_def [symmetric] m2_def [symmetric] s1_def [symmetric] sm
    by simp
  have up: "?up + 4 = ?b2" using words_bounds(5,7) [of l] by (simp add: base1_def base2_def)
  define m4 where "m4 = store32 m3 ?up (word OR s1)"
  have low: "m4 a = m2 a" if "a < ?b1" for a
    using that inv unfolding m4_def by (subst store32_other) (auto simp: summary_inv_def)
  have bits0: "bitmap_bit m4 ?b0 j = bitmap_bit m2 ?b0 j" if "j < 32 * ?w" for j
  proof (rule bitmap_bit_cong)
    fix a assume "a < ?b0 + 4 * (j div 32) + 4"
    moreover have "j div 32 < ?w" using that by (simp add: less_mult_imp_div_less mult.commute)
    ultimately have "a < ?b1" unfolding b01 [symmetric] by linarith
    then show "m4 a = m2 a" by (rule low)
  qed
  have bits2: "bitmap_bit m2 ?b0 j \<longleftrightarrow> bitmap_bit m ?b2 j \<or> num_blocks l \<le> j" if "j < 32 * ?w" for j
  proof -
    let ?i = "j div 32" and ?k = "j mod 32"
    have i: "?i < ?w" using that by (simp add: less_mult_imp_div_less mult.commute)
    have cp: "load32 m1 (?b0 + 4 * ?i) = load32 m (?b2 + 4 * ?i)"
      unfolding m1_def by (rule load32_cong) (use i in \<open>auto simp: memcpy_def add.assoc\<close>)
    have j: "j = 32 * ?i + ?k" "?k < 32" by simp_all
    have nb: "num_blocks l = 32 * (?w - 1) + num_blocks l mod 32"
      using words_bounds(3) [of l] by simp
    show ?thesis
    proof (cases "?i = ?w - 1")
      case True
      have "num_blocks l \<le> j \<longleftrightarrow> num_blocks l mod 32 \<le> ?k" using nb j True by linarith
      moreover have "load32 m2 (?b0 + 4 * ?i) = load32 m (?b2 + 4 * ?i) OR s0"
        unfolding m2_def sp True [symmetric] cp by simp
      ultimately show ?thesis
        using j(2) by (simp add: bitmap_bit_def bit_or_iff s0_def bit_sentinel del: push_bit_minus_one_eq_not_mask)
    next
      case False
      then have "load32 m2 (?b0 + 4 * ?i) = load32 m (?b2 + 4 * ?i)"
        unfolding m2_def sp using i cp by (subst load32_store32_other) auto
      moreover have "j < num_blocks l" using nb j i False by linarith
      ultimately show ?thesis by (simp add: bitmap_bit_def)
    qed
  qed
  have full: "load32 m2 (?b0 + 4 * k) = - 1 \<longleftrightarrow> (\<forall>i<32. bitmap_bit m4 ?b0 (32 * k + i))" if "k < ?w" for k
    unfolding full_word_bits using bits0 [of "32 * k + _"] that by auto
  have bits1: "bitmap_bit m4 ?b1 k \<longleftrightarrow> k < ?w \<and> load32 m2 (?b0 + 4 * k) = - 1 \<or> ?w \<le> k"
    if "k < 32 * words1 l" for k
  proof -
    let ?i = "k div 32" and ?r = "k mod 32"
    have k: "k = 32 * ?i + ?r" "?r < 32" by simp_all
    have w: "?w = 32 * (?w div 32) + ?w mod 32" by simp
    have "?i < words1 l" using that by (simp add: less_mult_imp_div_less mult.commute)
    then have i: "?i \<le> ?w div 32" using words_bounds(5,7) [of l] by linarith
    show ?thesis
    proof (cases "?i = ?w div 32")
      case True
      have "?w \<le> k \<longleftrightarrow> ?w mod 32 \<le> ?r" using k w True by linarith
      moreover have "load32 m4 (?b1 + 4 * ?i) = word OR s1" unfolding m4_def True by simp
      moreover have "bit word ?r \<longleftrightarrow> ?r < ?w mod 32 \<and> load32 m2 (?b0 + 4 * k) = - 1"
      proof -
        have "\<forall>k<32. bit word k \<longleftrightarrow> k < ?w mod 32 \<and> load32 m2 (?b0 + 4 * (32 * (?w div 32) + k)) = - 1"
          using inv unfolding summary_inv_def by blast
        from this [rule_format, OF k(2)] show ?thesis unfolding True [symmetric] k(1) [symmetric] .
      qed
      ultimately show ?thesis
        using k(2) by (auto simp: bitmap_bit_def bit_or_iff s1_def bit_sentinel simp del: push_bit_minus_one_eq_not_mask)
    next
      case False
      then have lt: "?i < ?w div 32" using i by simp
      then have "k < ?w" using k w by linarith
      moreover have "load32 m4 (?b1 + 4 * ?i) = load32 m3 (?b1 + 4 * ?i)"
        unfolding m4_def using lt by (subst load32_store32_other) auto
      moreover have "bit (load32 m3 (?b1 + 4 * ?i)) ?r \<longleftrightarrow> load32 m2 (?b0 + 4 * k) = - 1"
      proof -
        have "\<forall>i<?w div 32. \<forall>k<32. bit (load32 m3 (?b1 + 4 * i)) k \<longleftrightarrow> load32 m2 (?b0 + 4 * (32 * i + k)) = - 1"
          using inv unfolding summary_inv_def by blast
        from this [rule_format, OF lt k(2)] show ?thesis unfolding k(1) [symmetric] .
      qed
      ultimately show ?thesis by (simp add: bitmap_bit_def)
    qed
  qed
  show "bitmaps_ok (copy_collect_bitmap seg l m) seg l"
    unfolding eq m4_def [symmetric] bitmaps_ok_def
    using bits0 bits2 bits1 full words_bounds(4) [of l] by auto
  show "j < num_blocks l \<Longrightarrow> used (copy_collect_bitmap seg l m) seg j = marked m seg l j"
    unfolding eq m4_def [symmetric] used_def marked_def
    using bits0 [of j] bits2 [of j] words_bounds(1) [of l] by simp
  show "a < ?b0 \<or> ?b2 \<le> a \<Longrightarrow> copy_collect_bitmap seg l m a = m a"
  proof -
    assume a: "a < ?b0 \<or> ?b2 \<le> a"
    have b: "?b0 \<le> sp" "sp + 4 = ?b1" "?b1 \<le> ?up" unfolding sp using b01 words_bounds(6) [of l] by auto
    have "m4 a = m3 a" unfolding m4_def using a b up by (intro store32_other) auto
    also have "\<dots> = m2 a" using inv a b up by (auto simp: summary_inv_def)
    also have "\<dots> = m1 a" unfolding m2_def using a b up by (intro store32_other) auto
    also have "\<dots> = m a" using a b up b01 by (auto simp: m1_def memcpy_def)
    finally show ?thesis unfolding eq m4_def .
  qed
qed


lemma clear_collect_bitmap_spec:
  assumes l: "layout_ok l"
  shows "j < 32 * words0 l \<Longrightarrow> \<not> marked (clear_collect_bitmap seg l m) seg l j"
    and "a < base2 seg l \<or> seg + zerofill_limit l \<le> a \<Longrightarrow> clear_collect_bitmap seg l m a = m a"
    and "bitmaps_ok (clear_collect_bitmap seg l m) seg l = bitmaps_ok m seg l"
    and "j < 32 * words0 l \<Longrightarrow> used (clear_collect_bitmap seg l m) seg j = used m seg j"
proof -
  let ?m = "clear_collect_bitmap seg l m"
  have eq: "?m = memset m (base2 seg l) 0 (4 * words0 l)"
    by (simp add: clear_collect_bitmap_def layout_bases [OF l])
  show "j < 32 * words0 l \<Longrightarrow> \<not> marked ?m seg l j"
  proof -
    assume "j < 32 * words0 l"
    then have "j div 32 < words0 l" by (simp add: less_mult_imp_div_less mult.commute)
    then have "load32 ?m (base2 seg l + 4 * (j div 32)) = 0"
      unfolding eq by (intro load32_memset_zero) auto
    then show ?thesis by (simp add: marked_def bitmap_bit_def)
  qed
  have lim: "base2 seg l + 4 * words0 l = seg + zerofill_limit l"
    using l by (simp add: layout_ok_def base2_def)
  show out: "a < base2 seg l \<or> seg + zerofill_limit l \<le> a \<Longrightarrow> ?m a = m a" for a
    unfolding eq memset_def lim [symmetric] by auto
  have b0: "bitmap_bit ?m (base0 seg) j = bitmap_bit m (base0 seg) j" if "j < 32 * words0 l" for j
  proof (rule bitmap_bit_cong)
    have "j div 32 < words0 l" using that by (simp add: less_mult_imp_div_less mult.commute)
    then show "?m a = m a" if "a < base0 seg + 4 * (j div 32) + 4" for a
      using that by (intro out) (auto simp: base2_def)
  qed
  have b1: "bitmap_bit ?m (base1 seg l) j = bitmap_bit m (base1 seg l) j" if "j < 32 * words1 l" for j
  proof (rule bitmap_bit_cong)
    have "j div 32 < words1 l" using that by (simp add: less_mult_imp_div_less mult.commute)
    then show "?m a = m a" if "a < base1 seg l + 4 * (j div 32) + 4" for a
      using that by (intro out) (auto simp: base2_def base1_def)
  qed
  show "bitmaps_ok ?m seg l = bitmaps_ok m seg l"
    unfolding bitmaps_ok_def using b0 b1 words_bounds(4) [of l] by auto
  show "j < 32 * words0 l \<Longrightarrow> used ?m seg j = used m seg j" unfolding used_def by (rule b0)
qed

text \<open>
  A segment without used or marked blocks: the words of the bitmap area are zero except for the
  sentinel words of the two levels.
\<close>

definition seg_clean :: "mem \<Rightarrow> addr \<Rightarrow> segment_layout \<Rightarrow> bool" where
  "seg_clean m seg l \<longleftrightarrow>
     (\<forall>i<2 * words0 l + words1 l. load32 m (base0 seg + 4 * i) =
        (if i = words0 l - 1 then bitmap_sentinel l ! 0
         else if i = words0 l + words1 l - 1 then bitmap_sentinel l ! 1 else 0))"

lemma load32_store32_index:
  "load32 (store32 m (b + 4 * i) v) (b + 4 * j) = (if i = j then v else load32 m (b + 4 * j))"
proof (cases "i = j")
  case False
  then have "b + 4 * i + 4 \<le> b + 4 * j \<or> b + 4 * j + 4 \<le> b + 4 * i" by linarith
  with False show ?thesis by (simp add: load32_store32_other)
qed simp

lemma word_le:
  "(n :: nat) \<le> j \<longleftrightarrow> n div 32 < j div 32 \<or> n div 32 = j div 32 \<and> n mod 32 \<le> j mod 32"
proof -
  have "32 * q + r \<le> 32 * q' + r' \<longleftrightarrow> q < q' \<or> q = q' \<and> r \<le> r'" if "r < 32" "r' < 32" for q r q' r' :: nat
    using that by arith
  from this [of "n mod 32" "j mod 32" "n div 32" "j div 32"] show ?thesis by simp
qed

text \<open>The bitmap area of a segment as 32 bit words that are all zero.\<close>

definition zero_words :: "mem \<Rightarrow> addr \<Rightarrow> nat \<Rightarrow> bool" where
  "zero_words m seg lim \<longleftrightarrow> (\<forall>a. base0 seg \<le> a \<and> a < seg + lim \<longrightarrow> m a = 0)"

lemma load32_zero: "(\<And>i. i < 4 \<Longrightarrow> m (a + i) = 0) \<Longrightarrow> load32 m a = 0"
proof -
  assume "\<And>i. i < 4 \<Longrightarrow> m (a + i) = 0"
  then have "load32 m a = load32 (\<lambda>_. 0) 0" by (intro load32_cong) auto
  also have "\<dots> = 0" by (simp add: load32_def eval_nat_numeral)
  finally show ?thesis .
qed

lemma load32_zero_bytes:
  assumes "load32 m a = 0" and "i < 4"
  shows "m (a + i) = 0"
proof -
  have z: "load_le (\<lambda>_. 0) b n = 0" for b n by (induction n arbitrary: b) auto
  have "load_le m a 4 < 2 ^ 32" using load_le_bound [of m a 4] by simp
  moreover have "load_le m a 4 mod 2 ^ 32 = 0"
    using arg_cong [OF assms(1), of unat] unfolding load32_def unat_of_nat by simp
  ultimately have "load_le m a 4 = load_le (\<lambda>_. 0) a 4" unfolding z by (simp only: mod_less)
  from load_le_inj [OF this assms(2)] show ?thesis by simp
qed

lemma levels: "[0..<2] = [0, 1 :: nat]"
  by (simp add: upt_rec)

lemma sentinel_words:
  assumes l: "layout_ok l"
  shows "base1 seg l - 4 = base0 seg + 4 * (words0 l - 1)"
    "base2 seg l - 4 = base0 seg + 4 * (words0 l + words1 l - 1)"
    "seg + zerofill_limit l = base0 seg + 4 * (2 * words0 l + words1 l)"
  using words_bounds(6,7) [of l] l by (simp_all add: base1_def base2_def layout_ok_def)

lemma store32_outside:
  "i < w \<Longrightarrow> j < w \<Longrightarrow> a < p \<or> p + 4 * w \<le> a
   \<Longrightarrow> store32 (store32 m (p + 4 * i) v) (p + 4 * j) v' a = m a"
  by (auto simp: store32_other)

lemma sentinel_words_differ: "words0 l - 1 \<noteq> words0 l + words1 l - 1"
  using words_bounds(6,7) [of l] by simp

lemma set_sentinels_clean:
  assumes l: "layout_ok l" and z: "zero_words m seg (zerofill_limit l)"
  shows "seg_clean (set_sentinels seg l m) seg l"
    and "a < base0 seg \<or> seg + zerofill_limit l \<le> a \<Longrightarrow> set_sentinels seg l m a = m a"
proof -
  let ?i0 = "words0 l - 1" and ?i1 = "words0 l + words1 l - 1"
  note b = sentinel_words [OF l, of seg] and ne = sentinel_words_differ [of l]
  have eq: "set_sentinels seg l m = store32 (store32 m (base0 seg + 4 * ?i0) (bitmap_sentinel l ! 0))
      (base0 seg + 4 * ?i1) (bitmap_sentinel l ! 1)"
    by (simp only: set_sentinels_def levels fold_simps layout_bases [OF l] b)
  have z32: "load32 m (base0 seg + 4 * i) = 0" if "i < 2 * words0 l + words1 l" for i
    by (rule load32_zero) (use z that b(3) in \<open>auto simp: zero_words_def\<close>)
  show "seg_clean (set_sentinels seg l m) seg l"
    unfolding seg_clean_def eq load32_store32_index using ne z32 by auto
  show "a < base0 seg \<or> seg + zerofill_limit l \<le> a \<Longrightarrow> set_sentinels seg l m a = m a"
    unfolding eq b(3) by (rule store32_outside [where w = "2 * words0 l + words1 l"]) (use words_bounds(6,7) [of l] in simp_all)
qed

lemma clear_sentinels_zero:
  assumes l: "layout_ok l" and c: "seg_clean m seg l"
  shows "zero_words (clear_sentinels seg l m) seg (zerofill_limit l)"
    and "a < base0 seg \<or> seg + zerofill_limit l \<le> a \<Longrightarrow> clear_sentinels seg l m a = m a"
proof -
  let ?i0 = "words0 l - 1" and ?i1 = "words0 l + words1 l - 1"
  note b = sentinel_words [OF l, of seg] and ne = sentinel_words_differ [of l]
  define m' where "m' = store32 (store32 m (base0 seg + 4 * ?i0) 0) (base0 seg + 4 * ?i1) 0"
  have eq: "clear_sentinels seg l m = m'"
    by (simp only: clear_sentinels_def m'_def levels fold_simps layout_bases [OF l] b)
  have w: "load32 m' (base0 seg + 4 * i) = 0" if "i < 2 * words0 l + words1 l" for i
    unfolding m'_def load32_store32_index using c that by (auto simp: seg_clean_def)
  show "zero_words (clear_sentinels seg l m) seg (zerofill_limit l)"
    unfolding eq zero_words_def
  proof (intro allI impI)
    fix a assume a: "base0 seg \<le> a \<and> a < seg + zerofill_limit l"
    define i where "i = (a - base0 seg) div 4"
    define r where "r = (a - base0 seg) mod 4"
    have ar: "a = base0 seg + 4 * i + r" "r < 4" using a by (simp_all add: i_def r_def)
    have "4 * i < 4 * (2 * words0 l + words1 l)" using a ar(1) b(3) by linarith
    then have "i < 2 * words0 l + words1 l" by simp
    from load32_zero_bytes [OF w [OF this] ar(2)] show "m' a = 0" unfolding ar(1) .
  qed
  show "a < base0 seg \<or> seg + zerofill_limit l \<le> a \<Longrightarrow> clear_sentinels seg l m a = m a"
    unfolding eq m'_def b(3) by (rule store32_outside [where w = "2 * words0 l + words1 l"]) (use words_bounds(6,7) [of l] in simp_all)
qed

text \<open>In a clean segment the bitmaps are consistent and no block is used or marked.\<close>

lemma seg_clean_bitmaps:
  assumes l: "layout_ok l" and c: "seg_clean m seg l"
  shows "bitmaps_ok m seg l" and "j < num_blocks l \<Longrightarrow> \<not> used m seg j"
    and "j < 32 * words0 l \<Longrightarrow> \<not> marked m seg l j"
proof -
  let ?w0 = "words0 l" and ?w1 = "words1 l" and ?n = "num_blocks l"
  have nz: "?n mod 32 \<noteq> 0" using l by (simp add: layout_ok_def)
  have nb: "?n = 32 * (?w0 - 1) + ?n mod 32" using words_bounds(3) [of l] by simp
  have word: "load32 m (base0 seg + 4 * i) = (if i = ?w0 - 1 then push_bit (?n mod 32) (- 1)
      else if i = ?w0 + ?w1 - 1 then push_bit (?w0 mod 32) (- 1) else 0)" if "i < 2 * ?w0 + ?w1" for i
    using c that unfolding seg_clean_def layout_sentinels [OF l] by blast
  have u: "bitmap_bit m (base0 seg) j \<longleftrightarrow> ?n \<le> j" if "j < 32 * ?w0" for j
  proof -
    have i: "j div 32 < ?w0" using that by (simp add: less_mult_imp_div_less mult.commute)
    have "?n \<le> j \<longleftrightarrow> j div 32 = ?w0 - 1 \<and> ?n mod 32 \<le> j mod 32"
      using i words_bounds(3) [of l] word_le [of ?n j] by linarith
    then show ?thesis
      using word [of "j div 32"] i words_bounds(7) [of l]
      by (auto simp: bitmap_bit_def bit_sentinel simp del: push_bit_minus_one_eq_not_mask)
  qed
  then show "j < ?n \<Longrightarrow> \<not> used m seg j" using words_bounds(1) [of l] by (simp add: used_def)
  have s: "bitmap_bit m (base1 seg l) k \<longleftrightarrow> ?w0 \<le> k" if "k < 32 * ?w1" for k
  proof -
    have i: "k div 32 < ?w1" using that by (simp add: less_mult_imp_div_less mult.commute)
    have "?w0 \<le> k \<longleftrightarrow> k div 32 = ?w1 - 1 \<and> ?w0 mod 32 \<le> k mod 32"
      using i words_bounds(5) [of l] word_le [of ?w0 k] by linarith
    moreover have eq: "base1 seg l + 4 * (k div 32) = base0 seg + 4 * (?w0 + k div 32)" by (simp add: base1_def)
    have "?w0 + k div 32 = ?w0 + ?w1 - 1 \<longleftrightarrow> k div 32 = ?w1 - 1" "?w0 + k div 32 \<noteq> ?w0 - 1"
      using words_bounds(6,7) [of l] by auto
    then have "load32 m (base1 seg l + 4 * (k div 32))
        = (if k div 32 = ?w1 - 1 then push_bit (?w0 mod 32) (- 1) else 0)"
      unfolding eq using word [of "?w0 + k div 32"] i by (simp only: if_False)
    ultimately show ?thesis
      by (auto simp: bitmap_bit_def bit_sentinel simp del: push_bit_minus_one_eq_not_mask)
  qed
  have full: "\<not> (\<forall>i<32. bitmap_bit m (base0 seg) (32 * k + i))" if "k < ?w0" for k
    using u [of "32 * k"] nz nb that by (auto intro!: exI [of _ 0])
  show "bitmaps_ok m seg l"
    unfolding bitmaps_ok_def using u s full words_bounds(4) [of l] by auto
  show "j < 32 * ?w0 \<Longrightarrow> \<not> marked m seg l j"
  proof -
    assume "j < 32 * ?w0"
    then have i: "j div 32 < ?w0" by (simp add: less_mult_imp_div_less mult.commute)
    have eq: "base2 seg l + 4 * (j div 32) = base0 seg + 4 * (?w0 + ?w1 + j div 32)" by (simp add: base2_def)
    have "load32 m (base2 seg l + 4 * (j div 32)) = 0"
      unfolding eq using word [of "?w0 + ?w1 + j div 32"] i words_bounds(6,7) [of l] by auto
    then show ?thesis by (simp add: marked_def bitmap_bit_def)
  qed
qed


section \<open>Initialising a segment\<close>

text \<open>
  A segment that may be given to any subheap: new, with zero bytes where any bitmap may be, or
  of an old layout and clean.
\<close>

definition seg_reusable :: "seg_store \<Rightarrow> addr \<Rightarrow> nat \<Rightarrow> bool" where
  "seg_reusable st seg i \<longleftrightarrow>
     (case seg_layout (segs st seg) of
        None \<Rightarrow> zero_words (bytes st) seg (zerofill_limit (compute_segment_layout i))
      | Some k \<Rightarrow> k < NUM_SUBHEAPS \<and> seg_clean (bytes st) seg (compute_segment_layout k))"

lemma memset_zero_words:
  assumes "zero_words m seg lim" and "base0 seg \<le> seg + lim" and "lim < lim'"
  shows "zero_words (memset m (seg + lim) 0 (lim' - lim)) seg lim'"
  using assms by (auto simp: zero_words_def memset_def)

lemma zero_words_mono: "zero_words m seg lim \<Longrightarrow> lim' \<le> lim \<Longrightarrow> zero_words m seg lim'"
  by (auto simp: zero_words_def)

lemma init_segment_spec:
  assumes i: "i < NUM_SUBHEAPS" and r: "seg_reusable st seg i"
  shows "seg_clean (bytes (init_segment seg i st)) seg (compute_segment_layout i)"
    and "seg_layout (segs (init_segment seg i st) seg) = Some i"
    and "a < base0 seg \<or> seg + SEGMENT_SIZE \<le> a \<Longrightarrow> bytes (init_segment seg i st) a = bytes st a"
    and "s \<noteq> seg \<Longrightarrow> segs (init_segment seg i st) s = segs st s"
proof -
  define new where "new = compute_segment_layout i"
  define m1 where "m1 = (case seg_layout (segs st seg) of None \<Rightarrow> bytes st
    | Some k \<Rightarrow> let old = compute_segment_layout k; m = clear_sentinels seg old (bytes st)
        in if zerofill_limit new > zerofill_limit old
           then memset m (seg + zerofill_limit old) 0 (zerofill_limit new - zerofill_limit old) else m)"
  have lim: "32 \<le> zerofill_limit (compute_segment_layout k) \<and> zerofill_limit (compute_segment_layout k) \<le> SEGMENT_SIZE"
    if "k < NUM_SUBHEAPS" for k
    using compute_segment_layout_ok(1) [OF that] by (simp add: layout_ok_def)
  have new: "layout_ok new" unfolding new_def by (rule compute_segment_layout_ok(1) [OF i])
  have z: "zero_words m1 seg (zerofill_limit new)"
    and out: "a < base0 seg \<or> seg + SEGMENT_SIZE \<le> a \<Longrightarrow> m1 a = bytes st a" for a
  proof -
    have "zero_words m1 seg (zerofill_limit new) \<and>
      (\<forall>a. a < base0 seg \<or> seg + SEGMENT_SIZE \<le> a \<longrightarrow> m1 a = bytes st a)"
    proof (cases "seg_layout (segs st seg)")
      case None
      then show ?thesis using r by (simp add: m1_def seg_reusable_def new_def)
    next
      case (Some k)
      let ?old = "compute_segment_layout k"
      have k: "k < NUM_SUBHEAPS" and c: "seg_clean (bytes st) seg ?old"
        using r Some by (simp_all add: seg_reusable_def)
      note cl = clear_sentinels_zero [OF compute_segment_layout_ok(1) [OF k] c]
      have "zero_words m1 seg (zerofill_limit new)"
        using cl(1) lim [OF k] zero_words_mono [OF cl(1), of "zerofill_limit new"]
          memset_zero_words [OF cl(1), of "zerofill_limit new"]
        by (auto simp: m1_def Some Let_def)
      moreover have "m1 a = bytes st a" if "a < base0 seg \<or> seg + SEGMENT_SIZE \<le> a" for a
        using cl(2) [of a] lim [OF k] lim [OF i] that by (auto simp: m1_def Some Let_def memset_def new_def)
      ultimately show ?thesis by blast
    qed
    then show "zero_words m1 seg (zerofill_limit new)"
      and "a < base0 seg \<or> seg + SEGMENT_SIZE \<le> a \<Longrightarrow> m1 a = bytes st a" by blast+
  qed
  note ss = set_sentinels_clean [OF new z]
  have eq: "init_segment seg i st = (if seg_layout (segs st seg) = Some i then st else
    upd_seg seg (\<lambda>s. s\<lparr>seg_layout := Some i, allocptr_snapshot := BLOCK_BASE seg new,
      seg_free_count := num_blocks new\<rparr>) (st\<lparr>bytes := set_sentinels seg new m1\<rparr>))"
    by (simp only: init_segment_def Let_def new_def m1_def)
  show "seg_clean (bytes (init_segment seg i st)) seg (compute_segment_layout i)"
    using r ss(1) by (auto simp: eq upd_seg_def seg_reusable_def new_def)
  show "seg_layout (segs (init_segment seg i st) seg) = Some i" by (simp add: eq upd_seg_def)
  show "s \<noteq> seg \<Longrightarrow> segs (init_segment seg i st) s = segs st s" by (simp add: eq upd_seg_def)
  show "a < base0 seg \<or> seg + SEGMENT_SIZE \<le> a \<Longrightarrow> bytes (init_segment seg i st) a = bytes st a"
    using ss(2) [of a] out [of a] lim [OF i] by (auto simp: eq upd_seg_def new_def)
qed

section \<open>Searching for a free block\<close>

lemma segment_addr_in:
  assumes "SEGMENT_SIZE dvd seg" and "r < SEGMENT_SIZE"
  shows "segment_addr (seg + r) = seg"
proof -
  from assms(1) obtain k where "seg = SEGMENT_SIZE * k" by (rule dvdE)
  then have "(seg + r) mod SEGMENT_SIZE = r" using assms(2) by simp
  then show ?thesis by (simp add: segment_addr_def)
qed

text \<open>The first clear bit of a bitmap from \<open>n\<close> on and below \<open>limit\<close>.\<close>

definition next_clear :: "mem \<Rightarrow> addr \<Rightarrow> nat \<Rightarrow> nat \<Rightarrow> nat option" where
  "next_clear m p n limit = List.find (\<lambda>j. \<not> bitmap_bit m p j) [n..<limit]"

lemma find_append_case:
  "List.find P (xs @ ys) = (case List.find P xs of None \<Rightarrow> List.find P ys | Some x \<Rightarrow> Some x)"
  by (induction xs) auto

lemma next_clear_split:
  assumes "n \<le> k" and "k \<le> limit"
  shows "next_clear m p n limit =
    (case next_clear m p n k of None \<Rightarrow> next_clear m p k limit | Some j \<Rightarrow> Some j)"
proof -
  have "[n..<limit] = [n..<k] @ [k..<limit]"
    using assms by (metis le_add_diff_inverse upt_add_eq_append)
  then show ?thesis unfolding next_clear_def by (simp only: find_append_case)
qed

lemma word_step: "32 * Suc q = 32 * q + 32" "p + 4 * Suc q = p + 4 * q + (4 :: nat)"
  by simp_all

lemma next_clear_word: "next_clear m p n (32 * (n div 32) + 32) = first_clear m p n"
  by (simp add: next_clear_def first_clear_def)

lemma bitptr_not_failed [simp]: "\<not> BITPTR_NEXT_FAILED (BITPTR p n)"
  by (simp add: BITPTR_NEXT_FAILED_def)

lemma linear_search_step:
  assumes "s < w"
  shows "bitptr_linear_search m (p + 4 * s) (p + 4 * w) =
    (case first_clear m p (32 * s) of None \<Rightarrow> bitptr_linear_search m (p + 4 * Suc s) (p + 4 * w)
     | Some j \<Rightarrow> BITPTR p j)"
proof -
  have b: "\<lparr>bp_ptr = p + 4 * s, bp_mask = 1\<rparr> = BITPTR p (32 * s)" by (simp add: BITPTR_def)
  have S: "bitptr_linear_search m (p + 4 * s) (p + 4 * w) =
      (if BITPTR_NEXT_FAILED (BITPTR_NEXT0 m (BITPTR p (32 * s)))
       then bitptr_linear_search m (p + 4 * Suc s) (p + 4 * w) else BITPTR_NEXT0 m (BITPTR p (32 * s)))"
    unfolding b [symmetric] using assms
    by (subst bitptr_linear_search.simps) (simp add: Let_def add.assoc add.commute [of 4])
  show ?thesis
  proof (cases "first_clear m p (32 * s)")
    case None
    from bitptr_next0_None [OF this] show ?thesis unfolding S by (simp add: None)
  next
    case (Some j)
    from bitptr_next0_Some [OF this] show ?thesis unfolding S by (simp add: Some)
  qed
qed

lemma linear_search_spec:
  "s \<le> w \<Longrightarrow> (case next_clear m p (32 * s) (32 * w) of
      None \<Rightarrow> BITPTR_NEXT_FAILED (bitptr_linear_search m (p + 4 * s) (p + 4 * w))
    | Some j \<Rightarrow> bitptr_linear_search m (p + 4 * s) (p + 4 * w) = BITPTR p j)"
proof (induction "w - s" arbitrary: s)
  case 0
  then have "s = w" by simp
  moreover have "bitptr_linear_search m (p + 4 * w) (p + 4 * w) = \<lparr>bp_ptr = p + 4 * w, bp_mask = 0\<rparr>"
    by (subst bitptr_linear_search.simps) simp
  ultimately show ?case by (simp add: next_clear_def BITPTR_NEXT_FAILED_def)
next
  case (Suc d)
  then have lt: "s < w" by simp
  have w: "next_clear m p (32 * s) (32 * s + 32) = first_clear m p (32 * s)"
    using next_clear_word [of m p "32 * s"] by simp
  have "next_clear m p (32 * s) (32 * w) = (case first_clear m p (32 * s) of
      None \<Rightarrow> next_clear m p (32 * Suc s) (32 * w) | Some j \<Rightarrow> Some j)"
    using next_clear_split [of "32 * s" "32 * s + 32" "32 * w" m p] lt unfolding w word_step by simp
  note split = this and step = linear_search_step [OF lt, of m p]
  have ih: "case next_clear m p (32 * Suc s) (32 * w) of
      None \<Rightarrow> BITPTR_NEXT_FAILED (bitptr_linear_search m (p + 4 * Suc s) (p + 4 * w))
    | Some j \<Rightarrow> bitptr_linear_search m (p + 4 * Suc s) (p + 4 * w) = BITPTR p j"
    by (rule Suc.hyps(1)) (use Suc.hyps(2) lt in simp_all)
  show ?case
  proof (cases "first_clear m p (32 * s)")
    case None
    show ?thesis using ih unfolding split step None option.case .
  next
    case (Some j)
    show ?thesis unfolding split step Some option.case ..
  qed
qed

text \<open>
  With consistent bitmaps, the upper level leads to the first word with a clear bit, so the two
  level search finds the first clear bit of the lower bitmap.
\<close>

lemma next_clear_Some_iff:
  "next_clear m p n limit = Some j \<longleftrightarrow>
    n \<le> j \<and> j < limit \<and> \<not> bitmap_bit m p j \<and> (\<forall>k. n \<le> k \<and> k < j \<longrightarrow> bitmap_bit m p k)"
  (is "?L \<longleftrightarrow> ?R")
proof
  assume ?L
  from find_upt_SomeD [OF this [unfolded next_clear_def]] show ?R by simp
next
  assume R: ?R
  show ?L
  proof (cases "next_clear m p n limit")
    case None
    from find_upt_NoneD [OF this [unfolded next_clear_def]] R show ?thesis by blast
  next
    case (Some i)
    from find_upt_SomeD [OF this [unfolded next_clear_def]] R have "i = j" by (metis linorder_neqE_nat)
    then show ?thesis using Some by simp
  qed
qed

lemma next_clear_None_iff:
  "next_clear m p n limit = None \<longleftrightarrow> (\<forall>k. n \<le> k \<and> k < limit \<longrightarrow> bitmap_bit m p k)"
  by (auto simp: next_clear_def find_None_iff)

lemma upper_level_full:
  assumes ok: "bitmaps_ok m seg l" and q: "s \<le> q" "q \<le> words0 l"
    and full: "\<forall>k. s \<le> k \<and> k < q \<longrightarrow> bitmap_bit m (base1 seg l) k"
    and j: "32 * s \<le> j" "j < 32 * q"
  shows "bitmap_bit m (base0 seg) j"
proof -
  have k: "s \<le> j div 32" "j div 32 < q" using j by (simp_all add: less_eq_div_iff_mult_less_eq less_mult_imp_div_less mult.commute)
  then have "\<forall>i<32. bitmap_bit m (base0 seg) (32 * (j div 32) + i)"
    using ok full q unfolding bitmaps_ok_def by auto
  from this [rule_format, of "j mod 32"] show ?thesis by simp
qed

lemma upper_has_clear:
  assumes ok: "bitmaps_ok m seg l" and k: "next_clear m (base1 seg l) s (32 * words1 l) = Some k"
  shows "first_clear m (base0 seg) (32 * k) \<noteq> None"
proof -
  have "\<not> bitmap_bit m (base1 seg l) k" "k < words0 l"
    using ok k unfolding bitmaps_ok_def next_clear_Some_iff by (blast, meson not_le_imp_less)
  then have "\<exists>i<32. \<not> bitmap_bit m (base0 seg) (32 * k + i)" using ok unfolding bitmaps_ok_def by blast
  then have "next_clear m (base0 seg) (32 * k) (32 * k + 32) \<noteq> None"
    unfolding next_clear_None_iff by (metis le_add1 nat_add_left_cancel_less)
  then show ?thesis using next_clear_word [of m "base0 seg" "32 * k"] by simp
qed

lemma two_level_search:
  assumes ok: "bitmaps_ok m seg l" and s: "s \<le> words0 l"
  shows "next_clear m (base0 seg) (32 * s) (num_blocks l) =
    (case next_clear m (base1 seg l) s (32 * words1 l) of
       None \<Rightarrow> None | Some k \<Rightarrow> first_clear m (base0 seg) (32 * k))"
proof (cases "next_clear m (base1 seg l) s (32 * words1 l)")
  case None
  then have "\<forall>k. s \<le> k \<and> k < words0 l \<longrightarrow> bitmap_bit m (base1 seg l) k"
    using words_bounds(4) [of l] unfolding next_clear_None_iff by auto
  from upper_level_full [OF ok s _ this] have "next_clear m (base0 seg) (32 * s) (num_blocks l) = None"
    using words_bounds(1) [of l] unfolding next_clear_None_iff by auto
  then show ?thesis using None by simp
next
  case (Some k)
  then have k: "s \<le> k" "\<not> bitmap_bit m (base1 seg l) k"
    "\<forall>i. s \<le> i \<and> i < k \<longrightarrow> bitmap_bit m (base1 seg l) i" and "k < 32 * words1 l"
    by (auto simp: next_clear_Some_iff)
  then have kw: "k < words0 l" using ok unfolding bitmaps_ok_def by (meson not_le_imp_less)
  obtain j where j: "next_clear m (base0 seg) (32 * k) (32 * k + 32) = Some j"
    using upper_has_clear [OF ok Some] next_clear_word [of m "base0 seg" "32 * k"] by auto
  then have jb: "32 * k \<le> j" "j < 32 * k + 32" "\<not> bitmap_bit m (base0 seg) j" by (auto simp: next_clear_Some_iff)
  have jn: "j < num_blocks l"
  proof (rule ccontr)
    assume "\<not> j < num_blocks l"
    then show False using ok jb kw unfolding bitmaps_ok_def by auto
  qed
  have "next_clear m (base0 seg) (32 * s) (num_blocks l) = Some j"
    unfolding next_clear_Some_iff
    using jb jn j upper_level_full [OF ok k(1) less_imp_le [OF kw] k(3)] k(1)
    by (auto simp: next_clear_Some_iff) (meson not_le_imp_less)
  moreover have "first_clear m (base0 seg) (32 * k) = Some j"
    using j next_clear_word [of m "base0 seg" "32 * k"] by simp
  ultimately show ?thesis using Some by simp
qed


definition block_addr :: "addr \<Rightarrow> segment_layout \<Rightarrow> nat \<Rightarrow> addr" where
  "block_addr seg l j = BLOCK_BASE seg l + j * 2 ^ blocksize_log2 l"

text \<open>The allocation pointer of a segment at block \<open>k\<close>.\<close>

definition alloc_at :: "addr \<Rightarrow> segment_layout \<Rightarrow> nat \<Rightarrow> alloc_ptr" where
  "alloc_at seg l k = \<lparr>ap_b = BITPTR (BITMAP0_BASE seg) k, ap_p = block_addr seg l k,
     ap_blocksize_bytes = 2 ^ blocksize_log2 l\<rparr>"

lemma bitmap_word_segment:
  assumes "layout_ok l" and "SEGMENT_SIZE dvd seg" and "k \<le> num_blocks l"
  shows "segment_addr (base0 seg + 4 * (k div 32)) = seg"
proof -
  have "k div 32 < words0 l"
    using assms(3) words_bounds(1) [of l] by (simp add: less_mult_imp_div_less mult.commute)
  then have "32 + 4 * (k div 32) < SEGMENT_SIZE" using assms(1) by (simp add: layout_ok_def)
  from segment_addr_in [OF assms(2) this] show ?thesis by (simp add: add.assoc)
qed

lemma search_upper:
  assumes "s < 32 * w"
  shows "case next_clear m p s (32 * w) of
    None \<Rightarrow> BITPTR_NEXT_FAILED (BITPTR_NEXT0 m (BITPTR p s)) \<and>
      BITPTR_NEXT_FAILED (bitptr_linear_search m (p + 4 * (s div 32) + 4) (p + 4 * w))
  | Some j \<Rightarrow> (if BITPTR_NEXT_FAILED (BITPTR_NEXT0 m (BITPTR p s))
      then bitptr_linear_search m (p + 4 * (s div 32) + 4) (p + 4 * w)
      else BITPTR_NEXT0 m (BITPTR p s)) = BITPTR p j"
proof -
  let ?e = "32 * (s div 32) + 32"
  have le: "s \<le> ?e" "?e \<le> 32 * w" "Suc (s div 32) \<le> w"
  proof -
    have "s div 32 < w" using assms by (simp add: less_mult_imp_div_less mult.commute)
    then show "?e \<le> 32 * w" "Suc (s div 32) \<le> w" by simp_all
    show "s \<le> ?e" using div_mult_mod_eq [of s 32] mod_less_divisor [of 32 s] by linarith
  qed
  note split = next_clear_split [OF le(1,2), of m p, unfolded next_clear_word]
  have ls: "case next_clear m p ?e (32 * w) of
      None \<Rightarrow> BITPTR_NEXT_FAILED (bitptr_linear_search m (p + 4 * (s div 32) + 4) (p + 4 * w))
    | Some j \<Rightarrow> bitptr_linear_search m (p + 4 * (s div 32) + 4) (p + 4 * w) = BITPTR p j"
    using linear_search_spec [OF le(3), of m p] unfolding word_step .
  show ?thesis
  proof (cases "first_clear m p s")
    case None
    then show ?thesis using bitptr_next0_None [OF None] ls split by (simp split: option.splits)
  next
    case (Some j)
    then show ?thesis using bitptr_next0_Some [OF Some] split by simp
  qed
qed

lemma next0_ptr: "bp_ptr (BITPTR_NEXT0 m (BITPTR p n)) = p + 4 * (n div 32)"
  by (simp add: BITPTR_NEXT0_def Let_def)

lemma first_clear_in_blocks:
  assumes "bitmaps_ok m seg l" and "k \<le> num_blocks l"
  shows "next_clear m (base0 seg) k (num_blocks l) = (case first_clear m (base0 seg) k of
      None \<Rightarrow> next_clear m (base0 seg) (32 * Suc (k div 32)) (num_blocks l) | Some j \<Rightarrow> Some j)"
proof -
  let ?e = "32 * (k div 32) + 32"
  have kw: "k div 32 < words0 l"
    using assms(2) words_bounds(1) [of l] by (simp add: less_mult_imp_div_less mult.commute)
  show ?thesis
  proof (cases "first_clear m (base0 seg) k")
    case None
    then have full: "\<forall>i. k \<le> i \<and> i < ?e \<longrightarrow> bitmap_bit m (base0 seg) i"
      unfolding next_clear_word [symmetric] next_clear_None_iff .
    show ?thesis
    proof (cases "?e \<le> num_blocks l")
      case True
      have "k \<le> ?e" using div_mult_mod_eq [of k 32] mod_less_divisor [of 32 k] by linarith
      from next_clear_split [OF this True, of m "base0 seg"] show ?thesis
        unfolding next_clear_word word_step .
    next
      case False
      then have "next_clear m (base0 seg) k (num_blocks l) = None"
        "next_clear m (base0 seg) (32 * Suc (k div 32)) (num_blocks l) = None"
        unfolding next_clear_None_iff using full by auto
      then show ?thesis using None by simp
    qed
  next
    case (Some j)
    then have j: "k \<le> j" "j < ?e" "\<not> bitmap_bit m (base0 seg) j"
      "\<forall>i. k \<le> i \<and> i < j \<longrightarrow> bitmap_bit m (base0 seg) i"
      by (auto simp: next_clear_word [symmetric] next_clear_Some_iff)
    have "?e \<le> 32 * words0 l" using kw by simp
    then have "j < num_blocks l"
      using assms(1) j unfolding bitmaps_ok_def by (meson leI less_le_trans)
    then have "next_clear m (base0 seg) k (num_blocks l) = Some j"
      unfolding next_clear_Some_iff using j by blast
    then show ?thesis using Some by simp
  qed
qed

lemma find_bitmap_spec:
  assumes l: "layout_ok l" "layout_of st seg = l" and seg: "SEGMENT_SIZE dvd seg"
    and ok: "bitmaps_ok (bytes st) seg l" and k: "k \<le> num_blocks l"
  shows "find_bitmap st (alloc_at seg l k) =
    (case next_clear (bytes st) (base0 seg) k (num_blocks l) of
       None \<Rightarrow> (NULL, alloc_at seg l k)
     | Some j \<Rightarrow> (block_addr seg l j, alloc_at seg l (Suc j)))"
proof -
  let ?m = "bytes st" and ?b0 = "base0 seg" and ?b1 = "base1 seg l" and ?s = "Suc (k div 32)"
  have kw: "k div 32 < words0 l"
    using k words_bounds(1) [of l] by (simp add: less_mult_imp_div_less mult.commute)
  have s: "?s \<le> words0 l" "?s < 32 * words1 l" using kw words_bounds(4) [of l] by auto
  have p: "ap_p (alloc_at seg l k) \<noteq> NULL"
    using l(1) by (simp add: alloc_at_def block_addr_def BLOCK_BASE_def layout_ok_def)
  have sa: "ALLOC_PTR_TO_SEGMENT (alloc_at seg l k) = seg"
    using bitmap_word_segment [OF l(1) seg k] by (simp add: ALLOC_PTR_TO_SEGMENT_def alloc_at_def BITMAP0_BASE_def)
  define found where "found = next_clear ?m ?b0 k (num_blocks l)"
  define b where "b = BITPTR_NEXT0 ?m (BITPTR ?b0 k)"
  define b1 where "b1 = BITPTR_NEXT0 ?m (BITPTR ?b1 ?s)"
  define b2 where "b2 = (if BITPTR_NEXT_FAILED b1 then bitptr_linear_search ?m (bp_ptr b1 + 4) (base2 seg l) else b1)"
  define search where "search = (if \<not> BITPTR_NEXT_FAILED b then Some b
    else if BITPTR_NEXT_FAILED b2 then None
    else Some (BITPTR_NEXT0 ?m (BITPTR (?b0 + 4 * BITPTR_INDEX b2 ?b1) 0)))"
  have search: "search = map_option (BITPTR ?b0) found"
  proof (cases "first_clear ?m ?b0 k")
    case (Some j)
    then show ?thesis
      using bitptr_next0_Some [OF Some] first_clear_in_blocks [OF ok k] by (simp add: search_def b_def found_def)
  next
    case None
    have up: "case next_clear ?m ?b1 ?s (32 * words1 l) of None \<Rightarrow> BITPTR_NEXT_FAILED b2 | Some j \<Rightarrow> b2 = BITPTR ?b1 j"
      using search_upper [OF s(2), of ?m ?b1]
      by (auto simp: b2_def b1_def next0_ptr base2_def base1_def split: option.splits if_splits)
    have "found = (case next_clear ?m ?b1 ?s (32 * words1 l) of
        None \<Rightarrow> None | Some q \<Rightarrow> first_clear ?m ?b0 (32 * q))"
      using first_clear_in_blocks [OF ok k] None two_level_search [OF ok s(1)] by (simp add: found_def)
    moreover have "first_clear ?m ?b0 (32 * q) \<noteq> None" if "next_clear ?m ?b1 ?s (32 * words1 l) = Some q" for q
      using upper_has_clear [OF ok that] .
    ultimately show ?thesis
      using None bitptr_next0_None [OF None] up
      by (auto simp: search_def b_def bitptr_index bitptr_add bitptr_next0_Some split: option.splits)
  qed
  have "find_bitmap st (alloc_at seg l k) = (case search of None \<Rightarrow> (NULL, alloc_at seg l k)
    | Some b' \<Rightarrow> let obj = BLOCK_BASE seg l + BITPTR_INDEX b' ?b0 * 2 ^ blocksize_log2 l
        in (obj, (alloc_at seg l k)\<lparr>ap_b := BITPTR_INC b', ap_p := obj + ap_blocksize_bytes (alloc_at seg l k)\<rparr>))"
    using p unfolding find_bitmap_def Let_def sa l(2) layout_bases [OF l(1)]
    by (simp add: layout_bases [OF l(1)] search_def b2_def b1_def b_def alloc_at_def bitptr_wordindex next0_ptr
        BITPTR_WORDINDEX_def)
  then show ?thesis
    unfolding search found_def [symmetric]
    by (auto simp: alloc_at_def block_addr_def bitptr_index bitptr_inc layout_bases [OF l(1)] Let_def split: option.splits)
qed


section \<open>Blocks and their indices\<close>

lemma object_index_block:
  assumes "r < 2 ^ blocksize_log2 l"
  shows "object_index seg l (block_addr seg l j + r) = j"
  using assms by (simp add: object_index_def block_addr_def)

lemma block_in_segment:
  assumes l: "layout_ok l" and seg: "SEGMENT_SIZE dvd seg" and j: "j < num_blocks l"
    and r: "r < 2 ^ blocksize_log2 l"
  shows "segment_addr (block_addr seg l j + r) = seg"
    and "BLOCK_BASE seg l \<le> block_addr seg l j + r" and "block_addr seg l j + r < seg + SEGMENT_SIZE"
proof -
  let ?s = "2 ^ blocksize_log2 l :: nat"
  have "Suc j * ?s \<le> num_blocks l * ?s" using j by (intro mult_le_mono1) simp
  then have le: "j * ?s + ?s \<le> num_blocks l * ?s" by simp
  have "block_offset l + num_blocks l * ?s \<le> SEGMENT_SIZE"
    using l unfolding layout_ok_def by (metis mult.commute)
  then have lt: "block_offset l + j * ?s + r < SEGMENT_SIZE" using r le by linarith
  then show "segment_addr (block_addr seg l j + r) = seg"
    using segment_addr_in [OF seg lt] by (simp add: block_addr_def BLOCK_BASE_def add.assoc)
  show "BLOCK_BASE seg l \<le> block_addr seg l j + r" "block_addr seg l j + r < seg + SEGMENT_SIZE"
    using lt by (simp_all add: block_addr_def BLOCK_BASE_def)
qed

section \<open>Counting free blocks\<close>

lemma card_words:
  "(\<Sum>i<(w :: nat). card {n. n < 32 \<and> P (32 * (q + i) + n)}) = card {j. 32 * q \<le> j \<and> j < 32 * (q + w) \<and> P j}"
proof (induction w)
  case (Suc w)
  let ?A = "{j. 32 * q \<le> j \<and> j < 32 * (q + w) \<and> P j}"
  let ?B = "(\<lambda>n. 32 * (q + w) + n) ` {n. n < 32 \<and> P (32 * (q + w) + n)}"
  have "{j. 32 * q \<le> j \<and> j < 32 * (q + Suc w) \<and> P j} = ?A \<union> ?B" (is "?L = ?R")
  proof (intro set_eqI iffI)
    fix j assume j: "j \<in> ?L"
    show "j \<in> ?R"
    proof (cases "j < 32 * (q + w)")
      case False
      then have "j = 32 * (q + w) + (j - 32 * (q + w))" "j - 32 * (q + w) < 32" using j by auto
      then show ?thesis using j by (metis (mono_tags, lifting) UnI2 image_eqI mem_Collect_eq)
    qed (use j in simp)
  qed auto
  moreover have "card (?A \<union> ?B) = card ?A + card ?B" by (rule card_Un_disjoint) auto
  moreover have "card ?B = card {n. n < 32 \<and> P (32 * (q + w) + n)}" by (rule card_image) (simp add: inj_on_def)
  ultimately show ?case using Suc by simp
qed simp

lemma popcount_not_word:
  "builtin_popcount (NOT (load32 m (p + 4 * i))) = card {n. n < 32 \<and> \<not> bitmap_bit m p (32 * i + n)}"
  by (simp add: builtin_popcount_card bit_not_iff bitmap_bit_word cong: conj_cong)

lemma free_bits_below:
  assumes "bitmaps_ok m seg l"
  shows "{j. a \<le> j \<and> j < 32 * words0 l \<and> \<not> bitmap_bit m (base0 seg) j}
    = {j. a \<le> j \<and> j < num_blocks l \<and> \<not> used m seg j}"
  using assms words_bounds(1) [of l] unfolding bitmaps_ok_def used_def
  by (intro Collect_cong) (meson leI less_trans)

lemma free_count_from:
  assumes ok: "bitmaps_ok m seg l" and q: "q \<le> words0 l"
  shows "sum_list (map (\<lambda>i. builtin_popcount (NOT (load32 m (base0 seg + 4 * q + 4 * i)))) [0..<words0 l - q])
    = card {j. 32 * q \<le> j \<and> j < num_blocks l \<and> \<not> used m seg j}"
proof -
  have w: "base0 seg + 4 * q + 4 * i = base0 seg + 4 * (q + i)" for i by simp
  have "sum_list (map (\<lambda>i. builtin_popcount (NOT (load32 m (base0 seg + 4 * q + 4 * i)))) [0..<words0 l - q])
      = (\<Sum>i<words0 l - q. card {n. n < 32 \<and> \<not> bitmap_bit m (base0 seg) (32 * (q + i) + n)})"
    unfolding interv_sum_list_conv_sum_set_nat w popcount_not_word by (simp add: atLeast0LessThan)
  also have "\<dots> = card {j. 32 * q \<le> j \<and> j < 32 * (q + (words0 l - q)) \<and> \<not> bitmap_bit m (base0 seg) j}"
    by (rule card_words)
  also have "32 * (q + (words0 l - q)) = 32 * words0 l" using q by simp
  finally show ?thesis unfolding free_bits_below [OF ok] .
qed

lemma free_count_spec:
  assumes l: "layout_ok l" and ok: "bitmaps_ok m seg l"
  shows "free_count m seg l NULL = card {j. j < num_blocks l \<and> \<not> used m seg j}"
    and "k < num_blocks l \<Longrightarrow> free_count m seg l (block_addr seg l k)
      = card {j. 32 * Suc (k div 32) \<le> j \<and> j < num_blocks l \<and> \<not> used m seg j}"
proof -
  have b: "BITMAP0_BASE seg = base0 seg" "BITMAP_LIMIT seg l 0 = base0 seg + 4 * words0 l"
    by (simp_all add: layout_bases [OF l] base1_def)
  show "free_count m seg l NULL = card {j. j < num_blocks l \<and> \<not> used m seg j}"
    using free_count_from [OF ok, of 0] by (simp add: free_count_def b)
  assume k: "k < num_blocks l"
  then have kw: "k div 32 < words0 l"
    using words_bounds(1) [of l] by (simp add: less_mult_imp_div_less mult.commute)
  have nz: "block_addr seg l k \<noteq> 0" using l by (simp add: block_addr_def BLOCK_BASE_def layout_ok_def)
  have d: "(base0 seg + 4 * words0 l - (base0 seg + 4 * Suc (k div 32))) div 4 = words0 l - Suc (k div 32)"
    using kw by simp
  have "free_count m seg l (block_addr seg l k) =
    sum_list (map (\<lambda>i. builtin_popcount (NOT (load32 m (base0 seg + 4 * Suc (k div 32) + 4 * i))))
      [0..<words0 l - Suc (k div 32)])"
    using nz object_index_block [of 0 l seg k] d by (simp add: free_count_def b add.assoc add.commute [of 4])
  then show "free_count m seg l (block_addr seg l k)
      = card {j. 32 * Suc (k div 32) \<le> j \<and> j < num_blocks l \<and> \<not> used m seg j}"
    using free_count_from [OF ok, of "Suc (k div 32)"] kw by simp
qed

lemma stat_loop_spec:
  "stat_loop m bs k (BITPTR p n) (base + n * bs) allocptr st = st\<lparr>
     num_marked := num_marked st + length (filter (bitmap_bit m p) [n..<n + k]),
     num_unmarked := num_unmarked st + length (filter (\<lambda>j. \<not> bitmap_bit m p j) [n..<n + k]),
     num_marked_before_allocptr := num_marked_before_allocptr st +
       length (filter (\<lambda>j. bitmap_bit m p j \<and> base + j * bs < allocptr) [n..<n + k]),
     num_unmarked_before_allocptr := num_unmarked_before_allocptr st +
       length (filter (\<lambda>j. \<not> bitmap_bit m p j \<and> base + j * bs < allocptr) [n..<n + k])\<rparr>"
proof (induction k arbitrary: n st)
  case (Suc k)
  have u: "[n..<n + Suc k] = n # [Suc n..<Suc n + k]" by (simp add: upt_conv_Cons)
  have b: "base + n * bs + bs = base + Suc n * bs" by simp
  show ?case unfolding stat_loop.simps bitptr_inc b Suc.IH u by (simp add: bitptr_test)
qed simp


section \<open>Properties\<close>

lemma layout_for_aligned:
  "(if MAXALIGN < (2 :: nat) ^ bl then MAXALIGN else 2 ^ bl) dvd block_offset (layout_for bl n)"
proof -
  have "block_offset (layout_for bl n) = CEILING (CEILING (32 + 8 * (n div 32 + 1) +
      4 * ((n div 32 + 1) div 32 + 1)) 8 + 8 * n + 4) (if MAXALIGN < (2 :: nat) ^ bl then MAXALIGN else 2 ^ bl)"
    by (simp add: layout_for_eq [OF refl refl refl refl])
  moreover have "0 < (if MAXALIGN < (2 :: nat) ^ bl then MAXALIGN else 2 ^ bl)" by simp
  ultimately show ?thesis by (metis ceiling_dvd)
qed

lemma le_mod_div: "n mod 32 \<le> k \<longleftrightarrow> n \<le> 32 * (n div 32) + (k :: nat)"
  by (metis add_le_cancel_left mult_div_mod_eq)

lemma layout_maximal:
  assumes "i < NUM_SUBHEAPS"
  shows "SEGMENT_SIZE < block_limit (layout_for (i + 3) (Suc (num_blocks (compute_segment_layout i))))"
proof -
  have lim: "block_limit (layout_for bl n) = CEILING (CEILING (32 + 8 * (n div 32 + 1) +
      4 * ((n div 32 + 1) div 32 + 1)) 8 + 8 * n + 4) (if MAXALIGN < (2 :: nat) ^ bl then MAXALIGN else 2 ^ bl)
      + 2 ^ bl * n" for bl n
    by (simp add: layout_for_eq [OF refl refl refl refl])
  have "i \<in> {0, 1, 2, 3, 4, 5, 6, 7, 8, 9}" using assms by auto
  then show ?thesis
    unfolding layout_num_blocks(1) [OF assms] lim
    by (elim insertE emptyE; hypsubst; simp add: CEILING_def)
qed

text \<open>
  C24: the layout computed for each of the ten block sizes divides a segment into header, bitmap
  words of the two levels, mark bitmap, stack slots and blocks, in this order, without overlap
  and within the 32 KB.  The lower bitmap and the mark bitmap have a bit for each block and one
  more, the upper bitmap has a bit for each of the \<open>w\<close> words of the lower one and one more, and
  the sentinels are exactly the bits of the last word of a level that stand for no block and no
  word; the blocks are aligned to their size (at most 16 bytes) with room for the header word of
  the first; and no layout with one block more would fit.
\<close>

theorem segment_layout_sound:
  assumes "i < NUM_SUBHEAPS"
  shows "let l = compute_segment_layout i; n = num_blocks l;
      w = (bitmap_offset l ! 1 - bitmap_offset l ! 0) div 4; w1 = (bitmap_offset l ! 2 - bitmap_offset l ! 1) div 4 in
    blocksize_bytes l = 2 ^ (i + BLOCKSIZE_MIN_LOG2) \<and> n = [2013, 1349, 812, 452, 240, 123, 62, 31, 15, 7] ! i \<and>
    SIZEOF_SEGMENT \<le> bitmap_offset l ! 0 \<and>
    8 * bitmap_offset l ! 0 + n < 8 * bitmap_offset l ! 1 \<and>
    8 * bitmap_offset l ! 1 + w < 8 * bitmap_offset l ! 2 \<and>
    (\<forall>level<3. 4 dvd bitmap_offset l ! level) \<and>
    (\<forall>k<32. bit (bitmap_sentinel l ! 0) k \<longleftrightarrow> n \<le> 32 * (w - 1) + k) \<and>
    (\<forall>k<32. bit (bitmap_sentinel l ! 1) k \<longleftrightarrow> w \<le> 32 * (w1 - 1) + k) \<and>
    8 * bitmap_offset l ! 2 + n < 8 * zerofill_limit l \<and>
    zerofill_limit l \<le> stack_offset l \<and> 8 dvd stack_offset l \<and>
    stack_offset l + SIZEOF_PTR * n + OBJ_HEADER_SIZE \<le> block_offset l \<and>
    (if MAXALIGN < blocksize_bytes l then MAXALIGN else blocksize_bytes l) dvd block_offset l \<and>
    block_offset l + blocksize_bytes l * n = block_limit l \<and> block_limit l \<le> SEGMENT_SIZE \<and>
    SEGMENT_SIZE < block_limit (layout_for (i + BLOCKSIZE_MIN_LOG2) (Suc n))"
proof -
  let ?l = "compute_segment_layout i"
  note ok = compute_segment_layout_ok [OF assms]
  have bo: "bitmap_offset ?l ! 0 = 32" "bitmap_offset ?l ! 1 = 32 + 4 * words0 ?l"
    "bitmap_offset ?l ! 2 = 32 + 4 * words0 ?l + 4 * words1 ?l"
    "zerofill_limit ?l = 32 + 8 * words0 ?l + 4 * words1 ?l"
    using ok(1) by (simp_all add: layout_ok_def)
  have "?l = layout_for (i + 3) (num_blocks ?l)"
    by (simp add: compute_segment_layout_def Let_def layout_for_fields)
  then have al: "(if MAXALIGN < (2 :: nat) ^ (i + 3) then MAXALIGN else 2 ^ (i + 3)) dvd block_offset ?l"
    using layout_for_aligned [of "i + 3" "num_blocks ?l"] by metis
  have bs: "blocksize_bytes ?l = 2 ^ (i + 3)" using ok by (simp add: layout_ok_def)
  have st: "zerofill_limit ?l \<le> stack_offset ?l" "8 dvd stack_offset ?l"
    "stack_offset ?l + 8 * num_blocks ?l + 4 \<le> block_offset ?l"
    "block_offset ?l + 2 ^ (i + 3) * num_blocks ?l = block_limit ?l" "block_limit ?l \<le> SEGMENT_SIZE"
    using ok(1) bs unfolding layout_ok_def by metis+
  have w: "(bitmap_offset ?l ! 1 - bitmap_offset ?l ! 0) div 4 = words0 ?l"
    "(bitmap_offset ?l ! 2 - bitmap_offset ?l ! 1) div 4 = words1 ?l"
    using bo by simp_all
  have dvd: "\<forall>level<3. 4 dvd bitmap_offset ?l ! level"
    using bo by (simp add: less_Suc_eq numeral_3_eq_3 numeral_2_eq_2)
  have sent: "\<forall>k<32. bit (bitmap_sentinel ?l ! 0) k \<longleftrightarrow> num_blocks ?l \<le> 32 * (words0 ?l - 1) + k"
    "\<forall>k<32. bit (bitmap_sentinel ?l ! 1) k \<longleftrightarrow> words0 ?l \<le> 32 * (words1 ?l - 1) + k"
    unfolding layout_sentinels [OF ok(1)] words_bounds(3,5) by (auto simp: bit_sentinel le_mod_div
      simp del: push_bit_minus_one_eq_not_mask)
  show ?thesis
    unfolding Let_def bs w
    by (intro conjI layout_num_blocks(1) [OF assms] al layout_maximal [OF assms] refl st dvd sent)
      (use bo words_bounds(1,4,7) [of ?l] in simp_all)
qed

theorem segment_layout_sound_witness:
  "num_blocks (compute_segment_layout 9) = 7 \<and> blocksize_bytes (compute_segment_layout 9) = 4096
   \<and> block_limit (compute_segment_layout 9) \<le> SEGMENT_SIZE
   \<and> SEGMENT_SIZE < block_limit (layout_for 12 8)"
proof -
  have n: "num_blocks (compute_segment_layout 9) = 7" using layout_num_blocks [of 9] by simp
  show ?thesis using segment_layout_sound [of 9] unfolding Let_def n by simp
qed

text \<open>
  C14: \<open>find_bitmap\<close> finds exactly the first free block.  From position \<open>k\<close> of a segment with
  consistent bitmaps, the search through the current word, the upper bitmap level and the word it
  selects returns the first block at or behind \<open>k\<close> whose bit is clear and leaves the allocation
  pointer right behind it, or returns null and leaves the pointer alone when all of them are used.
\<close>

theorem find_bitmap_first_free:
  assumes "i < NUM_SUBHEAPS" and "seg_layout (segs st seg) = Some i" and "SEGMENT_SIZE dvd seg"
    and "bitmaps_ok (bytes st) seg (compute_segment_layout i)"
    and "k \<le> num_blocks (compute_segment_layout i)"
  shows "let l = compute_segment_layout i; r = find_bitmap st (alloc_at seg l k) in
    (\<exists>j. k \<le> j \<and> j < num_blocks l \<and> \<not> used (bytes st) seg j \<and>
       (\<forall>h. k \<le> h \<and> h < j \<longrightarrow> used (bytes st) seg h) \<and>
       r = (block_addr seg l j, alloc_at seg l (Suc j))) \<or>
    (\<forall>h. k \<le> h \<and> h < num_blocks l \<longrightarrow> used (bytes st) seg h) \<and> r = (NULL, alloc_at seg l k)"
proof -
  let ?l = "compute_segment_layout i"
  have "layout_of st seg = ?l" using assms(2) by (simp add: layout_of_def)
  note r = find_bitmap_spec [OF compute_segment_layout_ok(1) [OF assms(1)] this assms(3-5)]
  show ?thesis
  proof (cases "next_clear (bytes st) (base0 seg) k (num_blocks ?l)")
    case None
    then have "find_bitmap st (alloc_at seg ?l k) = (NULL, alloc_at seg ?l k)" using r by simp
    then show ?thesis using None unfolding Let_def used_def next_clear_None_iff by blast
  next
    case (Some j)
    then have "find_bitmap st (alloc_at seg ?l k) = (block_addr seg ?l j, alloc_at seg ?l (Suc j))" using r by simp
    then show ?thesis using Some unfolding Let_def used_def next_clear_Some_iff by blast
  qed
qed

definition sample_store :: seg_store where
  "sample_store = init_segment 32768 9
     \<lparr>bytes = (\<lambda>_. 0), segs = (\<lambda>_. \<lparr>seg_next = 0, seg_layout = None, allocptr_snapshot = 0, seg_free_count = 0\<rparr>)\<rparr>"

lemma sample_store_ok:
  "seg_layout (segs sample_store 32768) = Some 9"
  "seg_clean (bytes sample_store) 32768 (compute_segment_layout 9)"
  "bitmaps_ok (bytes sample_store) 32768 (compute_segment_layout 9)"
  "j < 7 \<Longrightarrow> \<not> used (bytes sample_store) 32768 j"
proof -
  have r: "seg_reusable \<lparr>bytes = (\<lambda>_. 0), segs = (\<lambda>_. \<lparr>seg_next = 0, seg_layout = None,
      allocptr_snapshot = 0, seg_free_count = 0\<rparr>)\<rparr> 32768 9"
    by (simp add: seg_reusable_def zero_words_def)
  note i = init_segment_spec [OF _ r, folded sample_store_def, simplified]
  show "seg_layout (segs sample_store 32768) = Some 9"
    and c: "seg_clean (bytes sample_store) 32768 (compute_segment_layout 9)" by (rule i)+
  have l: "layout_ok (compute_segment_layout 9)" "num_blocks (compute_segment_layout 9) = 7"
    using compute_segment_layout_ok [of 9] layout_num_blocks [of 9] by simp_all
  show "bitmaps_ok (bytes sample_store) 32768 (compute_segment_layout 9)" by (rule seg_clean_bitmaps [OF l(1) c])
  show "j < 7 \<Longrightarrow> \<not> used (bytes sample_store) 32768 j" using seg_clean_bitmaps(2) [OF l(1) c] l(2) by simp
qed

theorem find_bitmap_first_free_witness:
  "find_bitmap sample_store (alloc_at 32768 (compute_segment_layout 9) 2)
   = (block_addr 32768 (compute_segment_layout 9) 2, alloc_at 32768 (compute_segment_layout 9) 3)"
proof -
  have n: "num_blocks (compute_segment_layout 9) = 7" using layout_num_blocks [of 9] by simp
  have "\<exists>j. 2 \<le> j \<and> j < 7 \<and> \<not> used (bytes sample_store) 32768 j \<and>
       (\<forall>h. 2 \<le> h \<and> h < j \<longrightarrow> used (bytes sample_store) 32768 h) \<and>
       find_bitmap sample_store (alloc_at 32768 (compute_segment_layout 9) 2)
       = (block_addr 32768 (compute_segment_layout 9) j, alloc_at 32768 (compute_segment_layout 9) (Suc j))"
    using find_bitmap_first_free [of 9 sample_store 32768 2] sample_store_ok(1,3) sample_store_ok(4) [of 2]
    unfolding Let_def n by auto
  then obtain j where j: "2 \<le> j" "\<forall>h. 2 \<le> h \<and> h < j \<longrightarrow> used (bytes sample_store) 32768 h"
    "find_bitmap sample_store (alloc_at 32768 (compute_segment_layout 9) 2)
       = (block_addr 32768 (compute_segment_layout 9) j, alloc_at 32768 (compute_segment_layout 9) (Suc j))"
    by blast
  moreover have "j = 2" using j(1,2) sample_store_ok(4) [of 2] by force
  ultimately show ?thesis by (simp add: numeral_3_eq_3 numeral_2_eq_2)
qed

text \<open>
  The counters of free blocks.  With consistent bitmaps \<open>free_count\<close> of a whole segment is the
  number of its unused blocks, the sentinel bits not counted, and \<open>stat_segment\<close> counts the used
  and unused blocks, in the whole segment and below an allocation pointer.
\<close>

lemma free_blocks_counted:
  assumes "i < NUM_SUBHEAPS" and "bitmaps_ok m seg (compute_segment_layout i)"
  shows "let l = compute_segment_layout i; n = num_blocks l; st = stat_segment m seg l p in
    free_count m seg l NULL = card {j. j < n \<and> \<not> used m seg j} \<and>
    num_marked st = length (filter (used m seg) [0..<n]) \<and>
    num_unmarked st = length (filter (\<lambda>j. \<not> used m seg j) [0..<n]) \<and>
    num_marked_before_allocptr st = length (filter (\<lambda>j. used m seg j \<and> block_addr seg l j < p) [0..<n]) \<and>
    num_unmarked_before_allocptr st = length (filter (\<lambda>j. \<not> used m seg j \<and> block_addr seg l j < p) [0..<n])"
proof -
  let ?l = "compute_segment_layout i"
  note ok = compute_segment_layout_ok(1) [OF assms(1)]
  have bs: "blocksize_bytes ?l = 2 ^ blocksize_log2 ?l" using ok by (simp add: layout_ok_def)
  show ?thesis
    unfolding Let_def stat_segment_def layout_bases [OF ok]
    using free_count_spec(1) [OF ok assms(2)]
      stat_loop_spec [of m "blocksize_bytes ?l" "num_blocks ?l" "base0 seg" 0 "BLOCK_BASE seg ?l" p]
    by (simp add: used_def [abs_def] block_addr_def bs)
qed

end
