(* ===== verification/Marking.thy ===== *)
theory Marking
  imports Prelude
begin

text \<open>
  The interface between the collector's mark loop and the store it marks: objects with children,
  a mark and a link word each, an operation that marks an object and puts it on a stack threaded
  through the links, and a loop that pops objects and pushes their children.  From the laws of
  these operations the theory derives what the loop does: it ends, keeps the marks that were
  there, marks nothing but objects reachable from the stack, and leaves no marked object with an
  unmarked child, except for objects that other stacks still hold.
\<close>

locale marking =
  fixes ok :: "'s \<Rightarrow> bool"
    and valid :: "addr \<Rightarrow> bool"
    and target :: "addr \<Rightarrow> bool"
    and children :: "addr \<Rightarrow> addr list"
    and is_marked :: "'s \<Rightarrow> addr \<Rightarrow> bool"
    and link :: "'s \<Rightarrow> addr \<Rightarrow> addr"
    and push :: "addr \<Rightarrow> 's \<times> addr \<Rightarrow> 's \<times> addr"
    and scan :: "addr \<Rightarrow> 's \<times> addr \<Rightarrow> ('s \<times> addr) result"
    and run :: "'s \<Rightarrow> addr \<Rightarrow> 's result option"
  assumes finite_targets: "ok s \<Longrightarrow> finite {x. target x}"
    and target_nonnull: "ok s \<Longrightarrow> target x \<Longrightarrow> x \<noteq> NULL"
    and children_valid: "ok s \<Longrightarrow> target x \<Longrightarrow> c \<in> set (children x) \<Longrightarrow> valid c"
    and push_skip: "ok s \<Longrightarrow> valid x \<Longrightarrow> \<not> target x \<or> is_marked s x \<Longrightarrow> push x (s, t) = (s, t)"
    and push_mark: "ok s \<Longrightarrow> target x \<Longrightarrow> \<not> is_marked s x \<Longrightarrow> t = NULL \<or> target t \<Longrightarrow>
      \<exists>s'. push x (s, t) = (s', x) \<and> ok s' \<and> link s' x = t \<and>
        (\<forall>y. target y \<longrightarrow> is_marked s' y = (is_marked s y \<or> y = x)) \<and>
        (\<forall>y. target y \<and> y \<noteq> x \<longrightarrow> link s' y = link s y)"
    and scan_children: "ok s \<Longrightarrow> target x \<Longrightarrow> t = NULL \<or> target t \<Longrightarrow>
      scan x (s, t) = Inr (fold push (children x) (s, t))"
    and run_null: "ok s \<Longrightarrow> run s NULL = Some (Inr s)"
    and run_pop: "ok s \<Longrightarrow> target x \<Longrightarrow>
      run s x = (case scan x (s, link s x) of Inl e \<Rightarrow> Some (Inl e) | Inr (s', t) \<Rightarrow> run s' t)"
begin

definition marks :: "'s \<Rightarrow> addr set" where
  "marks s = {x. target x \<and> is_marked s x}"

text \<open>The stack that starts at \<open>t\<close> and is threaded through the link words.\<close>

fun chain :: "'s \<Rightarrow> addr \<Rightarrow> addr list \<Rightarrow> bool" where
  "chain s t [] \<longleftrightarrow> t = NULL"
| "chain s t (x # xs) \<longleftrightarrow> t = x \<and> x \<in> marks s \<and> chain s (link s x) xs"

definition edges :: "(addr \<times> addr) set" where
  "edges = {(x, y). target x \<and> target y \<and> y \<in> set (children x)}"

definition scanned :: "'s \<Rightarrow> addr \<Rightarrow> bool" where
  "scanned s x \<longleftrightarrow> (\<forall>y \<in> set (children x). target y \<longrightarrow> y \<in> marks s)"

lemma chain_top: "chain s t xs \<Longrightarrow> t = NULL \<or> target t"
  by (cases xs) (auto simp: marks_def)

lemma chain_marked: "chain s t xs \<Longrightarrow> set xs \<subseteq> marks s"
  by (induction xs arbitrary: t) auto

lemma chain_frame:
  "chain s t xs \<Longrightarrow> marks s \<subseteq> marks s' \<Longrightarrow> (\<And>y. y \<in> marks s \<Longrightarrow> link s' y = link s y) \<Longrightarrow> chain s' t xs"
  by (induction xs arbitrary: t) auto

lemma push_valid:
  assumes "ok s" and "valid x" and "chain s t xs" and "distinct xs"
  shows "\<exists>s' t' ys. push x (s, t) = (s', t') \<and> ok s' \<and> chain s' t' (ys @ xs) \<and> distinct (ys @ xs) \<and>
    set ys = {y. y = x \<and> target y} - marks s \<and> marks s' = marks s \<union> set ys \<and>
    (\<forall>y\<in>marks s. link s' y = link s y)"
proof (cases "target x \<and> \<not> is_marked s x")
  case False
  then have "push x (s, t) = (s, t)" using push_skip [OF assms(1,2)] by blast
  then show ?thesis using assms False by (auto simp: marks_def intro!: exI [of _ "[]"])
next
  case True
  then obtain s' where s': "push x (s, t) = (s', x)" "ok s'" "link s' x = t"
    "\<And>y. target y \<Longrightarrow> is_marked s' y = (is_marked s y \<or> y = x)"
    "\<And>y. target y \<Longrightarrow> y \<noteq> x \<Longrightarrow> link s' y = link s y"
    using push_mark [OF assms(1), of x t] chain_top [OF assms(3)] by blast
  have m: "marks s' = insert x (marks s)" "x \<notin> marks s" using s'(4) True by (auto simp: marks_def)
  have links: "\<forall>y\<in>marks s. link s' y = link s y" using s'(5) m(2) by (auto simp: marks_def)
  have "chain s' t xs" using chain_frame [OF assms(3)] m(1) links by blast
  then have "chain s' x ([x] @ xs)" using s'(3) m(1) by simp
  moreover have "x \<notin> set xs" using chain_marked [OF assms(3)] m(2) by blast
  ultimately show ?thesis
    using s'(1,2) m links True assms(4) by (intro exI [of _ s'] exI [of _ x] exI [of _ "[x]"]) auto
qed

lemma push_all:
  assumes "ok s" and "\<And>c. c \<in> set cs \<Longrightarrow> valid c" and "chain s t xs" and "distinct xs"
  shows "\<exists>s' t' ys. fold push cs (s, t) = (s', t') \<and> ok s' \<and> chain s' t' (ys @ xs) \<and> distinct (ys @ xs) \<and>
    set ys = {c \<in> set cs. target c} - marks s \<and> marks s' = marks s \<union> set ys \<and>
    (\<forall>y\<in>marks s. link s' y = link s y)"
  using assms
proof (induction cs arbitrary: s t xs)
  case (Cons c cs)
  from push_valid [OF Cons.prems(1) _ Cons.prems(3,4), of c] Cons.prems(2)
  obtain s1 t1 ys where 1: "push c (s, t) = (s1, t1)" "ok s1" "chain s1 t1 (ys @ xs)" "distinct (ys @ xs)"
    "set ys = {y. y = c \<and> target y} - marks s" "marks s1 = marks s \<union> set ys"
    "\<forall>y\<in>marks s. link s1 y = link s y" by auto
  from Cons.IH [OF 1(2) _ 1(3,4)] Cons.prems(2)
  obtain s2 t2 zs where 2: "fold push cs (s1, t1) = (s2, t2)" "ok s2" "chain s2 t2 (zs @ ys @ xs)"
    "distinct (zs @ ys @ xs)" "set zs = {c \<in> set cs. target c} - marks s1" "marks s2 = marks s1 \<union> set zs"
    "\<forall>y\<in>marks s1. link s2 y = link s1 y" by auto
  have "set (zs @ ys) = {d \<in> set (c # cs). target d} - marks s" using 1(5,6) 2(5) by auto
  moreover have "marks s2 = marks s \<union> set (zs @ ys)" using 1(6) 2(6) by auto
  moreover have "\<forall>y\<in>marks s. link s2 y = link s y" using 1(6,7) 2(7) by simp
  ultimately show ?case
    using 1(1) 2(1-4) by (intro exI [of _ s2] exI [of _ t2] exI [of _ "zs @ ys"]) simp
qed (auto intro!: exI [of _ "[]"])

lemma marks_finite: "ok s \<Longrightarrow> finite (marks s)"
  unfolding marks_def by (rule finite_subset [OF _ finite_targets]) auto

text \<open>
  The loop, started on a stack, when every marked object has its children marked unless it is on
  the stack or in \<open>G\<close>, the objects on other stacks.
\<close>

theorem run_marks:
  assumes "ok s" and "chain s t xs" and "distinct xs"
    and "\<And>x. x \<in> marks s \<Longrightarrow> x \<notin> set xs \<Longrightarrow> x \<notin> G \<Longrightarrow> scanned s x"
  shows "\<exists>s'. run s t = Some (Inr s') \<and> ok s' \<and> marks s \<subseteq> marks s' \<and>
    marks s' \<subseteq> marks s \<union> edges\<^sup>* `` set xs \<and> (\<forall>x\<in>marks s' - G. scanned s' x) \<and>
    (\<forall>y\<in>marks s. link s' y = link s y)"
  using assms
proof (induction "card ({x. target x} - marks s) + length xs" arbitrary: s t xs rule: less_induct)
  case less
  show ?case
  proof (cases xs)
    case Nil
    then have "t = NULL" using less.prems(2) by simp
    then show ?thesis using run_null [OF less.prems(1)] less.prems Nil by auto
  next
    case (Cons x xs')
    then have t: "t = x" "x \<in> marks s" "chain s (link s x) xs'" "distinct xs'" "x \<notin> set xs'"
      using less.prems(2,3) by auto
    have tx: "target x" using t(2) by (simp add: marks_def)
    from push_all [OF less.prems(1) children_valid [OF less.prems(1) tx] t(3,4)]
    obtain s1 t1 ys where 1: "fold push (children x) (s, link s x) = (s1, t1)" "ok s1"
      "chain s1 t1 (ys @ xs')" "distinct (ys @ xs')" "set ys = {c \<in> set (children x). target c} - marks s"
      "marks s1 = marks s \<union> set ys" "\<forall>y\<in>marks s. link s1 y = link s y" by blast
    have run: "run s t = run s1 t1"
      using run_pop [OF less.prems(1) tx] scan_children [OF less.prems(1) tx chain_top [OF t(3)]] 1(1) t(1) by simp
    have sub: "set ys \<subseteq> {x. target x} - marks s" using 1(5) by auto
    have "{x. target x} - marks s1 = ({x. target x} - marks s) - set ys" using 1(6) by auto
    moreover have "distinct ys" using 1(4) by simp
    ultimately have "card ({x. target x} - marks s1) + length ys = card ({x. target x} - marks s)"
      using sub finite_targets [OF less.prems(1)] distinct_card [of ys] card_mono [OF _ sub]
      by (simp add: card_Diff_subset)
    then have lt: "card ({x. target x} - marks s1) + length (ys @ xs') < card ({x. target x} - marks s) + length xs"
      using Cons by simp
    have inv: "scanned s1 z" if "z \<in> marks s1" "z \<notin> set (ys @ xs')" "z \<notin> G" for z
    proof (cases "z = x")
      case True
      then show ?thesis using 1(5,6) by (auto simp: scanned_def)
    next
      case False
      then have "scanned s z" using less.prems(4) [of z] that 1(6) Cons by auto
      then show ?thesis using 1(6) by (auto simp: scanned_def)
    qed
    from less.hyps [OF lt 1(2,3,4) inv] obtain s' where
      s': "run s1 t1 = Some (Inr s')" "ok s'" "marks s1 \<subseteq> marks s'"
        "marks s' \<subseteq> marks s1 \<union> edges\<^sup>* `` set (ys @ xs')" "\<forall>x\<in>marks s' - G. scanned s' x"
        "\<forall>y\<in>marks s1. link s' y = link s1 y" by blast
    have "(x, y) \<in> edges" if "y \<in> set ys" for y using that 1(5) tx by (auto simp: edges_def)
    then have "set ys \<subseteq> edges\<^sup>* `` set xs" and "edges\<^sup>* `` set ys \<subseteq> edges\<^sup>* `` set xs"
      using Cons by (auto intro: converse_rtrancl_into_rtrancl)
    moreover have "edges\<^sup>* `` set (ys @ xs') = edges\<^sup>* `` set ys \<union> edges\<^sup>* `` set xs'"
      by (simp add: Image_Un)
    moreover have "edges\<^sup>* `` set xs' \<subseteq> edges\<^sup>* `` set xs" unfolding Cons by (intro Image_mono) auto
    ultimately have "marks s1 \<union> edges\<^sup>* `` set (ys @ xs') \<subseteq> marks s \<union> edges\<^sup>* `` set xs"
      unfolding 1(6) by (simp only: Un_subset_iff) (metis Un_upper1 Un_upper2 subset_trans)
    then have "marks s' \<subseteq> marks s \<union> edges\<^sup>* `` set xs" using s'(4) by (rule subset_trans [rotated])
    moreover have "\<forall>y\<in>marks s. link s' y = link s y" using s'(6) 1(6,7) by auto
    ultimately show ?thesis using s' run 1(6) by auto
  qed
qed

text \<open>Without other stacks, exactly the objects reachable from the stack become marked.\<close>

corollary run_marks_reachable:
  assumes "ok s" and "chain s t xs" and "distinct xs"
    and "\<And>x. x \<in> marks s \<Longrightarrow> x \<notin> set xs \<Longrightarrow> scanned s x"
  shows "\<exists>s'. run s t = Some (Inr s') \<and> ok s' \<and> marks s' = marks s \<union> edges\<^sup>* `` set xs \<and>
    (\<forall>x\<in>marks s'. scanned s' x)"
proof -
  from run_marks [OF assms(1-3), of "{}"] assms(4) obtain s' where
    s': "run s t = Some (Inr s')" "ok s'" "marks s \<subseteq> marks s'" "marks s' \<subseteq> marks s \<union> edges\<^sup>* `` set xs"
      "\<forall>x\<in>marks s'. scanned s' x" by auto
  have "y \<in> marks s'" if "(x, y) \<in> edges\<^sup>*" "x \<in> set xs" for x y
    using that(1)
  proof induction
    case base
    then show ?case using chain_marked [OF assms(2)] s'(3) that(2) by auto
  next
    case (step y z)
    then show ?case using s'(5) by (auto simp: edges_def scanned_def)
  qed
  then have "marks s' = marks s \<union> edges\<^sup>* `` set xs" using s'(3,4) by auto
  then show ?thesis using s' by blast
qed

end

end
