(* ===== verification/Trace.thy ===== *)
theory Trace
  imports Segment Marking
begin

text \<open>
  The tracing part of \<open>heap_concurrent.c\<close>: large objects in malloc segments, the mark bits of
  objects, the mark stack threaded through the stack slots and the loop that traces the heap.
  A malloc segment is bytes of the memory: its header fields lie below the object.  The theory
  shows that \<open>visit\<close> and \<open>push\<close> satisfy the laws of the mark loop's interface on a heap of
  placed objects, so that \<open>trace\<close> marks exactly the objects reachable from its stack.
\<close>

section \<open>Malloc segments\<close>

abbreviation (input) SIZEOF_MALLOC_SEGMENT :: nat where
  "SIZEOF_MALLOC_SEGMENT \<equiv> 24"

definition MALLOC_OBJECT_OFFSET :: nat where
  "MALLOC_OBJECT_OFFSET = CEILING (SIZEOF_MALLOC_SEGMENT + OBJ_HEADER_SIZE) MAXALIGN"

definition OBJ_TO_MALLOC_SEGMENT :: "addr \<Rightarrow> addr" where
  "OBJ_TO_MALLOC_SEGMENT obj = obj - MALLOC_OBJECT_OFFSET"

definition MALLOC_SEGMENT_TO_OBJ :: "addr \<Rightarrow> addr" where
  "MALLOC_SEGMENT_TO_OBJ mseg = mseg + MALLOC_OBJECT_OFFSET"

definition MALLOC_SEGMENT_SIZE :: "mem \<Rightarrow> addr \<Rightarrow> nat" where
  "MALLOC_SEGMENT_SIZE m mseg =
     MALLOC_OBJECT_OFFSET + OBJ_TOTAL_SIZE m (MALLOC_SEGMENT_TO_OBJ mseg) - OBJ_HEADER_SIZE"

text \<open>The addresses of the fields \<open>next\<close>, \<open>stack\<close>, \<open>bit\<close> and \<open>collect_bit\<close> of a malloc segment.\<close>

definition mseg_next :: "addr \<Rightarrow> addr" where "mseg_next mseg = mseg"
definition mseg_stack :: "addr \<Rightarrow> addr" where "mseg_stack mseg = mseg + 8"
definition mseg_bit :: "addr \<Rightarrow> addr" where "mseg_bit mseg = mseg + 16"
definition mseg_collect_bit :: "addr \<Rightarrow> addr" where "mseg_collect_bit mseg = mseg + 20"

lemmas mseg_fields = mseg_next_def mseg_stack_def mseg_bit_def mseg_collect_bit_def

section \<open>Marks and the mark stack\<close>

definition is_skip :: "mem \<Rightarrow> addr \<Rightarrow> bool" where
  "is_skip m obj \<longleftrightarrow> OBJ_HEADER m obj AND OBJ_FLAG_SKIP \<noteq> 0"

definition object_stack_slot :: "seg_store \<Rightarrow> addr \<Rightarrow> addr" where
  "object_stack_slot st obj =
     (if obj = NULL then NULL
      else if is_skip (bytes st) obj then NULL
      else if OBJ_TOTAL_SIZE (bytes st) obj > BLOCKSIZE_MAX then mseg_stack (OBJ_TO_MALLOC_SEGMENT obj)
      else
        let seg = segment_addr obj; l = layout_of st seg
        in STACK_BASE seg l + SIZEOF_PTR * object_index seg l obj)"

text \<open>\<open>visit\<close> marks an object and returns its stack slot, or null when there is nothing to do.\<close>

definition visit :: "addr \<Rightarrow> seg_store \<Rightarrow> addr \<times> seg_store" where
  "visit obj st =
     (if obj = NULL \<or> is_skip (bytes st) obj then (NULL, st)
      else if OBJ_TOTAL_SIZE (bytes st) obj > BLOCKSIZE_MAX then
        let mseg = OBJ_TO_MALLOC_SEGMENT obj
        in if load32 (bytes st) (mseg_bit mseg) = 0 then (NULL, st)
           else
             let (m', seen) = BITPTRA_TEST_AND_SET (bytes st) (BITPTR (mseg_collect_bit mseg) 0)
             in (if seen then NULL else mseg_stack mseg, st\<lparr>bytes := m'\<rparr>)
      else
        let seg = segment_addr obj; l = layout_of st seg; index = object_index seg l obj;
            r = BITPTR (BITMAP0_BASE seg) index
        in if \<not> BITPTR_TEST (bytes st) r \<and> obj \<ge> allocptr_snapshot (segs st seg) then (NULL, st)
           else
             let (m', seen) = BITPTRA_TEST_AND_SET (bytes st) (BITPTR (COLLECT_BITMAP_BASE seg l) index)
             in (if seen then NULL else STACK_BASE seg l + SIZEOF_PTR * index, st\<lparr>bytes := m'\<rparr>))"

definition is_alive :: "seg_store \<Rightarrow> addr \<Rightarrow> bool" where
  "is_alive st obj =
     (if obj = NULL \<or> is_skip (bytes st) obj then True
      else if OBJ_TOTAL_SIZE (bytes st) obj > BLOCKSIZE_MAX then
        let mseg = OBJ_TO_MALLOC_SEGMENT obj
        in if load32 (bytes st) (mseg_bit mseg) = 0 then True
           else load32 (bytes st) (mseg_collect_bit mseg) \<noteq> 0
      else
        let seg = segment_addr obj; l = layout_of st seg; index = object_index seg l obj;
            r = BITPTR (BITMAP0_BASE seg) index
        in if obj \<ge> allocptr_snapshot (segs st seg) \<and> \<not> BITPTR_TEST (bytes st) r then True
           else BITPTR_TEST (bytes st) (BITPTR (COLLECT_BITMAP_BASE seg l) index))"

text \<open>\<open>push\<close> and \<open>remember\<close> put a newly marked object on a stack given by its top.\<close>

definition push :: "addr \<Rightarrow> seg_store \<times> addr \<Rightarrow> seg_store \<times> addr" where
  "push obj = (\<lambda>(st, stack_top).
     let (slot, st') = visit obj st
     in if slot \<noteq> NULL then (st'\<lparr>bytes := store64 (bytes st') slot stack_top\<rparr>, obj)
        else (st', stack_top))"

definition push_enum :: "addr \<Rightarrow> seg_store \<times> addr \<Rightarrow> seg_store \<times> addr" where
  "push_enum objp = (\<lambda>(st, stack_top). push (load64 (bytes st) objp) (st, stack_top))"

definition remember :: "addr \<Rightarrow> seg_store \<times> addr \<Rightarrow> seg_store \<times> addr" where
  "remember obj = (\<lambda>(st, remembered_set).
     let (slot, st') = visit obj st
     in if slot \<noteq> NULL then (st'\<lparr>bytes := store64 (bytes st') slot remembered_set\<rparr>, obj)
        else (st', remembered_set))"

partial_function (option) trace :: "seg_store \<Rightarrow> addr \<Rightarrow> seg_store result option" where
  "trace st stack_top =
     (if stack_top = NULL then Some (Inr st)
      else
        let obj = stack_top; slot = object_stack_slot st obj; stack_top' = load64 (bytes st) slot
        in case sml_obj_enum_ptr (bytes st) obj push_enum (st, stack_top') of
             Inl e \<Rightarrow> Some (Inl e)
           | Inr (st', stack_top'') \<Rightarrow> trace st' stack_top'')"

section \<open>Heaps of placed objects\<close>

text \<open>
  An object lives in a block of an initialised segment, large enough for it, or behind the header
  of a malloc segment.  Its extent is the segment or the malloc segment.
\<close>

definition small :: "seg_store \<Rightarrow> addr \<Rightarrow> bool" where
  "small st x \<longleftrightarrow> OBJ_TOTAL_SIZE (bytes st) x \<le> BLOCKSIZE_MAX"

definition in_block :: "seg_store \<Rightarrow> addr \<Rightarrow> bool" where
  "in_block st x \<longleftrightarrow>
     (\<exists>i j. i < NUM_SUBHEAPS \<and> seg_layout (segs st (segment_addr x)) = Some i \<and>
        j < num_blocks (compute_segment_layout i) \<and>
        x = block_addr (segment_addr x) (compute_segment_layout i) j \<and>
        OBJ_TOTAL_SIZE (bytes st) x \<le> 2 ^ (i + 3))"

definition extent :: "seg_store \<Rightarrow> addr \<Rightarrow> addr set" where
  "extent st x =
     (if small st x then {segment_addr x..<segment_addr x + SEGMENT_SIZE}
      else {x - 32..<x - 4 + OBJ_TOTAL_SIZE (bytes st) x})"

definition pointers :: "mem \<Rightarrow> addr \<Rightarrow> addr list" where
  "pointers m x = map (\<lambda>i. load64 m (x + 8 * i)) (filter (pointer_field m x) [0..<OBJ_SIZE m x div 8])"

text \<open>A pointer the collector ignores: null, or static data outside of the heap.\<close>

definition static_ptr :: "addr set \<Rightarrow> seg_store \<Rightarrow> addr \<Rightarrow> bool" where
  "static_ptr A st p \<longleftrightarrow>
     p = NULL \<or> is_skip (bytes st) p \<and> (\<forall>x\<in>A. {p - 4..<p - 4 + 4} \<inter> extent st x = {})"

definition heap_wf :: "addr set \<Rightarrow> seg_store \<Rightarrow> bool" where
  "heap_wf A st \<longleftrightarrow> finite A \<and>
     (\<forall>x\<in>A. x < 2 ^ 64 \<and> valid_objtype (OBJ_TYPE (bytes st) x) \<and> \<not> is_skip (bytes st) x \<and>
        (if small st x then in_block st x else 32 \<le> x) \<and>
        (\<forall>y\<in>A. x \<noteq> y \<and> \<not> small st x \<longrightarrow> extent st x \<inter> extent st y = {}) \<and>
        (\<forall>p \<in> set (pointers (bytes st) x). p \<in> A \<or> static_ptr A st p))"

text \<open>The objects the current collection decides about.\<close>

definition gc_target :: "seg_store \<Rightarrow> addr \<Rightarrow> bool" where
  "gc_target st x \<longleftrightarrow>
     (if small st x then
        bitmap_bit (bytes st) (base0 (segment_addr x)) (object_index (segment_addr x) (layout_of st (segment_addr x)) x) \<or>
        x < allocptr_snapshot (segs st (segment_addr x))
      else load32 (bytes st) (x - 16) \<noteq> 0)"

definition mark_bit :: "seg_store \<Rightarrow> addr \<Rightarrow> addr \<times> nat" where
  "mark_bit st x =
     (if small st x then
        let seg = segment_addr x; l = layout_of st seg in (base2 seg l, object_index seg l x)
      else (x - 12, 0))"

definition obj_marked :: "seg_store \<Rightarrow> addr \<Rightarrow> bool" where
  "obj_marked st x = (let (p, i) = mark_bit st x in bitmap_bit (bytes st) p i)"

definition stack_link :: "seg_store \<Rightarrow> addr \<Rightarrow> addr" where
  "stack_link st x = load64 (bytes st) (object_stack_slot st x)"

text \<open>
  The bytes the mark phase writes: the mark bitmaps and the stack slots of segments, the
  \<open>collect_bit\<close> and \<open>stack\<close> fields of malloc segments.
\<close>

definition mark_zone :: "seg_store \<Rightarrow> addr \<Rightarrow> addr set" where
  "mark_zone st x =
     (if small st x then
        let seg = segment_addr x; l = layout_of st seg in {base2 seg l..<BLOCK_BASE seg l - 4}
      else {x - 24..<x - 16} \<union> {x - 12..<x - 8})"

text \<open>
  In the segments, which no large object overlaps, only blocks of objects the collection decides
  about get marks.
\<close>

definition marks_within :: "addr set \<Rightarrow> seg_store \<Rightarrow> seg_store \<Rightarrow> bool" where
  "marks_within A st0 st \<longleftrightarrow>
     (\<forall>s i j. SEGMENT_SIZE dvd s \<and> i < NUM_SUBHEAPS \<and> seg_layout (segs st0 s) = Some i \<and>
        (\<forall>x\<in>A. \<not> small st0 x \<longrightarrow> extent st0 x \<inter> {s..<s + SEGMENT_SIZE} = {}) \<and>
        j < 32 * words0 (compute_segment_layout i) \<and> marked (bytes st) s (compute_segment_layout i) j \<longrightarrow>
        marked (bytes st0) s (compute_segment_layout i) j \<or>
        (\<exists>x\<in>A. gc_target st0 x \<and> small st0 x \<and> segment_addr x = s \<and> object_index s (compute_segment_layout i) x = j))"

text \<open>In the \<open>collect_bit\<close> of a malloc segment only the lowest bit changes.\<close>

definition large_marks_within :: "addr set \<Rightarrow> seg_store \<Rightarrow> seg_store \<Rightarrow> bool" where
  "large_marks_within A st0 st \<longleftrightarrow>
     (\<forall>x\<in>A. \<not> small st0 x \<longrightarrow> load32 (bytes st) (x - 12) OR 1 = load32 (bytes st0) (x - 12) OR 1)"

text \<open>A state in the course of marking: it differs from \<open>st0\<close> at most in the zones.\<close>

definition marking_of :: "addr set \<Rightarrow> seg_store \<Rightarrow> seg_store \<Rightarrow> bool" where
  "marking_of A st0 st \<longleftrightarrow> heap_wf A st0 \<and> segs st = segs st0 \<and>
     (\<forall>a. (\<forall>x\<in>A. a \<notin> mark_zone st0 x) \<longrightarrow> bytes st a = bytes st0 a) \<and>
     marks_within A st0 st \<and> large_marks_within A st0 st"


section \<open>Separation of the zones\<close>

lemma malloc_offset [simp]: "MALLOC_OBJECT_OFFSET = 32"
  by (simp add: MALLOC_OBJECT_OFFSET_def CEILING_def)

lemma segment_addr_dvd: "SEGMENT_SIZE dvd segment_addr p"
  by (simp add: segment_addr_def dvd_minus_mod)

lemma segments_disjoint:
  assumes "SEGMENT_SIZE dvd s" and "SEGMENT_SIZE dvd t" and "s \<le> a" "a < s + SEGMENT_SIZE" "t \<le> a" "a < t + SEGMENT_SIZE"
  shows "s = (t :: nat)"
proof -
  have "segment_addr (s + (a - s)) = s" "segment_addr (t + (a - t)) = t"
    by (rule segment_addr_in; use assms in auto)+
  then show ?thesis using assms by simp
qed

lemma heap_wfD:
  assumes "heap_wf A st" and "x \<in> A"
  shows "x < 2 ^ 64" "valid_objtype (OBJ_TYPE (bytes st) x)" "\<not> is_skip (bytes st) x"
    "small st x \<Longrightarrow> in_block st x" "\<not> small st x \<Longrightarrow> 32 \<le> x"
    "y \<in> A \<Longrightarrow> x \<noteq> y \<Longrightarrow> \<not> small st x \<Longrightarrow> extent st x \<inter> extent st y = {}"
    "p \<in> set (pointers (bytes st) x) \<Longrightarrow> p \<in> A \<or> static_ptr A st p"
  using assms unfolding heap_wf_def by (simp_all split: if_splits)

lemma small_block:
  assumes "in_block st x"
  obtains seg l j where "seg = segment_addr x" "l = layout_of st seg" "layout_ok l" "j < num_blocks l"
    "x = block_addr seg l j" "object_index seg l x = j" "SEGMENT_SIZE dvd seg"
    "OBJ_TOTAL_SIZE (bytes st) x \<le> 2 ^ blocksize_log2 l"
proof -
  from assms obtain i j where ij: "i < NUM_SUBHEAPS" "seg_layout (segs st (segment_addr x)) = Some i"
    "j < num_blocks (compute_segment_layout i)" "x = block_addr (segment_addr x) (compute_segment_layout i) j"
    "OBJ_TOTAL_SIZE (bytes st) x \<le> 2 ^ (i + 3)" unfolding in_block_def by blast
  have l: "layout_of st (segment_addr x) = compute_segment_layout i" using ij(2) by (simp add: layout_of_def)
  have "object_index (segment_addr x) (compute_segment_layout i) x = j"
    using object_index_block [of 0 "compute_segment_layout i" "segment_addr x" j] ij(4) by simp
  then show thesis
    using that [of "segment_addr x" "compute_segment_layout i" j] l ij compute_segment_layout_ok [OF ij(1)]
      segment_addr_dvd by simp
qed

text \<open>The order of the areas of a segment and of the parts of a block.\<close>

lemma layout_areas:
  assumes "layout_ok l" and "j < num_blocks l"
  shows "base1 seg l \<le> base2 seg l" "base2 seg l + 4 * (j div 32) + 4 \<le> STACK_BASE seg l"
    "base0 seg + 4 * (j div 32) + 4 \<le> base2 seg l"
    "base2 seg l \<le> STACK_BASE seg l" "STACK_BASE seg l + 8 * j + 8 \<le> BLOCK_BASE seg l - 4"
    "BLOCK_BASE seg l \<le> block_addr seg l j" "seg \<le> base2 seg l" "4 \<le> BLOCK_BASE seg l"
    "block_addr seg l j - 4 + 2 ^ blocksize_log2 l \<le> seg + SEGMENT_SIZE"
proof -
  let ?s = "2 ^ blocksize_log2 l :: nat"
  have w: "j div 32 < words0 l" using assms(2) words_bounds(1) [of l] by (simp add: less_mult_imp_div_less mult.commute)
  have z: "zerofill_limit l = 32 + 8 * words0 l + 4 * words1 l" "zerofill_limit l \<le> stack_offset l"
    "stack_offset l + 8 * num_blocks l + 4 \<le> block_offset l" "block_offset l + num_blocks l * ?s \<le> SEGMENT_SIZE"
    using assms(1) unfolding layout_ok_def bitmap0_offset by (metis mult.commute)+
  show "base1 seg l \<le> base2 seg l" by (simp add: base1_def base2_def)
  show "base0 seg + 4 * (j div 32) + 4 \<le> base2 seg l" using w by (simp add: base2_def)
  show "base2 seg l + 4 * (j div 32) + 4 \<le> STACK_BASE seg l" "base2 seg l \<le> STACK_BASE seg l"
    using w z by (simp_all add: base2_def STACK_BASE_def)
  show "STACK_BASE seg l + 8 * j + 8 \<le> BLOCK_BASE seg l - 4" "4 \<le> BLOCK_BASE seg l"
    using z(3) assms(2) by (simp_all add: STACK_BASE_def BLOCK_BASE_def)
  show "BLOCK_BASE seg l \<le> block_addr seg l j" "seg \<le> base2 seg l" by (simp_all add: block_addr_def base2_def)
  have "Suc j * ?s \<le> num_blocks l * ?s" using assms(2) by (intro mult_le_mono1) simp
  then show "block_addr seg l j - 4 + ?s \<le> seg + SEGMENT_SIZE"
    using z(3,4) by (simp add: block_addr_def BLOCK_BASE_def)
qed

lemma total_size_ge: "4 \<le> OBJ_TOTAL_SIZE m x"
  by (simp add: OBJ_TOTAL_SIZE_def)

lemma zone_in_extent:
  assumes wf: "heap_wf A st" and x: "x \<in> A"
  shows "mark_zone st x \<subseteq> extent st x"
proof (cases "small st x")
  case True
  from small_block [OF heap_wfD(4) [OF wf x True]] obtain seg l j where
    b: "seg = segment_addr x" "l = layout_of st seg" "layout_ok l" "j < num_blocks l" "x = block_addr seg l j"
      "SEGMENT_SIZE dvd seg" "OBJ_TOTAL_SIZE (bytes st) x \<le> 2 ^ blocksize_log2 l" by blast
  note a = layout_areas [OF b(3,4), of seg]
  have "BLOCK_BASE seg l - 4 \<le> seg + SEGMENT_SIZE" using a(6,9) by linarith
  then show ?thesis using True a(7) unfolding mark_zone_def extent_def by (auto simp: Let_def b(1) [symmetric] b(2) [symmetric])
next
  case False
  then show ?thesis using heap_wfD(5) [OF wf x False] unfolding mark_zone_def extent_def by (auto simp: small_def)
qed

lemma extents_meet:
  assumes wf: "heap_wf A st" and "x \<in> A" "y \<in> A" and "a \<in> extent st x" "a \<in> extent st y"
  shows "x = y \<or> small st x \<and> small st y \<and> segment_addr x = segment_addr y"
proof (cases "x = y")
  case False
  then have s: "small st x" "small st y"
    using heap_wfD(6) [OF wf assms(2,3)] heap_wfD(6) [OF wf assms(3,2)] assms(4,5) by blast+
  then have "segment_addr x = segment_addr y"
    using assms(4,5) segments_disjoint [OF segment_addr_dvd segment_addr_dvd, of x a y] by (simp add: extent_def)
  then show ?thesis using s by simp
qed simp

text \<open>The contents of objects, the used bits and the \<open>bit\<close> fields are outside of every zone.\<close>

lemma body_outside:
  assumes wf: "heap_wf A st" and x: "x \<in> A" and y: "y \<in> A"
    and a: "x - 4 \<le> a" "a < x - 4 + OBJ_TOTAL_SIZE (bytes st) x"
  shows "a \<notin> mark_zone st y"
proof
  assume az: "a \<in> mark_zone st y"
  have ay: "a \<in> extent st y" using zone_in_extent [OF wf y] az by blast
  show False
  proof (cases "small st x")
    case True
    from small_block [OF heap_wfD(4) [OF wf x True]] obtain seg l j where
      b: "seg = segment_addr x" "l = layout_of st seg" "layout_ok l" "j < num_blocks l" "x = block_addr seg l j"
        "SEGMENT_SIZE dvd seg" "OBJ_TOTAL_SIZE (bytes st) x \<le> 2 ^ blocksize_log2 l" by blast
    note ar = layout_areas [OF b(3,4), of seg]
    have lo: "BLOCK_BASE seg l - 4 \<le> a" using a(1) ar(6) b(5) by linarith
    have "a < seg + SEGMENT_SIZE" using a(2) b(5,7) ar(9) by linarith
    moreover have "seg \<le> a" using lo ar(4,5,7) by linarith
    ultimately have "a \<in> extent st x" using True b(1) by (simp add: extent_def)
    from extents_meet [OF wf x y this ay] True have "small st y" "segment_addr y = seg" using b(1) by auto
    then show False using az lo b(2) by (simp add: mark_zone_def Let_def)
  next
    case False
    then have "a \<in> extent st x" using a heap_wfD(5) [OF wf x False] by (simp add: extent_def)
    from extents_meet [OF wf x y this ay] False have "y = x" by auto
    then show False using az False a(1) heap_wfD(5) [OF wf x False] by (auto simp: mark_zone_def)
  qed
qed

lemma used_word_outside:
  assumes wf: "heap_wf A st" and x: "x \<in> A" "small st x" and y: "y \<in> A"
    and a: "base0 (segment_addr x) \<le> a" "a < base2 (segment_addr x) (layout_of st (segment_addr x))"
  shows "a \<notin> mark_zone st y"
proof
  assume az: "a \<in> mark_zone st y"
  have ay: "a \<in> extent st y" using zone_in_extent [OF wf y] az by blast
  from small_block [OF heap_wfD(4) [OF wf x]] obtain seg l j where
    b: "seg = segment_addr x" "l = layout_of st seg" "layout_ok l" "j < num_blocks l" by blast
  note ar = layout_areas [OF b(3,4), of seg]
  have "a < seg + SEGMENT_SIZE" using a(2) ar(4,5,6,9) unfolding b(1) [symmetric] b(2) [symmetric] by linarith
  then have "a \<in> extent st x" using a(1) x(2) by (simp add: extent_def b(1))
  from extents_meet [OF wf x(1) y this ay] x(2) have "small st y" "segment_addr y = segment_addr x" by auto
  then show False using az a(2) by (simp add: mark_zone_def Let_def)
qed

lemma bit_word_outside:
  assumes wf: "heap_wf A st" and x: "x \<in> A" "\<not> small st x" and y: "y \<in> A" and a: "x - 16 \<le> a" "a < x - 12"
  shows "a \<notin> mark_zone st y"
proof
  assume az: "a \<in> mark_zone st y"
  have ay: "a \<in> extent st y" using zone_in_extent [OF wf y] az by blast
  have ax: "a \<in> extent st x" using a x(2) heap_wfD(5) [OF wf x] total_size_ge [of "bytes st" x] by (auto simp: extent_def)
  from extents_meet [OF wf x(1) y ax ay] x(2) have "y = x" by auto
  then show False using az x(2) a heap_wfD(5) [OF wf x] by (auto simp: mark_zone_def)
qed

lemma static_outside:
  assumes "heap_wf A st" and "static_ptr A st p" and "p \<noteq> NULL" and "y \<in> A" and "p - 4 \<le> a" "a < p - 4 + 4"
  shows "a \<notin> mark_zone st y"
  using zone_in_extent [OF assms(1,4)] assms unfolding static_ptr_def by fastforce


section \<open>What marking leaves alone\<close>

lemma marking_wf: "marking_of A st0 st \<Longrightarrow> heap_wf A st0"
  by (simp add: marking_of_def)

lemma marking_segs: "marking_of A st0 st \<Longrightarrow> segs st = segs st0"
  by (simp add: marking_of_def)

lemma marking_byte: "marking_of A st0 st \<Longrightarrow> (\<And>y. y \<in> A \<Longrightarrow> a \<notin> mark_zone st0 y) \<Longrightarrow> bytes st a = bytes st0 a"
  by (simp add: marking_of_def)

lemma marking_body:
  assumes mk: "marking_of A st0 st" and x: "x \<in> A"
    and "x - 4 \<le> a" "a < x - 4 + OBJ_TOTAL_SIZE (bytes st0) x"
  shows "bytes st a = bytes st0 a"
  by (rule marking_byte [OF mk]) (rule body_outside [OF marking_wf [OF mk] x _ assms(3,4)])

lemma header_eq:
  assumes "load32 m (x - 4) = load32 m' (x - 4)"
  shows "OBJ_HEADER m x = OBJ_HEADER m' x" "OBJ_TYPE m x = OBJ_TYPE m' x" "OBJ_SIZE m x = OBJ_SIZE m' x"
    "OBJ_TOTAL_SIZE m x = OBJ_TOTAL_SIZE m' x" "is_skip m x = is_skip m' x"
  using assms
  by (simp_all add: OBJ_HEADER_def OBJ_BEGIN_def OBJ_TYPE_def OBJ_SIZE_def OBJ_TOTAL_SIZE_def OBJ_NUM_BITMAPS_def
      is_skip_def)

lemma marking_header:
  assumes "marking_of A st0 st" and "x \<in> A"
  shows "load32 (bytes st) (x - 4) = load32 (bytes st0) (x - 4)"
  by (rule load32_cong) (use marking_body [OF assms] total_size_ge [of "bytes st0" x] in auto)

lemmas marking_object = marking_header [THEN header_eq(1)] marking_header [THEN header_eq(2)]
  marking_header [THEN header_eq(3)] marking_header [THEN header_eq(4)] marking_header [THEN header_eq(5)]

lemma marking_small: "marking_of A st0 st \<Longrightarrow> x \<in> A \<Longrightarrow> small st x = small st0 x"
  by (simp add: small_def marking_object)

lemma marking_layout: "marking_of A st0 st \<Longrightarrow> layout_of st seg = layout_of st0 seg"
  by (simp add: layout_of_def marking_segs)

lemma marking_slot: "marking_of A st0 st \<Longrightarrow> x \<in> A \<Longrightarrow> object_stack_slot st x = object_stack_slot st0 x"
  by (simp add: object_stack_slot_def marking_object marking_layout)

lemma marking_mark_bit: "marking_of A st0 st \<Longrightarrow> x \<in> A \<Longrightarrow> mark_bit st x = mark_bit st0 x"
  by (simp add: mark_bit_def marking_small marking_layout)

lemma object_fields_within:
  assumes "i < OBJ_SIZE m x div 8"
  shows "8 * i + 8 \<le> OBJ_SIZE m x" "OBJ_SIZE m x + 4 \<le> OBJ_TOTAL_SIZE m x"
    "OBJ_TYPE m x = OBJTYPE_RECORD \<Longrightarrow> OBJ_SIZE m x + 4 * (i div 32) + 8 \<le> OBJ_TOTAL_SIZE m x"
  using assms field_index [of i "OBJ_SIZE m x"] bitmaps_cover [OF assms]
  by (simp_all add: OBJ_TOTAL_SIZE_def OBJ_NUM_BITMAPS_def)

lemma object_nonnull:
  assumes "heap_wf A st" and "x \<in> A"
  shows "8 \<le> x"
proof (cases "small st x")
  case True
  from small_block [OF heap_wfD(4) [OF assms True]] obtain seg l j where
    b: "layout_ok l" "j < num_blocks l" "x = block_addr seg l j" by blast
  show ?thesis using layout_areas(5,6) [OF b(1,2), of seg] b(3) by simp
next
  case False
  then show ?thesis using heap_wfD(5) [OF assms False] by simp
qed

lemma marking_fields:
  assumes mk: "marking_of A st0 st" and x: "x \<in> A" and i: "i < OBJ_SIZE (bytes st0) x div 8"
  shows "load64 (bytes st) (x + 8 * i) = load64 (bytes st0) (x + 8 * i)"
    "pointer_field (bytes st) x i = pointer_field (bytes st0) x i"
proof -
  note f = object_fields_within [OF i] and x4 = object_nonnull [OF marking_wf [OF mk] x]
  show "load64 (bytes st) (x + 8 * i) = load64 (bytes st0) (x + 8 * i)"
    by (rule load64_cong, rule marking_body [OF mk x]) (use f(1,2) x4 in auto)
  have "load32 (bytes st) (x + OBJ_SIZE (bytes st0) x + 4 * (i div 32))
      = load32 (bytes st0) (x + OBJ_SIZE (bytes st0) x + 4 * (i div 32))"
    if "OBJ_TYPE (bytes st0) x = OBJTYPE_RECORD"
    by (rule load32_cong, rule marking_body [OF mk x]) (use f(3) [OF that] x4 in auto)
  then show "pointer_field (bytes st) x i = pointer_field (bytes st0) x i"
    by (auto simp: pointer_field_def marking_object [OF mk x])
qed

lemma marking_used_bit:
  assumes mk: "marking_of A st0 st" and x: "x \<in> A" "small st0 x" and j: "j < num_blocks (layout_of st0 (segment_addr x))"
    and ok: "layout_ok (layout_of st0 (segment_addr x))"
  shows "bitmap_bit (bytes st) (base0 (segment_addr x)) j = bitmap_bit (bytes st0) (base0 (segment_addr x)) j"
proof (rule bitmap_bit_cong)
  fix a assume a: "base0 (segment_addr x) + 4 * (j div 32) \<le> a" "a < base0 (segment_addr x) + 4 * (j div 32) + 4"
  have "a < base2 (segment_addr x) (layout_of st0 (segment_addr x))" 
    using layout_areas(3) [OF ok j, of "segment_addr x"] a(2) by linarith
  then show "bytes st a = bytes st0 a"
    using a(1) by (intro marking_byte [OF mk] used_word_outside [OF marking_wf [OF mk] x]) auto
qed

lemma marking_target:
  assumes mk: "marking_of A st0 st" and x: "x \<in> A"
  shows "gc_target st x = gc_target st0 x"
proof (cases "small st0 x")
  case True
  from small_block [OF heap_wfD(4) [OF marking_wf [OF mk] x True]] obtain seg l j where
    b: "seg = segment_addr x" "l = layout_of st0 seg" "layout_ok l" "j < num_blocks l" "object_index seg l x = j" by blast
  show ?thesis
    using marking_used_bit [OF mk x True, of j] b True
    by (simp add: gc_target_def marking_small [OF mk x] marking_layout [OF mk] marking_segs [OF mk])
next
  case False
  have "load32 (bytes st) (x - 16) = load32 (bytes st0) (x - 16)"
    using heap_wfD(5) [OF marking_wf [OF mk] x False]
    by (intro load32_cong marking_byte [OF mk] bit_word_outside [OF marking_wf [OF mk] x False]) auto
  then show ?thesis using False by (simp add: gc_target_def marking_small [OF mk x])
qed

section \<open>Mark words and stack slots\<close>

definition mark_word :: "seg_store \<Rightarrow> addr \<Rightarrow> addr" where
  "mark_word st x = fst (mark_bit st x) + 4 * (snd (mark_bit st x) div 32)"

lemma slot_eq:
  assumes wf: "heap_wf A st" and x: "x \<in> A"
  shows "object_stack_slot st x = (if small st x
    then STACK_BASE (segment_addr x) (layout_of st (segment_addr x))
      + 8 * object_index (segment_addr x) (layout_of st (segment_addr x)) x
    else x - 24)"
  using object_nonnull [OF wf x] heap_wfD(3) [OF wf x] heap_wfD(5) [OF wf x]
  by (auto simp: object_stack_slot_def small_def Let_def OBJ_TO_MALLOC_SEGMENT_def mseg_stack_def)

lemma slot_in_zone:
  assumes wf: "heap_wf A st" and x: "x \<in> A"
  shows "{object_stack_slot st x..<object_stack_slot st x + 8} \<subseteq> mark_zone st x"
    and "{mark_word st x..<mark_word st x + 4} \<subseteq> mark_zone st x"
    and "object_stack_slot st x \<noteq> NULL"
proof -
  have "{object_stack_slot st x..<object_stack_slot st x + 8} \<subseteq> mark_zone st x \<and>
    {mark_word st x..<mark_word st x + 4} \<subseteq> mark_zone st x \<and> object_stack_slot st x \<noteq> NULL"
  proof (cases "small st x")
    case True
    from small_block [OF heap_wfD(4) [OF wf x True]] obtain seg l j where
      b: "seg = segment_addr x" "l = layout_of st seg" "layout_ok l" "j < num_blocks l" "object_index seg l x = j" by blast
    note ar = layout_areas [OF b(3,4), of seg]
    have s: "object_stack_slot st x = STACK_BASE seg l + 8 * j" "mark_word st x = base2 seg l + 4 * (j div 32)"
      using slot_eq [OF wf x] True b by (simp_all add: mark_word_def mark_bit_def Let_def)
    have z: "mark_zone st x = {base2 seg l..<BLOCK_BASE seg l - 4}" using True b by (simp add: mark_zone_def Let_def)
    have "0 < base2 seg l" by (simp add: base2_def)
    then show ?thesis unfolding s z using ar(2,4,5) by auto
  next
    case False
    then show ?thesis
      using slot_eq [OF wf x] heap_wfD(5) [OF wf x] by (auto simp: mark_word_def mark_bit_def mark_zone_def)
  qed
  then show "{object_stack_slot st x..<object_stack_slot st x + 8} \<subseteq> mark_zone st x"
    and "{mark_word st x..<mark_word st x + 4} \<subseteq> mark_zone st x"
    and "object_stack_slot st x \<noteq> NULL" by blast+
qed

text \<open>Slots of different objects are apart, and apart from all mark words.\<close>

lemma slots_apart:
  assumes wf: "heap_wf A st" and x: "x \<in> A" and y: "y \<in> A"
  shows "object_stack_slot st x + 8 \<le> mark_word st y \<or> mark_word st y + 4 \<le> object_stack_slot st x" (is ?A)
    and "x \<noteq> y \<Longrightarrow> object_stack_slot st x + 8 \<le> object_stack_slot st y \<or> object_stack_slot st y + 8 \<le> object_stack_slot st x"
    and "x \<noteq> y \<Longrightarrow> mark_word st x + 4 \<le> mark_word st y \<or> mark_word st y + 4 \<le> mark_word st x \<or>
      fst (mark_bit st x) = fst (mark_bit st y) \<and> snd (mark_bit st x) \<noteq> snd (mark_bit st y)"
proof -
  let ?thesis = "?A \<and> (x \<noteq> y \<longrightarrow>
    (object_stack_slot st x + 8 \<le> object_stack_slot st y \<or> object_stack_slot st y + 8 \<le> object_stack_slot st x) \<and>
    (mark_word st x + 4 \<le> mark_word st y \<or> mark_word st y + 4 \<le> mark_word st x \<or>
      fst (mark_bit st x) = fst (mark_bit st y) \<and> snd (mark_bit st x) \<noteq> snd (mark_bit st y)))"
  have ?thesis
  proof (cases "small st x \<and> small st y \<and> segment_addr x = segment_addr y")
    case True
    then have sm: "small st x" "small st y" by simp_all
    from small_block [OF heap_wfD(4) [OF wf x sm(1)]] obtain seg l j where
      b: "seg = segment_addr x" "l = layout_of st seg" "layout_ok l" "j < num_blocks l" "x = block_addr seg l j"
        "object_index seg l x = j" by blast
    from small_block [OF heap_wfD(4) [OF wf y sm(2)]] True b(1,2) obtain k where
      c: "k < num_blocks l" "y = block_addr seg l k" "object_index seg l y = k" by metis
    have sg: "segment_addr x = seg" "segment_addr y = seg" "layout_of st seg = l" using b(1,2) True by simp_all
    have s: "object_stack_slot st x = STACK_BASE seg l + 8 * j" "mark_bit st x = (base2 seg l, j)"
      "object_stack_slot st y = STACK_BASE seg l + 8 * k" "mark_bit st y = (base2 seg l, k)"
      using slot_eq [OF wf x] slot_eq [OF wf y] sm b(6) c(3) by (simp_all add: sg mark_bit_def Let_def)
    have ne: "x \<noteq> y \<Longrightarrow> j \<noteq> k" using b(5) c(2) by auto
    have "base2 seg l + 4 * (k div 32) + 4 \<le> STACK_BASE seg l + 8 * j"
      using layout_areas(2) [OF b(3) c(1), of seg] by linarith
    moreover have "STACK_BASE seg l + 8 * j + 8 \<le> STACK_BASE seg l + 8 * k \<or>
      STACK_BASE seg l + 8 * k + 8 \<le> STACK_BASE seg l + 8 * j" if "j \<noteq> k" using that by linarith
    ultimately show ?thesis unfolding mark_word_def s using ne by simp
  next
    case False
    show ?thesis
    proof (cases "x = y")
      case True
      then have ns: "\<not> small st x" using False by auto
      then show ?thesis
        using True slot_eq [OF wf x] heap_wfD(5) [OF wf x ns] by (simp add: mark_word_def mark_bit_def) linarith
    next
      case ne: False
      then have "extent st x \<inter> extent st y = {}" using extents_meet [OF wf x y] False by blast
      then have d: "mark_zone st x \<inter> mark_zone st y = {}" using zone_in_extent [OF wf x] zone_in_extent [OF wf y] by blast
      have ap: "a + n \<le> b \<or> b + k \<le> a" if "{a..<a + n} \<subseteq> mark_zone st x" "{b..<b + k} \<subseteq> mark_zone st y" "0 < n" "0 < k" for a b n k :: nat
      proof (rule ccontr)
        assume "\<not> (a + n \<le> b \<or> b + k \<le> a)"
        then have "max a b \<in> {a..<a + n} \<inter> {b..<b + k}" using that(3,4) by auto
        then show False using that(1,2) d by blast
      qed
      show ?thesis
        using ap [OF slot_in_zone(1) [OF wf x] slot_in_zone(2) [OF wf y]]
          ap [OF slot_in_zone(1) [OF wf x] slot_in_zone(1) [OF wf y]]
          ap [OF slot_in_zone(2) [OF wf x] slot_in_zone(2) [OF wf y]] by auto
    qed
  qed
  then show ?A
    and "x \<noteq> y \<Longrightarrow> object_stack_slot st x + 8 \<le> object_stack_slot st y \<or> object_stack_slot st y + 8 \<le> object_stack_slot st x"
    and "x \<noteq> y \<Longrightarrow> mark_word st x + 4 \<le> mark_word st y \<or> mark_word st y + 4 \<le> mark_word st x \<or>
      fst (mark_bit st x) = fst (mark_bit st y) \<and> snd (mark_bit st x) \<noteq> snd (mark_bit st y)" by blast+
qed


section \<open>The operations satisfy the laws of the mark loop\<close>

lemma visit_object:
  assumes mk: "marking_of A st0 st" and x: "x \<in> A"
  shows "visit x st = (if gc_target st0 x \<and> \<not> obj_marked st x
    then (object_stack_slot st0 x, st\<lparr>bytes := BITPTRW_SET (bytes st) (case_prod BITPTR (mark_bit st0 x))\<rparr>)
    else (NULL, st))"
proof -
  let ?m = "bytes st"
  have wf: "heap_wf A st0" by (rule marking_wf [OF mk])
  have nn: "x \<noteq> 0" "\<not> is_skip ?m x"
    using object_nonnull [OF wf x] heap_wfD(3) [OF wf x] marking_object(5) [OF mk x] by auto
  have tas: "BITPTRA_TEST_AND_SET ?m (BITPTR p n) = (if bitmap_bit ?m p n then (?m, True) else (BITPTRW_SET ?m (BITPTR p n), False))"
    for p n
    using test_and_set_memory [of ?m "BITPTR p n"] test_and_set_seen [of ?m p n]
    by (cases "BITPTRA_TEST_AND_SET ?m (BITPTR p n)") auto
  note tgt = marking_target [OF mk x] and slot = slot_eq [OF wf x]
  have om: "obj_marked st x = case_prod (bitmap_bit ?m) (mark_bit st0 x)"
    unfolding obj_marked_def marking_mark_bit [OF mk x] by (simp add: Let_def split: prod.splits)
  show ?thesis
  proof (cases "small st0 x")
    case True
    then have big: "\<not> OBJ_TOTAL_SIZE ?m x > BLOCKSIZE_MAX"
      by (simp add: small_def marking_object [OF mk x])
    define seg where "seg = segment_addr x"
    define l where "l = layout_of st seg"
    define j where "j = object_index seg l x"
    from small_block [OF heap_wfD(4) [OF wf x True]] have ok: "layout_ok l"
      unfolding l_def seg_def marking_layout [OF mk] by blast
    have l0: "layout_of st0 seg = l" unfolding l_def marking_layout [OF mk] ..
    have t: "gc_target st0 x \<longleftrightarrow> bitmap_bit ?m (base0 seg) j \<or> x < allocptr_snapshot (segs st seg)"
      using tgt True unfolding gc_target_def [of st] marking_small [OF mk x] by (simp add: j_def seg_def l_def)
    have b: "mark_bit st0 x = (base2 seg l, j)" "object_stack_slot st0 x = STACK_BASE seg l + 8 * j"
      using True slot by (simp_all add: mark_bit_def Let_def j_def l0 flip: seg_def)
    have "visit x st = (if \<not> (bitmap_bit ?m (base0 seg) j \<or> x < allocptr_snapshot (segs st seg)) then (NULL, st)
      else let (m', seen) = BITPTRA_TEST_AND_SET ?m (BITPTR (base2 seg l) j)
        in (if seen then NULL else STACK_BASE seg l + 8 * j, st\<lparr>bytes := m'\<rparr>))"
      using nn big unfolding visit_def Let_def seg_def [symmetric] l_def [symmetric] j_def [symmetric]
        layout_bases [OF ok] by (simp add: bitptr_test not_le)
    then show ?thesis unfolding t om b using tas by simp
  next
    case False
    then have big: "OBJ_TOTAL_SIZE ?m x > BLOCKSIZE_MAX"
      by (simp add: small_def marking_object [OF mk x])
    have x32: "32 \<le> x" by (rule heap_wfD(5) [OF wf x False])
    then have f: "mseg_bit (OBJ_TO_MALLOC_SEGMENT x) = x - 16" "mseg_collect_bit (OBJ_TO_MALLOC_SEGMENT x) = x - 12"
      "mseg_stack (OBJ_TO_MALLOC_SEGMENT x) = x - 24"
      by (simp_all add: mseg_fields OBJ_TO_MALLOC_SEGMENT_def)
    have t: "gc_target st0 x \<longleftrightarrow> load32 ?m (x - 16) \<noteq> 0"
      using tgt False unfolding gc_target_def [of st] marking_small [OF mk x] by simp
    have b: "mark_bit st0 x = (x - 12, 0)" "object_stack_slot st0 x = x - 24"
      using False slot by (simp_all add: mark_bit_def)
    have "visit x st = (if load32 ?m (x - 16) = 0 then (NULL, st)
      else let (m', seen) = BITPTRA_TEST_AND_SET ?m (BITPTR (x - 12) 0)
        in (if seen then NULL else x - 24, st\<lparr>bytes := m'\<rparr>))"
      using nn big unfolding visit_def Let_def f by simp
    then show ?thesis unfolding t om b using tas by simp
  qed
qed

lemma visit_static:
  assumes mk: "marking_of A st0 st" and p: "static_ptr A st0 p"
  shows "visit p st = (NULL, st)"
proof (cases "p = NULL")
  case False
  have "load32 (bytes st) (p - 4) = load32 (bytes st0) (p - 4)"
    by (rule load32_cong, rule marking_byte [OF mk], rule static_outside [OF marking_wf [OF mk] p False]) auto
  then have "is_skip (bytes st) p" using p False header_eq(5) unfolding static_ptr_def by blast
  then show ?thesis by (simp add: visit_def)
qed (simp add: visit_def)

text \<open>The effect of marking an object and linking it into a stack.\<close>

lemma marks_within_step:
  assumes wf: "heap_wf A st0" and x: "x \<in> A" and gx: "gc_target st0 x" and mw: "marks_within A st0 st"
    and same: "\<And>a. a \<notin> mark_zone st0 x \<Longrightarrow> bytes st' a = bytes st a"
    and st': "bytes st' = store64 (BITPTRW_SET (bytes st) (case_prod BITPTR (mark_bit st0 x))) (object_stack_slot st0 x) t"
  shows "marks_within A st0 st'"
  unfolding marks_within_def
proof (intro allI impI)
  fix s i j
  let ?l = "compute_segment_layout i"
  let ?new = "\<exists>y\<in>A. gc_target st0 y \<and> small st0 y \<and> segment_addr y = s \<and> object_index s ?l y = j"
  assume a: "SEGMENT_SIZE dvd s \<and> i < NUM_SUBHEAPS \<and> seg_layout (segs st0 s) = Some i \<and>
        (\<forall>x\<in>A. \<not> small st0 x \<longrightarrow> extent st0 x \<inter> {s..<s + SEGMENT_SIZE} = {}) \<and>
        j < 32 * words0 ?l \<and> marked (bytes st') s ?l j"
  then have old: "marked (bytes st) s ?l j \<Longrightarrow> marked (bytes st0) s ?l j \<or> ?new"
    using mw unfolding marks_within_def by blast
  have ok: "layout_ok ?l" by (rule compute_segment_layout_ok) (use a in blast)
  have sd: "SEGMENT_SIZE dvd s" using a by blast
  have jw: "j div 32 < words0 ?l" using a by (simp add: less_mult_imp_div_less mult.commute)
  have z: "zerofill_limit ?l = 32 + 8 * words0 ?l + 4 * words1 ?l" "zerofill_limit ?l \<le> stack_offset ?l"
    "stack_offset ?l + 8 * num_blocks ?l + 4 \<le> block_offset ?l" "block_offset ?l \<le> SEGMENT_SIZE"
    using ok unfolding layout_ok_def bitmap0_offset by auto
  have word: "s \<le> base2 s ?l + 4 * (j div 32)" "base2 s ?l + 4 * (j div 32) + 4 \<le> STACK_BASE s ?l"
    "STACK_BASE s ?l \<le> s + SEGMENT_SIZE"
    using jw z by (simp_all add: base2_def STACK_BASE_def)
  have keep: "marked (bytes st') s ?l j = marked (bytes st) s ?l j"
    if "\<And>a. a \<in> {s..<s + SEGMENT_SIZE} \<Longrightarrow> bytes st' a = bytes st a"
    unfolding marked_def bitmap_bit_def using that word by (intro arg_cong2 [where f = bit] load32_cong) auto
  show "marked (bytes st0) s ?l j \<or> ?new"
  proof (cases "small st0 x \<and> segment_addr x = s")
    case False
    have "extent st0 x \<inter> {s..<s + SEGMENT_SIZE} = {}"
    proof (cases "small st0 x")
      case True
      then have "a' \<notin> {s..<s + SEGMENT_SIZE}" if "a' \<in> extent st0 x" for a'
        using that False segments_disjoint [OF segment_addr_dvd sd, of x a'] by (auto simp: extent_def)
      then show ?thesis by blast
    qed (use a x in blast)
    then have "a' \<notin> mark_zone st0 x" if "a' \<in> {s..<s + SEGMENT_SIZE}" for a'
      using that zone_in_extent [OF wf x] by blast
    then show ?thesis using old a keep same by blast
  next
    case True
    then have sx: "small st0 x" "segment_addr x = s" by simp_all
    have lo: "layout_of st0 s = ?l" using a by (simp add: layout_of_def)
    from small_block [OF heap_wfD(4) [OF wf x sx(1)]] obtain seg l k where
      "seg = segment_addr x" "l = layout_of st0 seg" "k < num_blocks l" "object_index seg l x = k" .
    then have k: "layout_of st0 s = ?l" "k < num_blocks ?l" "object_index s ?l x = k" using sx(2) lo by simp_all
    have b: "mark_bit st0 x = (base2 s ?l, k)" "object_stack_slot st0 x = STACK_BASE s ?l + 8 * k"
      using slot_eq [OF wf x] True k by (simp_all add: mark_bit_def Let_def)
    have "load32 (bytes st') (base2 s ?l + 4 * (j div 32)) = load32 (BITPTRW_SET (bytes st) (BITPTR (base2 s ?l) k)) (base2 s ?l + 4 * (j div 32))"
      unfolding st' b using word(2) by (simp add: load32_store64_other)
    then have "marked (bytes st') s ?l j \<longleftrightarrow> j = k \<or> marked (bytes st) s ?l j"
      using bitptrw_set_bit [of "bytes st" "base2 s ?l" k j] by (simp add: marked_def bitmap_bit_def)
    then show ?thesis using a old x gx True k(3) by blast
  qed
qed

lemma large_marks_step:
  assumes wf: "heap_wf A st0" and x: "x \<in> A" and lw: "large_marks_within A st0 st"
    and same: "\<And>a. a \<notin> mark_zone st0 x \<Longrightarrow> bytes st' a = bytes st a"
    and st': "bytes st' = store64 (BITPTRW_SET (bytes st) (case_prod BITPTR (mark_bit st0 x))) (object_stack_slot st0 x) t"
  shows "large_marks_within A st0 st'"
  unfolding large_marks_within_def
proof (intro ballI impI)
  fix y
  assume y: "y \<in> A" "\<not> small st0 y"
  have old: "load32 (bytes st) (y - 12) OR 1 = load32 (bytes st0) (y - 12) OR 1" using lw y by (simp add: large_marks_within_def)
  have y32: "32 \<le> y" by (rule heap_wfD(5) [OF wf y])
  show "load32 (bytes st') (y - 12) OR 1 = load32 (bytes st0) (y - 12) OR 1"
  proof (cases "y = x")
    case True
    have "load32 (bytes st') (x - 12) = load32 (BITPTRW_SET (bytes st) (BITPTR (x - 12) 0)) (x - 12)"
    proof -
      have "object_stack_slot st0 x = x - 24" "mark_bit st0 x = (x - 12, 0)"
        using slot_eq [OF wf x] y True by (simp_all add: mark_bit_def)
      moreover have "x - 24 + 8 \<le> x - 12" using y32 True by linarith
      ultimately show ?thesis unfolding st' by (simp add: load32_store64_other)
    qed
    also have "\<dots> = load32 (bytes st) (x - 12) OR 1" by (simp add: BITPTRW_SET_def)
    finally show ?thesis using old True by (simp add: or.assoc)
  next
    case False
    have "load32 (bytes st') (y - 12) = load32 (bytes st) (y - 12)"
    proof (rule load32_cong, rule same)
      fix i :: nat
      assume i: "i < 4"
      have "y - 12 + i \<in> mark_zone st0 y" using y(2) y32 i by (auto simp: mark_zone_def)
      then have "y - 12 + i \<in> extent st0 y" using zone_in_extent [OF wf y(1)] by blast
      then have "y - 12 + i \<notin> extent st0 x" using heap_wfD(6) [OF wf y(1) x False y(2)] by blast
      then show "y - 12 + i \<notin> mark_zone st0 x" using zone_in_extent [OF wf x] by blast
    qed
    then show ?thesis using old by simp
  qed
qed

lemma mark_and_link:
  assumes mk: "marking_of A st0 st" and x: "x \<in> A" and gx: "gc_target st0 x" and t: "t < 2 ^ 64"
    and st': "st' = st\<lparr>bytes := store64 (BITPTRW_SET (bytes st) (case_prod BITPTR (mark_bit st0 x)))
      (object_stack_slot st0 x) t\<rparr>"
  shows "marking_of A st0 st'" and "stack_link st' x = t"
    and "y \<in> A \<Longrightarrow> obj_marked st' y = (obj_marked st y \<or> y = x)"
    and "y \<in> A \<Longrightarrow> y \<noteq> x \<Longrightarrow> stack_link st' y = stack_link st y"
proof -
  have wf: "heap_wf A st0" by (rule marking_wf [OF mk])
  obtain p i where b: "mark_bit st0 x = (p, i)" by (cases "mark_bit st0 x")
  define m1 where "m1 = BITPTRW_SET (bytes st) (BITPTR p i)"
  define sl where "sl = object_stack_slot st0 x"
  have w: "mark_word st0 x = p + 4 * (i div 32)" by (simp add: mark_word_def b)
  have m1: "m1 = store32 (bytes st) (mark_word st0 x) (load32 (bytes st) (mark_word st0 x) OR 2 ^ (i mod 32))"
    by (simp add: m1_def BITPTRW_SET_def w)
  have by': "bytes st' = store64 m1 sl t" by (simp add: st' b m1_def sl_def)
  have same: "bytes st' a = bytes st a" if "a \<notin> mark_zone st0 x" for a
  proof -
    have "a \<notin> {sl..<sl + 8}" "a \<notin> {mark_word st0 x..<mark_word st0 x + 4}"
      using that slot_in_zone [OF wf x] unfolding sl_def by blast+
    then show ?thesis unfolding by' m1 by (auto simp: store64_other store32_other not_less)
  qed
  have "marks_within A st0 st'"
    using marks_within_step [OF wf x gx _ same] mk b by (auto simp: marking_of_def by' m1_def sl_def)
  moreover have "large_marks_within A st0 st'"
    using large_marks_step [OF wf x _ same] mk b by (auto simp: marking_of_def by' m1_def sl_def)
  ultimately show mk': "marking_of A st0 st'"
    using mk same x unfolding marking_of_def by (auto simp: st')
  show "stack_link st' x = t"
    unfolding stack_link_def marking_slot [OF mk' x] sl_def [symmetric] by' by (rule load64_store64_same [OF t])
  show "stack_link st' y = stack_link st y" if y: "y \<in> A" "y \<noteq> x"
  proof -
    have "load64 (store64 m1 sl t) (object_stack_slot st0 y) = load64 m1 (object_stack_slot st0 y)"
      using slots_apart(2) [OF wf x y(1)] y(2) unfolding sl_def by (intro load64_store64_other) auto
    also have "\<dots> = load64 (bytes st) (object_stack_slot st0 y)"
      unfolding m1 using slots_apart(1) [OF wf y(1) x] by (intro load64_store32_other) auto
    finally show ?thesis unfolding stack_link_def marking_slot [OF mk' y(1)] marking_slot [OF mk y(1)] by' .
  qed
  show "obj_marked st' y = (obj_marked st y \<or> y = x)" if y: "y \<in> A"
  proof -
    obtain q k where c: "mark_bit st0 y = (q, k)" by (cases "mark_bit st0 y")
    have wy: "mark_word st0 y = q + 4 * (k div 32)" by (simp add: mark_word_def c)
    have "load32 (store64 m1 sl t) (q + 4 * (k div 32)) = load32 m1 (q + 4 * (k div 32))"
      using slots_apart(1) [OF wf x y] unfolding sl_def wy by (intro load32_store64_other) auto
    then have "bitmap_bit (bytes st') q k = bitmap_bit m1 q k" by (simp add: by' bitmap_bit_def)
    also have "\<dots> = (bitmap_bit (bytes st) q k \<or> y = x)"
    proof (cases "y = x")
      case True
      then show ?thesis using b c bitptrw_set_bit [of "bytes st" p i k] by (simp add: m1_def)
    next
      case False
      then consider "mark_word st0 x + 4 \<le> mark_word st0 y \<or> mark_word st0 y + 4 \<le> mark_word st0 x" | "p = q" "i \<noteq> k"
        using slots_apart(3) [OF wf x y] b c by auto
      then show ?thesis
      proof cases
        case 1
        then have "load32 m1 (q + 4 * (k div 32)) = load32 (bytes st) (q + 4 * (k div 32))"
          unfolding m1 wy by (rule load32_store32_other)
        then show ?thesis using False by (simp add: bitmap_bit_def)
      next
        case 2
        then show ?thesis using False bitptrw_set_bit [of "bytes st" p i k] by (simp add: m1_def)
      qed
    qed
    finally show ?thesis
      by (simp add: obj_marked_def marking_mark_bit [OF mk' y] marking_mark_bit [OF mk y] c Let_def)
  qed
qed

definition live_target :: "addr set \<Rightarrow> seg_store \<Rightarrow> addr \<Rightarrow> bool" where
  "live_target A st x \<longleftrightarrow> x \<in> A \<and> gc_target st x"

definition gc_pointer :: "addr set \<Rightarrow> seg_store \<Rightarrow> addr \<Rightarrow> bool" where
  "gc_pointer A st p \<longleftrightarrow> p \<in> A \<or> static_ptr A st p"

lemma push_skips:
  assumes "marking_of A st0 st" and "gc_pointer A st0 x" and "\<not> live_target A st0 x \<or> obj_marked st x"
  shows "push x (st, t) = (st, t)"
proof (cases "x \<in> A")
  case True
  then show ?thesis using assms(3) visit_object [OF assms(1) True] by (auto simp: push_def live_target_def)
next
  case False
  then show ?thesis using assms(2) visit_static [OF assms(1), of x] by (simp add: push_def gc_pointer_def)
qed

lemma push_marks:
  assumes mk: "marking_of A st0 st" and x: "live_target A st0 x" and un: "\<not> obj_marked st x"
    and t: "t = NULL \<or> live_target A st0 t"
  shows "\<exists>st'. push x (st, t) = (st', x) \<and> marking_of A st0 st' \<and> stack_link st' x = t \<and>
    (\<forall>y. live_target A st0 y \<longrightarrow> obj_marked st' y = (obj_marked st y \<or> y = x)) \<and>
    (\<forall>y. live_target A st0 y \<and> y \<noteq> x \<longrightarrow> stack_link st' y = stack_link st y)"
proof -
  have xA: "x \<in> A" and gx: "gc_target st0 x" using x by (simp_all add: live_target_def)
  have wf: "heap_wf A st0" by (rule marking_wf [OF mk])
  have t64: "t < 2 ^ 64" using t heap_wfD(1) [OF wf] by (auto simp: live_target_def)
  define st' where "st' = st\<lparr>bytes := store64 (BITPTRW_SET (bytes st) (case_prod BITPTR (mark_bit st0 x)))
    (object_stack_slot st0 x) t\<rparr>"
  have "push x (st, t) = (st', x)"
    using visit_object [OF mk xA] gx un slot_in_zone(3) [OF wf xA] by (simp add: push_def st'_def)
  then show ?thesis
    using mark_and_link [OF mk xA gx t64 st'_def] by (auto simp: live_target_def)
qed

lemma push_keeps:
  assumes "marking_of A st0 st" and "gc_pointer A st0 x" and "t = NULL \<or> live_target A st0 t"
  shows "\<exists>st' t'. push x (st, t) = (st', t') \<and> marking_of A st0 st' \<and> (t' = NULL \<or> live_target A st0 t')"
proof (cases "\<not> live_target A st0 x \<or> obj_marked st x")
  case True
  then show ?thesis using push_skips [OF assms(1,2), of t] assms by simp
next
  case False
  then show ?thesis using push_marks [OF assms(1) _ _ assms(3), of x] by blast
qed

lemma scan_fields:
  assumes mk: "marking_of A st0 st" and x: "x \<in> A" and t: "t = NULL \<or> live_target A st0 t"
    and "is": "\<And>i. i \<in> set is \<Longrightarrow> i < OBJ_SIZE (bytes st0) x div 8 \<and> gc_pointer A st0 (load64 (bytes st0) (x + 8 * i))"
  shows "fold push_enum (map (\<lambda>i. x + 8 * i) is) (st, t) = fold push (map (\<lambda>i. load64 (bytes st0) (x + 8 * i)) is) (st, t)"
  using mk t "is"
proof (induction "is" arbitrary: st t)
  case (Cons i "is")
  from Cons.prems(3) [of i] have i: "i < OBJ_SIZE (bytes st0) x div 8" "gc_pointer A st0 (load64 (bytes st0) (x + 8 * i))" by auto
  have e: "push_enum (x + 8 * i) (st, t) = push (load64 (bytes st0) (x + 8 * i)) (st, t)"
    by (simp add: push_enum_def marking_fields(1) [OF Cons.prems(1) x i(1)])
  from push_keeps [OF Cons.prems(1) i(2) Cons.prems(2)] obtain st' t' where
    p: "push (load64 (bytes st0) (x + 8 * i)) (st, t) = (st', t')" "marking_of A st0 st'" "t' = NULL \<or> live_target A st0 t'" by blast
  show ?case using Cons.IH [OF p(2,3)] Cons.prems(3) e p(1) by simp
qed simp

lemma scan_object:
  assumes mk: "marking_of A st0 st" and x: "x \<in> A" and t: "t = NULL \<or> live_target A st0 t"
  shows "sml_obj_enum_ptr (bytes st) x push_enum (st, t) = Inr (fold push (pointers (bytes st0) x) (st, t))"
proof -
  have wf: "heap_wf A st0" by (rule marking_wf [OF mk])
  let ?n = "OBJ_SIZE (bytes st0) x div 8"
  have v: "valid_objtype (OBJ_TYPE (bytes st) x)" using heap_wfD(2) [OF wf x] marking_object [OF mk x] by simp
  have f: "filter (pointer_field (bytes st) x) [0..<?n] = filter (pointer_field (bytes st0) x) [0..<?n]"
    by (rule filter_cong) (use marking_fields(2) [OF mk x] in auto)
  have "sml_obj_enum_ptr (bytes st) x push_enum (st, t)
      = Inr (fold push_enum (map (\<lambda>i. x + 8 * i) (filter (pointer_field (bytes st0) x) [0..<?n])) (st, t))"
    unfolding sml_obj_enum_ptr_def enum_slots_valid [OF v] marking_object(3) [OF mk x] f by simp
  also have "fold push_enum (map (\<lambda>i. x + 8 * i) (filter (pointer_field (bytes st0) x) [0..<?n])) (st, t)
      = fold push (pointers (bytes st0) x) (st, t)"
    unfolding pointers_def
    by (rule scan_fields [OF mk x t]) (use heap_wfD(7) [OF wf x] in \<open>auto simp: pointers_def gc_pointer_def\<close>)
  finally show ?thesis .
qed

interpretation gc: marking "marking_of A st0" "gc_pointer A st0" "live_target A st0" "pointers (bytes st0)"
  obj_marked stack_link push "\<lambda>x (st, t). sml_obj_enum_ptr (bytes st) x push_enum (st, t)" trace
  for A :: "addr set" and st0 :: seg_store
proof unfold_locales
  fix st x c t
  assume mk: "marking_of A st0 st"
  show "finite {x. live_target A st0 x}"
    using marking_wf [OF mk] by (simp add: heap_wf_def live_target_def)
  show "trace st NULL = Some (Inr st)" by (subst trace.simps) simp
  {
    assume x: "live_target A st0 x"
    then have xA: "x \<in> A" by (simp add: live_target_def)
    show "x \<noteq> NULL" using object_nonnull [OF marking_wf [OF mk] xA] by simp
    then show "trace st x = (case (case (st, stack_link st x) of (st, t) \<Rightarrow> sml_obj_enum_ptr (bytes st) x push_enum (st, t)) of
        Inl e \<Rightarrow> Some (Inl e) | Inr (s', t) \<Rightarrow> trace s' t)"
      by (subst trace.simps) (simp add: stack_link_def Let_def)
    show "c \<in> set (pointers (bytes st0) x) \<Longrightarrow> gc_pointer A st0 c"
      using heap_wfD(7) [OF marking_wf [OF mk] xA] by (simp add: gc_pointer_def)
    show "t = NULL \<or> live_target A st0 t \<Longrightarrow>
      (case (st, t) of (st, t) \<Rightarrow> sml_obj_enum_ptr (bytes st) x push_enum (st, t)) = Inr (fold push (pointers (bytes st0) x) (st, t))"
      using scan_object [OF mk xA] by simp
  }
qed (use push_skips push_marks in blast)+


section \<open>What the mark loop does\<close>

text \<open>A mark stack: targets, marked, each linked to the next through its stack slot.\<close>

fun mark_stack :: "addr set \<Rightarrow> seg_store \<Rightarrow> seg_store \<Rightarrow> addr \<Rightarrow> addr list \<Rightarrow> bool" where
  "mark_stack A st0 st t [] \<longleftrightarrow> t = NULL"
| "mark_stack A st0 st t (x # xs) \<longleftrightarrow>
     t = x \<and> live_target A st0 x \<and> obj_marked st x \<and> mark_stack A st0 st (stack_link st x) xs"

definition points_to :: "addr set \<Rightarrow> seg_store \<Rightarrow> (addr \<times> addr) set" where
  "points_to A st = {(x, y). live_target A st x \<and> live_target A st y \<and> y \<in> set (pointers (bytes st) x)}"

text \<open>Every marked target outside of \<open>G\<close> has its target children marked.\<close>

definition scanned_except :: "addr set \<Rightarrow> seg_store \<Rightarrow> addr set \<Rightarrow> seg_store \<Rightarrow> bool" where
  "scanned_except A st0 G st \<longleftrightarrow>
     (\<forall>x y. (x, y) \<in> points_to A st0 \<and> obj_marked st x \<and> x \<notin> G \<longrightarrow> obj_marked st y)"

lemma gc_chain: "gc.chain A st0 st t xs \<longleftrightarrow> mark_stack A st0 st t xs"
  by (induction xs arbitrary: t) (auto simp: gc.marks_def)

lemma gc_edges: "gc.edges A st0 = points_to A st0"
  by (simp add: gc.edges_def points_to_def)

lemma gc_scanned:
  "live_target A st0 x \<Longrightarrow> gc.scanned A st0 st x \<longleftrightarrow> (\<forall>y. (x, y) \<in> points_to A st0 \<longrightarrow> obj_marked st y)"
  by (auto simp: gc.scanned_def gc.marks_def points_to_def)

lemma marking_refl: "heap_wf A st \<Longrightarrow> marking_of A st st"
  by (simp add: marking_of_def marks_within_def large_marks_within_def)

text \<open>Tracing one stack while the objects of \<open>G\<close> wait on others.\<close>

lemma trace_stack:
  assumes mk: "marking_of A st0 st" and ch: "mark_stack A st0 st t xs" "distinct xs"
    and sc: "scanned_except A st0 (set xs \<union> G) st"
  shows "\<exists>st'. trace st t = Some (Inr st') \<and> marking_of A st0 st' \<and> scanned_except A st0 G st' \<and>
    (\<forall>x. live_target A st0 x \<and> obj_marked st x \<longrightarrow> obj_marked st' x \<and> stack_link st' x = stack_link st x) \<and>
    (\<forall>x. live_target A st0 x \<and> obj_marked st' x \<longrightarrow>
       obj_marked st x \<or> (\<exists>r\<in>set xs. (r, x) \<in> (points_to A st0)\<^sup>*))"
proof -
  have "gc.scanned A st0 st x" if "x \<in> gc.marks A st0 st" "x \<notin> set xs" "x \<notin> G" for x
    using that sc gc_scanned [of A st0 x st] by (auto simp: gc.marks_def scanned_except_def)
  from gc.run_marks [OF mk ch(1) [folded gc_chain] ch(2) this] obtain st' where
    st': "trace st t = Some (Inr st')" "marking_of A st0 st'" "gc.marks A st0 st \<subseteq> gc.marks A st0 st'"
      "gc.marks A st0 st' \<subseteq> gc.marks A st0 st \<union> (points_to A st0)\<^sup>* `` set xs"
      "\<forall>x\<in>gc.marks A st0 st' - G. gc.scanned A st0 st' x" "\<forall>y\<in>gc.marks A st0 st. stack_link st' y = stack_link st y"
    unfolding gc_edges by blast
  have "scanned_except A st0 G st'"
    unfolding scanned_except_def
  proof (intro allI impI)
    fix x y assume a: "(x, y) \<in> points_to A st0 \<and> obj_marked st' x \<and> x \<notin> G"
    then have lx: "live_target A st0 x" by (simp add: points_to_def)
    then have "gc.scanned A st0 st' x" using a st'(5) by (simp add: gc.marks_def)
    then show "obj_marked st' y" using a gc_scanned [OF lx, of st'] by simp
  qed
  moreover have "obj_marked st' x \<and> stack_link st' x = stack_link st x" if "live_target A st0 x" "obj_marked st x" for x
  proof -
    have "x \<in> gc.marks A st0 st" using that by (simp add: gc.marks_def)
    then have "x \<in> gc.marks A st0 st'" "stack_link st' x = stack_link st x" using st'(3,6) by blast+
    then show ?thesis by (simp add: gc.marks_def)
  qed
  moreover have "obj_marked st x \<or> (\<exists>r\<in>set xs. (r, x) \<in> (points_to A st0)\<^sup>*)" if "live_target A st0 x" "obj_marked st' x" for x
  proof -
    have "x \<in> gc.marks A st0 st'" using that by (simp add: gc.marks_def)
    then have "x \<in> gc.marks A st0 st \<union> (points_to A st0)\<^sup>* `` set xs" using st'(4) by blast
    then show ?thesis by (simp add: gc.marks_def Image_iff) blast
  qed
  ultimately show ?thesis using st'(1,2) by blast
qed

lemma trace_closure:
  assumes mk: "marking_of A st0 st" and ch: "mark_stack A st0 st t xs" "distinct xs"
    and sc: "scanned_except A st0 (set xs) st"
  shows "\<exists>st'. trace st t = Some (Inr st') \<and> marking_of A st0 st' \<and>
    (\<forall>x. live_target A st0 x \<longrightarrow>
       obj_marked st' x = (obj_marked st x \<or> (\<exists>r\<in>set xs. (r, x) \<in> (points_to A st0)\<^sup>*)))"
proof -
  have "gc.scanned A st0 st x" if "x \<in> gc.marks A st0 st" "x \<notin> set xs" for x
    using that sc gc_scanned [of A st0 x st] by (auto simp: gc.marks_def scanned_except_def)
  from gc.run_marks_reachable [OF mk ch(1) [folded gc_chain] ch(2) this] obtain st' where
    st': "trace st t = Some (Inr st')" "marking_of A st0 st'"
      "gc.marks A st0 st' = gc.marks A st0 st \<union> (points_to A st0)\<^sup>* `` set xs"
    unfolding gc_edges by blast
  have "obj_marked st' x = (obj_marked st x \<or> (\<exists>r\<in>set xs. (r, x) \<in> (points_to A st0)\<^sup>*))" if "live_target A st0 x" for x
  proof -
    have "x \<in> gc.marks A st0 st' \<longleftrightarrow> x \<in> gc.marks A st0 st \<union> (points_to A st0)\<^sup>* `` set xs" using st'(3) by simp
    then show ?thesis using that by (simp add: gc.marks_def Image_iff)
  qed
  then show ?thesis using st'(1,2) by blast
qed

lemma is_alive_object:
  assumes mk: "marking_of A st0 st" and x: "x \<in> A"
  shows "is_alive st x \<longleftrightarrow> \<not> gc_target st0 x \<or>
    (if small st0 x then obj_marked st x else load32 (bytes st) (x - 12) \<noteq> 0)"
proof -
  let ?m = "bytes st"
  have wf: "heap_wf A st0" by (rule marking_wf [OF mk])
  have nn: "x \<noteq> 0" "\<not> is_skip ?m x"
    using object_nonnull [OF wf x] heap_wfD(3) [OF wf x] marking_object(5) [OF mk x] by auto
  note tgt = marking_target [OF mk x]
  show ?thesis
  proof (cases "small st0 x")
    case True
    from small_block [OF heap_wfD(4) [OF wf x True]] have ok: "layout_ok (layout_of st (segment_addr x))"
      unfolding marking_layout [OF mk] by blast
    show ?thesis
      using nn True tgt marking_small [OF mk x]
      by (auto simp: is_alive_def gc_target_def [of st] obj_marked_def mark_bit_def Let_def bitptr_test layout_bases [OF ok]
          small_def not_le)
  next
    case False
    then show ?thesis
      using nn tgt marking_small [OF mk x] heap_wfD(5) [OF wf x False]
      by (auto simp: is_alive_def gc_target_def [of st] Let_def small_def not_le mseg_fields OBJ_TO_MALLOC_SEGMENT_def)
  qed
qed


lemma remember_push: "remember = push"
  by (simp add: remember_def push_def fun_eq_iff)

section \<open>A small heap\<close>

text \<open>Two objects in the first blocks of a segment of 4 KB blocks, the first pointing to the second.\<close>

definition sample_objects :: seg_store where
  "sample_objects = upd_seg 32768 (\<lambda>s. s\<lparr>allocptr_snapshot := 61552\<rparr>)
     (sample_store\<lparr>bytes := store64 (store32 (store32 (bytes sample_store) 36972 8) 32876 0x10000008) 32880 36976\<rparr>)"

lemma layout9: "compute_segment_layout 9 = layout_for 12 7" "block_offset (layout_for 12 7) = 112"
  "words0 (layout_for 12 7) = 1" "words1 (layout_for 12 7) = 1" "num_blocks (layout_for 12 7) = 7"
  "blocksize_log2 (layout_for 12 7) = 12" "stack_offset (layout_for 12 7) = 48"
proof -
  have n: "num_blocks (compute_segment_layout 9) = 7" using layout_num_blocks [of 9] by simp
  have "compute_segment_layout 9 = layout_for 12 (num_blocks (compute_segment_layout 9))"
    by (simp add: compute_segment_layout_def Let_def layout_for_fields)
  then show "compute_segment_layout 9 = layout_for 12 7" unfolding n .
  show "block_offset (layout_for 12 7) = 112" "stack_offset (layout_for 12 7) = 48"
    by (simp_all add: layout_for_eq [OF refl refl refl refl] CEILING_def)
qed (simp_all add: words0_def words1_def layout_for_fields)

lemma sample_blocks:
  "segment_addr 32880 = 32768" "segment_addr 36976 = 32768"
  "block_addr 32768 (layout_for 12 7) 0 = 32880" "block_addr 32768 (layout_for 12 7) 1 = 36976"
  "object_index 32768 (layout_for 12 7) 32880 = 0" "object_index 32768 (layout_for 12 7) 36976 = 1"
  by (simp_all add: segment_addr_def block_addr_def BLOCK_BASE_def object_index_def layout9)

lemma sample_headers:
  "OBJ_HEADER (bytes sample_objects) 32880 = 0x10000008" "OBJ_HEADER (bytes sample_objects) 36976 = 8"
  "load64 (bytes sample_objects) 32880 = 36976"
  by (simp_all add: sample_objects_def upd_seg_def OBJ_HEADER_def OBJ_BEGIN_def load_store_other)

lemma sample_object_facts:
  "OBJ_TYPE (bytes sample_objects) 32880 = OBJTYPE_BOXED_VECTOR" "OBJ_TYPE (bytes sample_objects) 36976 = OBJTYPE_UNBOXED_VECTOR"
  "OBJ_SIZE (bytes sample_objects) 32880 = 8" "OBJ_SIZE (bytes sample_objects) 36976 = 8"
  "\<not> is_skip (bytes sample_objects) 32880" "\<not> is_skip (bytes sample_objects) 36976"
  "seg_layout (segs sample_objects 32768) = Some 9" "allocptr_snapshot (segs sample_objects 32768) = 61552"
proof -
  show "seg_layout (segs sample_objects 32768) = Some 9" "allocptr_snapshot (segs sample_objects 32768) = 61552"
    using sample_store_ok(1) by (simp_all add: sample_objects_def upd_seg_def)
qed (simp_all add: OBJ_TYPE_def OBJ_SIZE_def is_skip_def sample_headers objtype_defs objmask_defs)

lemma sample_small: "small sample_objects 32880" "small sample_objects 36976"
  by (simp_all add: small_def OBJ_TOTAL_SIZE_def sample_object_facts)

lemma sample_pointers_of:
  "pointers (bytes sample_objects) 32880 = [36976]" "pointers (bytes sample_objects) 36976 = []"
  by (simp_all add: pointers_def sample_object_facts sample_headers pointer_field_def)

lemma sample_heap_wf: "heap_wf {32880, 36976} sample_objects"
proof -
  have b: "in_block sample_objects 32880" "in_block sample_objects 36976"
    unfolding in_block_def sample_blocks
    by (rule exI [of _ 9], rule exI [of _ 0], simp add: sample_object_facts layout9 sample_blocks OBJ_TOTAL_SIZE_def,
        rule exI [of _ 9], rule exI [of _ 1], use sample_blocks(4) in \<open>simp add: sample_object_facts layout9 OBJ_TOTAL_SIZE_def\<close>)
  show ?thesis
    by (simp add: heap_wf_def sample_small b sample_object_facts sample_pointers_of valid_objtype_def)
qed

lemma sample_targets: "gc_target sample_objects 32880" "gc_target sample_objects 36976"
  by (simp_all add: gc_target_def sample_small sample_blocks sample_object_facts)

lemma sample_unmarked: "\<not> obj_marked sample_objects 32880" "\<not> obj_marked sample_objects 36976"
proof -
  have l: "layout_ok (compute_segment_layout 9)" by (rule compute_segment_layout_ok) simp
  have ly: "layout_of sample_objects 32768 = layout_for 12 7"
    using layout9(1) by (simp add: layout_of_def sample_object_facts)
  have b2: "base2 32768 (layout_for 12 7) = 32808" by (simp add: base2_def layout9)
  have "\<not> marked (bytes sample_store) 32768 (layout_for 12 7) j" if "j < 2" for j
    using seg_clean_bitmaps(3) [OF l sample_store_ok(2), of j] that unfolding layout9(1) by (simp add: layout9)
  moreover have "load32 (bytes sample_objects) 32808 = load32 (bytes sample_store) 32808"
    by (simp add: sample_objects_def upd_seg_def load_store_other)
  ultimately have "\<not> bitmap_bit (bytes sample_objects) 32808 0" "\<not> bitmap_bit (bytes sample_objects) 32808 1"
    unfolding marked_def b2 by (simp_all add: bitmap_bit_def)
  then show "\<not> obj_marked sample_objects 32880" "\<not> obj_marked sample_objects 36976"
    by (simp_all add: obj_marked_def mark_bit_def sample_small sample_blocks ly b2 Let_def)
qed

section \<open>Properties\<close>

text \<open>
  C4: \<open>trace\<close> marks exactly what is reachable.  Started on a mark stack, with every marked object
  that is not on the stack already scanned, the loop ends without a fatal error; afterwards the
  marked objects are those that were marked before and those reachable from the stack through
  pointer fields of objects the collection is responsible for, and headers and fields of all
  objects are as before.
\<close>

theorem trace_marks_reachable:
  assumes "marking_of A st0 st" and "mark_stack A st0 st t xs" and "distinct xs"
    and "scanned_except A st0 (set xs) st"
  shows "\<exists>st'. trace st t = Some (Inr st') \<and>
    (\<forall>x. live_target A st0 x \<longrightarrow>
       obj_marked st' x = (obj_marked st x \<or> (\<exists>r\<in>set xs. (r, x) \<in> (points_to A st0)\<^sup>*))) \<and>
    segs st' = segs st0 \<and>
    (\<forall>x\<in>A. OBJ_HEADER (bytes st') x = OBJ_HEADER (bytes st0) x \<and>
       (\<forall>i<OBJ_SIZE (bytes st0) x div 8. load64 (bytes st') (x + 8 * i) = load64 (bytes st0) (x + 8 * i)))"
proof -
  from trace_closure [OF assms] obtain st' where
    st': "trace st t = Some (Inr st')" "marking_of A st0 st'"
      "\<forall>x. live_target A st0 x \<longrightarrow>
         obj_marked st' x = (obj_marked st x \<or> (\<exists>r\<in>set xs. (r, x) \<in> (points_to A st0)\<^sup>*))" by blast
  show ?thesis
    using st' marking_segs [OF st'(2)] marking_object(1) [OF st'(2)] marking_fields(1) [OF st'(2)] by blast
qed

theorem trace_marks_reachable_witness:
  "\<exists>st st'. push 32880 (sample_objects, 0) = (st, 32880) \<and> \<not> obj_marked st 36976 \<and>
     trace st 32880 = Some (Inr st') \<and> obj_marked st' 36976"
proof -
  let ?A = "{32880, 36976} :: addr set" and ?st0 = sample_objects
  have live: "live_target ?A ?st0 32880" "live_target ?A ?st0 36976"
    using sample_targets by (simp_all add: live_target_def)
  have edge: "(32880, 36976) \<in> points_to ?A ?st0" using live by (simp add: points_to_def sample_pointers_of)
  from push_marks [OF marking_refl [OF sample_heap_wf] live(1) sample_unmarked(1), of 0] obtain st where
    st: "push 32880 (?st0, 0) = (st, 32880)" "marking_of ?A ?st0 st" "stack_link st 32880 = 0"
      "\<forall>y. live_target ?A ?st0 y \<longrightarrow> obj_marked st y = (obj_marked ?st0 y \<or> y = 32880)" by auto
  have m: "obj_marked st 32880" "\<not> obj_marked st 36976" using st(4) live sample_unmarked by simp_all
  have "mark_stack ?A ?st0 st 32880 [32880]" using live(1) m(1) st(3) by simp
  moreover have "scanned_except ?A ?st0 (set [32880]) st"
    using m(2) by (auto simp: scanned_except_def points_to_def live_target_def)
  ultimately obtain st' where "trace st 32880 = Some (Inr st')" "obj_marked st' 36976"
    using trace_marks_reachable [OF st(2), of 32880 "[32880]"] live(2) edge by auto
  then show ?thesis using st(1) m(2) by blast
qed

end
