(* ===== verification/Seglist.thy ===== *)
theory Seglist
  imports Trace
begin

text \<open>
  The intrusive lists of \<open>heap_concurrent.c\<close>: the \<open>LIST_\<close> macros, which the code uses for segments
  and for malloc segments alike, the local lists of segments and the global stacks.  A list has a
  head and the address of the link to write next, the head itself or the \<open>next\<close> field of the last
  item.  The macros take the access to the \<open>next\<close> fields as an argument.  The locale \<open>link_store\<close>
  states what they need of it and shows that they implement the operations on sequences; it is
  interpreted for the headers of segments and for the malloc segments in memory.
\<close>

section \<open>List macros\<close>

datatype link_addr = Head_Field | Next_Of addr

record item_list =
  lst_head :: addr
  lst_last :: link_addr

definition LIST_INIT :: item_list where
  "LIST_INIT = \<lparr>lst_head = NULL, lst_last = Head_Field\<rparr>"

text \<open>The assignment \<open>*(list)->last = item\<close>.\<close>

definition write_last :: "(addr \<Rightarrow> addr \<Rightarrow> 's \<Rightarrow> 's) \<Rightarrow> item_list \<Rightarrow> addr \<Rightarrow> 's \<Rightarrow> item_list \<times> 's" where
  "write_last set_next l item s =
     (case lst_last l of
        Head_Field \<Rightarrow> (l\<lparr>lst_head := item\<rparr>, s)
      | Next_Of a \<Rightarrow> (l, set_next a item s))"

definition LIST_APPEND :: "(addr \<Rightarrow> addr \<Rightarrow> 's \<Rightarrow> 's) \<Rightarrow> item_list \<Rightarrow> addr \<Rightarrow> 's \<Rightarrow> item_list \<times> 's" where
  "LIST_APPEND set_next l item s =
     (let (l', s') = write_last set_next l item s in (l'\<lparr>lst_last := Next_Of item\<rparr>, s'))"

definition LIST_FINISH :: "(addr \<Rightarrow> addr \<Rightarrow> 's \<Rightarrow> 's) \<Rightarrow> item_list \<Rightarrow> addr \<Rightarrow> 's \<Rightarrow> addr \<times> 's" where
  "LIST_FINISH set_next l item s = (let (l', s') = write_last set_next l item s in (lst_head l', s'))"

text \<open>The walk of \<open>LIST_INIT_WITH\<close> to the link that holds null.\<close>

partial_function (option) last_link :: "(addr \<Rightarrow> addr) \<Rightarrow> link_addr \<Rightarrow> addr \<Rightarrow> link_addr option" where
  "last_link next k p = (if p = NULL then Some k else last_link next (Next_Of p) (next p))"

definition LIST_INIT_WITH :: "('s \<Rightarrow> addr \<Rightarrow> addr) \<Rightarrow> addr \<Rightarrow> 's \<Rightarrow> item_list option" where
  "LIST_INIT_WITH get_next items s =
     map_option (\<lambda>k. \<lparr>lst_head = items, lst_last = k\<rparr>) (last_link (get_next s) Head_Field items)"

definition LIST_CONCAT :: "(addr \<Rightarrow> addr \<Rightarrow> 's \<Rightarrow> 's) \<Rightarrow> item_list \<Rightarrow> item_list \<Rightarrow> 's \<Rightarrow> item_list \<times> 's" where
  "LIST_CONCAT set_next l1 l2 s =
     (if lst_head l2 \<noteq> NULL then
        let (l', s') = write_last set_next l1 (lst_head l2) s in (l'\<lparr>lst_last := lst_last l2\<rparr>, s')
      else (l1, s))"

section \<open>Links of segments\<close>

definition get_seg_next :: "seg_store \<Rightarrow> addr \<Rightarrow> addr" where
  "get_seg_next st seg = seg_next (segs st seg)"

definition set_seg_next :: "addr \<Rightarrow> addr \<Rightarrow> seg_store \<Rightarrow> seg_store" where
  "set_seg_next seg p = upd_seg seg (\<lambda>s. s\<lparr>seg_next := p\<rparr>)"

definition segment_list_pop :: "item_list \<Rightarrow> seg_store \<Rightarrow> addr \<times> item_list" where
  "segment_list_pop l st =
     (if lst_last l = Head_Field then (NULL, l)
      else
        let seg = lst_head l
        in if lst_last l = Next_Of seg then (seg, \<lparr>lst_head = NULL, lst_last = Head_Field\<rparr>)
           else (seg, l\<lparr>lst_head := get_seg_next st (lst_head l)\<rparr>))"

text \<open>
  The operations on the global stacks retry a compare-and-swap until no other thread has changed
  the head since it was read; the model is the round that succeeds.
\<close>

definition segment_push_list :: "addr \<Rightarrow> item_list \<Rightarrow> seg_store \<Rightarrow> addr \<times> item_list \<times> seg_store" where
  "segment_push_list stack l st =
     (if lst_head l = NULL then (stack, l, st)
      else let (l', st') = write_last set_seg_next l stack st in (lst_head l', l', st'))"

definition segment_push :: "addr \<Rightarrow> addr \<Rightarrow> seg_store \<Rightarrow> addr \<times> seg_store" where
  "segment_push stack item st = (item, set_seg_next item stack st)"

definition segment_pop :: "addr \<Rightarrow> seg_store \<Rightarrow> addr \<times> addr" where
  "segment_pop stack st = (if stack = NULL then (NULL, stack) else (stack, get_seg_next st stack))"

section \<open>Links of malloc segments\<close>

definition get_mseg_next :: "seg_store \<Rightarrow> addr \<Rightarrow> addr" where
  "get_mseg_next st mseg = load64 (bytes st) (mseg_next mseg)"

definition set_mseg_next :: "addr \<Rightarrow> addr \<Rightarrow> seg_store \<Rightarrow> seg_store" where
  "set_mseg_next mseg p st = st\<lparr>bytes := store64 (bytes st) (mseg_next mseg) p\<rparr>"

section \<open>Lists as sequences\<close>

locale link_store =
  fixes node :: "addr \<Rightarrow> bool"
    and get_next :: "'s \<Rightarrow> addr \<Rightarrow> addr"
    and set_next :: "addr \<Rightarrow> addr \<Rightarrow> 's \<Rightarrow> 's"
  assumes get_set_same: "node a \<Longrightarrow> p = NULL \<or> node p \<Longrightarrow> get_next (set_next a p s) a = p"
    and get_set_other: "node a \<Longrightarrow> node b \<Longrightarrow> a \<noteq> b \<Longrightarrow> get_next (set_next a p s) b = get_next s b"
    and node_nonnull: "node a \<Longrightarrow> a \<noteq> NULL"
begin

text \<open>The items from \<open>p\<close> up to and without \<open>q\<close>; a list ends at null.\<close>

fun path :: "'s \<Rightarrow> addr \<Rightarrow> addr list \<Rightarrow> addr \<Rightarrow> bool" where
  "path s p [] q \<longleftrightarrow> p = q"
| "path s p (x # xs) q \<longleftrightarrow> p = x \<and> node x \<and> path s (get_next s x) xs q"

definition items_at :: "'s \<Rightarrow> addr \<Rightarrow> addr list \<Rightarrow> bool" where
  "items_at s p xs \<longleftrightarrow> path s p xs NULL"

definition open_list :: "'s \<Rightarrow> item_list \<Rightarrow> addr list \<Rightarrow> bool" where
  "open_list s l xs \<longleftrightarrow>
     (if xs = [] then l = LIST_INIT
      else lst_last l = Next_Of (last xs) \<and> distinct xs \<and> (\<exists>q. path s (lst_head l) xs q))"

lemma path_nodes: "path s p xs q \<Longrightarrow> x \<in> set xs \<Longrightarrow> node x"
  by (induction xs arbitrary: p) auto

lemma path_append: "path s p (xs @ ys) q \<longleftrightarrow> (\<exists>r. path s p xs r \<and> path s r ys q)"
  by (induction xs arbitrary: p) auto

lemma path_unique: "path s p xs NULL \<Longrightarrow> path s p ys NULL \<Longrightarrow> xs = ys"
proof (induction xs arbitrary: p ys)
  case Nil
  then show ?case using node_nonnull by (cases ys) auto
next
  case (Cons x xs)
  then show ?case using node_nonnull by (cases ys) auto
qed

lemma path_distinct: "path s p xs NULL \<Longrightarrow> distinct xs"
proof (induction xs arbitrary: p)
  case (Cons x xs)
  have "x \<notin> set xs"
  proof
    assume "x \<in> set xs"
    then obtain ys zs where xs: "xs = ys @ x # zs" by (meson split_list)
    have "path s x (x # zs) NULL" "path s x (x # ys @ x # zs) NULL"
      using Cons.prems xs by (auto simp: path_append)
    from path_unique [OF this] have "length (x # zs) = length (x # ys @ x # zs)" by (rule arg_cong)
    then show False by simp
  qed
  then show ?case using Cons by auto
qed simp

lemma path_frame:
  "path s p xs q \<Longrightarrow> (\<And>x. x \<in> set xs \<Longrightarrow> get_next s' x = get_next s x) \<Longrightarrow> path s' p xs q"
  by (induction xs arbitrary: p) auto

lemma path_set_other: "path s p xs q \<Longrightarrow> node a \<Longrightarrow> a \<notin> set xs \<Longrightarrow> path (set_next a v s) p xs q"
  by (induction xs arbitrary: p) (auto simp: get_set_other)

lemma path_set_last:
  assumes "path s p xs q" and "xs \<noteq> []" and "distinct xs" and "v = NULL \<or> node v"
  shows "path (set_next (last xs) v s) p xs v"
proof -
  from assms(2) obtain ys z where xs: "xs = ys @ [z]" by (metis append_butlast_last_id)
  then have "path s p ys z" "node z" "z \<notin> set ys" using assms(1,3) by (auto simp: path_append)
  then have "path (set_next z v s) p ys z" by (intro path_set_other)
  then show ?thesis using xs \<open>node z\<close> assms(4) by (simp add: path_append get_set_same)
qed

lemma open_nodes: "open_list s l xs \<Longrightarrow> x \<in> set xs \<Longrightarrow> node x"
  by (auto simp: open_list_def split: if_splits dest: path_nodes)

lemma open_frame:
  assumes "open_list s l xs" and "\<And>x. x \<in> set xs \<Longrightarrow> get_next s' x = get_next s x"
  shows "open_list s' l xs"
  using assms(1) path_frame [OF _ assms(2)] unfolding open_list_def by (metis (full_types))

lemma items_frame:
  "items_at s p xs \<Longrightarrow> (\<And>x. x \<in> set xs \<Longrightarrow> get_next s' x = get_next s x) \<Longrightarrow> items_at s' p xs"
  unfolding items_at_def by (rule path_frame)

lemma open_init [simp]: "open_list s LIST_INIT []"
  by (simp add: open_list_def)

text \<open>Writing the last link joins the items with what follows; only that link changes.\<close>

lemma write_last_spec:
  assumes "open_list s l xs" and "v = NULL \<or> node v"
  shows "\<exists>l' s'. write_last set_next l v s = (l', s') \<and> path s' (lst_head l') xs v \<and>
    (s' = s \<or> xs \<noteq> [] \<and> s' = set_next (last xs) v s)"
proof (cases "xs = []")
  case True
  then show ?thesis using assms by (simp add: open_list_def write_last_def LIST_INIT_def)
next
  case False
  then obtain q where q: "path s (lst_head l) xs q" "distinct xs" "lst_last l = Next_Of (last xs)"
    using assms(1) by (auto simp: open_list_def)
  show ?thesis
    using path_set_last [OF q(1) False q(2) assms(2)] q(3) False by (simp add: write_last_def)
qed

lemma append_spec:
  assumes "open_list s l xs" and "node x" and "x \<notin> set xs"
  shows "\<exists>l' s'. LIST_APPEND set_next l x s = (l', s') \<and> open_list s' l' (xs @ [x]) \<and>
    (s' = s \<or> xs \<noteq> [] \<and> s' = set_next (last xs) x s)"
proof -
  from write_last_spec [OF assms(1), of x] assms(2) obtain l1 s1 where
    1: "write_last set_next l x s = (l1, s1)" "path s1 (lst_head l1) xs x"
      "s1 = s \<or> xs \<noteq> [] \<and> s1 = set_next (last xs) x s" by blast
  have "path s1 (lst_head l1) (xs @ [x]) (get_next s1 x)" using 1(2) assms(2) by (simp add: path_append)
  moreover have "distinct xs" using assms(1) by (auto simp: open_list_def split: if_splits)
  ultimately show ?thesis
    using 1 assms(3) by (auto simp: LIST_APPEND_def open_list_def)
qed

lemma finish_spec:
  assumes "open_list s l xs" and "items_at s p ys" and "set xs \<inter> set ys = {}"
  shows "\<exists>h s'. LIST_FINISH set_next l p s = (h, s') \<and> items_at s' h (xs @ ys) \<and>
    (s' = s \<or> xs \<noteq> [] \<and> s' = set_next (last xs) p s)"
proof -
  have p: "p = NULL \<or> node p" using assms(2) by (cases ys) (auto simp: items_at_def)
  from write_last_spec [OF assms(1) p] obtain l1 s1 where
    1: "write_last set_next l p s = (l1, s1)" "path s1 (lst_head l1) xs p"
      "s1 = s \<or> xs \<noteq> [] \<and> s1 = set_next (last xs) p s" by blast
  have "path s1 p ys NULL"
    using 1(3)
  proof
    assume "xs \<noteq> [] \<and> s1 = set_next (last xs) p s"
    moreover from this have "node (last xs)" "last xs \<notin> set ys"
      using open_nodes [OF assms(1)] assms(3) last_in_set [of xs] by blast+
    ultimately show ?thesis using path_set_other assms(2) by (simp add: items_at_def)
  qed (use assms(2) in \<open>simp add: items_at_def\<close>)
  then show ?thesis using 1 by (auto simp: LIST_FINISH_def items_at_def path_append)
qed

lemma last_link_path:
  "path s p xs NULL \<Longrightarrow> last_link (get_next s) k p = Some (if xs = [] then k else Next_Of (last xs))"
proof (induction xs arbitrary: p k)
  case Nil
  then show ?case by (subst last_link.simps) simp
next
  case (Cons x xs)
  then show ?case using node_nonnull by (subst last_link.simps) auto
qed

lemma init_with_spec:
  assumes "items_at s p xs"
  shows "\<exists>l. LIST_INIT_WITH get_next p s = Some l \<and> open_list s l xs"
  using assms last_link_path [of s p xs Head_Field] path_distinct [of s p xs]
  by (auto simp: LIST_INIT_WITH_def items_at_def open_list_def LIST_INIT_def)

lemma concat_spec:
  assumes "open_list s l1 xs" and "open_list s l2 ys" and "set xs \<inter> set ys = {}"
  shows "\<exists>l s'. LIST_CONCAT set_next l1 l2 s = (l, s') \<and> open_list s' l (xs @ ys) \<and>
    (s' = s \<or> xs \<noteq> [] \<and> s' = set_next (last xs) (hd ys) s)"
proof (cases "ys = []")
  case True
  then show ?thesis using assms by (simp add: LIST_CONCAT_def open_list_def LIST_INIT_def)
next
  case False
  then obtain q where q: "path s (lst_head l2) ys q" "distinct ys" "lst_last l2 = Next_Of (last ys)"
    using assms(2) by (auto simp: open_list_def)
  then have h: "lst_head l2 = hd ys" "node (lst_head l2)" using False by (cases ys; auto)+
  from write_last_spec [OF assms(1), of "lst_head l2"] h obtain l' s' where
    1: "write_last set_next l1 (lst_head l2) s = (l', s')" "path s' (lst_head l') xs (lst_head l2)"
      "s' = s \<or> xs \<noteq> [] \<and> s' = set_next (last xs) (lst_head l2) s" by blast
  have "path s' (lst_head l2) ys q"
    using 1(3)
  proof
    assume "xs \<noteq> [] \<and> s' = set_next (last xs) (lst_head l2) s"
    moreover from this have "node (last xs)" "last xs \<notin> set ys"
      using open_nodes [OF assms(1)] assms(3) last_in_set [of xs] by blast+
    ultimately show ?thesis using path_set_other q(1) by simp
  qed (use q(1) in simp)
  then have "path s' (lst_head l') (xs @ ys) q" using 1(2) by (auto simp: path_append)
  moreover have "distinct (xs @ ys)" using assms q(2) by (auto simp: open_list_def split: if_splits)
  ultimately show ?thesis
    using 1 h False q(3) node_nonnull [OF h(2)] by (auto simp: LIST_CONCAT_def open_list_def)
qed

end

definition mseg_node :: "addr \<Rightarrow> bool" where
  "mseg_node a \<longleftrightarrow> 8 dvd a \<and> a < 2 ^ 64 \<and> a \<noteq> NULL"

definition seg_node :: "addr \<Rightarrow> bool" where
  "seg_node a \<longleftrightarrow> a \<noteq> NULL"

interpretation seg: link_store seg_node get_seg_next set_seg_next
  by unfold_locales (auto simp: seg_node_def get_seg_next_def set_seg_next_def upd_seg_def)

lemma dvd_apart: "8 dvd a \<Longrightarrow> 8 dvd b \<Longrightarrow> a \<noteq> b \<Longrightarrow> a + 8 \<le> b \<or> b + 8 \<le> (a :: nat)"
  by (elim dvdE) auto

interpretation mseg: link_store mseg_node get_mseg_next set_mseg_next
proof unfold_locales
  fix a b p s
  assume "mseg_node a"
  then show "p = NULL \<or> mseg_node p \<Longrightarrow> get_mseg_next (set_mseg_next a p s) a = p" "a \<noteq> NULL"
    by (auto simp: get_mseg_next_def set_mseg_next_def mseg_node_def)
  show "mseg_node b \<Longrightarrow> a \<noteq> b \<Longrightarrow> get_mseg_next (set_mseg_next a p s) b = get_mseg_next s b"
    using \<open>mseg_node a\<close> dvd_apart [of a b]
    by (auto simp: get_mseg_next_def set_mseg_next_def mseg_node_def mseg_next_def load64_store64_other)
qed


section \<open>Local lists and global stacks of segments\<close>

lemma list_pop_empty: "seg.open_list st l [] \<Longrightarrow> segment_list_pop l st = (NULL, l)"
  by (simp add: seg.open_list_def segment_list_pop_def LIST_INIT_def)

lemma list_pop_first:
  assumes "seg.open_list st l (x # xs)"
  shows "\<exists>l'. segment_list_pop l st = (x, l') \<and> seg.open_list st l' xs"
proof (cases "xs = []")
  case True
  then show ?thesis
    using assms by (auto simp: seg.open_list_def segment_list_pop_def LIST_INIT_def)
next
  case False
  then have "last (x # xs) \<noteq> x" using assms last_in_set [OF False] by (auto simp: seg.open_list_def)
  then show ?thesis using assms False by (auto simp: seg.open_list_def segment_list_pop_def)
qed

lemma push_list_items:
  assumes "seg.open_list st l xs" and "seg.items_at st p ys" and "set xs \<inter> set ys = {}"
  shows "\<exists>p' l' st'. segment_push_list p l st = (p', l', st') \<and> seg.items_at st' p' (xs @ ys) \<and>
    (st' = st \<or> xs \<noteq> [] \<and> st' = set_seg_next (last xs) p st)"
proof (cases "xs = []")
  case True
  then show ?thesis using assms by (simp add: segment_push_list_def seg.open_list_def LIST_INIT_def)
next
  case False
  then have "lst_head l \<noteq> NULL" using assms(1) by (cases xs) (auto simp: seg.open_list_def seg_node_def)
  then have "segment_push_list p l st = (let (l', st') = write_last set_seg_next l p st in (lst_head l', l', st'))"
    by (simp add: segment_push_list_def)
  then show ?thesis
    using seg.finish_spec [OF assms] by (auto simp: LIST_FINISH_def split: prod.splits)
qed

lemma push_items:
  assumes "seg.items_at st p ys" and "x \<noteq> NULL" and "x \<notin> set ys"
  shows "\<exists>st'. segment_push p x st = (x, st') \<and> seg.items_at st' x (x # ys)"
  using assms seg.path_set_other [of st p ys NULL x p] seg.get_set_same [of x p st]
  by (cases ys) (auto simp: segment_push_def seg.items_at_def seg_node_def)

lemma pop_items:
  "seg.items_at st p [] \<Longrightarrow> segment_pop p st = (NULL, NULL)"
  "seg.items_at st p (x # xs) \<Longrightarrow> \<exists>p'. segment_pop p st = (x, p') \<and> seg.items_at st p' xs"
  by (auto simp: seg.items_at_def segment_pop_def seg_node_def)

section \<open>Properties\<close>

text \<open>
  The segment lists implement sequences.  Appending an item to a list of \<open>xs\<close> yields the list
  of \<open>xs\<close> and the item, popping it yields the items from the front, and pushing the list on a
  global stack of \<open>ys\<close> yields the stack of \<open>xs\<close> followed by \<open>ys\<close>, from which popping returns its
  first segment; the list macros write no link but that of the list's last item.
\<close>

lemma segment_lists_refine:
  assumes "seg.open_list st l xs" and "x \<noteq> NULL" and "x \<notin> set xs"
    and "seg.items_at st p ys" and "set (xs @ [x]) \<inter> set ys = {}"
  shows "\<exists>l1 st1 l2 p' l3 st2 p''. LIST_APPEND set_seg_next l x st = (l1, st1) \<and> seg.open_list st1 l1 (xs @ [x]) \<and>
    (\<forall>a. a \<notin> set xs \<longrightarrow> segs st1 a = segs st a) \<and>
    segment_list_pop l1 st1 = (hd (xs @ [x]), l2) \<and> seg.open_list st1 l2 (tl (xs @ [x])) \<and>
    segment_push_list p l1 st1 = (p', l3, st2) \<and> seg.items_at st2 p' (xs @ x # ys) \<and>
    segment_pop p' st2 = (hd (xs @ [x]), p'') \<and> seg.items_at st2 p'' (tl (xs @ [x]) @ ys)"
proof -
  have "seg_node x" using assms(2) by (simp add: seg_node_def)
  from seg.append_spec [OF assms(1) this assms(3)] obtain l1 st1 where
    1: "LIST_APPEND set_seg_next l x st = (l1, st1)" "seg.open_list st1 l1 (xs @ [x])"
      "st1 = st \<or> xs \<noteq> [] \<and> st1 = set_seg_next (last xs) x st" by blast
  have f: "\<forall>a. a \<notin> set xs \<longrightarrow> segs st1 a = segs st a"
    using 1(3) last_in_set [of xs] by (auto simp: set_seg_next_def upd_seg_def)
  have "seg.items_at st1 p ys"
    using assms(4) unfolding seg.items_at_def
    by (rule seg.path_frame) (use assms(5) f in \<open>auto simp: get_seg_next_def\<close>)
  from push_list_items [OF 1(2) this assms(5)] obtain p' l3 st2 where
    2: "segment_push_list p l1 st1 = (p', l3, st2)" "seg.items_at st2 p' ((xs @ [x]) @ ys)" by blast
  obtain y zs where y: "xs @ [x] = y # zs" by (cases "xs @ [x]") auto
  from list_pop_first [OF 1(2) [unfolded y]] obtain l2 where
    3: "segment_list_pop l1 st1 = (y, l2)" "seg.open_list st1 l2 zs" by blast
  from pop_items(2) [of st2 p' y "zs @ ys"] 2(2) obtain p'' where
    4: "segment_pop p' st2 = (y, p'')" "seg.items_at st2 p'' (zs @ ys)" by (auto simp: y)
  have e: "hd (xs @ [x]) = y" "tl (xs @ [x]) = zs" "xs @ x # ys = (xs @ [x]) @ ys" using y by simp_all
  show ?thesis
    unfolding e using 1(1,2) f 2 3 4
    by (intro exI [of _ l1] exI [of _ st1] exI [of _ l2] exI [of _ p'] exI [of _ l3] exI [of _ st2] exI [of _ p'']) simp
qed

end
