(* ===== verification/Phase.thy ===== *)
theory Phase
  imports Prelude
begin

text \<open>
  The synchronisation phases of the collector, \<open>enum sml_sync_phase\<close> of \<open>smlsharp.h\<close>.  The code
  compares phases by their numbers and moves between them with bit operations on them; the
  numbers give the order on the datatype.
\<close>

datatype sml_sync_phase =
  PREASYNC | ASYNC | PRESYNC1 | SYNC1 | PRESYNC2 | SYNC2 | PREMARK | MARK | DUMMY_PHASE

primrec phase_code :: "sml_sync_phase \<Rightarrow> nat" where
  "phase_code PREASYNC = 0"
| "phase_code ASYNC = 1"
| "phase_code PRESYNC1 = 2"
| "phase_code SYNC1 = 3"
| "phase_code PRESYNC2 = 4"
| "phase_code SYNC2 = 5"
| "phase_code PREMARK = 6"
| "phase_code MARK = 7"
| "phase_code DUMMY_PHASE = 16"

lemma phase_code_inject: "phase_code p = phase_code q \<Longrightarrow> p = q"
  by (cases p; cases q) simp_all

instantiation sml_sync_phase :: linorder
begin

definition less_eq_sml_sync_phase :: "sml_sync_phase \<Rightarrow> sml_sync_phase \<Rightarrow> bool" where
  "less_eq_sml_sync_phase p q \<longleftrightarrow> phase_code p \<le> phase_code q"

definition less_sml_sync_phase :: "sml_sync_phase \<Rightarrow> sml_sync_phase \<Rightarrow> bool" where
  "less_sml_sync_phase p q \<longleftrightarrow> phase_code p < phase_code q"

instance
  by standard
    (auto simp: less_eq_sml_sync_phase_def less_sml_sync_phase_def intro: phase_code_inject)

end

lemmas phase_order = less_eq_sml_sync_phase_def less_sml_sync_phase_def

text \<open>Objects allocated in these phases are targets of the collection that is about to start.\<close>

definition before_snapshot :: "sml_sync_phase \<Rightarrow> bool" where
  "before_snapshot phase \<longleftrightarrow> ASYNC \<le> phase \<and> phase \<le> PRESYNC2"

lemma before_snapshot_cases: "before_snapshot phase \<longleftrightarrow> phase \<in> {ASYNC, PRESYNC1, SYNC1, PRESYNC2}"
  by (cases phase) (simp_all add: before_snapshot_def phase_order)

end
