(* ===== verification/Pool.thy ===== *)
theory Pool
  imports Complex_Main Seglist Phase
begin

text \<open>
  The segment pool and the heaps of \<open>heap_concurrent.c\<close>: the memory segments come from, the pool
  threads share, the allocation pointers and subheaps of one allocator, and the steps in a
  worker's life.  The state is the store of segments, the pool and the number of collections
  requested; an allocator is a value that belongs to one thread.  Calls of the operating system
  are arguments.  Counters are natural numbers and the ratios of the heap-sizing policy, which
  the code keeps in double precision, are exact rationals.
\<close>

section \<open>Memory\<close>

record memory =
  mem_begin :: addr
  mem_count :: nat
  mem_alloced :: nat
  mem_pagesize :: nat

text \<open>
  \<open>AllocPage\<close> reserves address space; \<open>ReleasePage\<close> gives a range back, and the ranges released are
  part of the result.
\<close>

definition init_memory ::
  "nat \<Rightarrow> (nat \<Rightarrow> addr option) \<Rightarrow> nat \<Rightarrow> (memory \<times> (addr \<times> nat) list) result" where
  "init_memory pagesize AllocPage max_size =
     (if SEGMENT_SIZE mod pagesize \<noteq> 0 then Inl (Fatal ''SEGMENT_SIZE is not aligned in page size.'')
      else
        let size = CEILING max_size SEGMENT_SIZE
        in case AllocPage (size + SEGMENT_SIZE) of
             None \<Rightarrow> Inl (Fatal ''failed to allocate memory'')
           | Some p \<Rightarrow>
               let gap = p mod SEGMENT_SIZE;
                   (q, released) =
                     (if gap = 0 then (p, [(p + size, SEGMENT_SIZE)])
                      else
                        let q = p + (SEGMENT_SIZE - gap)
                        in (q, [(p, SEGMENT_SIZE - gap), (q + size, gap)]))
               in Inr (\<lparr>mem_begin = q, mem_count = size div SEGMENT_SIZE, mem_alloced = 0,
                        mem_pagesize = pagesize\<rparr>, released))"

definition allocate_segment :: "nat \<Rightarrow> memory \<Rightarrow> addr \<times> memory" where
  "allocate_segment limit memory =
     (let n = mem_alloced memory
      in if n \<ge> (if limit < mem_count memory then limit else mem_count memory) then (NULL, memory)
         else (mem_begin memory + n * SEGMENT_SIZE, memory\<lparr>mem_alloced := n + 1\<rparr>))"

section \<open>Segment pool\<close>

record subpool =
  sp_filled :: addr
  sp_partial :: addr
  sp_partial_marked :: addr

record segment_pool =
  pool_subpool :: "nat \<Rightarrow> subpool"
  malloc_subpool :: addr
  pool_freelist :: addr
  pool_memory :: memory
  min_num_segments :: nat
  max_num_segments :: nat

definition init_segment_pool ::
  "nat \<Rightarrow> (nat \<Rightarrow> addr option) \<Rightarrow> nat \<Rightarrow> nat \<Rightarrow> (segment_pool \<times> (addr \<times> nat) list) result" where
  "init_segment_pool pagesize AllocPage min_size max_size =
     (case init_memory pagesize AllocPage max_size of
        Inl e \<Rightarrow> Inl e
      | Inr (memory, released) \<Rightarrow>
          Inr (\<lparr>pool_subpool = (\<lambda>_. \<lparr>sp_filled = NULL, sp_partial = NULL, sp_partial_marked = NULL\<rparr>),
                malloc_subpool = NULL, pool_freelist = NULL, pool_memory = memory,
                min_num_segments = CEILING min_size SEGMENT_SIZE div SEGMENT_SIZE,
                max_num_segments = mem_count memory\<rparr>, released))"

record heap_state =
  hs_store :: seg_store
  hs_pool :: segment_pool
  hs_gc_requests :: nat

definition upd_subpool :: "nat \<Rightarrow> (subpool \<Rightarrow> subpool) \<Rightarrow> segment_pool \<Rightarrow> segment_pool" where
  "upd_subpool i f pool = pool\<lparr>pool_subpool := (pool_subpool pool)(i := f (pool_subpool pool i))\<rparr>"

definition upd_bytes :: "(mem \<Rightarrow> mem) \<Rightarrow> seg_store \<Rightarrow> seg_store" where
  "upd_bytes f st = st\<lparr>bytes := f (bytes st)\<rparr>"

text \<open>
  \<open>phase\<close> is the argument, \<open>current\<close> the phase \<open>sml_current_phase\<close> returns for the calling thread.
\<close>

definition get_segment_from_pool ::
  "nat \<Rightarrow> sml_sync_phase \<Rightarrow> sml_sync_phase \<Rightarrow> heap_state \<Rightarrow> addr \<times> heap_state" where
  "get_segment_from_pool i phase current hs =
     (let st = hs_store hs; pool = hs_pool hs; sp = pool_subpool pool i;
          (seg, partial') = segment_pop (sp_partial sp) st
      in if seg \<noteq> NULL then
           (seg, hs\<lparr>hs_pool := upd_subpool i (\<lambda>s. s\<lparr>sp_partial := partial'\<rparr>) pool\<rparr>)
         else
           let (seg, marked') =
                 (if phase = MARK \<or> phase = ASYNC \<or> phase = PREASYNC
                  then segment_pop (sp_partial_marked sp) st else (NULL, sp_partial_marked sp))
           in if seg \<noteq> NULL then
                (seg, hs\<lparr>hs_store :=
                     (if current = ASYNC then
                        upd_bytes (\<lambda>m. clear_collect_bitmap seg (layout_of st seg)
                                         (copy_collect_bitmap seg (layout_of st seg) m)) st
                      else st),
                   hs_pool := upd_subpool i (\<lambda>s. s\<lparr>sp_partial_marked := marked'\<rparr>) pool\<rparr>)
              else
                let (seg, free') = segment_pop (pool_freelist pool) st
                in if seg \<noteq> NULL then
                     (seg, hs\<lparr>hs_store := init_segment seg i st, hs_pool := pool\<lparr>pool_freelist := free'\<rparr>\<rparr>)
                   else
                     let (seg, memory') = allocate_segment (mem_count (pool_memory pool)) (pool_memory pool)
                     in if seg \<noteq> NULL then
                          (seg, hs\<lparr>hs_store := init_segment seg i st, hs_pool := pool\<lparr>pool_memory := memory'\<rparr>\<rparr>)
                        else (NULL, hs))"

section \<open>Allocation pointers\<close>

definition set_alloc_ptr ::
  "alloc_ptr \<Rightarrow> addr \<Rightarrow> sml_sync_phase \<Rightarrow> seg_store \<Rightarrow> alloc_ptr \<times> seg_store" where
  "set_alloc_ptr ptr seg phase st =
     (let l = layout_of st seg
      in (ptr\<lparr>ap_b := BITPTR (BITMAP0_BASE seg) 0, ap_p := BLOCK_BASE seg l\<rparr>,
          if ASYNC \<le> phase \<and> phase \<le> PRESYNC2
          then upd_seg seg (\<lambda>s. s\<lparr>allocptr_snapshot := BLOCK_LIMIT seg l\<rparr>) st else st))"

definition release_alloc_ptr ::
  "alloc_ptr \<Rightarrow> sml_sync_phase \<Rightarrow> seg_store \<Rightarrow> addr \<times> alloc_ptr \<times> seg_store" where
  "release_alloc_ptr ptr phase st =
     (let seg = ALLOC_PTR_TO_SEGMENT ptr
      in (seg, clear_alloc_ptr ptr,
          if ASYNC \<le> phase \<and> phase \<le> PRESYNC2
          then upd_seg seg (\<lambda>s. s\<lparr>allocptr_snapshot := BLOCK_LIMIT seg (layout_of st seg)\<rparr>) st else st))"

definition save_alloc_ptr :: "alloc_ptr \<Rightarrow> seg_store \<Rightarrow> seg_store" where
  "save_alloc_ptr ptr st =
     (if ap_p ptr \<noteq> NULL
      then upd_seg (ALLOC_PTR_TO_SEGMENT ptr) (\<lambda>s. s\<lparr>allocptr_snapshot := ap_p ptr\<rparr>) st else st)"

section \<open>Heaps and allocators\<close>

record subheap =
  sh_filled :: addr
  sh_partial :: addr

text \<open>
  The numbers of type \<open>double\<close> are rationals; \<open>None\<close> is the not-a-number of a division of zero by zero.
\<close>

record subheap_count =
  threshold :: int
  extension_room :: nat
  threshold_ratio :: rat
  allocspeed_ratio :: "rat option"

record heap_count =
  alloc_accum :: rat
  gc_accum :: rat
  num_distrib :: rat

record heap =
  heap_ptr :: "nat \<Rightarrow> alloc_ptr"
  heap_subheap :: "nat \<Rightarrow> subheap"
  heap_counts :: "nat \<Rightarrow> subheap_count"
  malloc_subheap :: addr
  heap_freelist :: item_list
  heap_heap_count :: heap_count

record sml_alloc =
  alloc_heap :: heap
  root_set :: addr
  remembered_set :: addr

definition init_subheap_count :: "nat \<Rightarrow> nat \<Rightarrow> subheap_count" where
  "init_subheap_count min_segments i =
     (let num_blocks_total = sum_list (map (\<lambda>i. num_blocks (compute_segment_layout i)) [0..<NUM_SUBHEAPS]);
          speed = of_nat (num_blocks (compute_segment_layout i)) / of_nat num_blocks_total;
          room = nat \<lfloor>of_nat min_segments * speed\<rfloor>;
          room' = (if room \<le> 0 then 1 else room)
      in \<lparr>threshold = int ((room' + 1) div 2), extension_room = room', threshold_ratio = 1 / 2,
          allocspeed_ratio = Some speed\<rparr>)"

definition init_subheap_count_init :: "nat \<Rightarrow> (nat \<Rightarrow> subheap_count) \<times> heap_count" where
  "init_subheap_count_init min_segments =
     (init_subheap_count min_segments,
      \<lparr>alloc_accum = 0, gc_accum = 0,
       num_distrib = sum_list (map (\<lambda>i. of_nat (extension_room (init_subheap_count min_segments i)
         * num_blocks (compute_segment_layout i))) [0..<NUM_SUBHEAPS])\<rparr>)"

definition init_heap :: "(nat \<Rightarrow> subheap_count) \<times> heap_count \<Rightarrow> heap" where
  "init_heap counts =
     \<lparr>heap_ptr = (\<lambda>i. init_alloc_ptr (i + BLOCKSIZE_MIN_LOG2)),
      heap_subheap = (\<lambda>_. \<lparr>sh_filled = NULL, sh_partial = NULL\<rparr>),
      heap_counts = fst counts, malloc_subheap = NULL, heap_freelist = LIST_INIT,
      heap_heap_count = snd counts\<rparr>"

definition take_allocptr_snapshot :: "heap \<Rightarrow> seg_store \<Rightarrow> seg_store" where
  "take_allocptr_snapshot heap st = fold (\<lambda>i. save_alloc_ptr (heap_ptr heap i)) [0..<NUM_SUBHEAPS] st"

definition init_allocator :: "(nat \<Rightarrow> subheap_count) \<times> heap_count \<Rightarrow> sml_alloc" where
  "init_allocator counts = \<lparr>alloc_heap = init_heap counts, root_set = NULL, remembered_set = NULL\<rparr>"

text \<open>A loop over the \<open>next\<close> fields of a list, read after the body.\<close>

partial_function (option) for_each ::
  "('s \<Rightarrow> addr \<Rightarrow> addr) \<Rightarrow> (addr \<Rightarrow> 's \<Rightarrow> 's) \<Rightarrow> addr \<Rightarrow> 's \<Rightarrow> 's option" where
  "for_each next body p s =
     (if p = NULL then Some s else let s' = body p s in for_each next body (next s' p) s')"

record stat_subheap =
  ss_num_filled :: nat
  ss_num_current :: nat
  ss_num_partial :: nat
  ss_total :: stat_segment

definition stat_zero :: stat_subheap where
  "stat_zero = \<lparr>ss_num_filled = 0, ss_num_current = 0, ss_num_partial = 0,
     ss_total = \<lparr>num_marked = 0, num_unmarked = 0, num_marked_before_allocptr = 0,
                 num_unmarked_before_allocptr = 0\<rparr>\<rparr>"

definition stat_subheap :: "subheap \<Rightarrow> alloc_ptr \<Rightarrow> seg_store \<Rightarrow> stat_subheap option" where
  "stat_subheap sh ptr st =
     (let add = (\<lambda>seg p s. s\<lparr>ss_total := stat_segment_add (ss_total s)
                   (stat_segment (bytes st) seg (layout_of st seg) p)\<rparr>)
      in Option.bind
        (for_each (\<lambda>_. get_seg_next st)
          (\<lambda>seg s. add seg (BLOCK_LIMIT seg (layout_of st seg)) (s\<lparr>ss_num_filled := ss_num_filled s + 1\<rparr>))
          (sh_filled sh) stat_zero)
        (\<lambda>s1. for_each (\<lambda>_. get_seg_next st)
          (\<lambda>seg s. add seg (BLOCK_BASE seg (layout_of st seg)) (s\<lparr>ss_num_partial := ss_num_partial s + 1\<rparr>))
          (sh_partial sh)
          (if ap_p ptr \<noteq> NULL
           then add (ALLOC_PTR_TO_SEGMENT ptr) (ap_p ptr) (s1\<lparr>ss_num_current := ss_num_current s1 + 1\<rparr>)
           else s1)))"

section \<open>Workers\<close>

abbreviation (input) SIZEOF_SML_ALLOC :: nat where
  "SIZEOF_SML_ALLOC \<equiv> 784"

text \<open>
  The context of a new worker and its allocator share a block: the result is the address of the
  block and of the allocator in it, and the allocator; or none.
\<close>

definition sml_heap_worker_init ::
  "(nat \<Rightarrow> subheap_count) \<times> heap_count \<Rightarrow> nat \<Rightarrow> sml_sync_phase \<Rightarrow> heap_state
   \<Rightarrow> (addr \<times> addr \<times> sml_alloc) option \<times> heap_state" where
  "sml_heap_worker_init counts extra_allocsize current hs =
     (let offset = CEILING extra_allocsize 8;
          allocsize = OBJ_HEADER_SIZE + offset + SIZEOF_SML_ALLOC;
          blocksize_log2 = CEIL_LOG2 allocsize;
          i = blocksize_log2 - BLOCKSIZE_MIN_LOG2;
          (seg, hs1) = get_segment_from_pool i DUMMY_PHASE current hs
      in if seg \<noteq> NULL then
           let (ptr, st1) = set_alloc_ptr (init_alloc_ptr blocksize_log2) seg DUMMY_PHASE (hs_store hs1);
               (memory, ptr') = find_bitmap st1 ptr;
               st2 = upd_bytes (\<lambda>m. store32 m (OBJ_BEGIN memory) (word_of_nat allocsize)) st1;
               alloc = init_allocator counts;
               heap = alloc_heap alloc
           in (Some (memory, memory + offset,
                 alloc\<lparr>alloc_heap := heap\<lparr>heap_ptr := (heap_ptr heap)(i := ptr')\<rparr>\<rparr>), hs1\<lparr>hs_store := st2\<rparr>)
         else (None, hs1))"

definition sml_heap_worker_register :: "sml_alloc \<Rightarrow> sml_sync_phase \<Rightarrow> seg_store \<Rightarrow> seg_store" where
  "sml_heap_worker_register alloc phase st =
     fold (\<lambda>i st. let ptr = heap_ptr (alloc_heap alloc) i; seg = ALLOC_PTR_TO_SEGMENT ptr
                  in if ap_p ptr \<noteq> NULL \<and> ASYNC \<le> phase \<and> phase \<le> PRESYNC2
                     then upd_seg seg (\<lambda>s. s\<lparr>allocptr_snapshot := BLOCK_LIMIT seg (layout_of st seg)\<rparr>) st else st)
       [0..<NUM_SUBHEAPS] st"

text \<open>
  The loop body of \<open>sml_heap_worker_kill\<close>: the segments of a subheap go to the pool as filled ones.
  A walk of \<open>LIST_INIT_WITH\<close> that does not end is None.
\<close>

definition kill_subheap :: "nat \<Rightarrow> sml_alloc \<times> heap_state \<Rightarrow> (sml_alloc \<times> heap_state) option" where
  "kill_subheap i = (\<lambda>(alloc, hs).
     let heap = alloc_heap alloc; sh = heap_subheap heap i; ptr = heap_ptr heap i; st = hs_store hs
     in Option.bind (LIST_INIT_WITH get_seg_next (sh_filled sh) st) (\<lambda>l1.
        let (l1', st1) = (if ap_p ptr \<noteq> NULL then LIST_APPEND set_seg_next l1 (ALLOC_PTR_TO_SEGMENT ptr) st else (l1, st))
        in Option.bind (LIST_INIT_WITH get_seg_next (sh_partial sh) st1) (\<lambda>l2.
           let (l1'', st2) = LIST_CONCAT set_seg_next l1' l2 st1;
               (filled', st3) = LIST_FINISH set_seg_next l1'' (sp_filled (pool_subpool (hs_pool hs) i)) st2
           in Some
             (alloc\<lparr>alloc_heap := heap\<lparr>heap_subheap := (heap_subheap heap)(i := \<lparr>sh_filled = NULL, sh_partial = NULL\<rparr>),
                                      heap_ptr := (heap_ptr heap)(i := clear_alloc_ptr ptr)\<rparr>\<rparr>,
              hs\<lparr>hs_store := st3, hs_pool := upd_subpool i (\<lambda>s. s\<lparr>sp_filled := filled'\<rparr>) (hs_pool hs)\<rparr>))))"

definition sml_heap_worker_kill :: "sml_alloc \<Rightarrow> heap_state \<Rightarrow> (sml_alloc \<times> heap_state) option" where
  "sml_heap_worker_kill alloc hs =
     Option.bind (fold (\<lambda>i s. Option.bind s (kill_subheap i)) [0..<NUM_SUBHEAPS] (Some (alloc, hs))) (\<lambda>(alloc1, hs1).
       let heap = alloc_heap alloc1; pool = hs_pool hs1
       in Option.bind (LIST_INIT_WITH get_mseg_next (malloc_subheap heap) (hs_store hs1)) (\<lambda>m.
          let (msegs, st1) = LIST_FINISH set_mseg_next m (malloc_subpool pool) (hs_store hs1);
              (free', l', st2) = segment_push_list (pool_freelist pool) (heap_freelist heap) st1
          in Some
            (alloc1\<lparr>alloc_heap := heap\<lparr>heap_freelist := l'\<rparr>\<rparr>,
             hs1\<lparr>hs_store := st2, hs_pool := pool\<lparr>malloc_subpool := msegs, pool_freelist := free'\<rparr>\<rparr>)))"


section \<open>Memory is divided into segments\<close>

lemma segment_multiple: "SEGMENT_SIZE dvd n \<Longrightarrow> n div SEGMENT_SIZE * SEGMENT_SIZE = (n :: nat)"
  by simp

lemma init_memory_spec:
  assumes "SEGMENT_SIZE mod pagesize = 0" and "AllocPage (CEILING max_size SEGMENT_SIZE + SEGMENT_SIZE) = Some p"
  shows "\<exists>memory released. init_memory pagesize AllocPage max_size = Inr (memory, released) \<and>
    SEGMENT_SIZE dvd mem_begin memory \<and> mem_alloced memory = 0 \<and>
    mem_count memory * SEGMENT_SIZE = CEILING max_size SEGMENT_SIZE \<and>
    (\<forall>a. (p \<le> a \<and> a < p + CEILING max_size SEGMENT_SIZE + SEGMENT_SIZE) =
       ((mem_begin memory \<le> a \<and> a < mem_begin memory + mem_count memory * SEGMENT_SIZE) \<noteq>
        (\<exists>(q, n)\<in>set released. q \<le> a \<and> a < q + n)))"
proof -
  let ?size = "CEILING max_size SEGMENT_SIZE"
  have sz: "SEGMENT_SIZE dvd ?size" by (rule ceiling_dvd) simp
  note cnt = segment_multiple [OF sz]
  show ?thesis
  proof (cases "p mod SEGMENT_SIZE = 0")
    case True
    then show ?thesis using assms cnt by (auto simp: init_memory_def Let_def)
  next
    case False
    define g where "g = p mod SEGMENT_SIZE"
    have g: "0 < g" "g < SEGMENT_SIZE" using False by (simp_all add: g_def)
    have "p + (SEGMENT_SIZE - g) = SEGMENT_SIZE * (p div SEGMENT_SIZE) + SEGMENT_SIZE"
      using g(2) div_mult_mod_eq [of p SEGMENT_SIZE] unfolding g_def by linarith
    then have dvd: "SEGMENT_SIZE dvd p + (SEGMENT_SIZE - g)" by simp
    have "init_memory pagesize AllocPage max_size = Inr (\<lparr>mem_begin = p + (SEGMENT_SIZE - g), mem_count = ?size div SEGMENT_SIZE,
      mem_alloced = 0, mem_pagesize = pagesize\<rparr>, [(p, SEGMENT_SIZE - g), (p + (SEGMENT_SIZE - g) + ?size, g)])"
      using assms False by (simp add: init_memory_def Let_def g_def)
    then show ?thesis using dvd cnt g by auto
  qed
qed

text \<open>The segment the \<open>k\<close>-th call of \<open>allocate_segment\<close> returns.\<close>

definition allocs :: "nat \<Rightarrow> memory \<Rightarrow> memory" where
  "allocs k = ((\<lambda>m. snd (allocate_segment (mem_count m) m)) ^^ k)"

lemma allocs_memory:
  "mem_alloced memory = 0 \<Longrightarrow> k \<le> mem_count memory \<Longrightarrow> allocs k memory = memory\<lparr>mem_alloced := k\<rparr>"
  by (induction k) (simp_all add: allocs_def allocate_segment_def Let_def)

lemma allocs_exhausted:
  assumes "mem_alloced memory = 0" and "mem_count memory \<le> k"
  shows "allocs k memory = memory\<lparr>mem_alloced := mem_count memory\<rparr>"
  using assms(2)
proof (induction k rule: dec_induct)
  case base
  then show ?case using allocs_memory [OF assms(1), of "mem_count memory"] by simp
next
  case (step n)
  then show ?case by (simp add: allocs_def allocate_segment_def Let_def)
qed

section \<open>Properties\<close>

text \<open>
  C25: the memory of the heap.  When the operating system provides the address range, \<open>init_memory\<close>
  keeps a part of it that starts at a multiple of the segment size and holds the requested size
  in whole segments, and releases all the rest of the range and nothing of the part it keeps;
  successive calls of \<open>allocate_segment\<close> then return the segments of that part, each once and in
  order, and null when they are used up.
\<close>

theorem memory_of_segments:
  assumes "SEGMENT_SIZE mod pagesize = 0" and "AllocPage (CEILING max_size SEGMENT_SIZE + SEGMENT_SIZE) = Some p"
  shows "\<exists>memory released. init_memory pagesize AllocPage max_size = Inr (memory, released) \<and>
    SEGMENT_SIZE dvd mem_begin memory \<and> max_size \<le> mem_count memory * SEGMENT_SIZE \<and>
    (\<forall>a. (p \<le> a \<and> a < p + CEILING max_size SEGMENT_SIZE + SEGMENT_SIZE) =
       ((mem_begin memory \<le> a \<and> a < mem_begin memory + mem_count memory * SEGMENT_SIZE) \<noteq>
        (\<exists>(q, n)\<in>set released. q \<le> a \<and> a < q + n))) \<and>
    (\<forall>k. fst (allocate_segment (mem_count memory) (allocs k memory)) =
       (if k < mem_count memory then mem_begin memory + k * SEGMENT_SIZE else NULL))"
proof -
  from init_memory_spec [of pagesize AllocPage max_size p] assms obtain memory released where
    1: "init_memory pagesize AllocPage max_size = Inr (memory, released)" "SEGMENT_SIZE dvd mem_begin memory"
      "mem_alloced memory = 0" "mem_count memory * SEGMENT_SIZE = CEILING max_size SEGMENT_SIZE"
      "\<forall>a. (p \<le> a \<and> a < p + CEILING max_size SEGMENT_SIZE + SEGMENT_SIZE) =
       ((mem_begin memory \<le> a \<and> a < mem_begin memory + mem_count memory * SEGMENT_SIZE) \<noteq>
        (\<exists>(q, n)\<in>set released. q \<le> a \<and> a < q + n))" by blast
  have "max_size \<le> mem_count memory * SEGMENT_SIZE" unfolding 1(4) by (rule ceiling_ge) simp
  moreover have "fst (allocate_segment (mem_count memory) (allocs k memory)) =
      (if k < mem_count memory then mem_begin memory + k * SEGMENT_SIZE else NULL)" for k
    using allocs_memory [OF 1(3), of k] allocs_exhausted [OF 1(3), of k]
    by (cases "k < mem_count memory") (simp_all add: allocate_segment_def Let_def)
  ultimately show ?thesis using 1(1,2,5) by blast
qed

theorem memory_of_segments_witness:
  "\<exists>memory released. init_memory 4096 (\<lambda>_. Some 40960) 100000 = Inr (memory, released) \<and>
     mem_begin memory = 65536 \<and> mem_count memory = 4 \<and> fst (allocate_segment 4 (allocs 3 memory)) = 163840"
proof -
  have i: "init_memory 4096 (\<lambda>_. Some 40960) 100000 = Inr (\<lparr>mem_begin = 65536, mem_count = 4, mem_alloced = 0,
      mem_pagesize = 4096\<rparr>, [(40960, 24576), (196608, 8192)])"
    by (simp add: init_memory_def CEILING_def Let_def)
  show ?thesis
    using memory_of_segments [of 4096 "\<lambda>_. Some 40960" 100000 40960] unfolding i by auto
qed

end
