(* ===== verification/Collect.thy ===== *)
theory Collect
  imports Pool
begin

text \<open>
  The steps of a collection in \<open>heap_concurrent.c\<close>: the roots pushed in the second synchronisation,
  the mark step of a worker, the test that marking is over, and the reclamation of malloc
  segments, of the segments of an allocator and of the pool, with the sizing of the subheaps for
  the next cycle.
\<close>

section \<open>Marking\<close>

text \<open>
  \<open>stack_enum\<close>, \<open>global_enum\<close> and \<open>callback_enum\<close> stand for the calls of \<open>sml_stack_enum_ptr\<close>,
  \<open>sml_global_enum_ptr\<close> and \<open>sml_callback_enum_ptr\<close>, which apply their function argument to the
  addresses of root slots.
\<close>

type_synonym 'd enumerator = "(addr \<Rightarrow> 'd \<Rightarrow> 'd) \<Rightarrow> 'd \<Rightarrow> 'd"

definition sml_heap_user_sync2 ::
  "addr \<Rightarrow> (seg_store \<times> addr) enumerator \<Rightarrow> sml_alloc \<times> seg_store \<Rightarrow> sml_alloc \<times> seg_store" where
  "sml_heap_user_sync2 user stack_enum = (\<lambda>(alloc, st).
     let (_, st1) = visit user st; (st2, root) = stack_enum push_enum (st1, root_set alloc)
     in (alloc\<lparr>root_set := root\<rparr>, st2))"

definition sml_heap_worker_sync2 :: "addr \<Rightarrow> addr \<Rightarrow> sml_alloc \<Rightarrow> seg_store \<Rightarrow> seg_store" where
  "sml_heap_worker_sync2 worker alloc_addr alloc st =
     (let (_, st1) = visit worker st; (_, st2) = visit alloc_addr st1
      in take_allocptr_snapshot (alloc_heap alloc) st2)"

definition sml_heap_global_sync2 ::
  "(seg_store \<times> addr) enumerator \<Rightarrow> (seg_store \<times> addr) enumerator \<Rightarrow> sml_alloc \<times> seg_store \<Rightarrow> sml_alloc \<times> seg_store" where
  "sml_heap_global_sync2 global_enum callback_enum = (\<lambda>(alloc, st).
     let (st1, root1) = global_enum push_enum (st, root_set alloc); (st2, root2) = callback_enum push_enum (st1, root1)
     in (alloc\<lparr>root_set := root2\<rparr>, st2))"

definition sml_heap_worker_mark :: "sml_alloc \<Rightarrow> seg_store \<Rightarrow> (sml_alloc \<times> seg_store) result option" where
  "sml_heap_worker_mark alloc st =
     Option.bind (trace st (root_set alloc)) (\<lambda>r.
       case r of
         Inl e \<Rightarrow> Some (Inl e)
       | Inr st1 \<Rightarrow>
           Option.bind (trace st1 (remembered_set alloc)) (\<lambda>r2.
             case r2 of
               Inl e \<Rightarrow> Some (Inl e)
             | Inr st2 \<Rightarrow> Some (Inr (alloc\<lparr>root_set := NULL, remembered_set := NULL\<rparr>, st2))))"

definition sml_heap_check_alive :: "seg_store \<Rightarrow> addr \<Rightarrow> bool" where
  "sml_heap_check_alive st objptr = is_alive st (load64 (bytes st) objptr)"

text \<open>
  \<open>c1\<close> and \<open>c2\<close> are the allocators the two calls of \<open>sml_get_allocators\<close> return, \<open>rs1\<close> and \<open>rs2\<close> what the
  two passes over \<open>c1\<close> read from their remembered sets.
\<close>

definition first_alloc :: "addr list \<Rightarrow> addr" where
  "first_alloc c = (case c of [] \<Rightarrow> NULL | a # _ \<Rightarrow> a)"

definition sml_heap_mark_finish :: "addr list \<Rightarrow> (addr \<Rightarrow> addr) \<Rightarrow> (addr \<Rightarrow> addr) \<Rightarrow> addr list \<Rightarrow> bool" where
  "sml_heap_mark_finish c1 rs1 rs2 c2 =
     (if list_ex (\<lambda>a. rs1 a \<noteq> NULL) c1 then False
      else if list_ex (\<lambda>a. rs2 a \<noteq> NULL) c1 then False
      else if first_alloc c1 \<noteq> first_alloc c2 then False
      else True)"

section \<open>Malloc segments\<close>

text \<open>The loop of \<open>reclaim_malloc_segments\<close>; the segments given to \<open>free\<close> are collected in \<open>freed\<close>.\<close>

partial_function (option) reclaim_msegs ::
  "addr \<Rightarrow> item_list \<Rightarrow> addr list \<Rightarrow> seg_store \<Rightarrow> (item_list \<times> addr list \<times> seg_store) option" where
  "reclaim_msegs mseg l freed st =
     (if mseg = NULL then Some (l, freed, st)
      else
        let next = get_mseg_next st mseg
        in if load32 (bytes st) (mseg_bit mseg) = 0 \<or> load32 (bytes st) (mseg_collect_bit mseg) \<noteq> 0 then
             let st1 = upd_bytes (\<lambda>m. store32 (store32 m (mseg_bit mseg) 1) (mseg_collect_bit mseg) 0) st;
                 r = LIST_APPEND set_mseg_next l mseg st1
             in reclaim_msegs next (fst r) freed (snd r)
           else reclaim_msegs next l (freed @ [mseg]) st)"

definition reclaim_malloc_segments :: "addr \<Rightarrow> seg_store \<Rightarrow> (addr \<times> addr list \<times> seg_store) option" where
  "reclaim_malloc_segments msegs st =
     Option.bind (reclaim_msegs msegs LIST_INIT [] st) (\<lambda>(l, freed, st1).
       let (head, st2) = LIST_FINISH set_mseg_next l NULL st1 in Some (head, freed, st2))"

section \<open>Subheaps\<close>

record stat_reclaim =
  sr_num_partial :: nat
  sr_num_blocks :: nat
  sr_num_blocks_free :: nat
  sr_num_blocks_alloced :: nat
  sr_num_blocks_room :: nat
  sr_num_free_total :: nat

record reclaim_state =
  r_store :: seg_store
  r_free :: item_list
  r_partial :: item_list
  r_filled :: item_list
  r_num_filled :: nat
  r_num_partial :: nat
  r_num_blocks_free :: nat
  r_num_blocks_alloced :: nat
  r_num_blocks_room :: nat

definition append_free :: "addr \<Rightarrow> reclaim_state \<Rightarrow> reclaim_state" where
  "append_free seg r =
     (let (l, st) = LIST_APPEND set_seg_next (r_free r) seg (r_store r) in r\<lparr>r_free := l, r_store := st\<rparr>)"

definition append_partial :: "addr \<Rightarrow> reclaim_state \<Rightarrow> reclaim_state" where
  "append_partial seg r =
     (let (l, st) = LIST_APPEND set_seg_next (r_partial r) seg (r_store r) in r\<lparr>r_partial := l, r_store := st\<rparr>)"

definition append_filled :: "addr \<Rightarrow> reclaim_state \<Rightarrow> reclaim_state" where
  "append_filled seg r =
     (let (l, st) = LIST_APPEND set_seg_next (r_filled r) seg (r_store r) in r\<lparr>r_filled := l, r_store := st\<rparr>)"

definition copy_bitmap :: "addr \<Rightarrow> seg_store \<Rightarrow> seg_store" where
  "copy_bitmap seg st = upd_bytes (copy_collect_bitmap seg (layout_of st seg)) st"

definition clear_bitmap :: "addr \<Rightarrow> seg_store \<Rightarrow> seg_store" where
  "clear_bitmap seg st = upd_bytes (clear_collect_bitmap seg (layout_of st seg)) st"

definition seg_count_free :: "addr \<Rightarrow> addr \<Rightarrow> seg_store \<Rightarrow> nat" where
  "seg_count_free seg p st = free_count (bytes st) seg (layout_of st seg) p"

text \<open>The bodies of the two loops of \<open>reclaim_subheap\<close> and the step between them.\<close>

definition reclaim_partial_segment :: "addr \<Rightarrow> reclaim_state \<Rightarrow> reclaim_state" where
  "reclaim_partial_segment seg r =
     (let st1 = copy_bitmap seg (r_store r); count = seg_count_free seg NULL st1;
          st2 = upd_seg seg (\<lambda>s. s\<lparr>seg_free_count := count\<rparr>) st1
      in if count = num_blocks (layout_of st1 seg) then append_free seg (r\<lparr>r_store := st2\<rparr>)
         else
           append_partial seg
             (r\<lparr>r_num_partial := r_num_partial r + 1,
                r_num_blocks_free := r_num_blocks_free r + count,
                r_num_blocks_room := r_num_blocks_room r + seg_free_count (segs st1 seg),
                r_store := clear_bitmap seg st2\<rparr>))"

definition reclaim_current_segment :: "alloc_ptr \<Rightarrow> reclaim_state \<Rightarrow> reclaim_state" where
  "reclaim_current_segment ptr r =
     (if ap_p ptr \<noteq> NULL then
        let seg = ALLOC_PTR_TO_SEGMENT ptr;
            st1 = clear_bitmap seg (copy_bitmap seg (r_store r)); l = layout_of st1 seg;
            count = seg_count_free seg (ap_p ptr) st1
        in r\<lparr>r_store := upd_seg seg (\<lambda>s. s\<lparr>allocptr_snapshot := BLOCK_LIMIT seg l, seg_free_count := count\<rparr>) st1,
             r_num_blocks_free := r_num_blocks_free r + count,
             r_num_blocks_room := r_num_blocks_room r + count,
             r_num_blocks_alloced := r_num_blocks_alloced r + object_index seg l (ap_p ptr),
             r_num_filled := r_num_filled r + 1\<rparr>
      else r)"

definition reclaim_filled_segment :: "addr \<Rightarrow> reclaim_state \<Rightarrow> reclaim_state" where
  "reclaim_filled_segment seg r0 =
     (let r = r0\<lparr>r_num_blocks_alloced := r_num_blocks_alloced r0 + seg_free_count (segs (r_store r0) seg)\<rparr>;
          st1 = copy_bitmap seg (r_store r); l = layout_of st1 seg; count = seg_count_free seg NULL st1;
          st2 = upd_seg seg (\<lambda>s. s\<lparr>seg_free_count := count\<rparr>) st1
      in if allocptr_snapshot (segs st2 seg) < BLOCK_LIMIT seg l \<or> count = 0 then
           append_filled seg
             (r\<lparr>r_num_filled := r_num_filled r + 1,
                r_store := upd_seg seg (\<lambda>s. s\<lparr>allocptr_snapshot := BLOCK_LIMIT seg l\<rparr>) (clear_bitmap seg st2)\<rparr>)
         else if count = num_blocks l then
           append_free seg (r\<lparr>r_store := upd_seg seg (\<lambda>s. s\<lparr>allocptr_snapshot := BLOCK_BASE seg l\<rparr>) st2\<rparr>)
         else
           append_partial seg
             (r\<lparr>r_num_partial := r_num_partial r + 1,
                r_num_blocks_free := r_num_blocks_free r + count,
                r_store := upd_seg seg (\<lambda>s. s\<lparr>allocptr_snapshot := BLOCK_BASE seg l\<rparr>) (clear_bitmap seg st2)\<rparr>))"

definition next_of_store :: "reclaim_state \<Rightarrow> addr \<Rightarrow> addr" where
  "next_of_store r seg = get_seg_next (r_store r) seg"

definition reclaim_subheap ::
  "heap \<Rightarrow> nat \<Rightarrow> item_list \<Rightarrow> seg_store \<Rightarrow> (heap \<times> item_list \<times> stat_reclaim \<times> seg_store) option" where
  "reclaim_subheap heap i free st =
     (let sh = heap_subheap heap i;
          r0 = \<lparr>r_store = st, r_free = free, r_partial = LIST_INIT, r_filled = LIST_INIT, r_num_filled = 0,
                r_num_partial = 0, r_num_blocks_free = 0, r_num_blocks_alloced = 0, r_num_blocks_room = 0\<rparr>
      in Option.bind (for_each next_of_store reclaim_partial_segment (sh_partial sh) r0) (\<lambda>r1.
         Option.bind (for_each next_of_store reclaim_filled_segment (sh_filled sh)
             (reclaim_current_segment (heap_ptr heap i) r1)) (\<lambda>r.
           let (partial', st1) = LIST_FINISH set_seg_next (r_partial r) NULL (r_store r);
               (filled', st2) = LIST_FINISH set_seg_next (r_filled r) NULL st1
           in Some (heap\<lparr>heap_subheap := (heap_subheap heap)(i := \<lparr>sh_filled = filled', sh_partial = partial'\<rparr>)\<rparr>,
                    r_free r,
                    \<lparr>sr_num_partial = r_num_partial r,
                     sr_num_blocks = (r_num_filled r + r_num_partial r) * num_blocks (compute_segment_layout i),
                     sr_num_blocks_free = r_num_blocks_free r,
                     sr_num_blocks_alloced = r_num_blocks_alloced r,
                     sr_num_blocks_room = r_num_blocks_room r, sr_num_free_total = 0\<rparr>, st2))))"

section \<open>Heaps\<close>

text \<open>
  The number of blocks the policy distributes over the subheaps.  While nothing has been allocated
  or collected, \<open>gc_ratio\<close> is not a number and the comparison keeps the old value.
\<close>

definition next_distrib :: "heap_count \<Rightarrow> heap_count" where
  "next_distrib hc =
     (let alloc_gc_sum = alloc_accum hc + gc_accum hc; gc_ratio = gc_accum hc / alloc_gc_sum;
          n = (gc_ratio - 2 / 10) / (2 / 10) * alloc_gc_sum;
          n' = (if alloc_gc_sum \<noteq> 0 \<and> n > num_distrib hc then n else num_distrib hc)
      in hc\<lparr>num_distrib := num_distrib hc + 1 / 10 * (n' - num_distrib hc)\<rparr>)"

text \<open>
  The body of the second loop of \<open>reclaim_heap\<close>, the size limits of a subheap for the next cycle.
  \<open>nan_to_uint\<close> is what the compiled code yields for the conversion of not-a-number to an unsigned
  integer, which the language leaves undefined.
\<close>

definition next_count :: "nat \<Rightarrow> rat \<Rightarrow> nat \<Rightarrow> nat \<Rightarrow> stat_reclaim \<Rightarrow> subheap_count \<Rightarrow> subheap_count" where
  "next_count nan_to_uint distrib num_alloc_total i stat c =
     (let allocspeed = (if num_alloc_total = 0 then None
                        else Some (of_nat (sr_num_blocks_alloced stat) / of_nat num_alloc_total));
          ratio = Option.bind allocspeed (\<lambda>speed. map_option (\<lambda>r. r + 2 / 10 * (speed - r)) (allocspeed_ratio c));
          want_block = (case ratio of None \<Rightarrow> nan_to_uint | Some q \<Rightarrow> nat \<lfloor>distrib * q\<rfloor>);
          shortage_block = (if want_block > sr_num_blocks_free stat then want_block - sr_num_blocks_free stat else 0);
          shortage_segment = nat \<lceil>(of_nat shortage_block :: rat) / of_nat (num_blocks (compute_segment_layout i))\<rceil>;
          ext = (if shortage_segment \<le> 0 then 1 else shortage_segment);
          room = (if sr_num_blocks_room stat > 0 then 1 else 2 / 10);
          t_ratio = threshold_ratio c + 2 / 10 * (room - threshold_ratio c);
          num_room = sr_num_partial stat + ext;
          t = \<lceil>of_nat num_room * t_ratio\<rceil>
      in \<lparr>threshold = (if t \<le> 0 then t + 1 else t), extension_room = ext, threshold_ratio = t_ratio,
          allocspeed_ratio = ratio\<rparr>)"

record reclaim_heap_state =
  rh_heap :: heap
  rh_store :: seg_store
  rh_stat :: "nat \<Rightarrow> stat_reclaim"
  rh_alloc_total :: nat
  rh_live_total :: nat
  rh_free_total :: nat

definition reclaim_heap_step :: "nat \<Rightarrow> reclaim_heap_state \<Rightarrow> reclaim_heap_state option" where
  "reclaim_heap_step i s =
     Option.bind (reclaim_subheap (rh_heap s) i (heap_freelist (rh_heap s)) (rh_store s)) (\<lambda>(heap', free', stat, st').
       let total = sr_num_blocks_free stat
             + extension_room (heap_counts heap' i) * num_blocks (compute_segment_layout i)
       in Some (s\<lparr>rh_heap := heap'\<lparr>heap_freelist := free'\<rparr>, rh_store := st',
             rh_stat := (rh_stat s)(i := stat\<lparr>sr_num_free_total := total\<rparr>),
             rh_alloc_total := rh_alloc_total s + sr_num_blocks_alloced stat,
             rh_live_total := rh_live_total s + (sr_num_blocks stat - sr_num_blocks_free stat),
             rh_free_total := rh_free_total s + total\<rparr>))"

definition no_stat :: stat_reclaim where
  "no_stat = \<lparr>sr_num_partial = 0, sr_num_blocks = 0, sr_num_blocks_free = 0, sr_num_blocks_alloced = 0,
     sr_num_blocks_room = 0, sr_num_free_total = 0\<rparr>"

definition reclaim_heap :: "nat \<Rightarrow> heap \<Rightarrow> heap_state \<Rightarrow> (heap \<times> addr list \<times> heap_state) option" where
  "reclaim_heap nan_to_uint heap hs =
     (let (free', l', st1) = segment_push_list (pool_freelist (hs_pool hs)) (heap_freelist heap) (hs_store hs);
          s0 = \<lparr>rh_heap = heap\<lparr>heap_freelist := LIST_INIT\<rparr>, rh_store = st1, rh_stat = (\<lambda>_. no_stat),
                rh_alloc_total = 0, rh_live_total = 0, rh_free_total = 0\<rparr>
      in Option.bind (fold (\<lambda>i s. Option.bind s (reclaim_heap_step i)) [0..<NUM_SUBHEAPS] (Some s0)) (\<lambda>s.
         Option.bind (reclaim_malloc_segments (malloc_subheap (rh_heap s)) (rh_store s)) (\<lambda>(msegs, freed, st2).
           let hc = heap_heap_count (rh_heap s);
               hc1 = hc\<lparr>alloc_accum := alloc_accum hc + of_nat (rh_alloc_total s),
                        gc_accum := gc_accum hc + of_nat (rh_live_total s)\<rparr>;
               hc2 = next_distrib hc1
           in Some ((rh_heap s)\<lparr>malloc_subheap := msegs, heap_heap_count := hc2,
                      heap_counts := (\<lambda>i. next_count nan_to_uint (num_distrib hc2) (rh_alloc_total s) i (rh_stat s i)
                                            (heap_counts (rh_heap s) i))\<rparr>,
                    freed, hs\<lparr>hs_store := st2, hs_pool := (hs_pool hs)\<lparr>pool_freelist := free'\<rparr>\<rparr>))))"

definition sml_heap_worker_async :: "nat \<Rightarrow> sml_alloc \<Rightarrow> heap_state \<Rightarrow> (sml_alloc \<times> addr list \<times> heap_state) option" where
  "sml_heap_worker_async nan_to_uint alloc hs =
     Option.bind (reclaim_heap nan_to_uint (alloc_heap alloc) hs) (\<lambda>(heap', freed, hs').
       Some (alloc\<lparr>remembered_set := NULL, alloc_heap := heap'\<rparr>, freed, hs'))"

section \<open>The pool\<close>

text \<open>The loop over \<open>partial_marked\<close>, popping one segment at a time.\<close>

partial_function (option) reclaim_marked ::
  "subpool \<Rightarrow> item_list \<Rightarrow> seg_store \<Rightarrow> (subpool \<times> item_list \<times> seg_store) option" where
  "reclaim_marked sp free st =
     (let r = segment_pop (sp_partial_marked sp) st; seg = fst r; sp1 = sp\<lparr>sp_partial_marked := snd r\<rparr>
      in if seg = NULL then Some (sp1, free, st)
         else
           let st1 = copy_bitmap seg st; l = layout_of st1 seg; count = seg_count_free seg NULL st1;
               st2 = upd_seg seg (\<lambda>s. s\<lparr>allocptr_snapshot := BLOCK_BASE seg l, seg_free_count := count\<rparr>) st1
           in if count = num_blocks l then
                let a = LIST_APPEND set_seg_next free seg st2 in reclaim_marked sp1 (fst a) (snd a)
              else
                let a = segment_push (sp_partial sp1) seg (clear_bitmap seg st2)
                in reclaim_marked (sp1\<lparr>sp_partial := fst a\<rparr>) free (snd a))"

definition reclaim_pool_segment :: "addr \<Rightarrow> reclaim_state \<Rightarrow> reclaim_state" where
  "reclaim_pool_segment seg r =
     (let st1 = copy_bitmap seg (r_store r); l = layout_of st1 seg; count = seg_count_free seg NULL st1;
          st2 = upd_seg seg (\<lambda>s. s\<lparr>allocptr_snapshot := BLOCK_BASE seg l, seg_free_count := count\<rparr>) st1
      in if count = 0 then append_filled seg (r\<lparr>r_store := clear_bitmap seg st2\<rparr>)
         else if count = num_blocks l then append_free seg (r\<lparr>r_store := st2\<rparr>)
         else append_partial seg (r\<lparr>r_store := clear_bitmap seg st2\<rparr>))"

definition reclaim_subpool :: "subpool \<Rightarrow> item_list \<Rightarrow> seg_store \<Rightarrow> (subpool \<times> item_list \<times> seg_store) option" where
  "reclaim_subpool sp free st =
     Option.bind (reclaim_marked sp free st) (\<lambda>(sp1, free1, st1).
       let r0 = \<lparr>r_store = st1, r_free = free1, r_partial = LIST_INIT, r_filled = LIST_INIT, r_num_filled = 0,
                 r_num_partial = 0, r_num_blocks_free = 0, r_num_blocks_alloced = 0, r_num_blocks_room = 0\<rparr>
       in Option.bind (for_each next_of_store reclaim_pool_segment (sp_filled sp1) r0) (\<lambda>r.
          let (filled', st2) = LIST_FINISH set_seg_next (r_filled r) NULL (r_store r);
              (partial', _, st3) = segment_push_list (sp_partial sp1) (r_partial r) st2
          in Some (sp1\<lparr>sp_filled := filled', sp_partial := partial'\<rparr>, r_free r, st3)))"

definition reclaim_segment_pool :: "heap_state \<Rightarrow> (addr list \<times> heap_state) option" where
  "reclaim_segment_pool hs =
     Option.bind (fold (\<lambda>i s. Option.bind s (\<lambda>(pool, free, st).
         Option.bind (reclaim_subpool (pool_subpool pool i) free st) (\<lambda>(sp', free', st').
           Some (upd_subpool i (\<lambda>_. sp') pool, free', st'))))
       [0..<NUM_SUBHEAPS] (Some (hs_pool hs, LIST_INIT, hs_store hs))) (\<lambda>(pool, free, st).
       let (freelist', _, st1) = segment_push_list (pool_freelist pool) free st
       in Option.bind (reclaim_malloc_segments (malloc_subpool pool) st1) (\<lambda>(msegs, freed, st2).
          Some (freed, hs\<lparr>hs_store := st2, hs_pool := pool\<lparr>pool_freelist := freelist', malloc_subpool := msegs\<rparr>\<rparr>)))"

definition sml_heap_global_before_async :: "segment_pool \<Rightarrow> segment_pool" where
  "sml_heap_global_before_async pool =
     fold (\<lambda>i. upd_subpool i (\<lambda>s. s\<lparr>sp_partial := NULL, sp_partial_marked := sp_partial s\<rparr>)) [0..<NUM_SUBHEAPS] pool"

definition sml_heap_global_async :: "heap_state \<Rightarrow> (addr list \<times> heap_state) option" where
  "sml_heap_global_async hs = reclaim_segment_pool hs"


section \<open>Marking by a worker\<close>

lemma mark_stack_frame:
  assumes "mark_stack A st0 st t xs"
    and "\<And>x. live_target A st0 x \<Longrightarrow> obj_marked st x \<Longrightarrow> obj_marked st' x \<and> stack_link st' x = stack_link st x"
  shows "mark_stack A st0 st' t xs"
  using assms by (induction xs arbitrary: t) auto

lemma mark_stack_live: "mark_stack A st0 st t xs \<Longrightarrow> x \<in> set xs \<Longrightarrow> live_target A st0 x \<and> obj_marked st x"
  by (induction xs arbitrary: t) auto

lemma worker_mark_spec:
  assumes mk: "marking_of A st0 st" and root: "mark_stack A st0 st (root_set alloc) xs" "distinct xs"
    and rem: "mark_stack A st0 st (remembered_set alloc) ys" "distinct ys"
    and sc: "scanned_except A st0 (set xs \<union> set ys \<union> G) st"
  shows "\<exists>st'. sml_heap_worker_mark alloc st = Some (Inr (alloc\<lparr>root_set := NULL, remembered_set := NULL\<rparr>, st')) \<and>
    marking_of A st0 st' \<and> scanned_except A st0 G st' \<and>
    (\<forall>x. live_target A st0 x \<and> obj_marked st x \<longrightarrow> obj_marked st' x \<and> stack_link st' x = stack_link st x) \<and>
    (\<forall>x. live_target A st0 x \<and> obj_marked st' x \<longrightarrow>
       obj_marked st x \<or> (\<exists>r\<in>set xs \<union> set ys. (r, x) \<in> (points_to A st0)\<^sup>*))"
proof -
  have "scanned_except A st0 (set xs \<union> (set ys \<union> G)) st" using sc by (simp add: Un_assoc)
  from trace_stack [OF mk root this] obtain st1 where
    1: "trace st (root_set alloc) = Some (Inr st1)" "marking_of A st0 st1" "scanned_except A st0 (set ys \<union> G) st1"
      "\<forall>x. live_target A st0 x \<and> obj_marked st x \<longrightarrow> obj_marked st1 x \<and> stack_link st1 x = stack_link st x"
      "\<forall>x. live_target A st0 x \<and> obj_marked st1 x \<longrightarrow> obj_marked st x \<or> (\<exists>r\<in>set xs. (r, x) \<in> (points_to A st0)\<^sup>*)" by blast
  have "mark_stack A st0 st1 (remembered_set alloc) ys" by (rule mark_stack_frame [OF rem(1)]) (use 1(4) in blast)
  from trace_stack [OF 1(2) this rem(2) 1(3)] obtain st2 where
    2: "trace st1 (remembered_set alloc) = Some (Inr st2)" "marking_of A st0 st2" "scanned_except A st0 G st2"
      "\<forall>x. live_target A st0 x \<and> obj_marked st1 x \<longrightarrow> obj_marked st2 x \<and> stack_link st2 x = stack_link st1 x"
      "\<forall>x. live_target A st0 x \<and> obj_marked st2 x \<longrightarrow> obj_marked st1 x \<or> (\<exists>r\<in>set ys. (r, x) \<in> (points_to A st0)\<^sup>*)" by blast
  have "sml_heap_worker_mark alloc st = Some (Inr (alloc\<lparr>root_set := NULL, remembered_set := NULL\<rparr>, st2))"
    by (simp add: sml_heap_worker_mark_def 1(1) 2(1))
  moreover have "obj_marked st2 x \<and> stack_link st2 x = stack_link st x" if "live_target A st0 x" "obj_marked st x" for x
    using that 1(4) 2(4) by metis
  moreover have "obj_marked st x \<or> (\<exists>r\<in>set xs \<union> set ys. (r, x) \<in> (points_to A st0)\<^sup>*)" if "live_target A st0 x" "obj_marked st2 x" for x
    using that 1(5) 2(5) by blast
  ultimately show ?thesis using 2(2,3) by blast
qed

text \<open>Once nothing is left to scan, everything reachable from a marked object is marked.\<close>

lemma marked_closed:
  assumes "scanned_except A st0 {} st" and "obj_marked st x" and "(x, y) \<in> (points_to A st0)\<^sup>*"
  shows "obj_marked st y"
  using assms(3,2)
proof (induction rule: rtrancl_induct)
  case (step y z)
  then show ?case using assms(1) by (auto simp: scanned_except_def)
qed

section \<open>Reclaiming malloc segments\<close>

text \<open>Malloc segments whose headers do not overlap.\<close>

definition msegs_apart :: "addr set \<Rightarrow> bool" where
  "msegs_apart X \<longleftrightarrow> (\<forall>a\<in>X. mseg_node a) \<and> (\<forall>a\<in>X. \<forall>b\<in>X. a \<noteq> b \<longrightarrow> a + 24 \<le> b \<or> b + 24 \<le> a)"

definition mseg_keep :: "seg_store \<Rightarrow> addr \<Rightarrow> bool" where
  "mseg_keep st a \<longleftrightarrow> load32 (bytes st) (a + 16) = 0 \<or> load32 (bytes st) (a + 20) \<noteq> 0"

lemma msegs_apartD: "msegs_apart X \<Longrightarrow> a \<in> X \<Longrightarrow> b \<in> X \<Longrightarrow> a \<noteq> b \<Longrightarrow> a + 24 \<le> b \<or> b + 24 \<le> a"
  by (auto simp: msegs_apart_def)

lemma set_mseg_next_header:
  assumes "msegs_apart X" and "a \<in> X" and "b \<in> X" and "k \<in> {16, 20}"
  shows "load32 (bytes (set_mseg_next a p st)) (b + k) = load32 (bytes st) (b + k)"
  using msegs_apartD [OF assms(1-3)] assms(4)
  by (cases "a = b") (auto simp: set_mseg_next_def mseg_next_def intro!: load32_store64_other)

lemma reset_mseg:
  assumes "msegs_apart X" and "a \<in> X" and "b \<in> X"
    and st': "st' = upd_bytes (\<lambda>m. store32 (store32 m (mseg_bit a) 1) (mseg_collect_bit a) 0) st"
  shows "get_mseg_next st' b = get_mseg_next st b"
    and "load32 (bytes st') (b + 16) = (if b = a then 1 else load32 (bytes st) (b + 16))"
    and "load32 (bytes st') (b + 20) = (if b = a then 0 else load32 (bytes st) (b + 20))"
proof -
  have "b \<noteq> a \<Longrightarrow> a + 24 \<le> b \<or> b + 24 \<le> a" using msegs_apartD [OF assms(1-3)] by auto
  then show "get_mseg_next st' b = get_mseg_next st b"
    "load32 (bytes st') (b + 16) = (if b = a then 1 else load32 (bytes st) (b + 16))"
    "load32 (bytes st') (b + 20) = (if b = a then 0 else load32 (bytes st) (b + 20))"
    by (cases "b = a"; auto simp: st' upd_bytes_def get_mseg_next_def mseg_fields load_store_other)+
qed

text \<open>The addresses outside of the headers of malloc segments.\<close>

definition outside_msegs :: "addr set \<Rightarrow> addr \<Rightarrow> bool" where
  "outside_msegs X c \<longleftrightarrow> (\<forall>b\<in>X. c < b \<or> b + 24 \<le> c)"

lemma set_mseg_next_frame: "outside_msegs X c \<Longrightarrow> a \<in> X \<Longrightarrow> bytes (set_mseg_next a p st) c = bytes st c"
  by (auto simp: outside_msegs_def set_mseg_next_def mseg_next_def intro!: store64_other)

lemma reset_mseg_frame:
  assumes "outside_msegs X c" and "a \<in> X"
    and "st' = upd_bytes (\<lambda>m. store32 (store32 m (mseg_bit a) 1) (mseg_collect_bit a) 0) st"
  shows "bytes st' c = bytes st c"
  using assms by (auto simp: outside_msegs_def upd_bytes_def mseg_fields store32_other)

lemma reclaim_msegs_spec:
  assumes X: "msegs_apart X"
  shows "mseg.path st p xs NULL \<Longrightarrow> mseg.open_list st l ks \<Longrightarrow> distinct (ks @ xs) \<Longrightarrow> set (ks @ xs) \<subseteq> X \<Longrightarrow>
    \<exists>l' st'. reclaim_msegs p l freed st = Some (l', freed @ filter (\<lambda>a. \<not> mseg_keep st a) xs, st') \<and>
      mseg.open_list st' l' (ks @ filter (mseg_keep st) xs) \<and> segs st' = segs st \<and>
      (\<forall>b\<in>X. load32 (bytes st') (b + 16) = (if b \<in> set (filter (mseg_keep st) xs) then 1 else load32 (bytes st) (b + 16)) \<and>
             load32 (bytes st') (b + 20) = (if b \<in> set (filter (mseg_keep st) xs) then 0 else load32 (bytes st) (b + 20))) \<and>
      (\<forall>c. outside_msegs X c \<longrightarrow> bytes st' c = bytes st c)"
proof (induction xs arbitrary: p l ks freed st)
  case Nil
  then show ?case by (subst reclaim_msegs.simps) auto
next
  case (Cons a xs)
  have a: "p = a" "mseg_node a" "mseg.path st (get_mseg_next st a) xs NULL" "a \<in> X" "a \<notin> set xs" "a \<notin> set ks"
    "a \<noteq> NULL" using Cons.prems mseg.node_nonnull [of a] by auto
  have keep: "mseg_keep st a \<longleftrightarrow> load32 (bytes st) (mseg_bit a) = 0 \<or> load32 (bytes st) (mseg_collect_bit a) \<noteq> 0"
    by (simp add: mseg_keep_def mseg_fields)
  show ?case
  proof (cases "mseg_keep st a")
    case False
    have "reclaim_msegs p l freed st = reclaim_msegs (get_mseg_next st a) l (freed @ [a]) st"
      using a(1,7) False unfolding keep by (subst reclaim_msegs.simps) (simp add: Let_def)
    then show ?thesis
      using Cons.IH [OF a(3) Cons.prems(2), of "freed @ [a]"] Cons.prems(3,4) False by auto
  next
    case True
    define st1 where "st1 = upd_bytes (\<lambda>m. store32 (store32 m (mseg_bit a) 1) (mseg_collect_bit a) 0) st"
    note r = reset_mseg [OF X a(4) _ st1_def]
    have sub: "set ks \<subseteq> X" "set xs \<subseteq> X" using Cons.prems(4) by auto
    have ol: "mseg.open_list st1 l ks"
      by (rule mseg.open_frame [OF Cons.prems(2)]) (use r(1) sub(1) in blast)
    from mseg.append_spec [OF ol a(2,6)] obtain l2 st2 where
      2: "LIST_APPEND set_mseg_next l a st1 = (l2, st2)" "mseg.open_list st2 l2 (ks @ [a])"
        "st2 = st1 \<or> ks \<noteq> [] \<and> st2 = set_mseg_next (last ks) a st1" by blast
    have nxt: "get_mseg_next st2 b = get_mseg_next st b" if "b \<in> set (a # xs)" for b
    proof -
      have bX: "b \<in> X" "b \<notin> set ks" using that a(4,6) sub(2) Cons.prems(3) by auto
      have "mseg_node b" "ks \<noteq> [] \<Longrightarrow> mseg_node (last ks)" using bX(1) X sub(1) last_in_set [of ks] unfolding msegs_apart_def by blast+
      moreover have "ks \<noteq> [] \<Longrightarrow> last ks \<noteq> b" using bX(2) last_in_set [of ks] by blast
      ultimately have "get_mseg_next st2 b = get_mseg_next st1 b" using 2(3) mseg.get_set_other by metis
      then show ?thesis using r(1) [OF bX(1)] by simp
    qed
    have hdr: "load32 (bytes st2) (b + k) = load32 (bytes st1) (b + k)" if "b \<in> X" "k \<in> {16, 20}" for b k
      using 2(3) set_mseg_next_header [OF X _ that, of "last ks" a st1] sub(1) last_in_set [of ks] by blast
    have keep_eq: "mseg_keep st2 b = mseg_keep st b" if "b \<in> set xs" for b
    proof -
      have "b \<in> X" "b \<noteq> a" using that a(5) sub(2) by auto
      then show ?thesis using hdr [of b 16] hdr [of b 20] r(2,3) [of b] by (simp add: mseg_keep_def)
    qed
    have fl: "filter (mseg_keep st2) xs = filter (mseg_keep st) xs" "filter (\<lambda>a. \<not> mseg_keep st2 a) xs = filter (\<lambda>a. \<not> mseg_keep st a) xs"
      by (rule filter_cong; use keep_eq in simp)+
    have "mseg.path st2 (get_mseg_next st a) xs NULL" by (rule mseg.path_frame [OF a(3)]) (use nxt in simp)
    from Cons.IH [OF this 2(2), of freed] Cons.prems(3,4) obtain l' st' where
      3: "reclaim_msegs (get_mseg_next st a) l2 freed st2 = Some (l', freed @ filter (\<lambda>a. \<not> mseg_keep st a) xs, st')"
        "mseg.open_list st' l' ((ks @ [a]) @ filter (mseg_keep st) xs)" "segs st' = segs st2"
        "\<forall>b\<in>X. load32 (bytes st') (b + 16) = (if b \<in> set (filter (mseg_keep st) xs) then 1 else load32 (bytes st2) (b + 16)) \<and>
             load32 (bytes st') (b + 20) = (if b \<in> set (filter (mseg_keep st) xs) then 0 else load32 (bytes st2) (b + 20))"
        "\<forall>c. outside_msegs X c \<longrightarrow> bytes st' c = bytes st2 c"
      unfolding fl by auto
    have fr: "bytes st2 c = bytes st c" if "outside_msegs X c" for c
    proof -
      have "bytes st1 c = bytes st c" using reset_mseg_frame [OF that a(4) st1_def] .
      moreover have "bytes st2 c = bytes st1 c"
        using 2(3) set_mseg_next_frame [OF that] sub(1) last_in_set [of ks] by blast
      ultimately show ?thesis by simp
    qed
    have "reclaim_msegs p l freed st = reclaim_msegs (get_mseg_next st a) l2 freed st2"
      using a(1,7) True 2(1) unfolding keep by (subst reclaim_msegs.simps) (simp add: Let_def st1_def [symmetric])
    moreover have "segs st2 = segs st" using 2(3) by (auto simp: st1_def upd_bytes_def set_mseg_next_def)
    ultimately show ?thesis using 3 True hdr [of _ 16] hdr [of _ 20] r(2,3) fr by auto
  qed
qed

lemma reclaim_malloc_spec:
  assumes "mseg.items_at st p xs" and "msegs_apart (set xs)"
  shows "\<exists>head st'. reclaim_malloc_segments p st = Some (head, filter (\<lambda>a. \<not> mseg_keep st a) xs, st') \<and>
    mseg.items_at st' head (filter (mseg_keep st) xs) \<and> segs st' = segs st \<and>
    (\<forall>a\<in>set xs. mseg_keep st a \<longrightarrow> load32 (bytes st') (a + 16) = 1 \<and> load32 (bytes st') (a + 20) = 0) \<and>
    (\<forall>c. outside_msegs (set xs) c \<longrightarrow> bytes st' c = bytes st c)"
proof -
  have p: "mseg.path st p xs NULL" using assms(1) by (simp add: mseg.items_at_def)
  have d: "distinct ([] @ xs)" "set ([] @ xs) \<subseteq> set xs" using mseg.path_distinct [OF p] by simp_all
  from reclaim_msegs_spec [OF assms(2) p mseg.open_init d, of "[]"] obtain l1 st1 where
    1: "reclaim_msegs p LIST_INIT [] st = Some (l1, filter (\<lambda>a. \<not> mseg_keep st a) xs, st1)"
      "mseg.open_list st1 l1 (filter (mseg_keep st) xs)" "segs st1 = segs st"
      "\<forall>b\<in>set xs. load32 (bytes st1) (b + 16) = (if b \<in> set (filter (mseg_keep st) xs) then 1 else load32 (bytes st) (b + 16)) \<and>
         load32 (bytes st1) (b + 20) = (if b \<in> set (filter (mseg_keep st) xs) then 0 else load32 (bytes st) (b + 20))"
      "\<forall>c. outside_msegs (set xs) c \<longrightarrow> bytes st1 c = bytes st c" by auto
  have nil: "mseg.items_at st1 NULL []" by (simp add: mseg.items_at_def)
  from mseg.finish_spec [OF 1(2) nil] obtain h st2 where
    2: "LIST_FINISH set_mseg_next l1 NULL st1 = (h, st2)" "mseg.items_at st2 h (filter (mseg_keep st) xs)"
      "st2 = st1 \<or> filter (mseg_keep st) xs \<noteq> [] \<and> st2 = set_mseg_next (last (filter (mseg_keep st) xs)) NULL st1" by auto
  have "load32 (bytes st2) (b + k) = load32 (bytes st1) (b + k)" if "b \<in> set xs" "k \<in> {16, 20}" for b k
    using 2(3)
  proof
    assume ne: "filter (mseg_keep st) xs \<noteq> [] \<and> st2 = set_mseg_next (last (filter (mseg_keep st) xs)) NULL st1"
    then have "last (filter (mseg_keep st) xs) \<in> set xs" using last_in_set [of "filter (mseg_keep st) xs"] by auto
    then show ?thesis using set_mseg_next_header [OF assms(2) _ that] ne by simp
  qed simp
  moreover have "segs st2 = segs st" using 2(3) 1(3) by (auto simp: set_mseg_next_def)
  moreover have "bytes st2 c = bytes st c" if "outside_msegs (set xs) c" for c
  proof -
    have "filter (mseg_keep st) xs \<noteq> [] \<Longrightarrow> last (filter (mseg_keep st) xs) \<in> set xs"
      using last_in_set [of "filter (mseg_keep st) xs"] by auto
    then show ?thesis using 2(3) 1(5) set_mseg_next_frame [OF that] that by auto
  qed
  ultimately show ?thesis
    using 1(1,4) 2(1,2) by (auto simp: reclaim_malloc_segments_def)
qed


section \<open>Properties of marking and of malloc segments\<close>

text \<open>The mark steps of several workers, one after the other.\<close>

fun workers_mark :: "sml_alloc list \<Rightarrow> seg_store \<Rightarrow> (sml_alloc list \<times> seg_store) result option" where
  "workers_mark [] st = Some (Inr ([], st))"
| "workers_mark (a # as) st =
     Option.bind (sml_heap_worker_mark a st) (\<lambda>r.
       case r of
         Inl e \<Rightarrow> Some (Inl e)
       | Inr (a', st1) \<Rightarrow>
           map_option (map_sum id (\<lambda>(as', st2). (a' # as', st2))) (workers_mark as st1))"

text \<open>The objects on the two mark stacks of every allocator.\<close>

definition stacked :: "addr set \<Rightarrow> seg_store \<Rightarrow> seg_store \<Rightarrow> sml_alloc \<Rightarrow> addr list \<Rightarrow> bool" where
  "stacked A st0 st a xs \<longleftrightarrow>
     (\<exists>rs ms. xs = rs @ ms \<and> distinct rs \<and> distinct ms \<and> mark_stack A st0 st (root_set a) rs \<and>
        mark_stack A st0 st (remembered_set a) ms)"

lemma workers_mark_spec:
  assumes "marking_of A st0 st" and "list_all2 (stacked A st0 st) as xss"
    and "scanned_except A st0 (set (concat xss) \<union> G) st"
  shows "\<exists>as' st'. workers_mark as st = Some (Inr (as', st')) \<and> marking_of A st0 st' \<and> scanned_except A st0 G st' \<and>
    (\<forall>a\<in>set as'. root_set a = NULL \<and> remembered_set a = NULL) \<and>
    (\<forall>x. live_target A st0 x \<and> obj_marked st x \<longrightarrow> obj_marked st' x) \<and>
    (\<forall>x. live_target A st0 x \<and> obj_marked st' x \<longrightarrow>
       obj_marked st x \<or> (\<exists>r\<in>set (concat xss). (r, x) \<in> (points_to A st0)\<^sup>*))"
  using assms
proof (induction as arbitrary: xss st)
  case Nil
  then show ?case by simp
next
  case (Cons a as)
  then obtain xs yss where y: "xss = xs # yss" "stacked A st0 st a xs" "list_all2 (stacked A st0 st) as yss"
    by (cases xss) auto
  then obtain rs ms where s: "xs = rs @ ms" "distinct rs" "distinct ms" "mark_stack A st0 st (root_set a) rs"
      "mark_stack A st0 st (remembered_set a) ms" by (auto simp: stacked_def)
  have "scanned_except A st0 (set rs \<union> set ms \<union> (set (concat yss) \<union> G)) st"
    using Cons.prems(3) by (simp add: y(1) s(1) Un_assoc)
  from worker_mark_spec [OF Cons.prems(1) s(4,2,5,3) this] obtain st1 where
    1: "sml_heap_worker_mark a st = Some (Inr (a\<lparr>root_set := NULL, remembered_set := NULL\<rparr>, st1))" "marking_of A st0 st1"
      "scanned_except A st0 (set (concat yss) \<union> G) st1"
      "\<forall>x. live_target A st0 x \<and> obj_marked st x \<longrightarrow> obj_marked st1 x \<and> stack_link st1 x = stack_link st x"
      "\<forall>x. live_target A st0 x \<and> obj_marked st1 x \<longrightarrow> obj_marked st x \<or> (\<exists>r\<in>set rs \<union> set ms. (r, x) \<in> (points_to A st0)\<^sup>*)"
    by blast
  have "stacked A st0 st1 b zs" if "stacked A st0 st b zs" for b zs
    using that mark_stack_frame [of A st0 st _ _ st1] 1(4) unfolding stacked_def by blast
  then have "list_all2 (stacked A st0 st1) as yss" using y(3) by (rule list_all2_mono [rotated])
  from Cons.IH [OF 1(2) this 1(3)] obtain as' st' where
    2: "workers_mark as st1 = Some (Inr (as', st'))" "marking_of A st0 st'" "scanned_except A st0 G st'"
      "\<forall>a\<in>set as'. root_set a = NULL \<and> remembered_set a = NULL"
      "\<forall>x. live_target A st0 x \<and> obj_marked st1 x \<longrightarrow> obj_marked st' x"
      "\<forall>x. live_target A st0 x \<and> obj_marked st' x \<longrightarrow> obj_marked st1 x \<or> (\<exists>r\<in>set (concat yss). (r, x) \<in> (points_to A st0)\<^sup>*)"
    by blast
  have "workers_mark (a # as) st = Some (Inr (a\<lparr>root_set := NULL, remembered_set := NULL\<rparr> # as', st'))"
    by (simp add: 1(1) 2(1))
  moreover have "obj_marked st x \<or> (\<exists>r\<in>set (concat xss). (r, x) \<in> (points_to A st0)\<^sup>*)"
    if "live_target A st0 x" "obj_marked st' x" for x
    using 1(5) 2(6) that unfolding y(1) s(1) by (auto simp del: UN_iff Bex_set)
  moreover have "\<forall>b\<in>set (a\<lparr>root_set := NULL, remembered_set := NULL\<rparr> # as'). root_set b = NULL \<and> remembered_set b = NULL"
    using 2(4) by simp
  ultimately show ?case using 1(4) 2(2,3,5) by blast
qed

text \<open>
  C8: marking by the workers is complete and exact.  When every marked object that is not yet
  scanned is on the root set or the remembered set of one of the workers, the mark steps of the
  workers end without a fatal error and leave all these sets empty; then the marked objects are
  exactly those marked before and those reachable from the sets.
\<close>

theorem workers_mark_reachable:
  assumes "marking_of A st0 st" and "list_all2 (stacked A st0 st) as xss"
    and "scanned_except A st0 (set (concat xss)) st"
  shows "\<exists>as' st'. workers_mark as st = Some (Inr (as', st')) \<and>
    (\<forall>a\<in>set as'. root_set a = NULL \<and> remembered_set a = NULL) \<and>
    (\<forall>x. live_target A st0 x \<longrightarrow>
       obj_marked st' x = (obj_marked st x \<or> (\<exists>r\<in>set (concat xss). (r, x) \<in> (points_to A st0)\<^sup>*)))"
proof -
  from workers_mark_spec [OF assms(1,2), of "{}"] assms(3) obtain as' st' where
    1: "workers_mark as st = Some (Inr (as', st'))" "scanned_except A st0 {} st'"
      "\<forall>a\<in>set as'. root_set a = NULL \<and> remembered_set a = NULL"
      "\<forall>x. live_target A st0 x \<and> obj_marked st x \<longrightarrow> obj_marked st' x"
      "\<forall>x. live_target A st0 x \<and> obj_marked st' x \<longrightarrow>
         obj_marked st x \<or> (\<exists>r\<in>set (concat xss). (r, x) \<in> (points_to A st0)\<^sup>*)" by auto
  have r: "live_target A st0 r \<and> obj_marked st r" if "r \<in> set (concat xss)" for r
  proof -
    from that obtain xs where "xs \<in> set xss" "r \<in> set xs" by auto
    then obtain a where "stacked A st0 st a xs"
      using assms(2) by (metis in_set_conv_nth list_all2_conv_all_nth)
    then show ?thesis using \<open>r \<in> set xs\<close> mark_stack_live unfolding stacked_def by fastforce
  qed
  have "obj_marked st' x" if "r \<in> set (concat xss)" "(r, x) \<in> (points_to A st0)\<^sup>*" for r x
    using marked_closed [OF 1(2) _ that(2)] r [OF that(1)] 1(4) by blast
  then show ?thesis using 1 by blast
qed

theorem workers_mark_reachable_witness:
  "\<exists>st as' st' a. push 32880 (sample_objects, 0) = (st, 32880) \<and> root_set a = 32880 \<and> remembered_set a = NULL \<and>
     \<not> obj_marked st 36976 \<and> workers_mark [a] st = Some (Inr (as', st')) \<and> obj_marked st' 36976"
proof -
  let ?A = "{32880, 36976} :: addr set" and ?st0 = sample_objects
  define a where "a = (init_allocator (init_subheap_count_init 0))\<lparr>root_set := 32880\<rparr>"
  have ra: "root_set a = 32880" "remembered_set a = NULL" by (simp_all add: a_def init_allocator_def)
  have live: "live_target ?A ?st0 32880" "live_target ?A ?st0 36976"
    using sample_targets by (simp_all add: live_target_def)
  have edge: "(32880, 36976) \<in> points_to ?A ?st0" using live by (simp add: points_to_def sample_pointers_of)
  from push_marks [OF marking_refl [OF sample_heap_wf] live(1) sample_unmarked(1), of 0] obtain st where
    st: "push 32880 (?st0, 0) = (st, 32880)" "marking_of ?A ?st0 st" "stack_link st 32880 = 0"
      "\<forall>y. live_target ?A ?st0 y \<longrightarrow> obj_marked st y = (obj_marked ?st0 y \<or> y = 32880)" by auto
  have m: "obj_marked st 32880" "\<not> obj_marked st 36976" using st(4) live sample_unmarked by simp_all
  have "list_all2 (stacked ?A ?st0 st) [a] [[32880]]"
    using live(1) m(1) st(3) ra unfolding stacked_def list_all2_Cons
    by (intro conjI exI [of _ "[32880]"] exI [of _ "[]"]) simp_all
  moreover have "scanned_except ?A ?st0 (set (concat [[32880]])) st"
    using m(2) by (auto simp: scanned_except_def points_to_def live_target_def)
  ultimately obtain as' st' where "workers_mark [a] st = Some (Inr (as', st'))" "obj_marked st' 36976"
    using workers_mark_reachable [OF st(2), of "[a]" "[[32880]]"] live(2) edge by auto
  then show ?thesis using st(1) m(2) ra by blast
qed

section \<open>Sizing of the subheaps\<close>

definition counts_ok :: "subheap_count \<Rightarrow> bool" where
  "counts_ok c \<longleftrightarrow> 1 \<le> extension_room c \<and> 1 \<le> threshold c \<and> 1 / 5 \<le> threshold_ratio c \<and> threshold_ratio c \<le> 1"

lemma at_least_one: "1 \<le> (if n \<le> 0 then 1 else n)" "1 \<le> ((if n \<le> 0 then 1 else n) + 1) div 2" for n :: nat
  by (simp, cases n, simp_all)

lemma init_counts_ok: "counts_ok (init_subheap_count n i)"
proof -
  have "1 \<le> extension_room (init_subheap_count n i)" "threshold_ratio (init_subheap_count n i) = 1 / 2"
    unfolding init_subheap_count_def Let_def subheap_count.simps by (rule at_least_one) (rule refl)
  moreover have "threshold (init_subheap_count n i) = int ((extension_room (init_subheap_count n i) + 1) div 2)"
    unfolding init_subheap_count_def Let_def subheap_count.simps by (rule refl)
  ultimately show ?thesis unfolding counts_ok_def by simp
qed

lemma blend:
  assumes "1 / 5 \<le> q" and "q \<le> 1" and "1 / 5 \<le> r" and "r \<le> (1 :: rat)"
  shows "1 / 5 \<le> q + 2 / 10 * (r - q)" and "q + 2 / 10 * (r - q) \<le> 1"
proof -
  have e: "q + 2 / 10 * (r - q) = 4 / 5 * q + 1 / 5 * r" by (simp add: field_simps)
  show "1 / 5 \<le> q + 2 / 10 * (r - q)" "q + 2 / 10 * (r - q) \<le> 1" unfolding e using assms by linarith+
qed

lemma ceiling_share:
  assumes "1 \<le> n" and "1 / 5 \<le> q" and "q \<le> (1 :: rat)"
  shows "1 \<le> \<lceil>of_nat n * q\<rceil>" and "\<lceil>of_nat n * q\<rceil> \<le> int n"
proof -
  have "0 < of_nat n * q" using assms by simp
  then show "1 \<le> \<lceil>of_nat n * q\<rceil>" by (simp add: one_le_ceiling)
  have "of_nat n * q \<le> of_nat n * 1" using assms by (intro mult_left_mono) simp_all
  then show "\<lceil>of_nat n * q\<rceil> \<le> int n" by (simp add: ceiling_le_iff)
qed

text \<open>
  The sizes computed for the next cycle stay in range.  A subheap may always be extended by a
  segment, the ratio that sets its threshold stays between a fifth and one, and the number of
  segments after which a collection is requested is positive and at most the number of segments
  the subheap may allocate in.
\<close>

lemma next_count_in_range:
  assumes "counts_ok c"
  shows "counts_ok (next_count nan_to_uint distrib num_alloc i stat c) \<and>
    threshold (next_count nan_to_uint distrib num_alloc i stat c) \<le>
      int (sr_num_partial stat + extension_room (next_count nan_to_uint distrib num_alloc i stat c))"
proof -
  define c' where "c' = next_count nan_to_uint distrib num_alloc i stat c"
  define n where "n = sr_num_partial stat + extension_room c'"
  have ext: "1 \<le> extension_room c'" unfolding c'_def next_count_def Let_def subheap_count.simps by (rule at_least_one)
  have ratio: "threshold_ratio c' = threshold_ratio c + 2 / 10 * ((if sr_num_blocks_room stat > 0 then 1 else 2 / 10) - threshold_ratio c)"
    by (simp add: c'_def next_count_def Let_def)
  have q: "1 / 5 \<le> threshold_ratio c'" "threshold_ratio c' \<le> 1"
    unfolding ratio by (rule blend; use assms in \<open>simp add: counts_ok_def\<close>)+
  have n1: "1 \<le> n" using ext by (simp add: n_def)
  note s = ceiling_share [OF n1 q]
  have "threshold c' = (if \<lceil>of_nat n * threshold_ratio c'\<rceil> \<le> 0 then \<lceil>of_nat n * threshold_ratio c'\<rceil> + 1 else \<lceil>of_nat n * threshold_ratio c'\<rceil>)"
    by (simp add: c'_def n_def next_count_def Let_def)
  then have "threshold c' = \<lceil>of_nat n * threshold_ratio c'\<rceil>" using s(1) by simp
  then show ?thesis unfolding c'_def [symmetric] using s ext q by (simp add: counts_ok_def n_def)
qed

end
