(* ===== verification/Alloc.thy ===== *)
theory Alloc
  imports Collect
begin

text \<open>
  What the mutator calls of \<open>heap_concurrent.c\<close>: the write barrier and the allocation of objects.
  The state of a mutator is its allocator, the shared heap and the phase its thread is in.  The
  functions of \<open>control.c\<close> that allocation may call to take part in a collection, and \<open>xmalloc\<close>, are
  arguments.
\<close>

record mutator =
  mu_alloc :: sml_alloc
  mu_heap :: heap_state
  mu_phase :: sml_sync_phase

section \<open>Mutation\<close>

definition remember_in :: "addr \<Rightarrow> sml_alloc \<times> seg_store \<Rightarrow> sml_alloc \<times> seg_store" where
  "remember_in obj = (\<lambda>(alloc, st).
     let (st', rs) = remember obj (st, remembered_set alloc) in (alloc\<lparr>remembered_set := rs\<rparr>, st'))"

definition barrier :: "addr \<Rightarrow> addr \<Rightarrow> sml_sync_phase \<Rightarrow> sml_alloc \<times> seg_store \<Rightarrow> sml_alloc \<times> seg_store" where
  "barrier old_value new_value phase s =
     (if phase \<ge> SYNC1 then
        let s1 = (if phase \<le> SYNC2 then remember_in new_value s else s) in remember_in old_value s1
      else s)"

definition sml_write :: "addr \<Rightarrow> addr \<Rightarrow> sml_sync_phase \<Rightarrow> sml_alloc \<times> seg_store \<Rightarrow> sml_alloc \<times> seg_store" where
  "sml_write writeaddr new_value phase s =
     (let (alloc, st) = barrier (load64 (bytes (snd s)) writeaddr) new_value phase s
      in (alloc, upd_bytes (\<lambda>m. store64 m writeaddr new_value) st))"

definition sml_cmpswap ::
  "addr \<Rightarrow> addr \<Rightarrow> addr \<Rightarrow> sml_sync_phase \<Rightarrow> sml_alloc \<times> seg_store \<Rightarrow> bool \<times> sml_alloc \<times> seg_store" where
  "sml_cmpswap obj old_value new_value phase s =
     (let (alloc, st) = s
      in if load64 (bytes st) obj = old_value
         then (True, barrier old_value new_value phase (alloc, upd_bytes (\<lambda>m. store64 m obj new_value) st))
         else (False, s))"

section \<open>Finding a segment\<close>

definition upd_alloc_heap :: "(heap \<Rightarrow> heap) \<Rightarrow> mutator \<Rightarrow> mutator" where
  "upd_alloc_heap f mu = mu\<lparr>mu_alloc := (mu_alloc mu)\<lparr>alloc_heap := f (alloc_heap (mu_alloc mu))\<rparr>\<rparr>"

definition upd_store :: "(seg_store \<Rightarrow> seg_store) \<Rightarrow> mutator \<Rightarrow> mutator" where
  "upd_store f mu = mu\<lparr>mu_heap := (mu_heap mu)\<lparr>hs_store := f (hs_store (mu_heap mu))\<rparr>\<rparr>"

definition set_ptr :: "nat \<Rightarrow> alloc_ptr \<Rightarrow> heap \<Rightarrow> heap" where
  "set_ptr i ptr h = h\<lparr>heap_ptr := (heap_ptr h)(i := ptr)\<rparr>"

definition set_subheap :: "nat \<Rightarrow> subheap \<Rightarrow> heap \<Rightarrow> heap" where
  "set_subheap i sh h = h\<lparr>heap_subheap := (heap_subheap h)(i := sh)\<rparr>"

definition set_count :: "nat \<Rightarrow> subheap_count \<Rightarrow> heap \<Rightarrow> heap" where
  "set_count i c h = h\<lparr>heap_counts := (heap_counts h)(i := c)\<rparr>"

text \<open>
  The first part of \<open>try_find_segment\<close>: the exhausted segment joins the filled ones and brings the
  next collection closer; \<open>sml_gc(0)\<close> is a request.
\<close>

definition retire_current :: "nat \<Rightarrow> sml_sync_phase \<Rightarrow> mutator \<Rightarrow> mutator" where
  "retire_current i phase mu =
     (let heap = alloc_heap (mu_alloc mu); ptr = heap_ptr heap i; sh = heap_subheap heap i; c = heap_counts heap i
      in if ap_p ptr \<noteq> NULL then
           let (seg, ptr', st1) = release_alloc_ptr ptr phase (hs_store (mu_heap mu));
               c' = c\<lparr>threshold := threshold c - 1\<rparr>;
               hs = (mu_heap mu)\<lparr>hs_store := set_seg_next seg (sh_filled sh) st1,
                       hs_gc_requests := hs_gc_requests (mu_heap mu) + (if threshold c' = 0 then 1 else 0)\<rparr>
           in upd_alloc_heap (\<lambda>h. set_count i c' (set_subheap i (sh\<lparr>sh_filled := seg\<rparr>) (set_ptr i ptr' h)))
                (mu\<lparr>mu_heap := hs\<rparr>)
         else mu)"

text \<open>The second part: a segment for the allocation pointer, null when there is none or no room.\<close>

definition take_segment :: "nat \<Rightarrow> sml_sync_phase \<Rightarrow> mutator \<Rightarrow> addr \<times> mutator" where
  "take_segment i phase mu =
     (let heap = alloc_heap (mu_alloc mu); sh = heap_subheap heap i; c = heap_counts heap i; st = hs_store (mu_heap mu)
      in if sh_partial sh \<noteq> NULL then
           (sh_partial sh, upd_alloc_heap (set_subheap i (sh\<lparr>sh_partial := get_seg_next st (sh_partial sh)\<rparr>)) mu)
         else if extension_room c = 0 then (NULL, mu)
         else
           let (seg, l) = segment_list_pop (heap_freelist heap) st;
               (seg', mu') =
                 (if seg \<noteq> NULL then
                    (seg, upd_store (init_segment seg i) (upd_alloc_heap (\<lambda>h. h\<lparr>heap_freelist := l\<rparr>) mu))
                  else
                    let (seg', hs') = get_segment_from_pool i phase (mu_phase mu) (mu_heap mu)
                    in (seg', upd_alloc_heap (\<lambda>h. h\<lparr>heap_freelist := l\<rparr>) (mu\<lparr>mu_heap := hs'\<rparr>)))
           in if seg' = NULL then (NULL, mu')
              else (seg', upd_alloc_heap (set_count i (c\<lparr>extension_room := extension_room c - 1\<rparr>)) mu'))"

definition try_find_segment :: "nat \<Rightarrow> sml_sync_phase \<Rightarrow> mutator \<Rightarrow> addr \<times> mutator" where
  "try_find_segment i phase mu =
     (let (seg, mu1) = take_segment i phase (retire_current i phase mu)
      in if seg = NULL then (NULL, mu1)
         else
           let (ptr, st1) = set_alloc_ptr (heap_ptr (alloc_heap (mu_alloc mu1)) i) seg phase (hs_store (mu_heap mu1));
               (obj, ptr') = find_bitmap st1 ptr
           in (obj, upd_store (\<lambda>_. st1) (upd_alloc_heap (set_ptr i ptr') mu1)))"

text \<open>
  \<open>check\<close> is the call of \<open>sml_check_internal\<close> when \<open>sml_check_flag\<close> is set and nothing otherwise,
  \<open>wait_gc\<close> the call of \<open>sml_wait_gc\<close>.
\<close>

definition find_segment ::
  "(mutator \<Rightarrow> mutator) \<Rightarrow> (mutator \<Rightarrow> mutator) \<Rightarrow> nat \<Rightarrow> mutator \<Rightarrow> (addr \<times> mutator) result" where
  "find_segment check wait_gc i mu =
     (let mu0 = check mu; (obj, mu1) = try_find_segment i (mu_phase mu0) mu0
      in if obj \<noteq> NULL then Inr (obj, mu1)
         else
           let mu1' = wait_gc mu1; (obj, mu2) = try_find_segment i (mu_phase mu1') mu1'
           in if obj \<noteq> NULL then Inr (obj, mu2)
              else
                let mu2' = wait_gc mu2; (obj, mu3) = try_find_segment i (mu_phase mu2') mu2'
                in if obj \<noteq> NULL then Inr (obj, mu3) else Inl (Fatal ''exhaust subheap''))"

section \<open>Allocation\<close>

definition malloc_segment :: "addr \<Rightarrow> sml_sync_phase \<Rightarrow> seg_store \<Rightarrow> seg_store" where
  "malloc_segment mseg phase st =
     upd_bytes (\<lambda>m. store32 (store32 (store64 m (mseg_stack mseg) NULL)
         (mseg_bit mseg) (if ASYNC \<le> phase \<and> phase \<le> PRESYNC2 then 1 else 0))
       (mseg_collect_bit mseg) 0) st"

text \<open>\<open>xmalloc n mu\<close> is the address of a new range of \<open>n\<close> bytes.\<close>

definition malloc_object :: "(nat \<Rightarrow> mutator \<Rightarrow> addr) \<Rightarrow> nat \<Rightarrow> mutator \<Rightarrow> addr \<times> mutator" where
  "malloc_object xmalloc alloc_size mu =
     (let mseg = xmalloc (MALLOC_OBJECT_OFFSET + alloc_size) mu; heap = alloc_heap (mu_alloc mu)
      in (MALLOC_SEGMENT_TO_OBJ mseg,
          upd_store (\<lambda>st. set_mseg_next mseg (malloc_subheap heap) (malloc_segment mseg (mu_phase mu) st))
            (upd_alloc_heap (\<lambda>h. h\<lparr>malloc_subheap := mseg\<rparr>) mu)))"

text \<open>The index of the subheap for an object and the fast path in the current segment.\<close>

definition subheap_index_of :: "nat \<Rightarrow> nat" where
  "subheap_index_of objsize = CEIL_LOG2 (CEILING (OBJ_HEADER_SIZE + objsize) BLOCKSIZE_MIN) - BLOCKSIZE_MIN_LOG2"

definition bump_alloc :: "nat \<Rightarrow> mutator \<Rightarrow> addr \<times> mutator" where
  "bump_alloc i mu =
     (let ptr = heap_ptr (alloc_heap (mu_alloc mu)) i; st = hs_store (mu_heap mu)
      in if \<not> BITPTR_TEST (bytes st) (ap_b ptr) then
           (ap_p ptr, upd_alloc_heap (set_ptr i (ptr\<lparr>ap_b := BITPTR_INC (ap_b ptr),
                                                    ap_p := ap_p ptr + ap_blocksize_bytes ptr\<rparr>)) mu)
         else let (obj, ptr') = find_bitmap st ptr in (obj, upd_alloc_heap (set_ptr i ptr') mu))"

definition sml_alloc ::
  "(nat \<Rightarrow> mutator \<Rightarrow> addr) \<Rightarrow> (mutator \<Rightarrow> mutator) \<Rightarrow> (mutator \<Rightarrow> mutator) \<Rightarrow> nat \<Rightarrow> mutator
   \<Rightarrow> (addr \<times> mutator) result" where
  "sml_alloc xmalloc check wait_gc objsize mu =
     (if objsize > BLOCKSIZE_MAX - OBJ_HEADER_SIZE then Inr (malloc_object xmalloc objsize mu)
      else
        let i = subheap_index_of objsize; (obj, mu1) = bump_alloc i mu
        in if obj \<noteq> NULL then Inr (obj, mu1) else find_segment check wait_gc i mu1)"

text \<open>The retry loop of \<open>sml_alloc_important\<close> over larger and larger blocks; null when all fail.\<close>

function alloc_from :: "sml_sync_phase \<Rightarrow> nat \<Rightarrow> mutator \<Rightarrow> addr \<times> mutator" where
  "alloc_from phase i mu =
     (let (obj, mu1) = bump_alloc i mu
      in if obj \<noteq> NULL then (obj, mu1)
         else
           let (obj, mu2) = try_find_segment i phase mu1
           in if obj \<noteq> NULL then (obj, mu2)
              else if i < NUM_SUBHEAPS - 1 then alloc_from phase (i + 1) mu2
              else (NULL, mu2))"
  by pat_completeness auto
termination
  by (relation "measure (\<lambda>(_, i, _). NUM_SUBHEAPS - i)") auto

declare alloc_from.simps [simp del]

definition sml_alloc_important ::
  "(nat \<Rightarrow> mutator \<Rightarrow> addr) \<Rightarrow> nat \<Rightarrow> sml_sync_phase \<Rightarrow> mutator \<Rightarrow> addr \<times> mutator" where
  "sml_alloc_important xmalloc objsize phase mu =
     (if objsize > BLOCKSIZE_MAX - OBJ_HEADER_SIZE then malloc_object xmalloc objsize mu
      else alloc_from phase (subheap_index_of objsize) mu)"

definition sml_heap_init ::
  "nat \<Rightarrow> (nat \<Rightarrow> addr option) \<Rightarrow> nat \<Rightarrow> nat
   \<Rightarrow> (segment_pool \<times> (addr \<times> nat) list \<times> (nat \<Rightarrow> subheap_count) \<times> heap_count) result" where
  "sml_heap_init pagesize AllocPage min_size max_size =
     (case init_segment_pool pagesize AllocPage min_size max_size of
        Inl e \<Rightarrow> Inl e
      | Inr (pool, released) \<Rightarrow> Inr (pool, released, init_subheap_count_init (min_num_segments pool)))"


section \<open>Size classes\<close>

lemma subheap_index_spec:
  assumes "objsize \<le> BLOCKSIZE_MAX - OBJ_HEADER_SIZE"
  shows "subheap_index_of objsize < NUM_SUBHEAPS"
    and "OBJ_HEADER_SIZE + objsize \<le> 2 ^ (subheap_index_of objsize + BLOCKSIZE_MIN_LOG2)"
    and "0 < subheap_index_of objsize \<Longrightarrow> 2 ^ (subheap_index_of objsize + BLOCKSIZE_MIN_LOG2 - 1) < OBJ_HEADER_SIZE + objsize"
proof -
  define x where "x = CEILING (OBJ_HEADER_SIZE + objsize) BLOCKSIZE_MIN"
  define k where "k = CEIL_LOG2 x"
  have x: "4 + objsize \<le> x" "8 dvd x" "x < 12 + objsize"
    using ceiling_ge [of 8 "4 + objsize"] ceiling_dvd [of 8 "4 + objsize"] ceiling_less [of 8 "4 + objsize"]
    by (simp_all add: x_def)
  have "8 dvd (4096 :: nat)" by simp
  then have x4096: "x \<le> 4096" unfolding x_def using assms by (intro ceiling_least) auto
  have x8: "8 \<le> x" using x(1,2) by (auto elim: dvdE)
  have k: "x \<le> 2 ^ k" "2 ^ k < 2 * x" using ceil_log2_bounds [of x] x8 x4096 by (auto simp: k_def)
  have k3: "3 \<le> k"
  proof (rule ccontr)
    assume "\<not> 3 \<le> k"
    then have "(2 :: nat) ^ k \<le> 2 ^ 2" by (intro power_increasing) auto
    then show False using k(1) x8 by simp
  qed
  have "k < 13"
  proof (rule ccontr)
    assume "\<not> k < 13"
    then have "(2 :: nat) ^ 13 \<le> 2 ^ k" by (intro power_increasing) auto
    then show False using k(2) x4096 by simp
  qed
  moreover have i: "subheap_index_of objsize = k - 3" by (simp add: subheap_index_of_def k_def x_def)
  ultimately show "subheap_index_of objsize < NUM_SUBHEAPS" using k3 by simp
  show "OBJ_HEADER_SIZE + objsize \<le> 2 ^ (subheap_index_of objsize + BLOCKSIZE_MIN_LOG2)"
    using k(1) x(1) k3 by (simp add: i)
  show "2 ^ (subheap_index_of objsize + BLOCKSIZE_MIN_LOG2 - 1) < OBJ_HEADER_SIZE + objsize" if "0 < subheap_index_of objsize"
  proof (rule ccontr)
    have k4: "4 \<le> k" using that i by simp
    assume "\<not> 2 ^ (subheap_index_of objsize + BLOCKSIZE_MIN_LOG2 - 1) < OBJ_HEADER_SIZE + objsize"
    then have le: "4 + objsize \<le> 2 ^ (k - 1)" using k3 by (simp add: i)
    have "(2 :: nat) ^ 3 dvd 2 ^ (k - 1)" using k4 by (intro le_imp_power_dvd) simp
    then have "x \<le> 2 ^ (k - 1)" unfolding x_def using le by (intro ceiling_least) auto
    moreover have "(2 :: nat) ^ k = 2 * 2 ^ (k - 1)" using k4 by (cases k) auto
    ultimately show False using k(2) by simp
  qed
qed

section \<open>Allocation in the current segment\<close>

definition current_ptr :: "nat \<Rightarrow> mutator \<Rightarrow> alloc_ptr" where
  "current_ptr i mu = heap_ptr (alloc_heap (mu_alloc mu)) i"

text \<open>The allocation pointer \<open>i\<close> of a mutator is in a segment of its class, at block \<open>k\<close>.\<close>

definition ptr_at :: "nat \<Rightarrow> addr \<Rightarrow> nat \<Rightarrow> mutator \<Rightarrow> bool" where
  "ptr_at i seg k mu \<longleftrightarrow>
     i < NUM_SUBHEAPS \<and> SEGMENT_SIZE dvd seg \<and> seg_layout (segs (hs_store (mu_heap mu)) seg) = Some i \<and>
     bitmaps_ok (bytes (hs_store (mu_heap mu))) seg (compute_segment_layout i) \<and>
     k \<le> num_blocks (compute_segment_layout i) \<and> current_ptr i mu = alloc_at seg (compute_segment_layout i) k"

lemma set_ptr_same: "upd_alloc_heap (set_ptr i (current_ptr i mu)) mu = mu"
  by (simp add: upd_alloc_heap_def set_ptr_def current_ptr_def)

lemma bump_alloc_spec:
  assumes "ptr_at i seg k mu"
  shows "bump_alloc i mu = (case next_clear (bytes (hs_store (mu_heap mu))) (base0 seg) k (num_blocks (compute_segment_layout i)) of
      None \<Rightarrow> (NULL, mu)
    | Some j \<Rightarrow> (block_addr seg (compute_segment_layout i) j,
        upd_alloc_heap (set_ptr i (alloc_at seg (compute_segment_layout i) (Suc j))) mu))"
proof -
  let ?l = "compute_segment_layout i" and ?st = "hs_store (mu_heap mu)"
  have p: "i < NUM_SUBHEAPS" "SEGMENT_SIZE dvd seg" "layout_of ?st seg = ?l" "bitmaps_ok (bytes ?st) seg ?l"
    "k \<le> num_blocks ?l" "current_ptr i mu = alloc_at seg ?l k"
    using assms by (simp_all add: ptr_at_def layout_of_def)
  have l: "layout_ok ?l" by (rule compute_segment_layout_ok(1) [OF p(1)])
  have ptr: "heap_ptr (alloc_heap (mu_alloc mu)) i = alloc_at seg ?l k" using p(6) by (simp add: current_ptr_def)
  have test: "BITPTR_TEST (bytes ?st) (ap_b (alloc_at seg ?l k)) = bitmap_bit (bytes ?st) (base0 seg) k"
    by (simp add: alloc_at_def bitptr_test layout_bases [OF l])
  show ?thesis
  proof (cases "bitmap_bit (bytes ?st) (base0 seg) k")
    case True
    then show ?thesis
      using find_bitmap_spec [OF l p(3,2,4,5)] test set_ptr_same [of i mu] p(6)
      by (simp add: bump_alloc_def ptr split: option.splits)
  next
    case False
    then have "k < num_blocks ?l"
      using p(4,5) words_bounds(1) [of ?l] unfolding bitmaps_ok_def by (metis le_antisym not_le)
    then have "next_clear (bytes ?st) (base0 seg) k (num_blocks ?l) = Some k"
      using False unfolding next_clear_Some_iff by auto
    moreover have "(alloc_at seg ?l k)\<lparr>ap_b := BITPTR_INC (ap_b (alloc_at seg ?l k)),
        ap_p := ap_p (alloc_at seg ?l k) + ap_blocksize_bytes (alloc_at seg ?l k)\<rparr> = alloc_at seg ?l (Suc k)"
      by (simp add: alloc_at_def bitptr_inc block_addr_def)
    ultimately show ?thesis using False test by (simp add: bump_alloc_def ptr Let_def) (simp add: alloc_at_def)
  qed
qed

text \<open>
  C5: allocation of a small object.  \<open>sml_alloc\<close> chooses the smallest block size that holds the object
  and its header.  When the current segment of that size has a free block at or behind the
  allocation pointer, the call returns the first of them, the whole object lies in this block, and
  the allocation pointer moves right behind it; no byte of the heap changes.  Since blocks before
  the pointer are never returned, successive objects are in different blocks.
\<close>

theorem alloc_first_free_block:
  assumes "objsize \<le> BLOCKSIZE_MAX - OBJ_HEADER_SIZE" and "ptr_at (subheap_index_of objsize) seg k mu"
    and "k \<le> j" and "j < num_blocks (compute_segment_layout (subheap_index_of objsize))"
    and "\<not> used (bytes (hs_store (mu_heap mu))) seg j"
    and "\<And>h. k \<le> h \<Longrightarrow> h < j \<Longrightarrow> used (bytes (hs_store (mu_heap mu))) seg h"
  shows "let i = subheap_index_of objsize; l = compute_segment_layout i; obj = block_addr seg l j in
    2 ^ (i + BLOCKSIZE_MIN_LOG2) = blocksize_bytes l \<and>
    (i = 0 \<or> 2 ^ (i + BLOCKSIZE_MIN_LOG2 - 1) < OBJ_HEADER_SIZE + objsize) \<and>
    OBJ_HEADER_SIZE + objsize \<le> blocksize_bytes l \<and>
    obj - OBJ_HEADER_SIZE + blocksize_bytes l \<le> seg + SEGMENT_SIZE \<and>
    (\<exists>mu'. sml_alloc xmalloc check wait_gc objsize mu = Inr (obj, mu') \<and>
       mu_heap mu' = mu_heap mu \<and> ptr_at i seg (Suc j) mu')"
proof -
  let ?i = "subheap_index_of objsize" and ?st = "hs_store (mu_heap mu)"
  let ?l = "compute_segment_layout ?i" and ?obj = "block_addr seg (compute_segment_layout ?i) j"
  have i: "?i < NUM_SUBHEAPS" using assms(2) by (simp add: ptr_at_def)
  note ok = compute_segment_layout_ok [OF i] and cls = subheap_index_spec [OF assms(1)]
  have bs: "blocksize_bytes ?l = 2 ^ (?i + 3)" using ok by (simp add: layout_ok_def)
  have n: "next_clear (bytes ?st) (base0 seg) k (num_blocks ?l) = Some j"
    unfolding next_clear_Some_iff using assms(3-6) unfolding used_def by blast
  define mu' where "mu' = upd_alloc_heap (set_ptr ?i (alloc_at seg ?l (Suc j))) mu"
  have b: "bump_alloc ?i mu = (?obj, mu')" using bump_alloc_spec [OF assms(2)] n by (simp add: mu'_def)
  have nz: "?obj \<noteq> NULL" using layout_areas(5,6) [OF ok(1) assms(4), of seg] by simp
  have "sml_alloc xmalloc check wait_gc objsize mu = Inr (?obj, mu')"
    using assms(1) b nz by (simp add: sml_alloc_def)
  moreover have "mu_heap mu' = mu_heap mu" "ptr_at ?i seg (Suc j) mu'"
    using assms(2,4) by (simp_all add: mu'_def ptr_at_def upd_alloc_heap_def set_ptr_def current_ptr_def)
  moreover have "?obj - OBJ_HEADER_SIZE + blocksize_bytes ?l \<le> seg + SEGMENT_SIZE"
    using layout_areas(9) [OF ok(1) assms(4), of seg] bs ok(2) by simp
  ultimately show ?thesis using cls bs unfolding Let_def by auto
qed


definition sample_mutator :: mutator where
  "sample_mutator =
     \<lparr>mu_alloc = (init_allocator (init_subheap_count_init 4))
        \<lparr>alloc_heap := set_ptr 9 (alloc_at 32768 (compute_segment_layout 9) 2) (init_heap (init_subheap_count_init 4))\<rparr>,
      mu_heap = \<lparr>hs_store = sample_store,
        hs_pool = \<lparr>pool_subpool = (\<lambda>_. \<lparr>sp_filled = 0, sp_partial = 0, sp_partial_marked = 0\<rparr>), malloc_subpool = 0,
          pool_freelist = 0, pool_memory = \<lparr>mem_begin = 32768, mem_count = 4, mem_alloced = 1, mem_pagesize = 4096\<rparr>,
          min_num_segments = 4, max_num_segments = 4\<rparr>,
        hs_gc_requests = 0\<rparr>,
      mu_phase = ASYNC\<rparr>"

lemma sample_size_class: "subheap_index_of 4000 = 9"
proof -
  note s = subheap_index_spec [of 4000, simplified]
  have "9 \<le> subheap_index_of 4000"
  proof (rule ccontr)
    assume "\<not> 9 \<le> subheap_index_of 4000"
    then have "(2 :: nat) ^ (subheap_index_of 4000 + 3) \<le> 2 ^ 11" by (intro power_increasing) auto
    then show False using s(2) by simp
  qed
  then show ?thesis using s(1) by simp
qed

lemma sample_ptr_at: "ptr_at 9 32768 2 sample_mutator"
  using sample_store_ok(1,3) layout_num_blocks [of 9]
  by (simp add: ptr_at_def sample_mutator_def current_ptr_def set_ptr_def)

theorem alloc_first_free_block_witness:
  "\<exists>mu'. sml_alloc (\<lambda>_ _. 0) id id 4000 sample_mutator = Inr (block_addr 32768 (compute_segment_layout 9) 2, mu') \<and>
     ptr_at 9 32768 3 mu'"
proof -
  have n: "num_blocks (compute_segment_layout 9) = 7" using layout_num_blocks [of 9] by simp
  have st: "hs_store (mu_heap sample_mutator) = sample_store" by (simp add: sample_mutator_def)
  have "Suc 2 = 3" by simp
  then show ?thesis
    using alloc_first_free_block [of 4000 32768 2 sample_mutator 2 "\<lambda>_ _. 0" id id]
      sample_size_class sample_ptr_at sample_store_ok(4) [of 2] n st
    unfolding Let_def by auto
qed

section \<open>The write barrier\<close>

lemma remember_in_stack:
  assumes mk: "marking_of A st0 st" and x: "gc_pointer A st0 x"
    and stk: "mark_stack A st0 st (remembered_set alloc) xs" "distinct xs"
  shows "\<exists>alloc' st' ys. remember_in x (alloc, st) = (alloc', st') \<and> marking_of A st0 st' \<and>
    mark_stack A st0 st' (remembered_set alloc') (ys @ xs) \<and> distinct (ys @ xs) \<and>
    alloc_heap alloc' = alloc_heap alloc \<and> root_set alloc' = root_set alloc \<and>
    set ys = {y. y = x \<and> live_target A st0 y \<and> \<not> obj_marked st y} \<and>
    (\<forall>y. live_target A st0 y \<longrightarrow> obj_marked st' y = (obj_marked st y \<or> y = x))"
proof -
  from gc.push_valid [OF mk x stk(1) [folded gc_chain] stk(2)] obtain st' t' ys where
    1: "push x (st, remembered_set alloc) = (st', t')" "marking_of A st0 st'" "gc.chain A st0 st' t' (ys @ xs)"
      "distinct (ys @ xs)" "set ys = {y. y = x \<and> live_target A st0 y} - gc.marks A st0 st"
      "gc.marks A st0 st' = gc.marks A st0 st \<union> set ys" by blast
  have "remember_in x (alloc, st) = (alloc\<lparr>remembered_set := t'\<rparr>, st')"
    by (simp add: remember_in_def remember_push 1(1))
  moreover have "set ys = {y. y = x \<and> live_target A st0 y \<and> \<not> obj_marked st y}"
    unfolding 1(5) by (auto simp: gc.marks_def)
  moreover have "obj_marked st' y = (obj_marked st y \<or> y = x)" if "live_target A st0 y" for y
  proof -
    have "y \<in> gc.marks A st0 st' \<longleftrightarrow> y \<in> gc.marks A st0 st \<or> y = x"
      unfolding 1(6) using 1(5) that by auto
    then show ?thesis using that by (simp add: gc.marks_def)
  qed
  ultimately show ?thesis
    using 1(2-4) by (intro exI [of _ "alloc\<lparr>remembered_set := t'\<rparr>"] exI [of _ st'] exI [of _ ys]) (simp add: gc_chain)
qed

text \<open>The objects a write remembers in a phase: both values until the snapshot, then the old one.\<close>

definition barrier_objects :: "addr \<Rightarrow> addr \<Rightarrow> sml_sync_phase \<Rightarrow> addr set" where
  "barrier_objects old_value new_value phase =
     (case phase of
        SYNC1 \<Rightarrow> {old_value, new_value} | PRESYNC2 \<Rightarrow> {old_value, new_value} | SYNC2 \<Rightarrow> {old_value, new_value}
      | PREMARK \<Rightarrow> {old_value} | MARK \<Rightarrow> {old_value} | DUMMY_PHASE \<Rightarrow> {old_value} | _ \<Rightarrow> {})"

text \<open>
  C6: the write barrier.  In the synchronisation phases from \<open>SYNC1\<close> to \<open>SYNC2\<close> the old and the new
  value of a field, and while marking the old one, are marked and put on the thread's remembered
  set, which stays a mark stack that holds each object once; values the collection is not
  responsible for, or that are marked, are left alone; outside of a collection the barrier does
  nothing.
\<close>

theorem write_barrier_remembers:
  assumes mk: "marking_of A st0 st" and old: "gc_pointer A st0 old_value" and new: "gc_pointer A st0 new_value"
    and stk: "mark_stack A st0 st (remembered_set alloc) xs" "distinct xs"
  shows "\<exists>alloc' st' ys. barrier old_value new_value phase (alloc, st) = (alloc', st') \<and> marking_of A st0 st' \<and>
    mark_stack A st0 st' (remembered_set alloc') (ys @ xs) \<and> distinct (ys @ xs) \<and>
    set ys = {y \<in> barrier_objects old_value new_value phase. live_target A st0 y \<and> \<not> obj_marked st y} \<and>
    (\<forall>y. live_target A st0 y \<longrightarrow>
       obj_marked st' y = (obj_marked st y \<or> y \<in> barrier_objects old_value new_value phase))"
proof -
  consider (none) "phase \<in> {PREASYNC, ASYNC, PRESYNC1}" | (both) "phase \<in> {SYNC1, PRESYNC2, SYNC2}"
    | (one) "phase \<in> {PREMARK, MARK, DUMMY_PHASE}" by (cases phase) auto
  then show ?thesis
  proof cases
    case none
    then have "barrier old_value new_value phase (alloc, st) = (alloc, st)" "barrier_objects old_value new_value phase = {}"
      by (auto simp: barrier_def phase_order barrier_objects_def)
    then show ?thesis using mk stk by (auto intro!: exI [of _ "[]"])
  next
    case one
    then have e: "barrier old_value new_value phase (alloc, st) = remember_in old_value (alloc, st)"
      "barrier_objects old_value new_value phase = {old_value}"
      by (auto simp: barrier_def phase_order barrier_objects_def)
    have s: "{y \<in> {old_value}. live_target A st0 y \<and> \<not> obj_marked st y} = {y. y = old_value \<and> live_target A st0 y \<and> \<not> obj_marked st y}"
      by auto
    from remember_in_stack [OF mk old stk] show ?thesis unfolding e s by auto
  next
    case both
    then have e: "barrier old_value new_value phase (alloc, st) = remember_in old_value (remember_in new_value (alloc, st))"
      "barrier_objects old_value new_value phase = {old_value, new_value}"
      by (auto simp: barrier_def phase_order barrier_objects_def)
    from remember_in_stack [OF mk new stk] obtain alloc1 st1 ys where
      1: "remember_in new_value (alloc, st) = (alloc1, st1)" "marking_of A st0 st1"
        "mark_stack A st0 st1 (remembered_set alloc1) (ys @ xs)" "distinct (ys @ xs)"
        "set ys = {y. y = new_value \<and> live_target A st0 y \<and> \<not> obj_marked st y}"
        "\<forall>y. live_target A st0 y \<longrightarrow> obj_marked st1 y = (obj_marked st y \<or> y = new_value)" by blast
    from remember_in_stack [OF 1(2) old 1(3,4)] obtain alloc2 st2 zs where
      2: "remember_in old_value (alloc1, st1) = (alloc2, st2)" "marking_of A st0 st2"
        "mark_stack A st0 st2 (remembered_set alloc2) (zs @ ys @ xs)" "distinct (zs @ ys @ xs)"
        "set zs = {y. y = old_value \<and> live_target A st0 y \<and> \<not> obj_marked st1 y}"
        "\<forall>y. live_target A st0 y \<longrightarrow> obj_marked st2 y = (obj_marked st1 y \<or> y = old_value)" by blast
    have "set (zs @ ys) = {y \<in> {old_value, new_value}. live_target A st0 y \<and> \<not> obj_marked st y}"
      using 1(5,6) 2(5) by auto
    moreover have "\<forall>y. live_target A st0 y \<longrightarrow> obj_marked st2 y = (obj_marked st y \<or> y \<in> {old_value, new_value})"
      using 1(6) 2(6) by auto
    ultimately show ?thesis
      unfolding e 1(1) using 2(1-4) by (intro exI [of _ alloc2] exI [of _ st2] exI [of _ "zs @ ys"]) simp
  qed
qed

theorem write_barrier_remembers_witness:
  "\<exists>alloc' st'. barrier 36976 32880 SYNC2 (init_allocator (init_subheap_count_init 4), sample_objects) = (alloc', st') \<and>
     obj_marked st' 36976 \<and> obj_marked st' 32880"
proof -
  let ?A = "{32880, 36976} :: addr set"
  have p: "gc_pointer ?A sample_objects 36976" "gc_pointer ?A sample_objects 32880" by (simp_all add: gc_pointer_def)
  have l: "live_target ?A sample_objects 36976" "live_target ?A sample_objects 32880"
    using sample_targets by (simp_all add: live_target_def)
  from write_barrier_remembers [OF marking_refl [OF sample_heap_wf] p, of "init_allocator (init_subheap_count_init 4)" "[]" SYNC2]
  show ?thesis using l by (auto simp: init_allocator_def barrier_objects_def)
qed

end
