(* ===== verification/Sweep.thy ===== *)
theory Sweep
  imports Collect
begin

text \<open>
  What reclamation does to the segments of a subheap: every segment's used blocks become those
  the collection has marked, and the segments are sorted into free ones, ready for any block size,
  partly used ones to allocate in, and filled ones.
\<close>

section \<open>Clean segments from bitmaps\<close>

lemma word_of_index:
  assumes "i < 2 * w0 + (w1 :: nat)"
  obtains (low) "i < w0" | (up) k where "i = w0 + k" "k < w1" | (mark) k where "i = w0 + w1 + k" "k < w0"
proof -
  consider "i < w0" | "w0 \<le> i" "i < w0 + w1" | "w0 + w1 \<le> i" by linarith
  then show thesis
  proof cases
    case 2
    then show ?thesis using up [of "i - w0"] by simp
  next
    case 3
    then show ?thesis using mark [of "i - (w0 + w1)"] assms by simp
  qed (rule low)
qed

lemma clean_from_bitmaps:
  assumes l: "layout_ok l" and ok: "bitmaps_ok m seg l"
    and un: "\<And>j. j < num_blocks l \<Longrightarrow> \<not> used m seg j" and um: "\<And>j. j < 32 * words0 l \<Longrightarrow> \<not> marked m seg l j"
  shows "seg_clean m seg l"
  unfolding seg_clean_def layout_sentinels [OF l]
proof (intro allI impI)
  let ?w0 = "words0 l" and ?w1 = "words1 l" and ?n = "num_blocks l"
  fix i assume i: "i < 2 * ?w0 + ?w1"
  have nz: "?n mod 32 \<noteq> 0" using l by (simp add: layout_ok_def)
  have nb: "?n = 32 * (?w0 - 1) + ?n mod 32" using words_bounds(3) [of l] by simp
  have b0: "bitmap_bit m (base0 seg) j \<longleftrightarrow> ?n \<le> j" if "j < 32 * ?w0" for j
    using ok un [of j] that unfolding bitmaps_ok_def used_def by (meson leD leI)
  have full: "\<not> (\<forall>h<32. bitmap_bit m (base0 seg) (32 * k + h))" if "k < ?w0" for k
    using b0 [of "32 * k"] nz nb that by (auto intro!: exI [of _ 0])
  have b1: "bitmap_bit m (base1 seg l) k \<longleftrightarrow> ?w0 \<le> k" if "k < 32 * ?w1" for k
    using ok full [of k] that unfolding bitmaps_ok_def by (meson leD leI)
  show "load32 m (base0 seg + 4 * i) = (if i = ?w0 - 1 then push_bit (?n mod 32) (- 1)
      else if i = ?w0 + ?w1 - 1 then push_bit (?w0 mod 32) (- 1) else 0)"
    using i
  proof (cases rule: word_of_index)
    case low
    have "bit (load32 m (base0 seg + 4 * i)) h \<longleftrightarrow> i = ?w0 - 1 \<and> ?n mod 32 \<le> h" if "h < 32" for h
    proof -
      have "bit (load32 m (base0 seg + 4 * i)) h \<longleftrightarrow> ?n \<le> 32 * i + h"
        using b0 [of "32 * i + h"] bitmap_bit_word [OF that, of m "base0 seg" i] low that by simp
      also have "\<dots> \<longleftrightarrow> i = ?w0 - 1 \<and> ?n mod 32 \<le> h"
        using word_le [of ?n "32 * i + h"] low that words_bounds(3) [of l] by auto
      finally show ?thesis .
    qed
    then have "load32 m (base0 seg + 4 * i) = (if i = ?w0 - 1 then push_bit (?n mod 32) (- 1) else 0)"
      by (intro bit_word_eqI) (auto simp: bit_sentinel simp del: push_bit_minus_one_eq_not_mask)
    then show ?thesis using low words_bounds(7) [of l] by auto
  next
    case (up k)
    have eq: "base0 seg + 4 * i = base1 seg l + 4 * k" using up by (simp add: base1_def)
    have "bit (load32 m (base0 seg + 4 * i)) h \<longleftrightarrow> k = ?w1 - 1 \<and> ?w0 mod 32 \<le> h" if "h < 32" for h
    proof -
      have "bit (load32 m (base0 seg + 4 * i)) h \<longleftrightarrow> ?w0 \<le> 32 * k + h"
        using b1 [of "32 * k + h"] bitmap_bit_word [OF that, of m "base1 seg l" k] up that unfolding eq by simp
      also have "\<dots> \<longleftrightarrow> k = ?w1 - 1 \<and> ?w0 mod 32 \<le> h"
        using word_le [of ?w0 "32 * k + h"] up that words_bounds(5) [of l] by auto
      finally show ?thesis .
    qed
    then have "load32 m (base0 seg + 4 * i) = (if k = ?w1 - 1 then push_bit (?w0 mod 32) (- 1) else 0)"
      by (intro bit_word_eqI) (auto simp: bit_sentinel simp del: push_bit_minus_one_eq_not_mask)
    moreover have "i \<noteq> ?w0 - 1" "i = ?w0 + ?w1 - 1 \<longleftrightarrow> k = ?w1 - 1" using up words_bounds(6,7) [of l] by auto
    ultimately show ?thesis by simp
  next
    case (mark k)
    have eq: "base0 seg + 4 * i = base2 seg l + 4 * k" using mark by (simp add: base2_def)
    have "\<not> bit (load32 m (base0 seg + 4 * i)) h" if "h < 32" for h
      using um [of "32 * k + h"] bitmap_bit_word [OF that, of m "base2 seg l" k] mark that unfolding eq marked_def by simp
    then have "load32 m (base0 seg + 4 * i) = 0" by (intro word_eq_zeroI) simp
    then show ?thesis using mark words_bounds(6,7) [of l] by auto
  qed
qed

section \<open>Segments that keep their contents\<close>

definition same_seg :: "addr \<Rightarrow> seg_store \<Rightarrow> seg_store \<Rightarrow> bool" where
  "same_seg s st st' \<longleftrightarrow>
     (\<forall>a. s \<le> a \<and> a < s + SEGMENT_SIZE \<longrightarrow> bytes st' a = bytes st a) \<and>
     segs st' s = (segs st s)\<lparr>seg_next := seg_next (segs st' s)\<rparr>"

lemma same_seg_refl: "same_seg s st st"
  by (simp add: same_seg_def)

lemma same_seg_trans:
  assumes "same_seg s st st'" and "same_seg s st' st''"
  shows "same_seg s st st''"
proof -
  have "segs st'' s = ((segs st s)\<lparr>seg_next := seg_next (segs st' s)\<rparr>)\<lparr>seg_next := seg_next (segs st'' s)\<rparr>"
    using assms unfolding same_seg_def by metis
  then show ?thesis using assms by (simp add: same_seg_def)
qed

lemma same_seg_fields:
  assumes "same_seg s st st'"
  shows "seg_layout (segs st' s) = seg_layout (segs st s)" "allocptr_snapshot (segs st' s) = allocptr_snapshot (segs st s)"
    "seg_free_count (segs st' s) = seg_free_count (segs st s)"
proof -
  have e: "segs st' s = (segs st s)\<lparr>seg_next := seg_next (segs st' s)\<rparr>" using assms by (simp add: same_seg_def)
  show "seg_layout (segs st' s) = seg_layout (segs st s)" by (subst e) simp
  show "allocptr_snapshot (segs st' s) = allocptr_snapshot (segs st s)" by (subst e) simp
  show "seg_free_count (segs st' s) = seg_free_count (segs st s)" by (subst e) simp
qed

lemma same_seg_bitmaps:
  assumes l: "layout_ok l" and s: "same_seg s st st'"
  shows "j < 32 * words0 l \<Longrightarrow> used (bytes st') s j = used (bytes st) s j"
    and "j < 32 * words0 l \<Longrightarrow> marked (bytes st') s l j = marked (bytes st) s l j"
    and "bitmaps_ok (bytes st') s l = bitmaps_ok (bytes st) s l"
    and "seg_clean (bytes st') s l = seg_clean (bytes st) s l"
proof -
  have z: "zerofill_limit l = 32 + 8 * words0 l + 4 * words1 l" "zerofill_limit l \<le> SEGMENT_SIZE"
    using l by (simp_all add: layout_ok_def)
  have w: "load32 (bytes st') (base0 s + 4 * i) = load32 (bytes st) (base0 s + 4 * i)" if "i < 2 * words0 l + words1 l" for i
    by (rule load32_cong) (use s z that in \<open>auto simp: same_seg_def\<close>)
  have b: "bitmap_bit (bytes st') (base0 s + 4 * q) j = bitmap_bit (bytes st) (base0 s + 4 * q) j"
    if "q + j div 32 < 2 * words0 l + words1 l" for q j
    using w [OF that] by (simp add: bitmap_bit_def add.assoc)
  have e: "base1 s l = base0 s + 4 * words0 l" "base2 s l = base0 s + 4 * (words0 l + words1 l)"
    by (simp_all add: base1_def base2_def)
  have d: "j div 32 < q" if "j < 32 * q" for j q :: nat using that by (simp add: less_mult_imp_div_less mult.commute)
  show u: "used (bytes st') s j = used (bytes st) s j" if "j < 32 * words0 l" for j
    using b [of 0 j] d [OF that] by (simp add: used_def)
  show "marked (bytes st') s l j = marked (bytes st) s l j" if "j < 32 * words0 l" for j
    using b [of "words0 l + words1 l" j] d [OF that] by (simp add: marked_def e)
  have s1: "bitmap_bit (bytes st') (base1 s l) k = bitmap_bit (bytes st) (base1 s l) k" if "k < 32 * words1 l" for k
    using b [of "words0 l" k] d [OF that] by (simp add: e)
  show "bitmaps_ok (bytes st') s l = bitmaps_ok (bytes st) s l"
    using u s1 words_bounds(4) [of l] unfolding bitmaps_ok_def used_def by auto
  show "seg_clean (bytes st') s l = seg_clean (bytes st) s l" using w unfolding seg_clean_def by auto
qed

lemma set_next_same: "same_seg s st (set_seg_next a p st)"
  by (simp add: same_seg_def set_seg_next_def upd_seg_def)

lemma other_seg_bytes:
  assumes "\<And>a. a < t \<or> t + SEGMENT_SIZE \<le> a \<Longrightarrow> bytes st' a = bytes st a" and "segs st' s = segs st s"
    and "SEGMENT_SIZE dvd s" and "SEGMENT_SIZE dvd t" and "s \<noteq> t"
  shows "same_seg s st st'"
  using assms segments_disjoint [OF assms(3,4)] unfolding same_seg_def by (metis not_le segment.surjective segment.update_convs(1))

section \<open>Effects on one segment\<close>

lemma layout_class: "i < NUM_SUBHEAPS \<Longrightarrow> seg_layout (segs st s) = Some i \<Longrightarrow>
    layout_of st s = compute_segment_layout i \<and> layout_ok (compute_segment_layout i)"
  using compute_segment_layout_ok by (simp add: layout_of_def)

lemma copy_bitmap_effect:
  assumes i: "i < NUM_SUBHEAPS" and s: "seg_layout (segs st s) = Some i"
  defines "l \<equiv> compute_segment_layout i" and "st' \<equiv> copy_bitmap s st"
  shows "segs st' = segs st" "layout_of st' s = l" "bitmaps_ok (bytes st') s l"
    "j < num_blocks l \<Longrightarrow> used (bytes st') s j = marked (bytes st) s l j"
    "j < 32 * words0 l \<Longrightarrow> marked (bytes st') s l j = marked (bytes st) s l j"
    "a < s \<or> s + SEGMENT_SIZE \<le> a \<Longrightarrow> bytes st' a = bytes st a"
    "STACK_BASE s l \<le> a \<Longrightarrow> bytes st' a = bytes st a"
proof -
  have l: "layout_of st s = l" "layout_ok l" using layout_class [where i = i and st = st and s = s] i s by (auto simp: l_def)
  have e: "bytes st' = copy_collect_bitmap s l (bytes st)" by (simp add: st'_def copy_bitmap_def upd_bytes_def l)
  note c = copy_collect_bitmap_spec [OF l(2), where seg = s and m = "bytes st"]
  show sg: "segs st' = segs st" by (simp add: st'_def copy_bitmap_def upd_bytes_def)
  show "layout_of st' s = l" using sg s by (simp add: layout_of_def l_def)
  show "bitmaps_ok (bytes st') s l" "j < num_blocks l \<Longrightarrow> used (bytes st') s j = marked (bytes st) s l j"
    unfolding e using c by blast+
  show "marked (bytes st') s l j = marked (bytes st) s l j"
    unfolding e marked_def by (rule bitmap_bit_cong) (use c(3) in auto)
  have z: "base2 s l \<le> STACK_BASE s l" "base2 s l \<le> s + SEGMENT_SIZE" "s \<le> base0 s"
    using l(2) by (auto simp: layout_ok_def base2_def STACK_BASE_def)
  show "a < s \<or> s + SEGMENT_SIZE \<le> a \<Longrightarrow> bytes st' a = bytes st a" "STACK_BASE s l \<le> a \<Longrightarrow> bytes st' a = bytes st a"
    unfolding e using c(3) z by auto
qed

lemma clear_bitmap_effect:
  assumes i: "i < NUM_SUBHEAPS" and s: "seg_layout (segs st s) = Some i"
  defines "l \<equiv> compute_segment_layout i" and "st' \<equiv> clear_bitmap s st"
  shows "segs st' = segs st" "bitmaps_ok (bytes st') s l = bitmaps_ok (bytes st) s l"
    "j < 32 * words0 l \<Longrightarrow> used (bytes st') s j = used (bytes st) s j"
    "j < 32 * words0 l \<Longrightarrow> \<not> marked (bytes st') s l j"
    "a < s \<or> s + SEGMENT_SIZE \<le> a \<Longrightarrow> bytes st' a = bytes st a"
    "STACK_BASE s l \<le> a \<Longrightarrow> bytes st' a = bytes st a"
proof -
  have l: "layout_of st s = l" "layout_ok l" using layout_class [where i = i and st = st and s = s] i s by (auto simp: l_def)
  have e: "bytes st' = clear_collect_bitmap s l (bytes st)" by (simp add: st'_def clear_bitmap_def upd_bytes_def l)
  note c = clear_collect_bitmap_spec [OF l(2), where seg = s and m = "bytes st"]
  show "segs st' = segs st" by (simp add: st'_def clear_bitmap_def upd_bytes_def)
  show "bitmaps_ok (bytes st') s l = bitmaps_ok (bytes st) s l" "j < 32 * words0 l \<Longrightarrow> used (bytes st') s j = used (bytes st) s j"
    "j < 32 * words0 l \<Longrightarrow> \<not> marked (bytes st') s l j"
    unfolding e using c by blast+
  have z: "s + zerofill_limit l \<le> STACK_BASE s l" "s + zerofill_limit l \<le> s + SEGMENT_SIZE" "s \<le> base2 s l"
    using l(2) by (auto simp: layout_ok_def base2_def STACK_BASE_def)
  show "a < s \<or> s + SEGMENT_SIZE \<le> a \<Longrightarrow> bytes st' a = bytes st a" "STACK_BASE s l \<le> a \<Longrightarrow> bytes st' a = bytes st a"
    unfolding e using c(2) z by auto
qed


section \<open>Classes of swept segments\<close>

text \<open>
  \<open>swept i st0 st s\<close>: the used blocks of segment \<open>s\<close> are those that were marked in \<open>st0\<close>, and the
  blocks themselves are as in \<open>st0\<close>.
\<close>

definition swept :: "nat \<Rightarrow> seg_store \<Rightarrow> seg_store \<Rightarrow> addr \<Rightarrow> bool" where
  "swept i st0 st s \<longleftrightarrow> (let l = compute_segment_layout i in
     seg_layout (segs st s) = Some i \<and> bitmaps_ok (bytes st) s l \<and>
     (\<forall>j<num_blocks l. used (bytes st) s j = marked (bytes st0) s l j) \<and>
     (\<forall>a. STACK_BASE s l \<le> a \<and> a < s + SEGMENT_SIZE \<longrightarrow> bytes st a = bytes st0 a))"

definition unmarked :: "nat \<Rightarrow> seg_store \<Rightarrow> addr \<Rightarrow> bool" where
  "unmarked i st s \<longleftrightarrow>
     (\<forall>j<32 * words0 (compute_segment_layout i). \<not> marked (bytes st) s (compute_segment_layout i) j)"

definition free_segment :: "nat \<Rightarrow> seg_store \<Rightarrow> seg_store \<Rightarrow> addr \<Rightarrow> bool" where
  "free_segment i st0 st s \<longleftrightarrow> swept i st0 st s \<and> seg_clean (bytes st) s (compute_segment_layout i) \<and>
     allocptr_snapshot (segs st s) = BLOCK_BASE s (compute_segment_layout i) \<and>
     seg_free_count (segs st s) = num_blocks (compute_segment_layout i)"

definition partial_segment :: "nat \<Rightarrow> seg_store \<Rightarrow> seg_store \<Rightarrow> addr \<Rightarrow> bool" where
  "partial_segment i st0 st s \<longleftrightarrow> swept i st0 st s \<and> unmarked i st s \<and>
     allocptr_snapshot (segs st s) = BLOCK_BASE s (compute_segment_layout i) \<and>
     seg_free_count (segs st s) = card {j. j < num_blocks (compute_segment_layout i) \<and> \<not> used (bytes st) s j} \<and>
     seg_free_count (segs st s) < num_blocks (compute_segment_layout i)"

definition filled_segment :: "nat \<Rightarrow> seg_store \<Rightarrow> seg_store \<Rightarrow> addr \<Rightarrow> bool" where
  "filled_segment i st0 st s \<longleftrightarrow> swept i st0 st s \<and> unmarked i st s \<and>
     allocptr_snapshot (segs st s) = BLOCK_LIMIT s (compute_segment_layout i)"

text \<open>
  What becomes of a segment, read off its marks and its snapshot before the sweep.  A partial
  segment is free when no block of it is marked, and partial otherwise.  A filled segment stays
  filled when it holds newborn objects (its snapshot is not at its end) or when all its blocks are
  marked.
\<close>

datatype seg_class = Seg_Free | Seg_Partial | Seg_Filled

definition unmarked_count :: "nat \<Rightarrow> seg_store \<Rightarrow> addr \<Rightarrow> nat" where
  "unmarked_count i st s =
     card {j. j < num_blocks (compute_segment_layout i) \<and> \<not> marked (bytes st) s (compute_segment_layout i) j}"

definition sweep_class :: "nat \<Rightarrow> seg_store \<Rightarrow> addr list \<Rightarrow> addr \<Rightarrow> seg_class" where
  "sweep_class i st Ps s =
     (if s \<notin> set Ps \<and> (allocptr_snapshot (segs st s) < BLOCK_LIMIT s (compute_segment_layout i) \<or> unmarked_count i st s = 0)
      then Seg_Filled
      else if unmarked_count i st s = num_blocks (compute_segment_layout i) then Seg_Free
      else Seg_Partial)"

lemmas segment_classes = free_segment_def partial_segment_def filled_segment_def

lemma swept_same:
  assumes "i < NUM_SUBHEAPS" and "same_seg s st st'" and "swept i st0 st s"
  shows "swept i st0 st' s"
proof -
  note l = compute_segment_layout_ok(1) [OF assms(1)]
  note b = same_seg_bitmaps [OF l assms(2)]
  show ?thesis
    using assms(2,3) b(1,3) same_seg_fields(1) [OF assms(2)] words_bounds(1) [of "compute_segment_layout i"]
    unfolding swept_def Let_def by (auto simp: same_seg_def STACK_BASE_def)
qed

lemma classes_same:
  assumes i: "i < NUM_SUBHEAPS" and s: "same_seg s st st'"
  shows "free_segment i st0 st s \<Longrightarrow> free_segment i st0 st' s"
    and "partial_segment i st0 st s \<Longrightarrow> partial_segment i st0 st' s"
    and "filled_segment i st0 st s \<Longrightarrow> filled_segment i st0 st' s"
proof -
  note l = compute_segment_layout_ok(1) [OF i]
  note b = same_seg_bitmaps [OF l s] and f = same_seg_fields [OF s] and w = words_bounds(1) [of "compute_segment_layout i"]
  have um: "unmarked i st' s = unmarked i st s" using b(2) unfolding unmarked_def by simp
  have us: "{j. j < num_blocks (compute_segment_layout i) \<and> \<not> used (bytes st') s j}
      = {j. j < num_blocks (compute_segment_layout i) \<and> \<not> used (bytes st) s j}"
    using b(1) w by auto
  show "free_segment i st0 st s \<Longrightarrow> free_segment i st0 st' s"
    "partial_segment i st0 st s \<Longrightarrow> partial_segment i st0 st' s"
    "filled_segment i st0 st s \<Longrightarrow> filled_segment i st0 st' s"
    unfolding segment_classes f um us b(4) using swept_same [OF i s] by blast+
qed

lemma swept_count:
  assumes "swept i st0 st s"
  shows "card {j. j < num_blocks (compute_segment_layout i) \<and> \<not> used (bytes st) s j} = unmarked_count i st0 s"
proof -
  have "{j. j < num_blocks (compute_segment_layout i) \<and> \<not> used (bytes st) s j}
      = {j. j < num_blocks (compute_segment_layout i) \<and> \<not> marked (bytes st0) s (compute_segment_layout i) j}"
    using assms by (auto simp: swept_def Let_def)
  then show ?thesis by (simp add: unmarked_count_def)
qed

text \<open>A segment of class \<open>i\<close> before the sweep.\<close>

definition managed :: "nat \<Rightarrow> seg_store \<Rightarrow> addr \<Rightarrow> bool" where
  "managed i st s \<longleftrightarrow> SEGMENT_SIZE dvd s \<and> s \<noteq> NULL \<and> seg_layout (segs st s) = Some i \<and>
     (\<forall>j. num_blocks (compute_segment_layout i) \<le> j \<and> j < 32 * words0 (compute_segment_layout i) \<longrightarrow>
        \<not> marked (bytes st) s (compute_segment_layout i) j)"

lemma managed_same:
  assumes "i < NUM_SUBHEAPS" and "same_seg s st st'" and "managed i st s"
  shows "managed i st' s"
  using assms same_seg_bitmaps(2) [OF compute_segment_layout_ok(1) [OF assms(1)] assms(2)] same_seg_fields(1) [OF assms(2)]
  unfolding managed_def by auto

text \<open>
  One segment through \<open>copy_collect_bitmap\<close> and \<open>free_count\<close>: \<open>c\<close> is the store with the copied
  bitmap and the new count.
\<close>

lemma sweep_one:
  assumes i: "i < NUM_SUBHEAPS" and m: "managed i st s"
  defines "l \<equiv> compute_segment_layout i" and "c \<equiv> copy_bitmap s st"
  defines "n \<equiv> seg_count_free s NULL c"
  shows "layout_of c s = l" and "segs c = segs st" and "swept i st c s"
    and "n = card {j. j < num_blocks l \<and> \<not> used (bytes c) s j}" and "n \<le> num_blocks l"
    and "n = num_blocks l \<Longrightarrow> seg_clean (bytes c) s l"
    and "a < s \<or> s + SEGMENT_SIZE \<le> a \<Longrightarrow> bytes c a = bytes st a"
proof -
  have sl: "seg_layout (segs st s) = Some i" using m by (simp add: managed_def)
  note e = copy_bitmap_effect [OF i sl, folded l_def c_def]
  have l: "layout_ok l" unfolding l_def by (rule compute_segment_layout_ok [OF i])
  show "layout_of c s = l" "segs c = segs st" "a < s \<or> s + SEGMENT_SIZE \<le> a \<Longrightarrow> bytes c a = bytes st a" by (rule e; assumption?)+
  show "swept i st c s" unfolding swept_def Let_def l_def [symmetric] using e sl by auto
  show n: "n = card {j. j < num_blocks l \<and> \<not> used (bytes c) s j}"
    unfolding n_def seg_count_free_def e(2) by (rule free_count_spec(1) [OF l e(3)])
  have fin: "finite {..<num_blocks l}" and sub: "{j. j < num_blocks l \<and> \<not> used (bytes c) s j} \<subseteq> {..<num_blocks l}" by auto
  show "n \<le> num_blocks l" unfolding n using card_mono [OF fin sub] by simp
  show "seg_clean (bytes c) s l" if "n = num_blocks l"
  proof -
    have "{j. j < num_blocks l \<and> \<not> used (bytes c) s j} = {..<num_blocks l}"
      by (rule card_subset_eq [OF fin sub]) (use that n in simp)
    then have un: "\<not> used (bytes c) s j" if "j < num_blocks l" for j using that by blast
    then have "\<not> marked (bytes c) s l j" if "j < 32 * words0 l" for j
      using that e(4,5) [of j] m by (cases "j < num_blocks l") (auto simp: managed_def l_def)
    then show ?thesis using clean_from_bitmaps [OF l e(3) un] by blast
  qed
qed

lemma upd_seg_classes:
  assumes "i < NUM_SUBHEAPS"
  shows "swept i st0 (upd_seg s (\<lambda>g. g\<lparr>seg_free_count := n\<rparr>) st) s = swept i st0 st s"
    "swept i st0 (upd_seg s (\<lambda>g. g\<lparr>allocptr_snapshot := p\<rparr>) st) s = swept i st0 st s"
    "swept i st0 (upd_seg s (\<lambda>g. g\<lparr>allocptr_snapshot := p, seg_free_count := n\<rparr>) st) s = swept i st0 st s"
  by (simp_all add: swept_def upd_seg_def Let_def)

lemma clear_swept:
  assumes i: "i < NUM_SUBHEAPS" and s: "swept i st0 st s"
  shows "swept i st0 (clear_bitmap s st) s" and "unmarked i (clear_bitmap s st) s"
    and "j < num_blocks (compute_segment_layout i) \<Longrightarrow> used (bytes (clear_bitmap s st)) s j = used (bytes st) s j"
    and "segs (clear_bitmap s st) = segs st"
    and "a < s \<or> s + SEGMENT_SIZE \<le> a \<Longrightarrow> bytes (clear_bitmap s st) a = bytes st a"
proof -
  have sl: "seg_layout (segs st s) = Some i" using s by (simp add: swept_def Let_def)
  note e = clear_bitmap_effect [OF i sl] and w = words_bounds(1) [of "compute_segment_layout i"]
  show "swept i st0 (clear_bitmap s st) s" using s e w unfolding swept_def Let_def by auto
  show "unmarked i (clear_bitmap s st) s" using e(4) unfolding unmarked_def by blast
  show "j < num_blocks (compute_segment_layout i) \<Longrightarrow> used (bytes (clear_bitmap s st)) s j = used (bytes st) s j"
    using e(3) w by simp
  show "segs (clear_bitmap s st) = segs st" by (rule e)
  show "a < s \<or> s + SEGMENT_SIZE \<le> a \<Longrightarrow> bytes (clear_bitmap s st) a = bytes st a" by (rule e)
qed


section \<open>The lists of a sweep\<close>

text \<open>The store changes in segment \<open>s\<close> only, and not in its link.\<close>

definition touches :: "addr \<Rightarrow> seg_store \<Rightarrow> seg_store \<Rightarrow> bool" where
  "touches s st st' \<longleftrightarrow>
     (\<forall>a. a < s \<or> s + SEGMENT_SIZE \<le> a \<longrightarrow> bytes st' a = bytes st a) \<and>
     (\<forall>t. t \<noteq> s \<longrightarrow> segs st' t = segs st t) \<and> get_seg_next st' s = get_seg_next st s"

lemma touches_next: "touches s st st' \<Longrightarrow> get_seg_next st' t = get_seg_next st t"
  by (cases "t = s") (simp_all add: touches_def get_seg_next_def)

lemma touches_same: "touches s st st' \<Longrightarrow> SEGMENT_SIZE dvd s \<Longrightarrow> SEGMENT_SIZE dvd t \<Longrightarrow> t \<noteq> s \<Longrightarrow> same_seg t st st'"
  by (rule other_seg_bytes [of s]) (auto simp: touches_def)

lemma touches_refl: "touches s st st"
  by (simp add: touches_def)

lemma touches_upd: "touches s st st' \<Longrightarrow> seg_next (f (segs st' s)) = seg_next (segs st' s) \<Longrightarrow> touches s st (upd_seg s f st')"
  by (simp add: touches_def upd_seg_def get_seg_next_def)

text \<open>
  In the course of a sweep: the lists of free, partial and filled segments hold \<open>F\<close> (behind the
  segments \<open>F0\<close> that were free before), \<open>P\<close> and \<open>Q\<close>, each segment in the list that \<open>K\<close> says;
  segments outside of \<open>D\<close> are as in \<open>st0\<close>.
\<close>

definition sweep_inv ::
  "nat \<Rightarrow> seg_store \<Rightarrow> (addr \<Rightarrow> seg_class) \<Rightarrow> addr list \<Rightarrow> addr set \<Rightarrow> addr list \<Rightarrow> addr list \<Rightarrow> addr list
   \<Rightarrow> reclaim_state \<Rightarrow> bool" where
  "sweep_inv i st0 K F0 D F P Q r \<longleftrightarrow>
     seg.open_list (r_store r) (r_free r) (F0 @ F) \<and> seg.open_list (r_store r) (r_partial r) P \<and>
     seg.open_list (r_store r) (r_filled r) Q \<and>
     distinct (F0 @ F @ P @ Q) \<and> set (F @ P @ Q) \<subseteq> D \<and> (\<forall>s\<in>D. SEGMENT_SIZE dvd s) \<and>
     (\<forall>s\<in>set F. free_segment i st0 (r_store r) s) \<and> (\<forall>s\<in>set P. partial_segment i st0 (r_store r) s) \<and>
     (\<forall>s\<in>set Q. filled_segment i st0 (r_store r) s) \<and>
     (\<forall>t. SEGMENT_SIZE dvd t \<and> t \<notin> D \<longrightarrow> same_seg t st0 (r_store r)) \<and>
     (\<forall>t. t \<notin> set (F0 @ F @ P @ Q) \<longrightarrow> get_seg_next (r_store r) t = get_seg_next st0 t) \<and>
     (\<forall>s\<in>set F. K s = Seg_Free) \<and> (\<forall>s\<in>set P. K s = Seg_Partial) \<and>
     (\<forall>s\<in>set Q. K s = Seg_Filled \<and> seg_free_count (segs (r_store r) s) = unmarked_count i st0 s)"

text \<open>What appending the swept segment \<open>s\<close> to one of the lists does to the other segments.\<close>

lemma append_frame:
  assumes ol: "seg.open_list st1 l xs" and s: "s \<noteq> NULL" "s \<notin> set xs"
  shows "\<exists>l' st2. LIST_APPEND set_seg_next l s st1 = (l', st2) \<and> seg.open_list st2 l' (xs @ [s]) \<and>
    (\<forall>t. same_seg t st1 st2) \<and> (\<forall>t. t \<notin> set xs \<longrightarrow> get_seg_next st2 t = get_seg_next st1 t)"
proof -
  have "seg_node s" using s(1) by (simp add: seg_node_def)
  from seg.append_spec [OF ol this s(2)] obtain l' st2 where
    1: "LIST_APPEND set_seg_next l s st1 = (l', st2)" "seg.open_list st2 l' (xs @ [s])"
      "st2 = st1 \<or> xs \<noteq> [] \<and> st2 = set_seg_next (last xs) s st1" by blast
  have "same_seg t st1 st2" for t using 1(3) set_next_same same_seg_refl by blast
  moreover have "get_seg_next st2 t = get_seg_next st1 t" if "t \<notin> set xs" for t
    using 1(3) that last_in_set [of xs] by (auto simp: set_seg_next_def upd_seg_def get_seg_next_def)
  ultimately show ?thesis using 1 by blast
qed

lemma sweep_invD:
  assumes "sweep_inv i st0 K F0 D F P Q r"
  shows "seg.open_list (r_store r) (r_free r) (F0 @ F)" "seg.open_list (r_store r) (r_partial r) P"
    "seg.open_list (r_store r) (r_filled r) Q" "distinct (F0 @ F @ P @ Q)" "set (F @ P @ Q) \<subseteq> D"
    "s \<in> D \<Longrightarrow> SEGMENT_SIZE dvd s" "s \<in> set F \<Longrightarrow> free_segment i st0 (r_store r) s"
    "s \<in> set P \<Longrightarrow> partial_segment i st0 (r_store r) s" "s \<in> set Q \<Longrightarrow> filled_segment i st0 (r_store r) s"
    "SEGMENT_SIZE dvd t \<Longrightarrow> t \<notin> D \<Longrightarrow> same_seg t st0 (r_store r)"
    "t \<notin> set (F0 @ F @ P @ Q) \<Longrightarrow> get_seg_next (r_store r) t = get_seg_next st0 t"
    "s \<in> set F \<Longrightarrow> K s = Seg_Free" "s \<in> set P \<Longrightarrow> K s = Seg_Partial"
    "s \<in> set Q \<Longrightarrow> K s = Seg_Filled \<and> seg_free_count (segs (r_store r) s) = unmarked_count i st0 s"
proof -
  note u = assms [unfolded sweep_inv_def]
  show "seg.open_list (r_store r) (r_free r) (F0 @ F)" using u by (rule conjunct1)
  note u = u [THEN conjunct2]
  show "seg.open_list (r_store r) (r_partial r) P" using u by (rule conjunct1)
  note u = u [THEN conjunct2]
  show "seg.open_list (r_store r) (r_filled r) Q" using u by (rule conjunct1)
  note u = u [THEN conjunct2]
  show "distinct (F0 @ F @ P @ Q)" using u by (rule conjunct1)
  note u = u [THEN conjunct2]
  show "set (F @ P @ Q) \<subseteq> D" using u by (rule conjunct1)
  note u = u [THEN conjunct2]
  show "s \<in> D \<Longrightarrow> SEGMENT_SIZE dvd s" using u [THEN conjunct1] by (rule bspec)
  note u = u [THEN conjunct2]
  show "s \<in> set F \<Longrightarrow> free_segment i st0 (r_store r) s" using u [THEN conjunct1] by (rule bspec)
  note u = u [THEN conjunct2]
  show "s \<in> set P \<Longrightarrow> partial_segment i st0 (r_store r) s" using u [THEN conjunct1] by (rule bspec)
  note u = u [THEN conjunct2]
  show "s \<in> set Q \<Longrightarrow> filled_segment i st0 (r_store r) s" using u [THEN conjunct1] by (rule bspec)
  note u = u [THEN conjunct2]
  show "SEGMENT_SIZE dvd t \<Longrightarrow> t \<notin> D \<Longrightarrow> same_seg t st0 (r_store r)" using u [THEN conjunct1] by blast
  note u = u [THEN conjunct2]
  show "t \<notin> set (F0 @ F @ P @ Q) \<Longrightarrow> get_seg_next (r_store r) t = get_seg_next st0 t" using u [THEN conjunct1] by blast
  note u = u [THEN conjunct2]
  show "s \<in> set F \<Longrightarrow> K s = Seg_Free" using u [THEN conjunct1] by (rule bspec)
  note u = u [THEN conjunct2]
  show "s \<in> set P \<Longrightarrow> K s = Seg_Partial" using u [THEN conjunct1] by (rule bspec)
  show "s \<in> set Q \<Longrightarrow> K s = Seg_Filled \<and> seg_free_count (segs (r_store r) s) = unmarked_count i st0 s"
    using u [THEN conjunct2] by (rule bspec)
qed

lemma sweep_invI:
  assumes "seg.open_list (r_store r) (r_free r) (F0 @ F)" "seg.open_list (r_store r) (r_partial r) P"
    "seg.open_list (r_store r) (r_filled r) Q" "distinct (F0 @ F @ P @ Q)" "set (F @ P @ Q) \<subseteq> D"
    "\<And>s. s \<in> D \<Longrightarrow> SEGMENT_SIZE dvd s" "\<And>s. s \<in> set F \<Longrightarrow> free_segment i st0 (r_store r) s"
    "\<And>s. s \<in> set P \<Longrightarrow> partial_segment i st0 (r_store r) s" "\<And>s. s \<in> set Q \<Longrightarrow> filled_segment i st0 (r_store r) s"
    "\<And>t. SEGMENT_SIZE dvd t \<Longrightarrow> t \<notin> D \<Longrightarrow> same_seg t st0 (r_store r)"
    "\<And>t. t \<notin> set (F0 @ F @ P @ Q) \<Longrightarrow> get_seg_next (r_store r) t = get_seg_next st0 t"
    "\<And>s. s \<in> set F \<Longrightarrow> K s = Seg_Free" "\<And>s. s \<in> set P \<Longrightarrow> K s = Seg_Partial"
    "\<And>s. s \<in> set Q \<Longrightarrow> K s = Seg_Filled \<and> seg_free_count (segs (r_store r) s) = unmarked_count i st0 s"
  shows "sweep_inv i st0 K F0 D F P Q r"
  using assms unfolding sweep_inv_def by blast

lemma sweep_inv_touch:
  assumes i: "i < NUM_SUBHEAPS" and inv: "sweep_inv i st0 K F0 D F P Q r" and s: "SEGMENT_SIZE dvd s" "s \<notin> set (F @ P @ Q)"
    and t: "touches s (r_store r) st1" and r1: "r_store r1 = st1" "r_free r1 = r_free r" "r_partial r1 = r_partial r" "r_filled r1 = r_filled r"
  shows "sweep_inv i st0 K F0 (insert s D) F P Q r1"
proof -
  note d = sweep_invD [OF inv]
  have nx: "get_seg_next st1 a = get_seg_next (r_store r) a" for a by (rule touches_next [OF t])
  have sm: "same_seg a (r_store r) st1" if "a \<in> set F \<or> a \<in> set P \<or> a \<in> set Q" for a
  proof (rule touches_same [OF t s(1)])
    show "SEGMENT_SIZE dvd a" using d(5,6) that by auto
    show "a \<noteq> s" using s(2) that by auto
  qed
  have fr: "seg.open_list st1 l xs" if "seg.open_list (r_store r) l xs" for l xs
    by (rule seg.open_frame [OF that]) (rule nx)
  show ?thesis
  proof (rule sweep_invI; (unfold r1)?)
    show "seg.open_list st1 (r_free r) (F0 @ F)" "seg.open_list st1 (r_partial r) P" "seg.open_list st1 (r_filled r) Q"
      by (rule fr, rule d)+
    show "distinct (F0 @ F @ P @ Q)" by (rule d)
    show "set (F @ P @ Q) \<subseteq> insert s D" using d(5) by blast
    show "SEGMENT_SIZE dvd a" if "a \<in> insert s D" for a using that d(6) s(1) by blast
    show "free_segment i st0 st1 a" if "a \<in> set F" for a using classes_same(1) [OF i sm d(7)] that by blast
    show "partial_segment i st0 st1 a" if "a \<in> set P" for a using classes_same(2) [OF i sm d(8)] that by blast
    show "filled_segment i st0 st1 a" if "a \<in> set Q" for a using classes_same(3) [OF i sm d(9)] that by blast
    show "same_seg a st0 st1" if "SEGMENT_SIZE dvd a" "a \<notin> insert s D" for a
      using same_seg_trans [OF d(10) touches_same [OF t s(1)]] that by blast
    show "get_seg_next st1 a = get_seg_next st0 a" if "a \<notin> set (F0 @ F @ P @ Q)" for a using nx d(11) [OF that] by simp
    show "K a = Seg_Free" if "a \<in> set F" for a using that by (rule d)
    show "K a = Seg_Partial" if "a \<in> set P" for a using that by (rule d)
    show "K a = Seg_Filled \<and> seg_free_count (segs st1 a) = unmarked_count i st0 a" if "a \<in> set Q" for a
      using d(14) [OF that] same_seg_fields(3) [OF sm, of a] that by simp
  qed
qed

lemma sweep_inv_step:
  assumes i: "i < NUM_SUBHEAPS" and inv: "sweep_inv i st0 K F0 D F P Q r"
    and same: "\<And>t. same_seg t (r_store r) (r_store r')"
    and ol: "seg.open_list (r_store r') (r_free r') (F0 @ F')" "seg.open_list (r_store r') (r_partial r') P'"
      "seg.open_list (r_store r') (r_filled r') Q'"
    and dis: "distinct (F0 @ F' @ P' @ Q')" "set (F' @ P' @ Q') \<subseteq> D" "set (F0 @ F @ P @ Q) \<subseteq> set (F0 @ F' @ P' @ Q')"
    and cls: "\<And>s. s \<in> set F' \<Longrightarrow> s \<in> set F \<or> free_segment i st0 (r_store r) s"
      "\<And>s. s \<in> set P' \<Longrightarrow> s \<in> set P \<or> partial_segment i st0 (r_store r) s"
      "\<And>s. s \<in> set Q' \<Longrightarrow> s \<in> set Q \<or> filled_segment i st0 (r_store r) s"
    and K: "\<And>s. s \<in> set F' \<Longrightarrow> s \<in> set F \<or> K s = Seg_Free" "\<And>s. s \<in> set P' \<Longrightarrow> s \<in> set P \<or> K s = Seg_Partial"
      "\<And>s. s \<in> set Q' \<Longrightarrow> s \<in> set Q \<or> K s = Seg_Filled \<and> seg_free_count (segs (r_store r) s) = unmarked_count i st0 s"
    and nxt: "\<And>t. t \<notin> set (F0 @ F' @ P' @ Q') \<Longrightarrow> get_seg_next (r_store r') t = get_seg_next (r_store r) t"
  shows "sweep_inv i st0 K F0 D F' P' Q' r'"
proof (rule sweep_invI [OF ol dis(1,2)])
  note d = sweep_invD [OF inv] and c = classes_same [OF i same]
  show "SEGMENT_SIZE dvd s" if "s \<in> D" for s using that by (rule d(6))
  show "free_segment i st0 (r_store r') s" if "s \<in> set F'" for s using cls(1) [OF that] d(7) c(1) by blast
  show "partial_segment i st0 (r_store r') s" if "s \<in> set P'" for s using cls(2) [OF that] d(8) c(2) by blast
  show "filled_segment i st0 (r_store r') s" if "s \<in> set Q'" for s using cls(3) [OF that] d(9) c(3) by blast
  show "same_seg t st0 (r_store r')" if "SEGMENT_SIZE dvd t" "t \<notin> D" for t using same_seg_trans [OF d(10) [OF that] same] .
  show "get_seg_next (r_store r') t = get_seg_next st0 t" if "t \<notin> set (F0 @ F' @ P' @ Q')" for t
    using nxt [OF that] d(11) [of t] that dis(3) by auto
  show "K s = Seg_Free" if "s \<in> set F'" for s using K(1) [OF that] d(12) by blast
  show "K s = Seg_Partial" if "s \<in> set P'" for s using K(2) [OF that] d(13) by blast
  show "K s = Seg_Filled \<and> seg_free_count (segs (r_store r') s) = unmarked_count i st0 s" if "s \<in> set Q'" for s
    using K(3) [OF that] d(14) [of s] same_seg_fields(3) [OF same, of s] by auto
qed

lemma open_unlinked:
  assumes "seg.open_list st l xs" and "\<forall>t. t \<notin> set ys \<longrightarrow> get_seg_next st2 t = get_seg_next st t" and "set xs \<inter> set ys = {}"
  shows "seg.open_list st2 l xs"
  by (rule seg.open_frame [OF assms(1)]) (use assms(2,3) in blast)

lemma sweep_append_free:
  assumes i: "i < NUM_SUBHEAPS" and inv: "sweep_inv i st0 K F0 D F P Q r" and s: "s \<noteq> NULL" "s \<in> D" "s \<notin> set (F0 @ F @ P @ Q)"
    and c: "free_segment i st0 (r_store r) s" "K s = Seg_Free"
  shows "sweep_inv i st0 K F0 D (F @ [s]) P Q (append_free s r) \<and>
    get_seg_next (r_store (append_free s r)) s = get_seg_next (r_store r) s \<and>
    (\<forall>t. same_seg t (r_store r) (r_store (append_free s r)))"
proof -
  note d = sweep_invD [OF inv]
  have ns: "s \<notin> set (F0 @ F)" using s(3) by simp
  from append_frame [OF d(1) s(1) ns] obtain l' st2 where
    1: "LIST_APPEND set_seg_next (r_free r) s (r_store r) = (l', st2)" "seg.open_list st2 l' ((F0 @ F) @ [s])"
      "\<forall>t. same_seg t (r_store r) st2" "\<forall>t. t \<notin> set (F0 @ F) \<longrightarrow> get_seg_next st2 t = get_seg_next (r_store r) t" by blast
  have e: "append_free s r = r\<lparr>r_free := l', r_store := st2\<rparr>" by (simp add: append_free_def 1(1))
  have o: "seg.open_list st2 (r_partial r) P" "seg.open_list st2 (r_filled r) Q"
    by (rule open_unlinked [OF d(2) 1(4)], use d(4) in auto) (rule open_unlinked [OF d(3) 1(4)], use d(4) in auto)
  have "sweep_inv i st0 K F0 D (F @ [s]) P Q (append_free s r)"
    by (rule sweep_inv_step [OF i inv]) (use 1 o d(4,5) s c in \<open>auto simp: e\<close>)
  then show ?thesis using 1(3,4) ns by (simp add: e)
qed

lemma sweep_append_partial:
  assumes i: "i < NUM_SUBHEAPS" and inv: "sweep_inv i st0 K F0 D F P Q r" and s: "s \<noteq> NULL" "s \<in> D" "s \<notin> set (F0 @ F @ P @ Q)"
    and c: "partial_segment i st0 (r_store r) s" "K s = Seg_Partial"
  shows "sweep_inv i st0 K F0 D F (P @ [s]) Q (append_partial s r) \<and>
    get_seg_next (r_store (append_partial s r)) s = get_seg_next (r_store r) s \<and>
    (\<forall>t. same_seg t (r_store r) (r_store (append_partial s r)))"
proof -
  note d = sweep_invD [OF inv]
  have ns: "s \<notin> set P" using s(3) by simp
  from append_frame [OF d(2) s(1) ns] obtain l' st2 where
    1: "LIST_APPEND set_seg_next (r_partial r) s (r_store r) = (l', st2)" "seg.open_list st2 l' (P @ [s])"
      "\<forall>t. same_seg t (r_store r) st2" "\<forall>t. t \<notin> set P \<longrightarrow> get_seg_next st2 t = get_seg_next (r_store r) t" by blast
  have e: "append_partial s r = r\<lparr>r_partial := l', r_store := st2\<rparr>" by (simp add: append_partial_def 1(1))
  have o: "seg.open_list st2 (r_free r) (F0 @ F)" "seg.open_list st2 (r_filled r) Q"
    by (rule open_unlinked [OF d(1) 1(4)], use d(4) in auto) (rule open_unlinked [OF d(3) 1(4)], use d(4) in auto)
  have "sweep_inv i st0 K F0 D F (P @ [s]) Q (append_partial s r)"
    by (rule sweep_inv_step [OF i inv]) (use 1 o d(4,5) s c in \<open>auto simp: e\<close>)
  then show ?thesis using 1(3,4) ns by (simp add: e)
qed

lemma sweep_append_filled:
  assumes i: "i < NUM_SUBHEAPS" and inv: "sweep_inv i st0 K F0 D F P Q r" and s: "s \<noteq> NULL" "s \<in> D" "s \<notin> set (F0 @ F @ P @ Q)"
    and c: "filled_segment i st0 (r_store r) s" "K s = Seg_Filled \<and> seg_free_count (segs (r_store r) s) = unmarked_count i st0 s"
  shows "sweep_inv i st0 K F0 D F P (Q @ [s]) (append_filled s r) \<and>
    get_seg_next (r_store (append_filled s r)) s = get_seg_next (r_store r) s \<and>
    (\<forall>t. same_seg t (r_store r) (r_store (append_filled s r)))"
proof -
  note d = sweep_invD [OF inv]
  have ns: "s \<notin> set Q" using s(3) by simp
  from append_frame [OF d(3) s(1) ns] obtain l' st2 where
    1: "LIST_APPEND set_seg_next (r_filled r) s (r_store r) = (l', st2)" "seg.open_list st2 l' (Q @ [s])"
      "\<forall>t. same_seg t (r_store r) st2" "\<forall>t. t \<notin> set Q \<longrightarrow> get_seg_next st2 t = get_seg_next (r_store r) t" by blast
  have e: "append_filled s r = r\<lparr>r_filled := l', r_store := st2\<rparr>" by (simp add: append_filled_def 1(1))
  have o: "seg.open_list st2 (r_free r) (F0 @ F)" "seg.open_list st2 (r_partial r) P"
    by (rule open_unlinked [OF d(1) 1(4)], use d(4) in auto) (rule open_unlinked [OF d(2) 1(4)], use d(4) in auto)
  have "sweep_inv i st0 K F0 D F P (Q @ [s]) (append_filled s r)"
    by (rule sweep_inv_step [OF i inv]) (use 1 o d(4,5) s c in \<open>auto simp: e\<close>)
  then show ?thesis using 1(3,4) ns by (simp add: e)
qed


section \<open>The bodies of the loops\<close>

text \<open>\<open>sweeps\<close>: the segments of \<open>X\<close> have been swept, and put into the lists.\<close>

definition sweeps ::
  "nat \<Rightarrow> seg_store \<Rightarrow> (addr \<Rightarrow> seg_class) \<Rightarrow> addr list \<Rightarrow> addr set \<Rightarrow> addr set \<Rightarrow> reclaim_state \<Rightarrow> addr set
   \<Rightarrow> reclaim_state \<Rightarrow> bool" where
  "sweeps i st0 K F0 D L r X r' \<longleftrightarrow>
     (\<exists>F P Q. sweep_inv i st0 K F0 (D \<union> X) F P Q r' \<and> set (F @ P @ Q) = L \<union> X) \<and>
     (\<forall>t. SEGMENT_SIZE dvd t \<and> t \<notin> X \<longrightarrow> same_seg t (r_store r) (r_store r'))"

lemma sweepsI:
  assumes "sweep_inv i st0 K F0 (D \<union> X) F P Q r'" and "set (F @ P @ Q) = L \<union> X"
    and "\<And>t. SEGMENT_SIZE dvd t \<Longrightarrow> t \<notin> X \<Longrightarrow> same_seg t (r_store r) (r_store r')"
  shows "sweeps i st0 K F0 D L r X r'"
  using assms unfolding sweeps_def by blast

lemma swept_from:
  assumes i: "i < NUM_SUBHEAPS" and s: "same_seg s st0 st" and w: "swept i st c s"
  shows "swept i st0 c s"
proof -
  note l = compute_segment_layout_ok(1) [OF i]
  have "STACK_BASE s (compute_segment_layout i) \<ge> s" by (simp add: STACK_BASE_def)
  then show ?thesis
    using w same_seg_bitmaps(2) [OF l s] words_bounds(1) [of "compute_segment_layout i"] s
    unfolding swept_def Let_def same_seg_def by auto
qed

text \<open>A segment that the sweep reaches, with its bitmap copied: what is left is to put it into a list.\<close>

lemma sweep_copied:
  assumes i: "i < NUM_SUBHEAPS" and inv: "sweep_inv i st0 K F0 D F P Q r"
    and m: "managed i st0 s" "s \<notin> D" "s \<notin> set F0"
  defines "l \<equiv> compute_segment_layout i" and "c \<equiv> copy_bitmap s (r_store r)"
  defines "n \<equiv> seg_count_free s NULL c"
  shows "layout_of c s = l" "swept i st0 c s" "n = card {j. j < num_blocks l \<and> \<not> used (bytes c) s j}" "n \<le> num_blocks l"
    "n = num_blocks l \<Longrightarrow> seg_clean (bytes c) s l" "touches s (r_store r) c" "SEGMENT_SIZE dvd s" "s \<noteq> NULL"
    "s \<notin> set (F0 @ F @ P @ Q)" "allocptr_snapshot (segs c s) = allocptr_snapshot (segs st0 s)" "segs c = segs (r_store r)"
    "n = unmarked_count i st0 s"
proof -
  note d = sweep_invD [OF inv]
  show s: "SEGMENT_SIZE dvd s" "s \<noteq> NULL" using m(1) by (simp_all add: managed_def)
  have same: "same_seg s st0 (r_store r)" using d(10) [OF s(1) m(2)] .
  have m': "managed i (r_store r) s" by (rule managed_same [OF i same m(1)])
  note o = sweep_one [OF i m', folded l_def c_def, folded n_def]
  show "layout_of c s = l" "n = card {j. j < num_blocks l \<and> \<not> used (bytes c) s j}" "n \<le> num_blocks l"
    "n = num_blocks l \<Longrightarrow> seg_clean (bytes c) s l" "segs c = segs (r_store r)" by (rule o; assumption?)+
  show w: "swept i st0 c s" by (rule swept_from [OF i same o(3)])
  show "n = unmarked_count i st0 s" using swept_count [OF w] o(4) unfolding l_def by simp
  show "touches s (r_store r) c" using o(2,7) by (simp add: touches_def get_seg_next_def)
  show "s \<notin> set (F0 @ F @ P @ Q)" using m(2,3) d(5) by auto
  show "allocptr_snapshot (segs c s) = allocptr_snapshot (segs st0 s)" using same_seg_fields(2) [OF same] o(2) by simp
qed

lemma touches_clear:
  assumes "i < NUM_SUBHEAPS" and "swept i st0 st' s" and "touches s st st'"
  shows "touches s st (clear_bitmap s st')"
  using clear_swept(4,5) [OF assms(1,2)] assms(3) by (simp add: touches_def get_seg_next_def)


text \<open>The swept segment \<open>s\<close> goes into one of the lists.\<close>

lemma sweeps_append:
  assumes i: "i < NUM_SUBHEAPS" and inv: "sweep_inv i st0 K F0 D F P Q r"
    and s: "SEGMENT_SIZE dvd s" "s \<noteq> NULL" "s \<notin> set (F0 @ F @ P @ Q)"
    and t: "touches s (r_store r) (r_store r1)"
    and r1: "r_free r1 = r_free r" "r_partial r1 = r_partial r" "r_filled r1 = r_filled r"
  defines "ok \<equiv> \<lambda>r'. sweeps i st0 K F0 D (set (F @ P @ Q)) r {s} r' \<and> get_seg_next (r_store r') s = get_seg_next st0 s"
  shows "free_segment i st0 (r_store r1) s \<Longrightarrow> K s = Seg_Free \<Longrightarrow> ok (append_free s r1)"
    and "partial_segment i st0 (r_store r1) s \<Longrightarrow> K s = Seg_Partial \<Longrightarrow> ok (append_partial s r1)"
    and "filled_segment i st0 (r_store r1) s \<Longrightarrow>
      K s = Seg_Filled \<and> seg_free_count (segs (r_store r1) s) = unmarked_count i st0 s \<Longrightarrow> ok (append_filled s r1)"
proof -
  have s': "s \<notin> set (F @ P @ Q)" using s(3) by simp
  have inv1: "sweep_inv i st0 K F0 (D \<union> {s}) F P Q r1"
    using sweep_inv_touch [OF i inv s(1) s' t refl r1] by simp
  have sD: "s \<in> D \<union> {s}" by simp
  have nx: "get_seg_next (r_store r1) s = get_seg_next st0 s" using touches_next [OF t] sweep_invD(11) [OF inv s(3)] by simp
  have sm: "same_seg x (r_store r) st2" if "SEGMENT_SIZE dvd x" "x \<notin> {s}" "\<forall>t. same_seg t (r_store r1) st2" for x st2
    using same_seg_trans [OF touches_same [OF t s(1) that(1)]] that by blast
  show "ok (append_free s r1)" if "free_segment i st0 (r_store r1) s" "K s = Seg_Free"
    using sweep_append_free [OF i inv1 s(2) sD s(3) that] nx sm unfolding ok_def by (auto intro!: sweepsI)
  show "ok (append_partial s r1)" if "partial_segment i st0 (r_store r1) s" "K s = Seg_Partial"
    using sweep_append_partial [OF i inv1 s(2) sD s(3) that] nx sm unfolding ok_def by (auto intro!: sweepsI)
  show "ok (append_filled s r1)" if "filled_segment i st0 (r_store r1) s" "K s = Seg_Filled \<and> seg_free_count (segs (r_store r1) s) = unmarked_count i st0 s"
    using sweep_append_filled [OF i inv1 s(2) sD s(3) that] nx sm unfolding ok_def by (auto intro!: sweepsI)
qed


lemma upd_seg_simps [simp]:
  "bytes (upd_seg s f st) = bytes st" "segs (upd_seg s f st) s = f (segs st s)"
  by (simp_all add: upd_seg_def)

text \<open>The class of a segment with \<open>n\<close> free blocks; its count has been written, its snapshot perhaps not yet.\<close>

lemma class_of_count:
  assumes i: "i < NUM_SUBHEAPS" and w: "swept i st0 st s"
  defines "l \<equiv> compute_segment_layout i"
  assumes n: "seg_free_count (segs st s) = card {j. j < num_blocks l \<and> \<not> used (bytes st) s j}"
  shows "seg_free_count (segs st s) < num_blocks l \<Longrightarrow> allocptr_snapshot (segs st s) = BLOCK_BASE s l \<Longrightarrow>
      partial_segment i st0 (clear_bitmap s st) s"
    and "seg_free_count (segs st s) < num_blocks l \<Longrightarrow>
      partial_segment i st0 (upd_seg s (\<lambda>g. g\<lparr>allocptr_snapshot := BLOCK_BASE s l\<rparr>) (clear_bitmap s st)) s"
    and "filled_segment i st0 (upd_seg s (\<lambda>g. g\<lparr>allocptr_snapshot := BLOCK_LIMIT s l\<rparr>) (clear_bitmap s st)) s"
proof -
  note c = clear_swept [OF i w, folded l_def]
  have u: "{j. j < num_blocks l \<and> \<not> used (bytes (clear_bitmap s st)) s j} = {j. j < num_blocks l \<and> \<not> used (bytes st) s j}"
    using c(3) by blast
  note f = segment_classes upd_seg_classes [OF i] c(1,2,4) u n l_def [symmetric]
  have um: "unmarked i (upd_seg s g (clear_bitmap s st)) s" for g using c(2) by (simp add: unmarked_def)
  show "partial_segment i st0 (clear_bitmap s st) s"
    if "seg_free_count (segs st s) < num_blocks l" "allocptr_snapshot (segs st s) = BLOCK_BASE s l"
    using that c(1,2) u n by (simp add: partial_segment_def c(4) l_def)
  show "partial_segment i st0 (upd_seg s (\<lambda>g. g\<lparr>allocptr_snapshot := BLOCK_BASE s l\<rparr>) (clear_bitmap s st)) s"
    if "seg_free_count (segs st s) < num_blocks l"
    using that c(1) um u n by (simp add: partial_segment_def upd_seg_classes [OF i] c(4) l_def)
  show "filled_segment i st0 (upd_seg s (\<lambda>g. g\<lparr>allocptr_snapshot := BLOCK_LIMIT s l\<rparr>) (clear_bitmap s st)) s"
    using c(1) um by (simp add: filled_segment_def upd_seg_classes [OF i] c(4) l_def)
qed

lemma reclaim_partial_sweeps:
  assumes i: "i < NUM_SUBHEAPS" and inv: "sweep_inv i st0 K F0 D F P Q r" and m: "managed i st0 s" "s \<notin> D" "s \<notin> set F0"
    and snap: "allocptr_snapshot (segs st0 s) = BLOCK_BASE s (compute_segment_layout i)"
    and K: "K s = (if unmarked_count i st0 s = num_blocks (compute_segment_layout i) then Seg_Free else Seg_Partial)"
  shows "sweeps i st0 K F0 D (set (F @ P @ Q)) r {s} (reclaim_partial_segment s r) \<and>
    get_seg_next (r_store (reclaim_partial_segment s r)) s = get_seg_next st0 s"
proof -
  define l c where "l = compute_segment_layout i" and "c = copy_bitmap s (r_store r)"
  define n where "n = seg_count_free s NULL c"
  define st2 where "st2 = upd_seg s (\<lambda>g. g\<lparr>seg_free_count := n\<rparr>) c"
  note k = sweep_copied [OF i inv m, folded l_def c_def, folded n_def]
  have w2: "swept i st0 st2 s" using k(2) by (simp add: st2_def upd_seg_classes [OF i])
  have t2: "touches s (r_store r) st2" unfolding st2_def by (rule touches_upd [OF k(6)]) simp
  have sn: "allocptr_snapshot (segs st2 s) = BLOCK_BASE s l" using k(10) snap by (simp add: st2_def l_def)
  have n2: "seg_free_count (segs st2 s) = card {j. j < num_blocks l \<and> \<not> used (bytes st2) s j}" using k(3) by (simp add: st2_def)
  note a = sweeps_append [OF i inv k(7,8,9)]
  show ?thesis
  proof (cases "n = num_blocks l")
    case True
    have e: "reclaim_partial_segment s r = append_free s (r\<lparr>r_store := st2\<rparr>)"
      using True by (simp add: reclaim_partial_segment_def Let_def c_def [symmetric] n_def [symmetric] st2_def k(1))
    have "free_segment i st0 st2 s"
      using w2 k(5) True sn by (simp add: free_segment_def l_def [symmetric] st2_def)
    then show ?thesis unfolding e by (intro a(1)) (use t2 K True k(12) in \<open>simp_all add: l_def\<close>)
  next
    case False
    have e: "reclaim_partial_segment s r = append_partial s
        (r\<lparr>r_num_partial := r_num_partial r + 1, r_num_blocks_free := r_num_blocks_free r + n,
           r_num_blocks_room := r_num_blocks_room r + seg_free_count (segs c s), r_store := clear_bitmap s st2\<rparr>)"
      using False by (simp add: reclaim_partial_segment_def Let_def c_def [symmetric] n_def [symmetric] st2_def k(1))
    have "partial_segment i st0 (clear_bitmap s st2) s"
      by (rule class_of_count(1) [OF i w2]) (use n2 sn False k(4) in \<open>simp_all add: l_def [symmetric] st2_def\<close>)
    then show ?thesis unfolding e by (intro a(2)) (use touches_clear [OF i w2 t2] K False k(12) in \<open>simp_all add: l_def\<close>)
  qed
qed

lemma reclaim_filled_sweeps:
  assumes i: "i < NUM_SUBHEAPS" and inv: "sweep_inv i st0 K F0 D F P Q r" and m: "managed i st0 s" "s \<notin> D" "s \<notin> set F0"
    and K: "K s = sweep_class i st0 [] s"
  shows "sweeps i st0 K F0 D (set (F @ P @ Q)) r {s} (reclaim_filled_segment s r) \<and>
    get_seg_next (r_store (reclaim_filled_segment s r)) s = get_seg_next st0 s"
proof -
  define l c where "l = compute_segment_layout i" and "c = copy_bitmap s (r_store r)"
  define n where "n = seg_count_free s NULL c"
  define st2 where "st2 = upd_seg s (\<lambda>g. g\<lparr>seg_free_count := n\<rparr>) c"
  define r0 where "r0 = r\<lparr>r_num_blocks_alloced := r_num_blocks_alloced r + seg_free_count (segs (r_store r) s)\<rparr>"
  note k = sweep_copied [OF i inv m, folded l_def c_def, folded n_def]
  have w2: "swept i st0 st2 s" using k(2) by (simp add: st2_def upd_seg_classes [OF i])
  have t2: "touches s (r_store r) st2" unfolding st2_def by (rule touches_upd [OF k(6)]) simp
  have n2: "seg_free_count (segs st2 s) = card {j. j < num_blocks l \<and> \<not> used (bytes st2) s j}" using k(3) by (simp add: st2_def)
  note a = sweeps_append [OF i inv k(7,8,9)] and cl = class_of_count [OF i w2, folded l_def, OF n2]
  have t3: "touches s (r_store r) (upd_seg s (\<lambda>g. g\<lparr>allocptr_snapshot := p\<rparr>) (clear_bitmap s st2))" for p
    by (rule touches_upd [OF touches_clear [OF i w2 t2]]) simp
  have st: "r_store r0 = r_store r" by (simp add: r0_def)
  have K': "K s = (if allocptr_snapshot (segs st2 s) < BLOCK_LIMIT s l \<or> n = 0 then Seg_Filled
      else if n = num_blocks l then Seg_Free else Seg_Partial)"
    using K k(10,12) by (simp add: sweep_class_def l_def st2_def)
  have n3: "seg_free_count (segs (upd_seg s (\<lambda>g. g\<lparr>allocptr_snapshot := p\<rparr>) (clear_bitmap s st2)) s) = unmarked_count i st0 s" for p
    using clear_swept(4) [OF i w2] k(12) by (simp add: st2_def)
  note d = reclaim_filled_segment_def Let_def r0_def [symmetric] st c_def [symmetric] n_def [symmetric] st2_def [symmetric] k(1)
  consider "allocptr_snapshot (segs st2 s) < BLOCK_LIMIT s l \<or> n = 0"
    | "\<not> (allocptr_snapshot (segs st2 s) < BLOCK_LIMIT s l \<or> n = 0)" "n = num_blocks l"
    | "\<not> (allocptr_snapshot (segs st2 s) < BLOCK_LIMIT s l \<or> n = 0)" "n \<noteq> num_blocks l" by blast
  then show ?thesis
  proof cases
    case 1
    then show ?thesis unfolding d by (simp only: if_True) (intro a(3), use cl(3) t3 K' n3 in \<open>simp_all add: r0_def\<close>)
  next
    case 2
    have "free_segment i st0 (upd_seg s (\<lambda>g. g\<lparr>allocptr_snapshot := BLOCK_BASE s l\<rparr>) st2) s"
      using w2 k(5) 2 by (simp add: free_segment_def l_def [symmetric] st2_def upd_seg_classes [OF i])
    then show ?thesis using 2 unfolding d
      by (simp only: if_False if_True simp_thms) (intro a(1), use touches_upd [OF t2] K' in \<open>simp_all add: r0_def\<close>)
  next
    case 3
    then show ?thesis unfolding d
      by (simp only: if_False simp_thms) (intro a(2), use cl(2) t3 k(4) K' in \<open>simp_all add: r0_def st2_def\<close>)
  qed
qed


section \<open>Sweeping a subheap\<close>

lemma sweeps_trans:
  assumes "sweeps i st0 K F0 D L r X r'" and "sweeps i st0 K F0 (D \<union> X) (L \<union> X) r' Y r''"
  shows "sweeps i st0 K F0 D L r (X \<union> Y) r''"
proof -
  have "same_seg t (r_store r) (r_store r'')" if "SEGMENT_SIZE dvd t" "t \<notin> X \<union> Y" for t
    using assms that same_seg_trans [of t "r_store r" "r_store r'" "r_store r''"] by (simp add: sweeps_def)
  then show ?thesis using assms(2) by (simp add: sweeps_def Un_assoc)
qed

text \<open>
  A loop over the segments of a list, given that its body sweeps one segment and keeps its link:
  the loop ends, and all segments of the list have been swept.
\<close>

lemma sweep_loop:
  assumes body: "\<And>s D F P Q r. sweep_inv i st0 K F0 D F P Q r \<Longrightarrow> good s \<Longrightarrow> s \<notin> D \<Longrightarrow> s \<notin> set F0 \<Longrightarrow>
      sweeps i st0 K F0 D (set (F @ P @ Q)) r {s} (body s r) \<and> get_seg_next (r_store (body s r)) s = get_seg_next st0 s"
    and "sweep_inv i st0 K F0 D F P Q r"
    and "seg.path st0 p xs NULL" and "\<forall>s\<in>set xs. good s" and "distinct xs" and "set xs \<inter> (D \<union> set F0) = {}"
  shows "\<exists>r'. for_each next_of_store body p r = Some r' \<and> sweeps i st0 K F0 D (set (F @ P @ Q)) r (set xs) r'"
  using assms(2-)
proof (induction xs arbitrary: p D F P Q r)
  case Nil
  have "sweeps i st0 K F0 D (set (F @ P @ Q)) r {} r"
    by (rule sweepsI [where F = F and P = P and Q = Q]) (use Nil.prems same_seg_refl in auto)
  then show ?case using Nil.prems by (simp add: for_each.simps)
next
  case (Cons x xs)
  have x: "p = x" "x \<noteq> NULL" "seg.path st0 (get_seg_next st0 x) xs NULL" "good x" "x \<notin> D" "x \<notin> set F0"
    using Cons.prems seg.node_nonnull by auto
  note b = body [OF Cons.prems(1) x(4-6)]
  then obtain F' P' Q' where
    inv: "sweep_inv i st0 K F0 (D \<union> {x}) F' P' Q' (body x r)" "set (F' @ P' @ Q') = set (F @ P @ Q) \<union> {x}"
    unfolding sweeps_def by blast
  have "set xs \<inter> (D \<union> {x} \<union> set F0) = {}" using Cons.prems(4,5) by auto
  from Cons.IH [OF inv(1) x(3) _ _ this] Cons.prems obtain r' where
    r': "for_each next_of_store body (get_seg_next st0 x) (body x r) = Some r'"
      "sweeps i st0 K F0 (D \<union> {x}) (set (F @ P @ Q) \<union> {x}) (body x r) (set xs) r'"
    unfolding inv(2) by auto
  have "for_each next_of_store body p r = Some r'"
    using r'(1) b x(1,2) by (subst for_each.simps) (simp add: Let_def next_of_store_def)
  moreover have "sweeps i st0 K F0 D (set (F @ P @ Q)) r (set (x # xs)) r'"
    using sweeps_trans [OF conjunct1 [OF b] r'(2)] by simp
  ultimately show ?case by blast
qed

text \<open>The segment of the allocation pointer is swept, but it stays out of the lists.\<close>

definition current :: "alloc_ptr \<Rightarrow> addr list" where
  "current ptr = (if ap_p ptr \<noteq> NULL then [ALLOC_PTR_TO_SEGMENT ptr] else [])"

lemma reclaim_current_sweeps:
  assumes i: "i < NUM_SUBHEAPS" and inv: "sweep_inv i st0 K F0 D F P Q r"
    and m: "\<forall>s\<in>set (current ptr). managed i st0 s \<and> s \<notin> D \<and> s \<notin> set F0"
  shows "sweep_inv i st0 K F0 (D \<union> set (current ptr)) F P Q (reclaim_current_segment ptr r) \<and>
    (\<forall>s\<in>set (current ptr). filled_segment i st0 (r_store (reclaim_current_segment ptr r)) s)"
proof (cases "ap_p ptr = NULL")
  case True
  then show ?thesis using inv by (simp add: reclaim_current_segment_def current_def)
next
  case False
  define s where "s = ALLOC_PTR_TO_SEGMENT ptr"
  define l c where "l = compute_segment_layout i" and "c = copy_bitmap s (r_store r)"
  define n where "n = seg_count_free s (ap_p ptr) (clear_bitmap s c)"
  define st2 where "st2 = upd_seg s (\<lambda>g. g\<lparr>allocptr_snapshot := BLOCK_LIMIT s l, seg_free_count := n\<rparr>) (clear_bitmap s c)"
  have cur: "current ptr = [s]" using False by (simp add: current_def s_def)
  have m': "managed i st0 s" "s \<notin> D" "s \<notin> set F0" using m by (simp_all add: cur)
  note k = sweep_copied [OF i inv m', folded l_def c_def]
  note w = clear_swept [OF i k(2)]
  have lo: "layout_of (clear_bitmap s c) s = l" using k(1) w(4) by (simp add: layout_of_def)
  have e: "r_store (reclaim_current_segment ptr r) = st2" "r_free (reclaim_current_segment ptr r) = r_free r"
    "r_partial (reclaim_current_segment ptr r) = r_partial r" "r_filled (reclaim_current_segment ptr r) = r_filled r"
    using False by (simp_all add: reclaim_current_segment_def Let_def s_def [symmetric] c_def [symmetric] lo n_def st2_def)
  have t: "touches s (r_store r) st2"
    unfolding st2_def by (rule touches_upd [OF touches_clear [OF i k(2,6)]]) simp
  have ns: "s \<notin> set (F @ P @ Q)" using k(9) by simp
  have "filled_segment i st0 st2 s"
    using w(1,2) by (simp add: filled_segment_def st2_def upd_seg_classes [OF i] unmarked_def l_def)
  then show ?thesis using sweep_inv_touch [OF i inv k(7) ns t e] by (simp add: e cur)
qed

lemma finish_frame:
  assumes "seg.open_list st l xs"
  shows "\<exists>h st'. LIST_FINISH set_seg_next l NULL st = (h, st') \<and> seg.items_at st' h xs \<and>
    (\<forall>t. same_seg t st st') \<and> (\<forall>t. t \<notin> set xs \<longrightarrow> get_seg_next st' t = get_seg_next st t)"
proof -
  have "seg.items_at st NULL []" by (simp add: seg.items_at_def)
  from seg.finish_spec [OF assms this] obtain h st' where
    1: "LIST_FINISH set_seg_next l NULL st = (h, st')" "seg.items_at st' h xs"
      "st' = st \<or> xs \<noteq> [] \<and> st' = set_seg_next (last xs) NULL st" by auto
  have "same_seg t st st'" for t using 1(3) set_next_same same_seg_refl by blast
  moreover have "get_seg_next st' t = get_seg_next st t" if "t \<notin> set xs" for t
    using 1(3) that last_in_set [of xs] by (auto simp: set_seg_next_def upd_seg_def get_seg_next_def)
  ultimately show ?thesis using 1 by blast
qed


lemma finish_lists:
  assumes i: "i < NUM_SUBHEAPS" and inv: "sweep_inv i st0 K F0 D F P Q r"
  shows "\<exists>p st1 q st2. LIST_FINISH set_seg_next (r_partial r) NULL (r_store r) = (p, st1) \<and>
    LIST_FINISH set_seg_next (r_filled r) NULL st1 = (q, st2) \<and>
    seg.open_list st2 (r_free r) (F0 @ F) \<and> seg.items_at st2 p P \<and> seg.items_at st2 q Q \<and>
    (\<forall>t. same_seg t (r_store r) st2) \<and> (\<forall>t. t \<notin> set (P @ Q) \<longrightarrow> get_seg_next st2 t = get_seg_next (r_store r) t)"
proof -
  note d = sweep_invD [OF inv]
  from finish_frame [OF d(2)] obtain p st1 where
    1: "LIST_FINISH set_seg_next (r_partial r) NULL (r_store r) = (p, st1)" "seg.items_at st1 p P"
      "\<forall>t. same_seg t (r_store r) st1" "\<forall>t. t \<notin> set P \<longrightarrow> get_seg_next st1 t = get_seg_next (r_store r) t" by blast
  have q1: "seg.open_list st1 (r_filled r) Q" by (rule open_unlinked [OF d(3) 1(4)]) (use d(4) in auto)
  have f1: "seg.open_list st1 (r_free r) (F0 @ F)" by (rule open_unlinked [OF d(1) 1(4)]) (use d(4) in auto)
  from finish_frame [OF q1] obtain q st2 where
    2: "LIST_FINISH set_seg_next (r_filled r) NULL st1 = (q, st2)" "seg.items_at st2 q Q"
      "\<forall>t. same_seg t st1 st2" "\<forall>t. t \<notin> set Q \<longrightarrow> get_seg_next st2 t = get_seg_next st1 t" by blast
  have "seg.items_at st2 p P" by (rule seg.items_frame [OF 1(2)]) (use 2(4) d(4) in auto)
  moreover have "seg.open_list st2 (r_free r) (F0 @ F)" by (rule open_unlinked [OF f1 2(4)]) (use d(4) in auto)
  moreover have "\<forall>t. t \<notin> set (P @ Q) \<longrightarrow> get_seg_next st2 t = get_seg_next (r_store r) t" using 1(4) 2(4) by simp
  ultimately show ?thesis using 1 2 same_seg_trans by blast
qed

lemma reclaim_subheap_spec:
  assumes i: "i < NUM_SUBHEAPS" and free: "seg.open_list st free F0"
    and ps: "seg.items_at st (sh_partial (heap_subheap heap i)) Ps"
    and qs: "seg.items_at st (sh_filled (heap_subheap heap i)) Qs"
    and dis: "distinct (F0 @ Ps @ Qs @ current (heap_ptr heap i))"
    and man: "\<forall>s\<in>set (Ps @ Qs @ current (heap_ptr heap i)). managed i st s"
    and snap: "\<forall>s\<in>set Ps. allocptr_snapshot (segs st s) = BLOCK_BASE s (compute_segment_layout i)"
  obtains heap' free' stat st' F P Q sh where
    "reclaim_subheap heap i free st = Some (heap', free', stat, st')"
    "heap' = heap\<lparr>heap_subheap := (heap_subheap heap)(i := sh)\<rparr>"
    "\<forall>t. t \<notin> set (F0 @ F @ P @ Q) \<longrightarrow> get_seg_next st' t = get_seg_next st t"
    "seg.open_list st' free' (F0 @ F)" "seg.items_at st' (sh_partial (heap_subheap heap' i)) P"
    "seg.items_at st' (sh_filled (heap_subheap heap' i)) Q"
    "distinct (F0 @ F @ P @ Q)" "set (F @ P @ Q) = set (Ps @ Qs)"
    "\<forall>s\<in>set F. free_segment i st st' s" "\<forall>s\<in>set P. partial_segment i st st' s"
    "\<forall>s\<in>set Q. filled_segment i st st' s" "\<forall>s\<in>set (current (heap_ptr heap i)). filled_segment i st st' s"
    "\<forall>s. SEGMENT_SIZE dvd s \<and> s \<notin> set (Ps @ Qs @ current (heap_ptr heap i)) \<longrightarrow> same_seg s st st'"
    "\<forall>s\<in>set F. sweep_class i st Ps s = Seg_Free" "\<forall>s\<in>set P. sweep_class i st Ps s = Seg_Partial"
    "\<forall>s\<in>set Q. sweep_class i st Ps s = Seg_Filled \<and> seg_free_count (segs st' s) = unmarked_count i st s"
proof -
  let ?c = "current (heap_ptr heap i)" and ?K = "sweep_class i st Ps"
  let ?r0 = "\<lparr>r_store = st, r_free = free, r_partial = LIST_INIT, r_filled = LIST_INIT, r_num_filled = 0,
    r_num_partial = 0, r_num_blocks_free = 0, r_num_blocks_alloced = 0, r_num_blocks_room = 0\<rparr>"
  have inv0: "sweep_inv i st ?K F0 {} [] [] [] ?r0"
    by (rule sweep_invI) (use free dis same_seg_refl in simp_all)
  have 1: "\<exists>r1. for_each next_of_store reclaim_partial_segment (sh_partial (heap_subheap heap i)) ?r0 = Some r1 \<and>
      sweeps i st ?K F0 {} (set ([] @ [] @ [])) ?r0 (set Ps) r1"
  proof (rule sweep_loop [where good = "\<lambda>s. managed i st s \<and> s \<in> set Ps", OF _ inv0])
    show "sweeps i st ?K F0 D (set (F @ P @ Q)) r {s} (reclaim_partial_segment s r) \<and>
        get_seg_next (r_store (reclaim_partial_segment s r)) s = get_seg_next st s"
      if "sweep_inv i st ?K F0 D F P Q r" "managed i st s \<and> s \<in> set Ps" "s \<notin> D" "s \<notin> set F0" for s D F P Q r
      by (rule reclaim_partial_sweeps [OF i that(1)]) (use that snap in \<open>simp_all add: sweep_class_def\<close>)
  qed (use ps dis man in \<open>auto simp: seg.items_at_def\<close>)
  then obtain r1 F1 P1 Q1 where r1: "for_each next_of_store reclaim_partial_segment (sh_partial (heap_subheap heap i)) ?r0 = Some r1"
      "sweep_inv i st ?K F0 (set Ps) F1 P1 Q1 r1" "set (F1 @ P1 @ Q1) = set Ps"
    unfolding sweeps_def by auto
  let ?r2 = "reclaim_current_segment (heap_ptr heap i) r1"
  have r2: "sweep_inv i st ?K F0 (set Ps \<union> set ?c) F1 P1 Q1 ?r2" "\<forall>s\<in>set ?c. filled_segment i st (r_store ?r2) s"
    using reclaim_current_sweeps [OF i r1(2), of "heap_ptr heap i"] man dis by auto
  have "\<exists>r3. for_each next_of_store reclaim_filled_segment (sh_filled (heap_subheap heap i)) ?r2 = Some r3 \<and>
      sweeps i st ?K F0 (set Ps \<union> set ?c) (set (F1 @ P1 @ Q1)) ?r2 (set Qs) r3"
  proof (rule sweep_loop [where good = "\<lambda>s. managed i st s \<and> s \<notin> set Ps", OF _ r2(1)])
    show "sweeps i st ?K F0 D (set (F @ P @ Q)) r {s} (reclaim_filled_segment s r) \<and>
        get_seg_next (r_store (reclaim_filled_segment s r)) s = get_seg_next st s"
      if "sweep_inv i st ?K F0 D F P Q r" "managed i st s \<and> s \<notin> set Ps" "s \<notin> D" "s \<notin> set F0" for s D F P Q r
      by (rule reclaim_filled_sweeps [OF i that(1)]) (use that in \<open>simp_all add: sweep_class_def\<close>)
  qed (use qs dis man in \<open>auto simp: seg.items_at_def\<close>)
  then obtain r3 F P Q where r3: "for_each next_of_store reclaim_filled_segment (sh_filled (heap_subheap heap i)) ?r2 = Some r3"
      "sweep_inv i st ?K F0 (set Ps \<union> set ?c \<union> set Qs) F P Q r3" "set (F @ P @ Q) = set (Ps @ Qs)"
      "\<And>t. SEGMENT_SIZE dvd t \<Longrightarrow> t \<notin> set Qs \<Longrightarrow> same_seg t (r_store ?r2) (r_store r3)"
    unfolding sweeps_def r1(3) by auto
  from finish_lists [OF i r3(2)] obtain p st1 q st2 where
    4: "LIST_FINISH set_seg_next (r_partial r3) NULL (r_store r3) = (p, st1)"
      "LIST_FINISH set_seg_next (r_filled r3) NULL st1 = (q, st2)" "seg.open_list st2 (r_free r3) (F0 @ F)"
      "seg.items_at st2 p P" "seg.items_at st2 q Q" "\<And>t. same_seg t (r_store r3) st2"
      "\<And>t. t \<notin> set (P @ Q) \<Longrightarrow> get_seg_next st2 t = get_seg_next (r_store r3) t" by blast
  note d = sweep_invD [OF r3(2)] and c = classes_same [OF i 4(6)]
  have cur: "filled_segment i st st2 s" if "s \<in> set ?c" for s
  proof (rule c(3), rule classes_same(3) [OF i r3(4)])
    show "SEGMENT_SIZE dvd s" "s \<notin> set Qs" using man dis that by (auto simp: managed_def)
    show "filled_segment i st (r_store ?r2) s" using r2(2) that by blast
  qed
  have res: "\<exists>stat. reclaim_subheap heap i free st = Some (heap\<lparr>heap_subheap := (heap_subheap heap)(i := \<lparr>sh_filled = q, sh_partial = p\<rparr>)\<rparr>,
      r_free r3, stat, st2)"
    by (simp add: reclaim_subheap_def Let_def r1(1) r3(1) 4(1,2))
  then obtain stat where res: "reclaim_subheap heap i free st =
      Some (heap\<lparr>heap_subheap := (heap_subheap heap)(i := \<lparr>sh_filled = q, sh_partial = p\<rparr>)\<rparr>, r_free r3, stat, st2)" ..
  have "(\<forall>s\<in>set F. free_segment i st st2 s) \<and> (\<forall>s\<in>set P. partial_segment i st st2 s) \<and> (\<forall>s\<in>set Q. filled_segment i st st2 s)"
    using c(1) [OF d(7)] c(2) [OF d(8)] c(3) [OF d(9)] by blast
  moreover have "\<forall>s. SEGMENT_SIZE dvd s \<and> s \<notin> set (Ps @ Qs @ ?c) \<longrightarrow> same_seg s st st2"
    using same_seg_trans [OF d(10) 4(6)] by auto
  ultimately have cl: "(\<forall>s\<in>set F. free_segment i st st2 s)" "(\<forall>s\<in>set P. partial_segment i st st2 s)"
    "(\<forall>s\<in>set Q. filled_segment i st st2 s)" "\<forall>s. SEGMENT_SIZE dvd s \<and> s \<notin> set (Ps @ Qs @ ?c) \<longrightarrow> same_seg s st st2"
    by (iprover+)
  show thesis
  proof (rule that)
    show "reclaim_subheap heap i free st =
      Some (heap\<lparr>heap_subheap := (heap_subheap heap)(i := \<lparr>sh_filled = q, sh_partial = p\<rparr>)\<rparr>, r_free r3, stat, st2)" by (rule res)
    show "seg.items_at st2 (sh_partial (heap_subheap (heap\<lparr>heap_subheap := (heap_subheap heap)(i := \<lparr>sh_filled = q, sh_partial = p\<rparr>)\<rparr>) i)) P"
      "seg.items_at st2 (sh_filled (heap_subheap (heap\<lparr>heap_subheap := (heap_subheap heap)(i := \<lparr>sh_filled = q, sh_partial = p\<rparr>)\<rparr>) i)) Q"
      using 4(4,5) by simp_all
    show "\<forall>s\<in>set ?c. filled_segment i st st2 s" using cur by blast
    show "heap\<lparr>heap_subheap := (heap_subheap heap)(i := \<lparr>sh_filled = q, sh_partial = p\<rparr>)\<rparr> =
      heap\<lparr>heap_subheap := (heap_subheap heap)(i := \<lparr>sh_filled = q, sh_partial = p\<rparr>)\<rparr>" by (rule refl)
    show "\<forall>t. t \<notin> set (F0 @ F @ P @ Q) \<longrightarrow> get_seg_next st2 t = get_seg_next st t" using 4(7) d(11) by simp
    show "\<forall>s\<in>set F. ?K s = Seg_Free" "\<forall>s\<in>set P. ?K s = Seg_Partial" using d(12,13) by blast+
    show "\<forall>s\<in>set Q. ?K s = Seg_Filled \<and> seg_free_count (segs st2 s) = unmarked_count i st s"
      using d(14) same_seg_fields(3) [OF 4(6)] by metis
  qed (rule 4 d r3 cl)+
qed

lemma class_lists:
  assumes "set (F @ P @ Q) = S" and "\<forall>s\<in>set F. K s = Seg_Free" and "\<forall>s\<in>set P. K s = Seg_Partial"
    and "\<forall>s\<in>set Q. K s = Seg_Filled"
  shows "set F = {s \<in> S. K s = Seg_Free}" "set P = {s \<in> S. K s = Seg_Partial}" "set Q = {s \<in> S. K s = Seg_Filled}"
  using assms by auto

lemma swept_free_count:
  assumes i: "i < NUM_SUBHEAPS"
  shows "free_segment i st st' s \<Longrightarrow> seg_free_count (segs st' s) = unmarked_count i st s"
    and "partial_segment i st st' s \<Longrightarrow> seg_free_count (segs st' s) = unmarked_count i st s"
proof -
  show "partial_segment i st st' s \<Longrightarrow> seg_free_count (segs st' s) = unmarked_count i st s"
    using swept_count [of i st st' s] by (simp add: partial_segment_def)
  assume f: "free_segment i st st' s"
  let ?l = "compute_segment_layout i"
  have "\<not> used (bytes st') s j" if "j < num_blocks ?l" for j
    using seg_clean_bitmaps(2) [OF compute_segment_layout_ok(1) [OF i]] f that by (simp add: free_segment_def)
  then have "{j. j < num_blocks ?l \<and> \<not> used (bytes st') s j} = {..<num_blocks ?l}" by auto
  then show "seg_free_count (segs st' s) = unmarked_count i st s"
    using swept_count [of i st st' s] f by (simp add: free_segment_def)
qed

text \<open>
  C7: \<open>reclaim_subheap\<close> terminates on a subheap whose lists hold \<open>Ps\<close> (partial) and \<open>Qs\<close> (filled).
  Afterwards exactly these segments are in the free list, behind those that were free before, and in
  the new lists of partial and filled segments.  A segment becomes free exactly if none of its blocks
  is marked and it is a partial one or a filled one without newborn objects (its snapshot is at its
  end); a filled segment stays filled exactly if it has newborn objects or all its blocks are marked;
  every other segment is partial afterwards.  The header counts the unmarked blocks.  In each of
  them, and in the segment of the allocation pointer, the used blocks are those marked by the
  collection, and the blocks themselves keep their contents; a freed segment is clean, and the
  mark bits are reset.  No other segment changes, and no link of a segment that is not in one of these lists.
\<close>

theorem reclaim_subheap_sweeps:
  assumes i: "i < NUM_SUBHEAPS" and free: "seg.open_list st free F0"
    and ps: "seg.items_at st (sh_partial (heap_subheap heap i)) Ps"
    and qs: "seg.items_at st (sh_filled (heap_subheap heap i)) Qs"
    and dis: "distinct (F0 @ Ps @ Qs @ current (heap_ptr heap i))"
    and man: "\<forall>s\<in>set (Ps @ Qs @ current (heap_ptr heap i)). managed i st s"
    and snap: "\<forall>s\<in>set Ps. allocptr_snapshot (segs st s) = BLOCK_BASE s (compute_segment_layout i)"
  shows "\<exists>heap' free' stat st' F P Q. reclaim_subheap heap i free st = Some (heap', free', stat, st') \<and>
    (\<exists>sh. heap' = heap\<lparr>heap_subheap := (heap_subheap heap)(i := sh)\<rparr>) \<and>
    (\<forall>t. t \<notin> set (F0 @ F @ P @ Q) \<longrightarrow> get_seg_next st' t = get_seg_next st t) \<and>
    seg.open_list st' free' (F0 @ F) \<and> seg.items_at st' (sh_partial (heap_subheap heap' i)) P \<and>
    seg.items_at st' (sh_filled (heap_subheap heap' i)) Q \<and>
    distinct (F0 @ F @ P @ Q) \<and> set (F @ P @ Q) = set (Ps @ Qs) \<and>
    set F = {s \<in> set (Ps @ Qs). sweep_class i st Ps s = Seg_Free} \<and>
    set P = {s \<in> set (Ps @ Qs). sweep_class i st Ps s = Seg_Partial} \<and>
    set Q = {s \<in> set (Ps @ Qs). sweep_class i st Ps s = Seg_Filled} \<and>
    (\<forall>s\<in>set (Ps @ Qs). seg_free_count (segs st' s) = unmarked_count i st s) \<and>
    (\<forall>s\<in>set F. free_segment i st st' s) \<and> (\<forall>s\<in>set P. partial_segment i st st' s) \<and>
    (\<forall>s\<in>set Q. filled_segment i st st' s) \<and> (\<forall>s\<in>set (current (heap_ptr heap i)). filled_segment i st st' s) \<and>
    (\<forall>s. SEGMENT_SIZE dvd s \<and> s \<notin> set (Ps @ Qs @ current (heap_ptr heap i)) \<longrightarrow> same_seg s st st')"
proof (rule reclaim_subheap_spec [OF assms])
  fix heap' free' stat st' F P Q sh
  assume r: "reclaim_subheap heap i free st = Some (heap', free', stat, st')"
    "heap' = heap\<lparr>heap_subheap := (heap_subheap heap)(i := sh)\<rparr>"
    "\<forall>t. t \<notin> set (F0 @ F @ P @ Q) \<longrightarrow> get_seg_next st' t = get_seg_next st t"
    "seg.open_list st' free' (F0 @ F)" "seg.items_at st' (sh_partial (heap_subheap heap' i)) P"
    "seg.items_at st' (sh_filled (heap_subheap heap' i)) Q" "distinct (F0 @ F @ P @ Q)"
    and all: "set (F @ P @ Q) = set (Ps @ Qs)"
    and cl: "\<forall>s\<in>set F. free_segment i st st' s" "\<forall>s\<in>set P. partial_segment i st st' s"
      "\<forall>s\<in>set Q. filled_segment i st st' s" "\<forall>s\<in>set (current (heap_ptr heap i)). filled_segment i st st' s"
      "\<forall>s. SEGMENT_SIZE dvd s \<and> s \<notin> set (Ps @ Qs @ current (heap_ptr heap i)) \<longrightarrow> same_seg s st st'"
    and K: "\<forall>s\<in>set F. sweep_class i st Ps s = Seg_Free" "\<forall>s\<in>set P. sweep_class i st Ps s = Seg_Partial"
      "\<forall>s\<in>set Q. sweep_class i st Ps s = Seg_Filled \<and> seg_free_count (segs st' s) = unmarked_count i st s"
  have "\<forall>s\<in>set Q. sweep_class i st Ps s = Seg_Filled" using K(3) by blast
  note cls = class_lists [OF all K(1,2) this]
  have "seg_free_count (segs st' s) = unmarked_count i st s" if "s \<in> set (F @ P @ Q)" for s
    using that cl(1,2) K(3) swept_free_count [OF i, of st st' s] by auto
  then have "\<forall>s\<in>set (Ps @ Qs). seg_free_count (segs st' s) = unmarked_count i st s" unfolding all by blast
  with r all cls show ?thesis using cl by (intro exI conjI)
qed

lemma distinct_singleton: "distinct xs \<Longrightarrow> set xs = {x} \<Longrightarrow> xs = [x]"
  by (metis card.empty card_insert_disjoint distinct_card empty_iff finite.emptyI length_0_conv length_Suc_conv
      list.set(1) list.set_intros(1) singletonD)

text \<open>
  A store with two filled segments of the smallest blocks, none of them marked; the snapshot of the
  first is at its end, and that of the second is at its start.
\<close>

definition two_segments :: seg_store where
  "two_segments = \<lparr>bytes = (\<lambda>_. 0),
     segs = (\<lambda>s. if s = 32768
       then \<lparr>seg_next = 65536, seg_layout = Some 0, allocptr_snapshot = 65536, seg_free_count = 0\<rparr>
       else \<lparr>seg_next = 0, seg_layout = Some 0, allocptr_snapshot = 65536, seg_free_count = 0\<rparr>)\<rparr>"

definition two_heap :: heap where
  "two_heap = (init_heap (init_subheap_count_init 0))\<lparr>heap_subheap := (\<lambda>_. \<lparr>sh_filled = 32768, sh_partial = 0\<rparr>)\<rparr>"

lemma two_segments_class:
  "sweep_class 0 two_segments [] 32768 = Seg_Free" "sweep_class 0 two_segments [] 65536 = Seg_Filled"
proof -
  note ok = compute_segment_layout_ok [of 0]
  have n: "num_blocks (compute_segment_layout 0) = 2013" using layout_num_blocks(1) [of 0] by simp
  have lim: "block_limit (compute_segment_layout 0) \<le> 32768" "0 < block_limit (compute_segment_layout 0)"
    using ok n by (simp_all add: layout_ok_def)
  have "load_le (\<lambda>_. 0) a n = 0" for a n by (induction n arbitrary: a) simp_all
  then have "unmarked_count 0 two_segments s = 2013" for s
    by (simp add: unmarked_count_def n two_segments_def marked_def bitmap_bit_def load32_def)
  then show "sweep_class 0 two_segments [] 32768 = Seg_Free" "sweep_class 0 two_segments [] 65536 = Seg_Filled"
    using lim n by (simp_all add: sweep_class_def two_segments_def BLOCK_LIMIT_def)
qed

theorem reclaim_subheap_sweeps_witness:
  "\<exists>heap' free' stat st'. reclaim_subheap two_heap 0 LIST_INIT two_segments = Some (heap', free', stat, st') \<and>
     seg.open_list st' free' [32768] \<and> seg.items_at st' (sh_filled (heap_subheap heap' 0)) [65536]"
proof -
  have "load_le (\<lambda>_. 0) a n = 0" for a n by (induction n arbitrary: a) simp_all
  then have man: "managed 0 two_segments s" if "s = 32768 \<or> s = 65536" for s
    using that by (auto simp: managed_def two_segments_def marked_def bitmap_bit_def load32_def)
  have cur: "current (heap_ptr two_heap 0) = []"
    by (simp add: current_def two_heap_def init_heap_def init_alloc_ptr_def clear_alloc_ptr_def)
  have lists: "seg.items_at two_segments (sh_filled (heap_subheap two_heap 0)) [32768, 65536]"
      "seg.items_at two_segments (sh_partial (heap_subheap two_heap 0)) []"
    by (simp_all add: two_heap_def two_segments_def seg.items_at_def seg_node_def get_seg_next_def)
  have hyps: "(0 :: nat) < NUM_SUBHEAPS" "seg.open_list two_segments LIST_INIT []"
    "distinct ([] @ [] @ [32768, 65536] @ current (heap_ptr two_heap 0))"
    "\<forall>s\<in>set ([] @ [32768, 65536] @ current (heap_ptr two_heap 0)). managed 0 two_segments s"
    "\<forall>s\<in>set []. allocptr_snapshot (segs two_segments s) = BLOCK_BASE s (compute_segment_layout 0)"
    using man cur by simp_all
  from reclaim_subheap_sweeps [OF hyps(1,2) lists(2,1) hyps(3-)] obtain heap' free' stat st' F P Q where
    r: "reclaim_subheap two_heap 0 LIST_INIT two_segments = Some (heap', free', stat, st')"
      "seg.open_list st' free' ([] @ F)" "seg.items_at st' (sh_filled (heap_subheap heap' 0)) Q" "distinct ([] @ F @ P @ Q)"
      "set F = {s \<in> set ([] @ [32768, 65536]). sweep_class 0 two_segments [] s = Seg_Free}"
      "set Q = {s \<in> set ([] @ [32768, 65536]). sweep_class 0 two_segments [] s = Seg_Filled}"
    by (elim exE conjE) (rule that)
  have "set F = {32768}" "set Q = {65536}" using r(5,6) two_segments_class by auto
  then have "F = [32768]" "Q = [65536]"
    using r(4) distinct_singleton [of F 32768] distinct_singleton [of Q 65536] by simp_all
  then show ?thesis using r(1-3) by auto
qed

end
