(* ===== verification/Cycle.thy ===== *)
theory Cycle
  imports Sweep
begin

text \<open>
  A whole collection on the heap of a worker: the sweep of all its subheaps and malloc segments by
  \<open>sml_heap_worker_async\<close>, and its composition with the mark step.  The result is what a garbage collector
  promises: of the objects it decides about, exactly those reachable from the roots stay allocated,
  with their contents.
\<close>

section \<open>The sweep of all subheaps\<close>

text \<open>The segments of a heap: for every block size the partial ones \<open>Ps i\<close>, the filled ones \<open>Qs i\<close> and the current one.\<close>

definition heap_segs :: "heap \<Rightarrow> (nat \<Rightarrow> addr list) \<Rightarrow> (nat \<Rightarrow> addr list) \<Rightarrow> nat \<Rightarrow> addr list" where
  "heap_segs h Ps Qs i = Ps i @ Qs i @ current (heap_ptr h i)"

definition heap_lists :: "nat set \<Rightarrow> seg_store \<Rightarrow> heap \<Rightarrow> (nat \<Rightarrow> addr list) \<Rightarrow> (nat \<Rightarrow> addr list) \<Rightarrow> bool" where
  "heap_lists I st h Ps Qs \<longleftrightarrow>
     (\<forall>i\<in>I. seg.items_at st (sh_partial (heap_subheap h i)) (Ps i) \<and> seg.items_at st (sh_filled (heap_subheap h i)) (Qs i))"

definition sweepable :: "seg_store \<Rightarrow> heap \<Rightarrow> (nat \<Rightarrow> addr list) \<Rightarrow> (nat \<Rightarrow> addr list) \<Rightarrow> bool" where
  "sweepable st h Ps Qs \<longleftrightarrow> heap_lists {..<NUM_SUBHEAPS} st h Ps Qs \<and>
     (\<forall>i<NUM_SUBHEAPS. distinct (heap_segs h Ps Qs i) \<and>
        (\<forall>j<NUM_SUBHEAPS. i \<noteq> j \<longrightarrow> set (heap_segs h Ps Qs i) \<inter> set (heap_segs h Ps Qs j) = {}) \<and>
        (\<forall>s\<in>set (heap_segs h Ps Qs i). managed i st s) \<and>
        (\<forall>s\<in>set (Ps i). allocptr_snapshot (segs st s) = BLOCK_BASE s (compute_segment_layout i)))"

lemma sweepableD:
  assumes "sweepable st h Ps Qs"
  shows "heap_lists {..<NUM_SUBHEAPS} st h Ps Qs" "i < NUM_SUBHEAPS \<Longrightarrow> distinct (heap_segs h Ps Qs i)"
    "i < NUM_SUBHEAPS \<Longrightarrow> j < NUM_SUBHEAPS \<Longrightarrow> s \<in> set (heap_segs h Ps Qs i) \<Longrightarrow> s \<in> set (heap_segs h Ps Qs j) \<Longrightarrow> i = j"
    "i < NUM_SUBHEAPS \<Longrightarrow> s \<in> set (heap_segs h Ps Qs i) \<Longrightarrow> managed i st s"
    "i < NUM_SUBHEAPS \<Longrightarrow> s \<in> set (Ps i) \<Longrightarrow> allocptr_snapshot (segs st s) = BLOCK_BASE s (compute_segment_layout i)"
  using assms unfolding sweepable_def by blast+

lemma classes_from:
  assumes "i < NUM_SUBHEAPS" and "same_seg s st0 st"
  shows "free_segment i st c s \<Longrightarrow> free_segment i st0 c s"
    and "partial_segment i st c s \<Longrightarrow> partial_segment i st0 c s"
    and "filled_segment i st c s \<Longrightarrow> filled_segment i st0 c s"
  unfolding segment_classes using swept_from [OF assms] by blast+

lemma heap_lists_frame:
  assumes "heap_lists I st h Ps Qs" and "\<And>i. i \<in> I \<Longrightarrow> heap_subheap h' i = heap_subheap h i"
    and "\<And>i s. i \<in> I \<Longrightarrow> s \<in> set (Ps i @ Qs i) \<Longrightarrow> get_seg_next st' s = get_seg_next st s"
  shows "heap_lists I st' h' Ps Qs"
  unfolding heap_lists_def
proof
  fix i
  assume i: "i \<in> I"
  then have l: "seg.items_at st (sh_partial (heap_subheap h i)) (Ps i)" "seg.items_at st (sh_filled (heap_subheap h i)) (Qs i)"
    using assms(1) by (simp_all add: heap_lists_def)
  show "seg.items_at st' (sh_partial (heap_subheap h' i)) (Ps i) \<and> seg.items_at st' (sh_filled (heap_subheap h' i)) (Qs i)"
    unfolding assms(2) [OF i] using assms(3) [OF i] by (intro conjI seg.items_frame [OF l(1)] seg.items_frame [OF l(2)]) auto
qed

text \<open>
  The state of the sweep after the first \<open>k\<close> subheaps: \<open>F\<close> are the segments that have become free, \<open>P i\<close> and \<open>Q i\<close> the new
  lists.  They partition the segments of the old lists, are classified, and no other segment has changed.
\<close>

definition swept_sets ::
  "nat \<Rightarrow> (nat \<Rightarrow> addr list) \<Rightarrow> (nat \<Rightarrow> addr list) \<Rightarrow> addr list \<Rightarrow> (nat \<Rightarrow> addr list) \<Rightarrow> (nat \<Rightarrow> addr list) \<Rightarrow> bool" where
  "swept_sets k Ps Qs F P Q \<longleftrightarrow> distinct F \<and> set F \<subseteq> (\<Union>i<k. set (Ps i @ Qs i)) \<and>
     (\<forall>i<k. set (P i @ Q i) \<inter> set F = {} \<and> set (P i @ Q i) \<subseteq> set (Ps i @ Qs i) \<and>
        set (Ps i @ Qs i) \<subseteq> set F \<union> set (P i @ Q i))"

definition swept_class ::
  "nat \<Rightarrow> seg_store \<Rightarrow> heap \<Rightarrow> addr list \<Rightarrow> (nat \<Rightarrow> addr list) \<Rightarrow> (nat \<Rightarrow> addr list) \<Rightarrow> seg_store \<Rightarrow> addr \<Rightarrow> bool" where
  "swept_class i st h F P Q st' s \<longleftrightarrow>
     (s \<in> set F \<longrightarrow> free_segment i st st' s) \<and> (s \<in> set (P i) \<longrightarrow> partial_segment i st st' s) \<and>
     (s \<in> set (Q i @ current (heap_ptr h i)) \<longrightarrow> filled_segment i st st' s)"

definition swept_upto ::
  "nat \<Rightarrow> seg_store \<Rightarrow> heap \<Rightarrow> (nat \<Rightarrow> addr list) \<Rightarrow> (nat \<Rightarrow> addr list) \<Rightarrow> addr list \<Rightarrow> (nat \<Rightarrow> addr list) \<Rightarrow> (nat \<Rightarrow> addr list) \<Rightarrow>
   heap \<Rightarrow> seg_store \<Rightarrow> bool" where
  "swept_upto k st h Ps Qs F P Q h' st' \<longleftrightarrow>
     (\<exists>sh fl. h' = h\<lparr>heap_freelist := fl, heap_subheap := sh\<rparr>) \<and> seg.open_list st' (heap_freelist h') F \<and>
     heap_lists {..<k} st' h' P Q \<and> heap_lists {k..<NUM_SUBHEAPS} st' h' Ps Qs \<and> swept_sets k Ps Qs F P Q \<and>
     (\<forall>i<k. \<forall>s\<in>set (heap_segs h Ps Qs i). swept_class i st h F P Q st' s) \<and>
     (\<forall>s. SEGMENT_SIZE dvd s \<and> (\<forall>i<k. s \<notin> set (heap_segs h Ps Qs i)) \<longrightarrow> same_seg s st st') \<and>
     (\<forall>s. (\<forall>i<k. s \<notin> set (Ps i @ Qs i)) \<longrightarrow> get_seg_next st' s = get_seg_next st s)"

lemma swept_uptoD:
  assumes "swept_upto k st h Ps Qs F P Q h' st'"
  shows "\<exists>sh fl. h' = h\<lparr>heap_freelist := fl, heap_subheap := sh\<rparr>" "seg.open_list st' (heap_freelist h') F"
    "heap_lists {..<k} st' h' P Q" "heap_lists {k..<NUM_SUBHEAPS} st' h' Ps Qs" "swept_sets k Ps Qs F P Q"
    "i < k \<Longrightarrow> s \<in> set (heap_segs h Ps Qs i) \<Longrightarrow> swept_class i st h F P Q st' s"
    "SEGMENT_SIZE dvd s \<Longrightarrow> (\<And>i. i < k \<Longrightarrow> s \<notin> set (heap_segs h Ps Qs i)) \<Longrightarrow> same_seg s st st'"
    "(\<And>i. i < k \<Longrightarrow> s \<notin> set (Ps i @ Qs i)) \<Longrightarrow> get_seg_next st' s = get_seg_next st s"
proof -
  note u = assms [unfolded swept_upto_def]
  show "\<exists>sh fl. h' = h\<lparr>heap_freelist := fl, heap_subheap := sh\<rparr>" using u by (rule conjunct1)
  note u = u [THEN conjunct2]
  show "seg.open_list st' (heap_freelist h') F" using u by (rule conjunct1)
  note u = u [THEN conjunct2]
  show "heap_lists {..<k} st' h' P Q" using u by (rule conjunct1)
  note u = u [THEN conjunct2]
  show "heap_lists {k..<NUM_SUBHEAPS} st' h' Ps Qs" using u by (rule conjunct1)
  note u = u [THEN conjunct2]
  show "swept_sets k Ps Qs F P Q" using u by (rule conjunct1)
  note u = u [THEN conjunct2]
  show "i < k \<Longrightarrow> s \<in> set (heap_segs h Ps Qs i) \<Longrightarrow> swept_class i st h F P Q st' s" using u [THEN conjunct1] by blast
  note u = u [THEN conjunct2]
  show "SEGMENT_SIZE dvd s \<Longrightarrow> (\<And>i. i < k \<Longrightarrow> s \<notin> set (heap_segs h Ps Qs i)) \<Longrightarrow> same_seg s st st'"
    using u [THEN conjunct1] by blast
  show "(\<And>i. i < k \<Longrightarrow> s \<notin> set (Ps i @ Qs i)) \<Longrightarrow> get_seg_next st' s = get_seg_next st s"
    using u [THEN conjunct2] by blast
qed

lemma swept_setsD:
  assumes "swept_sets k Ps Qs F P Q"
  shows "distinct F" "s \<in> set F \<Longrightarrow> \<exists>i<k. s \<in> set (Ps i @ Qs i)" "i < k \<Longrightarrow> s \<in> set (P i @ Q i) \<Longrightarrow> s \<notin> set F"
    "i < k \<Longrightarrow> s \<in> set (P i @ Q i) \<Longrightarrow> s \<in> set (Ps i @ Qs i)"
    "i < k \<Longrightarrow> s \<in> set (Ps i @ Qs i) \<Longrightarrow> s \<in> set F \<or> s \<in> set (P i @ Q i)"
  using assms unfolding swept_sets_def by blast+

text \<open>One more subheap, with \<open>Fn\<close>, \<open>Pn\<close> and \<open>Qn\<close> for its segments.\<close>

lemma swept_sets_next:
  assumes sets: "swept_sets k Ps Qs F P Q" and di: "distinct (F @ Fn @ Pn @ Qn)" and se: "set (Fn @ Pn @ Qn) = set (Ps k @ Qs k)"
    and apart: "\<And>i s. i < k \<Longrightarrow> s \<in> set (Ps i @ Qs i) \<Longrightarrow> s \<notin> set (Ps k @ Qs k)"
  shows "swept_sets (Suc k) Ps Qs (F @ Fn) (P(k := Pn)) (Q(k := Qn))"
proof -
  note d = swept_setsD [OF sets]
  have Fn: "set Fn \<subseteq> set (Ps k @ Qs k)" using se by auto
  have "set (F @ Fn) \<subseteq> (\<Union>i<Suc k. set (Ps i @ Qs i))"
    using Fn d(2) by (fastforce simp: less_Suc_eq)
  moreover have "set ((P(k := Pn)) i @ (Q(k := Qn)) i) \<inter> set (F @ Fn) = {} \<and>
      set ((P(k := Pn)) i @ (Q(k := Qn)) i) \<subseteq> set (Ps i @ Qs i) \<and>
      set (Ps i @ Qs i) \<subseteq> set (F @ Fn) \<union> set ((P(k := Pn)) i @ (Q(k := Qn)) i)" if "i < Suc k" for i
  proof (cases "i = k")
    case True
    then show ?thesis using di se by auto
  next
    case False
    then have i: "i < k" using that by simp
    have "s \<notin> set Fn" if "s \<in> set (P i @ Q i)" for s using apart [OF i d(4) [OF i that]] Fn by blast
    then show ?thesis using False d(3,4,5) [OF i] by auto
  qed
  ultimately show ?thesis using di unfolding swept_sets_def by auto
qed

lemma swept_class_next:
  assumes k: "k < NUM_SUBHEAPS" and i: "i < k" and same: "same_seg s st1 st2" and Fn: "s \<notin> set Fn"
    and cl: "swept_class i st h F P Q st1 s"
  shows "swept_class i st h (F @ Fn) (P(k := Pn)) (Q(k := Qn)) st2 s"
  using cl Fn i classes_same [OF _ same, of i st] k unfolding swept_class_def by auto

lemma swept_class_new:
  assumes k: "k < NUM_SUBHEAPS" and old: "same_seg s st st1" and F: "s \<notin> set F"
    and cl: "s \<in> set Fn \<Longrightarrow> free_segment k st1 st2 s" "s \<in> set Pn \<Longrightarrow> partial_segment k st1 st2 s"
      "s \<in> set Qn \<Longrightarrow> filled_segment k st1 st2 s" "s \<in> set (current (heap_ptr h k)) \<Longrightarrow> filled_segment k st1 st2 s"
  shows "swept_class k st h (F @ Fn) (P(k := Pn)) (Q(k := Qn)) st2 s"
  using cl F classes_from [OF k old] unfolding swept_class_def by auto

lemma heap_segs_in: "s \<in> set (Ps i @ Qs i) \<Longrightarrow> s \<in> set (heap_segs h Ps Qs i)"
  by (auto simp: heap_segs_def)

text \<open>The segments of the next subheap are as before the sweep.\<close>

lemma sweep_untouched:
  assumes k: "k < NUM_SUBHEAPS" and sw: "sweepable st h Ps Qs" and u: "swept_upto k st h Ps Qs F P Q h1 st1"
    and s: "s \<in> set (heap_segs h Ps Qs i)" and i: "k \<le> i" "i < NUM_SUBHEAPS"
  shows "same_seg s st st1" and "s \<notin> set F"
proof -
  note d = swept_uptoD [OF u] and w = sweepableD [OF sw]
  have ne: "s \<notin> set (heap_segs h Ps Qs j)" if "j < k" for j using w(3) [of j i s] that s i by auto
  show "same_seg s st st1" by (rule d(7)) (use w(4) [OF i(2) s] ne in \<open>auto simp: managed_def\<close>)
  show "s \<notin> set F" using swept_setsD(2) [OF d(5)] ne heap_segs_in by blast
qed

lemma sweep_lists_next:
  assumes k: "k < NUM_SUBHEAPS" and sw: "sweepable st h Ps Qs" and u: "swept_upto k st h Ps Qs F P Q h1 st1"
    and h2: "heap_subheap h2 = (heap_subheap h1)(k := sh)"
    and nx: "\<And>t. t \<notin> set (F @ Fn @ Pn @ Qn) \<Longrightarrow> get_seg_next st2 t = get_seg_next st1 t"
    and it: "seg.items_at st2 (sh_partial sh) Pn" "seg.items_at st2 (sh_filled sh) Qn"
    and se: "set (Fn @ Pn @ Qn) = set (Ps k @ Qs k)"
  shows "heap_lists {..<Suc k} st2 h2 (P(k := Pn)) (Q(k := Qn))" and "heap_lists {Suc k..<NUM_SUBHEAPS} st2 h2 Ps Qs"
proof -
  note d = swept_uptoD [OF u] and w = sweepableD [OF sw] and ss = swept_setsD [OF swept_uptoD(5) [OF u]]
  have link: "get_seg_next st2 s = get_seg_next st1 s" if "s \<in> set (Ps i @ Qs i)" "i < NUM_SUBHEAPS" "i \<noteq> k" "s \<notin> set F" for s i
    using nx [of s] w(3) [of i k s] heap_segs_in [of s] that k se by fastforce
  have "heap_lists {..<k} st2 h2 P Q"
  proof (rule heap_lists_frame [OF d(3)])
    show "get_seg_next st2 s = get_seg_next st1 s" if "i \<in> {..<k}" "s \<in> set (P i @ Q i)" for i s
      using link [of s i] ss(3,4) [of i s] that k by simp
  qed (simp add: h2)
  then show "heap_lists {..<Suc k} st2 h2 (P(k := Pn)) (Q(k := Qn))"
    using it by (auto simp: heap_lists_def less_Suc_eq h2)
  show "heap_lists {Suc k..<NUM_SUBHEAPS} st2 h2 Ps Qs"
  proof (rule heap_lists_frame)
    show "heap_lists {Suc k..<NUM_SUBHEAPS} st1 h1 Ps Qs" using d(4) by (simp add: heap_lists_def)
    show "get_seg_next st2 s = get_seg_next st1 s" if "i \<in> {Suc k..<NUM_SUBHEAPS}" "s \<in> set (Ps i @ Qs i)" for i s
      using link [of s i] sweep_untouched(2) [OF k sw u heap_segs_in] that by simp
  qed (simp add: h2)
qed

lemma sweep_next:
  assumes k: "k < NUM_SUBHEAPS" and sw: "sweepable st h Ps Qs" and u: "swept_upto k st h Ps Qs F P Q h1 st1"
  shows "\<exists>h2 free2 stat st2 F' P' Q'. reclaim_subheap h1 k (heap_freelist h1) st1 = Some (h2, free2, stat, st2) \<and>
    swept_upto (Suc k) st h Ps Qs F' P' Q' (h2\<lparr>heap_freelist := free2\<rparr>) st2"
proof -
  let ?C = "current (heap_ptr h k)" and ?S = "heap_segs h Ps Qs"
  note d = swept_uptoD [OF u] and w = sweepableD [OF sw] and old = sweep_untouched [OF k sw u _ le_refl k]
  from d(1) obtain sh1 fl1 where h1: "h1 = h\<lparr>heap_freelist := fl1, heap_subheap := sh1\<rparr>" by blast
  have ptr: "heap_ptr h1 k = heap_ptr h k" by (simp add: h1)
  have lists: "seg.items_at st1 (sh_partial (heap_subheap h1 k)) (Ps k)" "seg.items_at st1 (sh_filled (heap_subheap h1 k)) (Qs k)"
    using d(4) k by (simp_all add: heap_lists_def)
  have dis: "distinct (F @ Ps k @ Qs k @ current (heap_ptr h1 k))"
    using swept_setsD(1) [OF d(5)] w(2) [OF k] old(2) by (auto simp: ptr heap_segs_def)
  have man: "\<forall>s\<in>set (Ps k @ Qs k @ current (heap_ptr h1 k)). managed k st1 s"
    using managed_same [OF k old(1) w(4) [OF k]] by (auto simp: ptr heap_segs_def)
  have snap: "\<forall>s\<in>set (Ps k). allocptr_snapshot (segs st1 s) = BLOCK_BASE s (compute_segment_layout k)"
    using same_seg_fields [OF old(1)] w(5) [OF k] by (simp add: heap_segs_def)
  show ?thesis
  proof (rule reclaim_subheap_spec [OF k d(2) lists dis man snap, unfolded ptr])
    fix h2 free2 stat st2 Fn Pn Qn sh
    assume r: "reclaim_subheap h1 k (heap_freelist h1) st1 = Some (h2, free2, stat, st2)"
      and h2: "h2 = h1\<lparr>heap_subheap := (heap_subheap h1)(k := sh)\<rparr>"
      and nx: "\<forall>t. t \<notin> set (F @ Fn @ Pn @ Qn) \<longrightarrow> get_seg_next st2 t = get_seg_next st1 t"
      and fl: "seg.open_list st2 free2 (F @ Fn)"
      and it: "seg.items_at st2 (sh_partial (heap_subheap h2 k)) Pn" "seg.items_at st2 (sh_filled (heap_subheap h2 k)) Qn"
      and di: "distinct (F @ Fn @ Pn @ Qn)" and se: "set (Fn @ Pn @ Qn) = set (Ps k @ Qs k)"
      and cl: "\<forall>s\<in>set Fn. free_segment k st1 st2 s" "\<forall>s\<in>set Pn. partial_segment k st1 st2 s"
        "\<forall>s\<in>set Qn. filled_segment k st1 st2 s" "\<forall>s\<in>set ?C. filled_segment k st1 st2 s"
      and sm: "\<forall>s. SEGMENT_SIZE dvd s \<and> s \<notin> set (Ps k @ Qs k @ ?C) \<longrightarrow> same_seg s st1 st2"
    let ?h = "h2\<lparr>heap_freelist := free2\<rparr>"
    have sub: "heap_subheap ?h = (heap_subheap h1)(k := sh)" by (simp add: h2)
    have nx': "get_seg_next st2 t = get_seg_next st1 t" if "t \<notin> set (F @ Fn @ Pn @ Qn)" for t using nx that by blast
    have it': "seg.items_at st2 (sh_partial sh) Pn" "seg.items_at st2 (sh_filled sh) Qn" using it by (simp_all add: h2)
    have apart: "s \<notin> set (?S k)" if "i < k" "s \<in> set (?S i)" for i s using w(3) [of i k s] that k by auto
    have "swept_upto (Suc k) st h Ps Qs (F @ Fn) (P(k := Pn)) (Q(k := Qn)) ?h st2"
      unfolding swept_upto_def
    proof (intro conjI allI impI ballI)
      show "\<exists>sh fl. ?h = h\<lparr>heap_freelist := fl, heap_subheap := sh\<rparr>"
        by (intro exI [of _ "sh1(k := sh)"] exI [of _ free2]) (simp add: h2 h1)
      show "seg.open_list st2 (heap_freelist ?h) (F @ Fn)" using fl by simp
      show "heap_lists {..<Suc k} st2 ?h (P(k := Pn)) (Q(k := Qn))" "heap_lists {Suc k..<NUM_SUBHEAPS} st2 ?h Ps Qs"
        by (rule sweep_lists_next [OF k sw u sub nx' it' se]; assumption)+
      show "swept_sets (Suc k) Ps Qs (F @ Fn) (P(k := Pn)) (Q(k := Qn))"
        using swept_sets_next [OF d(5) di se] apart heap_segs_in by blast
      show "swept_class i st h (F @ Fn) (P(k := Pn)) (Q(k := Qn)) st2 s" if i: "i < Suc k" and s: "s \<in> set (?S i)" for i s
      proof (cases "i = k")
        case True
        then show ?thesis using swept_class_new [OF k old] cl s by blast
      next
        case False
        then have i: "i < k" using i by simp
        have "same_seg s st1 st2" using sm apart [OF i s] w(4) [of i s] i k s by (simp add: heap_segs_def managed_def)
        moreover have "s \<notin> set Fn" using apart [OF i s] se by (auto simp: heap_segs_def)
        ultimately show ?thesis by (rule swept_class_next [OF k i _ _ d(6) [OF i s]])
      qed
      show "same_seg s st st2" if "SEGMENT_SIZE dvd s \<and> (\<forall>i<Suc k. s \<notin> set (?S i))" for s
        using d(7) [of s] sm that same_seg_trans [of s st st1 st2] by (auto simp: heap_segs_def)
      show "get_seg_next st2 s = get_seg_next st s" if "\<forall>i<Suc k. s \<notin> set (Ps i @ Qs i)" for s
      proof -
        have "s \<notin> set F" using swept_setsD(2) [OF d(5), of s] that less_Suc_eq by blast
        moreover have "s \<notin> set (Fn @ Pn @ Qn)" unfolding se using that by blast
        ultimately show ?thesis using nx' [of s] d(8) [of s] that by simp
      qed
    qed
    then show ?thesis using r by blast
  qed
qed

lemma sweep_all:
  assumes sw: "sweepable st h Ps Qs"
  shows "k \<le> n \<Longrightarrow> n \<le> NUM_SUBHEAPS \<Longrightarrow> swept_upto k st h Ps Qs F P Q (rh_heap s) (rh_store s) \<Longrightarrow>
    \<exists>s' F' P' Q'. fold (\<lambda>i s. Option.bind s (reclaim_heap_step i)) [k..<n] (Some s) = Some s' \<and>
      swept_upto n st h Ps Qs F' P' Q' (rh_heap s') (rh_store s')"
proof (induction "n - k" arbitrary: k F P Q s)
  case 0
  then have "k = n" by simp
  then show ?case using 0 by (intro exI [of _ s] exI [of _ F] exI [of _ P] exI [of _ Q]) simp
next
  case (Suc d)
  then have k: "k < n" "k < NUM_SUBHEAPS" by linarith+
  from sweep_next [OF k(2) sw Suc.prems(3)] obtain h2 free2 stat st2 F1 P1 Q1 where
    1: "reclaim_subheap (rh_heap s) k (heap_freelist (rh_heap s)) (rh_store s) = Some (h2, free2, stat, st2)"
      "swept_upto (Suc k) st h Ps Qs F1 P1 Q1 (h2\<lparr>heap_freelist := free2\<rparr>) st2" by blast
  obtain s1 where s1: "reclaim_heap_step k s = Some s1" "rh_heap s1 = h2\<lparr>heap_freelist := free2\<rparr>" "rh_store s1 = st2"
    by (simp add: reclaim_heap_step_def 1(1) Let_def)
  have "[k..<n] = k # [Suc k..<n]" using k(1) by (rule upt_conv_Cons)
  then show ?case using Suc.hyps(1) [of "Suc k" F1 P1 Q1 s1] Suc.hyps(2) Suc.prems(2) k 1(2) s1 by simp
qed

text \<open>Stores that differ in links outside of the lists of the heap.\<close>

lemma sweepable_same:
  assumes sw: "sweepable st h Ps Qs" and same: "\<And>s. same_seg s st st'"
    and nx: "\<And>i s. i < NUM_SUBHEAPS \<Longrightarrow> s \<in> set (Ps i @ Qs i) \<Longrightarrow> get_seg_next st' s = get_seg_next st s"
    and h': "heap_subheap h' = heap_subheap h" "heap_ptr h' = heap_ptr h"
  shows "sweepable st' h' Ps Qs"
proof -
  note w = sweepableD [OF sw]
  have segs: "heap_segs h' Ps Qs = heap_segs h Ps Qs" by (rule ext) (simp add: heap_segs_def h'(2))
  have "heap_lists {..<NUM_SUBHEAPS} st' h' Ps Qs" by (rule heap_lists_frame [OF w(1)]) (use nx h'(1) in auto)
  moreover have "allocptr_snapshot (segs st' s) = allocptr_snapshot (segs st s)" for s using same_seg_fields(2) [OF same] .
  ultimately show ?thesis using sw managed_same [OF _ same w(4)] unfolding sweepable_def segs by auto
qed

text \<open>The malloc segments of a heap, in memory that belongs to none of its segments.\<close>

definition msegs_beside :: "addr set \<Rightarrow> addr set \<Rightarrow> bool" where
  "msegs_beside Ms S \<longleftrightarrow> (\<forall>a\<in>Ms. \<forall>s\<in>S. a + 24 \<le> s \<or> s + SEGMENT_SIZE \<le> a)"

lemma segment_addr_range: "segment_addr c \<le> c" "c < segment_addr c + SEGMENT_SIZE"
  using mod_less_divisor [of SEGMENT_SIZE c] by (simp_all add: segment_addr_def)

lemma beside_bytes:
  assumes "msegs_beside Ms S" and "\<And>s. SEGMENT_SIZE dvd s \<Longrightarrow> s \<notin> S \<Longrightarrow> same_seg s st st'"
    and "a \<in> Ms" and "a \<le> c" "c < a + 24"
  shows "bytes st' c = bytes st c"
proof -
  note c = segment_addr_range [of c]
  then have "segment_addr c \<notin> S" using assms(1,3,4,5) unfolding msegs_beside_def by force
  then show ?thesis using assms(2) [OF segment_addr_dvd] c unfolding same_seg_def by blast
qed

lemma msegs_same:
  assumes "msegs_beside Ms S" and "\<And>s. SEGMENT_SIZE dvd s \<Longrightarrow> s \<notin> S \<Longrightarrow> same_seg s st st'" and "a \<in> Ms"
  shows "get_mseg_next st' a = get_mseg_next st a" and "mseg_keep st' a = mseg_keep st a"
proof -
  note b = beside_bytes [OF assms]
  show "get_mseg_next st' a = get_mseg_next st a"
    unfolding get_mseg_next_def mseg_next_def by (rule load64_cong, rule b) auto
  have "load32 (bytes st') (a + k) = load32 (bytes st) (a + k)" if "k \<in> {16, 20}" for k
    by (rule load32_cong, rule b) (use that in auto)
  then show "mseg_keep st' a = mseg_keep st a" by (simp add: mseg_keep_def)
qed

text \<open>
  A heap before its sweep: the lists of its subheaps, its free segments \<open>FL\<close>, those of the pool \<open>FP\<close>, and its
  malloc segments \<open>Ms\<close>.
\<close>

definition all_segs :: "heap \<Rightarrow> (nat \<Rightarrow> addr list) \<Rightarrow> (nat \<Rightarrow> addr list) \<Rightarrow> addr set" where
  "all_segs h Ps Qs = (\<Union>i<NUM_SUBHEAPS. set (heap_segs h Ps Qs i))"

definition heap_ready ::
  "heap_state \<Rightarrow> heap \<Rightarrow> (nat \<Rightarrow> addr list) \<Rightarrow> (nat \<Rightarrow> addr list) \<Rightarrow> addr list \<Rightarrow> addr list \<Rightarrow> addr list \<Rightarrow> bool" where
  "heap_ready hs h Ps Qs FL FP Ms \<longleftrightarrow>
     sweepable (hs_store hs) h Ps Qs \<and> seg.open_list (hs_store hs) (heap_freelist h) FL \<and>
     seg.items_at (hs_store hs) (pool_freelist (hs_pool hs)) FP \<and> set FL \<inter> set FP = {} \<and>
     all_segs h Ps Qs \<inter> set (FL @ FP) = {} \<and> mseg.items_at (hs_store hs) (malloc_subheap h) Ms \<and>
     msegs_apart (set Ms) \<and> msegs_beside (set Ms) (all_segs h Ps Qs)"

definition heap_swept ::
  "seg_store \<Rightarrow> heap \<Rightarrow> (nat \<Rightarrow> addr list) \<Rightarrow> (nat \<Rightarrow> addr list) \<Rightarrow> addr list \<Rightarrow> addr list \<Rightarrow>
   addr list \<Rightarrow> (nat \<Rightarrow> addr list) \<Rightarrow> (nat \<Rightarrow> addr list) \<Rightarrow> heap \<Rightarrow> addr \<Rightarrow> seg_store \<Rightarrow> bool" where
  "heap_swept st h Ps Qs FP Ms F P Q h' pool_free st' \<longleftrightarrow>
     heap_ptr h' = heap_ptr h \<and> seg.open_list st' (heap_freelist h') F \<and> heap_lists {..<NUM_SUBHEAPS} st' h' P Q \<and>
     swept_sets NUM_SUBHEAPS Ps Qs F P Q \<and>
     (\<forall>i<NUM_SUBHEAPS. \<forall>s\<in>set (heap_segs h Ps Qs i). swept_class i st h F P Q st' s) \<and>
     mseg.items_at st' (malloc_subheap h') (filter (mseg_keep st) Ms) \<and>
     (\<forall>a\<in>set Ms. mseg_keep st a \<longrightarrow> load32 (bytes st') (a + 16) = 1 \<and> load32 (bytes st') (a + 20) = 0) \<and>
     seg.items_at st' pool_free FP \<and>
     (\<forall>c. outside_msegs (set Ms) c \<and> segment_addr c \<notin> all_segs h Ps Qs \<longrightarrow> bytes st' c = bytes st c)"

text \<open>Reclaiming the malloc segments leaves the segments alone.\<close>

lemma mseg_sweep_same:
  assumes "msegs_beside (set Ms) S" and "s \<in> S" and "segs st' = segs st"
    and "\<And>c. outside_msegs (set Ms) c \<Longrightarrow> bytes st' c = bytes st c"
  shows "same_seg s st st'"
proof -
  have "outside_msegs (set Ms) c" if "s \<le> c" "c < s + SEGMENT_SIZE" for c
    unfolding outside_msegs_def
  proof
    fix b
    assume "b \<in> set Ms"
    then have "b + 24 \<le> s \<or> s + SEGMENT_SIZE \<le> b" using assms(1,2) unfolding msegs_beside_def by blast
    then show "c < b \<or> b + 24 \<le> c" using that by linarith
  qed
  then show ?thesis using assms(3,4) by (simp add: same_seg_def)
qed

lemma reclaim_heap_sweeps:
  assumes ready: "heap_ready hs h Ps Qs FL FP Ms"
  shows "\<exists>h' hs' F P Q. reclaim_heap nan h hs = Some (h', filter (\<lambda>a. \<not> mseg_keep (hs_store hs) a) Ms, hs') \<and>
    heap_swept (hs_store hs) h Ps Qs (FL @ FP) Ms F P Q h' (pool_freelist (hs_pool hs')) (hs_store hs')"
proof -
  let ?st = "hs_store hs" and ?h0 = "h\<lparr>heap_freelist := LIST_INIT\<rparr>" and ?S = "all_segs h Ps Qs"
  note r = ready [unfolded heap_ready_def]
  have w: "sweepable ?st h Ps Qs" and fl: "seg.open_list ?st (heap_freelist h) FL"
    and fp: "seg.items_at ?st (pool_freelist (hs_pool hs)) FP" "set FL \<inter> set FP = {}" and ap: "?S \<inter> set (FL @ FP) = {}"
    and ms: "mseg.items_at ?st (malloc_subheap h) Ms" "msegs_apart (set Ms)" "msegs_beside (set Ms) ?S"
    using r by (iprover)+
  from push_list_items [OF fl fp] obtain p1 l1 st1 where
    1: "segment_push_list (pool_freelist (hs_pool hs)) (heap_freelist h) ?st = (p1, l1, st1)" "seg.items_at st1 p1 (FL @ FP)"
      "st1 = ?st \<or> FL \<noteq> [] \<and> st1 = set_seg_next (last FL) (pool_freelist (hs_pool hs)) ?st" by blast
  have same1: "same_seg s ?st st1" for s using 1(3) set_next_same same_seg_refl by blast
  have nx1: "get_seg_next st1 s = get_seg_next ?st s" if "s \<notin> set FL" for s
    using 1(3) that last_in_set [of FL] by (auto simp: set_seg_next_def upd_seg_def get_seg_next_def)
  have listed: "s \<in> ?S" if "i < NUM_SUBHEAPS" "s \<in> set (Ps i @ Qs i)" for i s
    using that heap_segs_in [of s Ps i Qs h] by (auto simp: all_segs_def)
  have w1: "sweepable st1 ?h0 Ps Qs" by (rule sweepable_same [OF w same1]) (use nx1 listed ap in auto)
  define s0 where "s0 = \<lparr>rh_heap = ?h0, rh_store = st1, rh_stat = (\<lambda>_. no_stat), rh_alloc_total = 0, rh_live_total = 0, rh_free_total = 0\<rparr>"
  have "swept_upto 0 st1 ?h0 Ps Qs [] Ps Qs (rh_heap s0) (rh_store s0)"
    using sweepableD(1) [OF w1] same_seg_refl
    by (simp add: swept_upto_def s0_def heap_lists_def swept_sets_def atLeast0LessThan exI [of _ "heap_subheap h"] exI [of _ LIST_INIT])
  from sweep_all [OF w1 le0 order_refl this] obtain s F P Q where
    2: "fold (\<lambda>i s. Option.bind s (reclaim_heap_step i)) [0..<NUM_SUBHEAPS] (Some s0) = Some s"
      "swept_upto NUM_SUBHEAPS st1 ?h0 Ps Qs F P Q (rh_heap s) (rh_store s)" by blast
  note d = swept_uptoD [OF 2(2)]
  from d(1) obtain sh fl2 where h2: "rh_heap s = ?h0\<lparr>heap_freelist := fl2, heap_subheap := sh\<rparr>" by blast
  have segs0: "heap_segs ?h0 Ps Qs = heap_segs h Ps Qs" by (rule ext) (simp add: heap_segs_def)
  have same2: "same_seg t ?st (rh_store s)" if "SEGMENT_SIZE dvd t" "t \<notin> ?S" for t
    by (rule same_seg_trans [OF same1 d(7) [OF that(1)]]) (use that(2) in \<open>auto simp: all_segs_def segs0\<close>)
  have m: "get_mseg_next (rh_store s) a = get_mseg_next ?st a" "mseg_keep (rh_store s) a = mseg_keep ?st a" if "a \<in> set Ms" for a
    by (rule msegs_same [OF ms(3) same2 that]; assumption)+
  have ms2: "mseg.items_at (rh_store s) (malloc_subheap (rh_heap s)) Ms"
    using mseg.items_frame [OF ms(1) m(1)] by (simp add: h2)
  have keep: "filter (mseg_keep (rh_store s)) Ms = filter (mseg_keep ?st) Ms"
    "filter (\<lambda>a. \<not> mseg_keep (rh_store s) a) Ms = filter (\<lambda>a. \<not> mseg_keep ?st a) Ms"
    by (rule filter_cong; use m(2) in simp)+
  from reclaim_malloc_spec [OF ms2 ms(2), unfolded keep] obtain head st3 where
    3: "reclaim_malloc_segments (malloc_subheap (rh_heap s)) (rh_store s) = Some (head, filter (\<lambda>a. \<not> mseg_keep ?st a) Ms, st3)"
      "mseg.items_at st3 head (filter (mseg_keep ?st) Ms)" "segs st3 = segs (rh_store s)"
      "\<forall>a\<in>set Ms. mseg_keep (rh_store s) a \<longrightarrow> load32 (bytes st3) (a + 16) = 1 \<and> load32 (bytes st3) (a + 20) = 0"
      "\<And>c. outside_msegs (set Ms) c \<Longrightarrow> bytes st3 c = bytes (rh_store s) c" by blast
  have nx3: "get_seg_next st3 t = get_seg_next (rh_store s) t" for t by (simp add: get_seg_next_def 3(3))
  obtain h' hs' where res: "reclaim_heap nan h hs = Some (h', filter (\<lambda>a. \<not> mseg_keep ?st a) Ms, hs')"
      "hs_store hs' = st3" "pool_freelist (hs_pool hs') = p1" "heap_ptr h' = heap_ptr h" "heap_freelist h' = fl2"
      "heap_subheap h' = sh" "malloc_subheap h' = head"
    by (simp add: reclaim_heap_def Let_def 1(1) 2(1) [unfolded s0_def] 3(1)) (simp add: h2)
  have "heap_swept ?st h Ps Qs (FL @ FP) Ms F P Q h' p1 st3"
    unfolding heap_swept_def
  proof (intro conjI allI impI ballI)
    show "heap_ptr h' = heap_ptr h" by (rule res(4))
    have "seg.open_list (rh_store s) fl2 F" using d(2) by (simp add: h2)
    then show "seg.open_list st3 (heap_freelist h') F" unfolding res(5) by (rule seg.open_frame) (simp add: nx3)
    show "heap_lists {..<NUM_SUBHEAPS} st3 h' P Q" by (rule heap_lists_frame [OF d(3)]) (simp_all add: nx3 h2 res)
    show "swept_sets NUM_SUBHEAPS Ps Qs F P Q" by (rule d(5))
    show "swept_class i ?st h F P Q st3 t" if i: "i < NUM_SUBHEAPS" and t: "t \<in> set (heap_segs h Ps Qs i)" for i t
    proof -
      have "t \<in> ?S" using i t by (auto simp: all_segs_def)
      then have "same_seg t (rh_store s) st3" by (rule mseg_sweep_same [OF ms(3) _ 3(3,5)])
      moreover have "swept_class i st1 ?h0 F P Q (rh_store s) t" by (rule d(6)) (use i t segs0 in auto)
      ultimately show ?thesis
        using classes_same [OF i] classes_from [OF i same1] unfolding swept_class_def by auto
    qed
    show "mseg.items_at st3 (malloc_subheap h') (filter (mseg_keep ?st) Ms)" unfolding res(7) by (rule 3(2))
    show "load32 (bytes st3) (a + 16) = 1" "load32 (bytes st3) (a + 20) = 0" if "a \<in> set Ms" "mseg_keep ?st a" for a
      using 3(4) m(2) [OF that(1)] that by simp_all
    show "seg.items_at st3 p1 (FL @ FP)"
    proof (rule seg.items_frame [OF 1(2)])
      fix t
      assume "t \<in> set (FL @ FP)"
      then have "t \<notin> set (Ps i @ Qs i)" if "i < NUM_SUBHEAPS" for i using listed [OF that, of t] ap by blast
      then show "get_seg_next st3 t = get_seg_next st1 t" using d(8) [of t] nx3 by simp
    qed
    show "bytes st3 c = bytes ?st c" if "outside_msegs (set Ms) c \<and> segment_addr c \<notin> ?S" for c
      using 3(5) [of c] same2 [OF segment_addr_dvd, of c] segment_addr_range [of c] that unfolding same_seg_def by auto
  qed
  then show ?thesis using res(1,2,3) by blast
qed

section \<open>Marking and sweeping\<close>

text \<open>
  The heap of a worker at the start of a collection: the objects \<open>A\<close> are well-formed, nothing is marked, the malloc
  segments hold large objects, and large objects are outside of the segments.
\<close>

definition collectable ::
  "addr set \<Rightarrow> heap_state \<Rightarrow> heap \<Rightarrow> (nat \<Rightarrow> addr list) \<Rightarrow> (nat \<Rightarrow> addr list) \<Rightarrow> addr list \<Rightarrow> addr list \<Rightarrow> addr list \<Rightarrow> bool" where
  "collectable A hs h Ps Qs FL FP Ms \<longleftrightarrow>
     heap_wf A (hs_store hs) \<and> heap_ready hs h Ps Qs FL FP Ms \<and>
     (\<forall>i<NUM_SUBHEAPS. \<forall>s\<in>set (heap_segs h Ps Qs i). unmarked i (hs_store hs) s) \<and>
     (\<forall>x\<in>A. \<not> small (hs_store hs) x \<longrightarrow> load32 (bytes (hs_store hs)) (x - 12) = 0 \<and>
        (\<forall>s\<in>all_segs h Ps Qs. extent (hs_store hs) x \<inter> {s..<s + SEGMENT_SIZE} = {})) \<and>
     (\<forall>x\<in>A. \<not> obj_marked (hs_store hs) x) \<and>
     (\<forall>a\<in>set Ms. a + 32 \<in> A \<and> \<not> small (hs_store hs) (a + 32))"

lemma collectableD:
  assumes "collectable A hs h Ps Qs FL FP Ms"
  shows "heap_wf A (hs_store hs)" "heap_ready hs h Ps Qs FL FP Ms"
    "i < NUM_SUBHEAPS \<Longrightarrow> s \<in> set (heap_segs h Ps Qs i) \<Longrightarrow> unmarked i (hs_store hs) s"
    "x \<in> A \<Longrightarrow> \<not> small (hs_store hs) x \<Longrightarrow> load32 (bytes (hs_store hs)) (x - 12) = 0"
    "x \<in> A \<Longrightarrow> \<not> small (hs_store hs) x \<Longrightarrow> s \<in> all_segs h Ps Qs \<Longrightarrow> extent (hs_store hs) x \<inter> {s..<s + SEGMENT_SIZE} = {}"
    "x \<in> A \<Longrightarrow> \<not> obj_marked (hs_store hs) x"
    "a \<in> set Ms \<Longrightarrow> a + 32 \<in> A \<and> \<not> small (hs_store hs) (a + 32)"
  using assms unfolding collectable_def by blast+

lemma heap_readyD:
  assumes "heap_ready hs h Ps Qs FL FP Ms"
  shows "sweepable (hs_store hs) h Ps Qs" "seg.open_list (hs_store hs) (heap_freelist h) FL"
    "seg.items_at (hs_store hs) (pool_freelist (hs_pool hs)) FP" "set FL \<inter> set FP = {}"
    "all_segs h Ps Qs \<inter> set (FL @ FP) = {}" "mseg.items_at (hs_store hs) (malloc_subheap h) Ms"
    "msegs_apart (set Ms)" "msegs_beside (set Ms) (all_segs h Ps Qs)"
  using assms unfolding heap_ready_def by (iprover+)

text \<open>The marks in the segments of the heap are those of its objects.\<close>

lemma block_marked:
  assumes c: "collectable A hs h Ps Qs FL FP Ms" and mk: "marking_of A (hs_store hs) st"
    and i: "i < NUM_SUBHEAPS" and s: "s \<in> set (heap_segs h Ps Qs i)" and j: "j < 32 * words0 (compute_segment_layout i)"
  shows "marked (bytes st) s (compute_segment_layout i) j \<longleftrightarrow>
    (\<exists>x\<in>A. gc_target (hs_store hs) x \<and> small (hs_store hs) x \<and> j < num_blocks (compute_segment_layout i) \<and>
       x = block_addr s (compute_segment_layout i) j \<and> obj_marked st x)" (is "?L \<longleftrightarrow> ?R")
proof -
  let ?st = "hs_store hs" and ?l = "compute_segment_layout i"
  note wf = collectableD(1) [OF c] and w = sweepableD [OF heap_readyD(1) [OF collectableD(2) [OF c]]]
  have m: "SEGMENT_SIZE dvd s" "seg_layout (segs ?st s) = Some i" using w(4) [OF i s] by (simp_all add: managed_def)
  have lo: "layout_of ?st s = ?l" using m(2) by (simp add: layout_of_def)
  have ok: "layout_ok ?l" by (rule compute_segment_layout_ok [OF i])
  have bit: "obj_marked st x \<longleftrightarrow> marked (bytes st) s ?l (object_index s ?l x)" if "x \<in> A" "small ?st x" "segment_addr x = s" for x
  proof -
    have "mark_bit ?st x = (base2 s ?l, object_index s ?l x)" using that lo by (simp add: mark_bit_def Let_def)
    then show ?thesis by (simp add: obj_marked_def marking_mark_bit [OF mk that(1)] marked_def)
  qed
  show ?thesis
  proof
    assume ?L
    have "s \<in> all_segs h Ps Qs" using i s by (auto simp: all_segs_def)
    then have "\<forall>x\<in>A. \<not> small ?st x \<longrightarrow> extent ?st x \<inter> {s..<s + SEGMENT_SIZE} = {}" using collectableD(5) [OF c] by blast
    moreover have "marks_within A ?st st" using mk by (simp add: marking_of_def)
    moreover have "\<not> marked (bytes ?st) s ?l j" using collectableD(3) [OF c i s] j by (simp add: unmarked_def)
    ultimately obtain x where x: "x \<in> A" "gc_target ?st x" "small ?st x" "segment_addr x = s" "object_index s ?l x = j"
      using \<open>?L\<close> m i j unfolding marks_within_def by blast
    from small_block [OF heap_wfD(4) [OF wf x(1,3)]] obtain sg l k where
      k: "sg = segment_addr x" "l = layout_of ?st sg" "k < num_blocks l" "x = block_addr sg l k" "object_index sg l x = k" .
    then have b: "j < num_blocks ?l" "x = block_addr s ?l j" using x(4,5) lo by simp_all
    have "obj_marked st x" using bit [OF x(1,3,4)] x(5) \<open>?L\<close> by simp
    then show ?R using x(2,3) b by (intro bexI [OF _ x(1)] conjI)
  next
    assume ?R
    then obtain x where x: "x \<in> A" "small ?st x" "j < num_blocks ?l" "x = block_addr s ?l j" "obj_marked st x" by blast
    have "segment_addr x = s" "object_index s ?l x = j"
      using block_in_segment(1) [OF ok m(1) x(3), of 0] object_index_block [of 0 ?l s j] x(4) by simp_all
    then show ?L using bit [OF x(1,2)] x(5) by simp
  qed
qed

lemma large_keep:
  assumes c: "collectable A hs h Ps Qs FL FP Ms" and mk: "marking_of A (hs_store hs) st" and a: "a \<in> set Ms"
  shows "mseg_keep st a \<longleftrightarrow> \<not> gc_target (hs_store hs) (a + 32) \<or> obj_marked st (a + 32)"
    and "get_mseg_next st a = get_mseg_next (hs_store hs) a"
proof -
  let ?st = "hs_store hs" and ?x = "a + 32"
  have x: "?x \<in> A" "\<not> small ?st ?x" using collectableD(7) [OF c a] by auto
  note wf = collectableD(1) [OF c] and z = collectableD(4) [OF c x]
  have out: "b \<notin> mark_zone ?st y" if "y \<in> A" "?x - 32 \<le> b" "b < ?x - 24" for y b
  proof
    assume "b \<in> mark_zone ?st y"
    then have by': "b \<in> extent ?st y" using zone_in_extent [OF wf that(1)] by blast
    have "b \<in> extent ?st ?x" using that x(2) total_size_ge [of "bytes ?st" ?x] by (simp add: extent_def)
    then have "y = ?x" using extents_meet [OF wf x(1) that(1) _ by'] x(2) by blast
    then show False using \<open>b \<in> mark_zone ?st y\<close> x(2) that by (simp add: mark_zone_def)
  qed
  show "get_mseg_next st a = get_mseg_next ?st a"
    unfolding get_mseg_next_def mseg_next_def by (rule load64_cong, rule marking_byte [OF mk], rule out) auto
  have b16: "load32 (bytes st) (a + 16) = load32 (bytes ?st) (a + 16)"
    by (rule load32_cong, rule marking_byte [OF mk], rule bit_word_outside [OF wf x]) auto
  have "large_marks_within A ?st st" using mk by (simp add: marking_of_def)
  then have "load32 (bytes st) (?x - 12) OR 1 = load32 (bytes ?st) (?x - 12) OR 1"
    unfolding large_marks_within_def using x by blast
  then have one: "load32 (bytes st) (a + 20) OR 1 = 1" using z by (simp add: add.commute)
  have bit0: "load32 (bytes st) (a + 20) \<noteq> 0 \<longleftrightarrow> bit (load32 (bytes st) (a + 20)) 0"
  proof
    assume n: "load32 (bytes st) (a + 20) \<noteq> 0"
    show "bit (load32 (bytes st) (a + 20)) 0"
    proof (rule ccontr)
      assume e: "\<not> bit (load32 (bytes st) (a + 20)) 0"
      have "\<not> bit (load32 (bytes st) (a + 20)) k" for k
        using e arg_cong [OF one, of "\<lambda>w. bit w k"] by (cases k) (auto simp: bit_or_iff bit_1_iff)
      then have "load32 (bytes st) (a + 20) = 0" by (intro word_eq_zeroI) blast
      then show False using n by simp
    qed
  qed auto
  have "mark_bit ?st ?x = (a + 20, 0)" using x by (simp add: mark_bit_def)
  then have "obj_marked st ?x \<longleftrightarrow> bit (load32 (bytes st) (a + 20)) 0"
    by (simp add: obj_marked_def marking_mark_bit [OF mk x(1)] bitmap_bit_def)
  moreover have "gc_target ?st ?x \<longleftrightarrow> load32 (bytes st) (a + 16) \<noteq> 0" using x(2) b16 by (simp add: gc_target_def add.commute)
  ultimately show "mseg_keep st a \<longleftrightarrow> \<not> gc_target ?st ?x \<or> obj_marked st ?x" using bit0 by (simp add: mseg_keep_def)
qed

lemma marked_ready:
  assumes c: "collectable A hs h Ps Qs FL FP Ms" and mk: "marking_of A (hs_store hs) st"
  shows "heap_ready (hs\<lparr>hs_store := st\<rparr>) h Ps Qs FL FP Ms"
proof -
  note r = heap_readyD [OF collectableD(2) [OF c]] and w = sweepableD [OF heap_readyD(1) [OF collectableD(2) [OF c]]]
  note segs = marking_segs [OF mk]
  have nx: "get_seg_next st s = get_seg_next (hs_store hs) s" for s by (simp add: get_seg_next_def segs)
  have man: "managed i st s" if i: "i < NUM_SUBHEAPS" and s: "s \<in> set (heap_segs h Ps Qs i)" for i s
  proof -
    have "\<not> marked (bytes st) s (compute_segment_layout i) j"
      if "num_blocks (compute_segment_layout i) \<le> j" "j < 32 * words0 (compute_segment_layout i)" for j
      using block_marked [OF c mk i s that(2)] that(1) by auto
    then show ?thesis using w(4) [OF i s] by (simp add: managed_def segs)
  qed
  have "heap_lists {..<NUM_SUBHEAPS} st h Ps Qs" by (rule heap_lists_frame [OF w(1)]) (simp_all add: nx)
  then have "sweepable st h Ps Qs" using r(1) man unfolding sweepable_def segs by blast
  moreover have "seg.open_list st (heap_freelist h) FL" by (rule seg.open_frame [OF r(2)]) (rule nx)
  moreover have "seg.items_at st (pool_freelist (hs_pool hs)) FP" by (rule seg.items_frame [OF r(3)]) (rule nx)
  moreover have "mseg.items_at st (malloc_subheap h) Ms" by (rule mseg.items_frame [OF r(6)]) (rule large_keep(2) [OF c mk])
  ultimately show ?thesis unfolding heap_ready_def using r(4,5,7,8) by simp
qed

text \<open>What the roots reach among the objects the collection decides about.\<close>

definition reached :: "addr set \<Rightarrow> seg_store \<Rightarrow> addr list \<Rightarrow> addr set" where
  "reached A st rs = {x. \<exists>r\<in>set rs. live_target A st r \<and> (r, x) \<in> (points_to A st)\<^sup>*}"

lemma reached_live: "x \<in> reached A st rs \<Longrightarrow> live_target A st x"
  unfolding reached_def by (auto elim!: rtranclE simp: points_to_def)

text \<open>
  What puts objects on the sets of a worker during a collection: the enumeration of the roots pushes onto the root
  set, and the write barrier remembers (the flag is true), in any order.
\<close>

definition shade :: "bool \<times> addr \<Rightarrow> sml_alloc \<times> seg_store \<Rightarrow> sml_alloc \<times> seg_store" where
  "shade = (\<lambda>(by_barrier, obj) (alloc, st).
     if by_barrier then let (st', top) = remember obj (st, remembered_set alloc) in (alloc\<lparr>remembered_set := top\<rparr>, st')
     else let (st', top) = push obj (st, root_set alloc) in (alloc\<lparr>root_set := top\<rparr>, st'))"

text \<open>The marked objects are those on the two sets.\<close>

definition shaded :: "addr set \<Rightarrow> seg_store \<Rightarrow> sml_alloc \<Rightarrow> seg_store \<Rightarrow> addr list \<Rightarrow> addr list \<Rightarrow> bool" where
  "shaded A st0 alloc st xs ys \<longleftrightarrow>
     marking_of A st0 st \<and> mark_stack A st0 st (root_set alloc) xs \<and> distinct xs \<and>
     mark_stack A st0 st (remembered_set alloc) ys \<and> distinct ys \<and> gc.marks A st0 st = set xs \<union> set ys"

lemma push_shaded:
  assumes mk: "marking_of A st0 st" and r: "gc_pointer A st0 r" and t: "mark_stack A st0 st t xs" "distinct xs"
    and u: "mark_stack A st0 st u ys" and m: "gc.marks A st0 st = set xs \<union> set ys"
  shows "\<exists>st' t' xs'. push r (st, t) = (st', t') \<and> marking_of A st0 st' \<and> mark_stack A st0 st' t' xs' \<and> distinct xs' \<and>
    mark_stack A st0 st' u ys \<and> gc.marks A st0 st' = set xs' \<union> set ys \<and>
    set xs' \<union> set ys = set xs \<union> set ys \<union> {x. x = r \<and> live_target A st0 x}"
proof -
  from gc.push_all [OF mk, of "[r]" t xs] r t obtain st' t' zs where
    1: "push r (st, t) = (st', t')" "marking_of A st0 st'" "gc.chain A st0 st' t' (zs @ xs)" "distinct (zs @ xs)"
      "set zs = {c \<in> set [r]. live_target A st0 c} - gc.marks A st0 st" "gc.marks A st0 st' = gc.marks A st0 st \<union> set zs"
      "\<forall>y\<in>gc.marks A st0 st. stack_link st' y = stack_link st y" by (auto simp: gc_chain)
  have "mark_stack A st0 st' u ys"
    by (rule mark_stack_frame [OF u]) (use 1(6,7) in \<open>auto simp: gc.marks_def\<close>)
  then show ?thesis
    using 1 m by (intro exI [of _ st'] exI [of _ t'] exI [of _ "zs @ xs"]) (auto simp: gc_chain)
qed

lemma shade_shaded:
  assumes s: "shaded A st0 alloc st xs ys" and r: "gc_pointer A st0 r"
  shows "\<exists>t u st' xs' ys'. shade (b, r) (alloc, st) = (alloc\<lparr>root_set := t, remembered_set := u\<rparr>, st') \<and>
    shaded A st0 (alloc\<lparr>root_set := t, remembered_set := u\<rparr>) st' xs' ys' \<and>
    set xs' \<union> set ys' = set xs \<union> set ys \<union> {x. x = r \<and> live_target A st0 x}"
proof -
  note d = s [unfolded shaded_def]
  have k: "alloc\<lparr>root_set := root_set alloc\<rparr> = alloc" "alloc\<lparr>remembered_set := remembered_set alloc\<rparr> = alloc" by simp_all
  show ?thesis
  proof (cases b)
    case True
    from push_shaded [of A st0 st r "remembered_set alloc" ys "root_set alloc" xs] d r obtain st' u ys' where
      "push r (st, remembered_set alloc) = (st', u)" "marking_of A st0 st'" "mark_stack A st0 st' u ys'" "distinct ys'"
      "mark_stack A st0 st' (root_set alloc) xs" "gc.marks A st0 st' = set ys' \<union> set xs"
      "set ys' \<union> set xs = set ys \<union> set xs \<union> {x. x = r \<and> live_target A st0 x}" by (auto simp: Un_commute)
    then show ?thesis using True d
      by (intro exI [of _ "root_set alloc"] exI [of _ u] exI [of _ st'] exI [of _ xs] exI [of _ ys'])
        (simp add: shade_def remember_push shaded_def Un_commute)
  next
    case False
    from push_shaded [of A st0 st r "root_set alloc" xs "remembered_set alloc" ys] d r obtain st' t xs' where
      "push r (st, root_set alloc) = (st', t)" "marking_of A st0 st'" "mark_stack A st0 st' t xs'" "distinct xs'"
      "mark_stack A st0 st' (remembered_set alloc) ys" "gc.marks A st0 st' = set xs' \<union> set ys"
      "set xs' \<union> set ys = set xs \<union> set ys \<union> {x. x = r \<and> live_target A st0 x}" by auto
    then show ?thesis using False d
      by (intro exI [of _ t] exI [of _ "remembered_set alloc"] exI [of _ st'] exI [of _ xs'] exI [of _ ys])
        (simp add: shade_def shaded_def)
  qed
qed

lemma shade_all:
  assumes "shaded A st0 alloc st xs ys" and "\<forall>e\<in>set es. gc_pointer A st0 (snd e)"
  shows "\<exists>t u st' xs' ys'. fold shade es (alloc, st) = (alloc\<lparr>root_set := t, remembered_set := u\<rparr>, st') \<and>
    shaded A st0 (alloc\<lparr>root_set := t, remembered_set := u\<rparr>) st' xs' ys' \<and>
    set xs' \<union> set ys' = set xs \<union> set ys \<union> {x \<in> snd ` set es. live_target A st0 x}"
  using assms
proof (induction es arbitrary: alloc st xs ys)
  case Nil
  then show ?case
    by (intro exI [of _ "root_set alloc"] exI [of _ "remembered_set alloc"] exI [of _ st] exI [of _ xs] exI [of _ ys]) simp
next
  case (Cons e es)
  obtain b r where e: "e = (b, r)" by force
  have "gc_pointer A st0 r" using Cons.prems(2) by (simp add: e)
  from shade_shaded [OF Cons.prems(1) this, of b] obtain t u st1 xs1 ys1 where
    1: "shade e (alloc, st) = (alloc\<lparr>root_set := t, remembered_set := u\<rparr>, st1)"
      "shaded A st0 (alloc\<lparr>root_set := t, remembered_set := u\<rparr>) st1 xs1 ys1"
      "set xs1 \<union> set ys1 = set xs \<union> set ys \<union> {x. x = r \<and> live_target A st0 x}" unfolding e by blast
  have "\<forall>e\<in>set es. gc_pointer A st0 (snd e)" using Cons.prems(2) by simp
  from Cons.IH [OF 1(2) this] obtain t' u' st2 xs2 ys2 where
    2: "fold shade es (alloc\<lparr>root_set := t, remembered_set := u\<rparr>, st1)
        = (alloc\<lparr>root_set := t, remembered_set := u\<rparr>\<lparr>root_set := t', remembered_set := u'\<rparr>, st2)"
      "shaded A st0 (alloc\<lparr>root_set := t, remembered_set := u\<rparr>\<lparr>root_set := t', remembered_set := u'\<rparr>) st2 xs2 ys2"
      "set xs2 \<union> set ys2 = set xs1 \<union> set ys1 \<union> {x \<in> snd ` set es. live_target A st0 x}" by blast
  have k: "alloc\<lparr>root_set := t, remembered_set := u\<rparr>\<lparr>root_set := t', remembered_set := u'\<rparr>
      = alloc\<lparr>root_set := t', remembered_set := u'\<rparr>" by simp
  have "set xs2 \<union> set ys2 = set xs \<union> set ys \<union> {x \<in> snd ` set (e # es). live_target A st0 x}"
    unfolding 2(3) 1(3) e by auto
  then show ?case using 1(1) 2(1,2) unfolding k
    by (intro exI [of _ t'] exI [of _ u'] exI [of _ st2] exI [of _ xs2] exI [of _ ys2]) simp
qed

text \<open>The sets of a worker filled from empty ones, and the mark step.\<close>

lemma roots_marked:
  assumes wf: "heap_wf A st0" and un: "\<And>x. x \<in> A \<Longrightarrow> \<not> obj_marked st0 x"
    and es: "\<forall>e\<in>set es. gc_pointer A st0 (snd e)"
    and alloc: "root_set alloc = NULL" "remembered_set alloc = NULL"
  shows "\<exists>alloc1 st st1. fold shade es (alloc, st0) = (alloc1, st) \<and>
    sml_heap_worker_mark alloc1 st = ret (alloc, st1) \<and> marking_of A st0 st1 \<and>
    (\<forall>x. live_target A st0 x \<longrightarrow> obj_marked st1 x = (x \<in> reached A st0 (map snd es)))"
proof -
  have "gc.marks A st0 st0 = {}" using un by (auto simp: gc.marks_def live_target_def)
  then have "shaded A st0 alloc st0 [] []" using marking_refl [OF wf] alloc by (simp add: shaded_def)
  from shade_all [OF this es] obtain t u st xs ys where
    1: "fold shade es (alloc, st0) = (alloc\<lparr>root_set := t, remembered_set := u\<rparr>, st)"
      "shaded A st0 (alloc\<lparr>root_set := t, remembered_set := u\<rparr>) st xs ys"
      "set xs \<union> set ys = {x \<in> snd ` set es. live_target A st0 x}" by auto
  let ?alloc = "alloc\<lparr>root_set := t, remembered_set := u\<rparr>"
  have sh: "marking_of A st0 st" "mark_stack A st0 st (root_set ?alloc) xs" "distinct xs"
    "mark_stack A st0 st (remembered_set ?alloc) ys" "distinct ys" "gc.marks A st0 st = set xs \<union> set ys"
    using 1(2) unfolding shaded_def by blast+
  have "scanned_except A st0 (set xs \<union> set ys \<union> {}) st"
    using sh(6) by (auto simp: scanned_except_def points_to_def gc.marks_def)
  from worker_mark_spec [OF sh(1-5) this] obtain st1 where
    2: "sml_heap_worker_mark ?alloc st = ret (?alloc\<lparr>root_set := NULL, remembered_set := NULL\<rparr>, st1)"
      "marking_of A st0 st1" "scanned_except A st0 {} st1"
      "\<forall>x. live_target A st0 x \<and> obj_marked st x \<longrightarrow> obj_marked st1 x \<and> stack_link st1 x = stack_link st x"
      "\<forall>x. live_target A st0 x \<and> obj_marked st1 x \<longrightarrow> obj_marked st x \<or> (\<exists>r\<in>set xs \<union> set ys. (r, x) \<in> (points_to A st0)\<^sup>*)"
    by blast
  have a: "?alloc\<lparr>root_set := NULL, remembered_set := NULL\<rparr> = alloc" using alloc by simp
  have marked: "obj_marked st x \<longleftrightarrow> x \<in> set xs \<union> set ys" if "live_target A st0 x" for x
    using sh(6) that by (auto simp: gc.marks_def)
  have grey: "(\<exists>r\<in>set xs \<union> set ys. (r, x) \<in> (points_to A st0)\<^sup>*) \<longleftrightarrow> x \<in> reached A st0 (map snd es)" for x
    unfolding 1(3) by (auto simp: reached_def)
  have "obj_marked st1 x = (x \<in> reached A st0 (map snd es))" if x: "live_target A st0 x" for x
  proof
    assume "obj_marked st1 x"
    then have "\<exists>r\<in>set xs \<union> set ys. (r, x) \<in> (points_to A st0)\<^sup>*" using 2(5) x marked [OF x] by blast
    then show "x \<in> reached A st0 (map snd es)" unfolding grey .
  next
    assume "x \<in> reached A st0 (map snd es)"
    then obtain r where "r \<in> set xs \<union> set ys" "(r, x) \<in> (points_to A st0)\<^sup>*" unfolding grey [symmetric] by blast
    moreover have "live_target A st0 r" using calculation(1) 1(3) by blast
    ultimately show "obj_marked st1 x" using marked_closed [OF 2(3)] 2(4) marked by blast
  qed
  then show ?thesis using 1(1) 2(1,2) unfolding a by blast
qed

text \<open>After the sweep, the used blocks are the marked objects and the blocks keep their contents.\<close>

lemma swept_blocks:
  assumes i: "i < NUM_SUBHEAPS" and s: "s \<in> set (heap_segs h Ps Qs i)" and sets: "swept_sets NUM_SUBHEAPS Ps Qs F P Q"
    and cl: "swept_class i st h F P Q st' s"
  shows "swept i st st' s"
proof -
  have "s \<in> set F \<or> s \<in> set (P i) \<or> s \<in> set (Q i @ current (heap_ptr h i))"
    using s swept_setsD(5) [OF sets i, of s] by (auto simp: heap_segs_def)
  then show ?thesis using cl unfolding swept_class_def segment_classes by blast
qed

lemma swept_body:
  assumes sw: "swept i st st' s" and mk: "marking_of A st0 st" and i: "i < NUM_SUBHEAPS"
    and x: "x \<in> A" "small st0 x" "x = block_addr s (compute_segment_layout i) j" "j < num_blocks (compute_segment_layout i)"
    and s: "SEGMENT_SIZE dvd s" "seg_layout (segs st0 s) = Some i"
    and a: "x - 4 \<le> a" "a < x - 4 + OBJ_TOTAL_SIZE (bytes st0) x"
  shows "bytes st' a = bytes st0 a"
proof -
  let ?l = "compute_segment_layout i"
  have ok: "layout_ok ?l" by (rule compute_segment_layout_ok [OF i])
  note ar = layout_areas [OF ok x(4), of s]
  have sx: "segment_addr x = s" using block_in_segment(1) [OF ok s(1) x(4), of 0] x(3) by simp
  have "OBJ_TOTAL_SIZE (bytes st0) x \<le> 2 ^ blocksize_log2 ?l"
  proof (rule small_block [OF heap_wfD(4) [OF marking_wf [OF mk] x(1,2)]])
    fix sg l k
    assume "sg = segment_addr x" "l = layout_of st0 sg" "OBJ_TOTAL_SIZE (bytes st0) x \<le> 2 ^ blocksize_log2 l"
    then show ?thesis using sx s(2) by (simp add: layout_of_def)
  qed
  then have "STACK_BASE s ?l \<le> a" "a < s + SEGMENT_SIZE" using a ar(5,6,9) x(3) by linarith+
  then have "bytes st' a = bytes st a" using sw unfolding swept_def Let_def by blast
  then show ?thesis using marking_body [OF mk x(1) a] by simp
qed

lemma reclaim_heap_pool:
  assumes "reclaim_heap nan h hs = Some (h', freed, hs')"
  shows "\<exists>fl. hs_pool hs' = (hs_pool hs)\<lparr>pool_freelist := fl\<rparr>"
  using assms by (auto simp: reclaim_heap_def Let_def bind_eq_Some_conv split: prod.splits)

text \<open>The body of a large object is neither in a segment nor in the header of a malloc segment.\<close>

lemma large_outside:
  assumes c: "collectable A hs h Ps Qs FL FP Ms" and x: "x \<in> A" "\<not> small (hs_store hs) x"
    and a: "x - 4 \<le> a" "a < x - 4 + OBJ_TOTAL_SIZE (bytes (hs_store hs)) x"
  shows "outside_msegs (set Ms) a" and "segment_addr a \<notin> all_segs h Ps Qs"
proof -
  let ?st = "hs_store hs"
  note wf = collectableD(1) [OF c]
  have ax: "a \<in> extent ?st x" using a x(2) by (simp add: extent_def)
  show "outside_msegs (set Ms) a"
    unfolding outside_msegs_def
  proof (rule ballI, rule ccontr)
    fix b
    assume b: "b \<in> set Ms" and "\<not> (a < b \<or> b + 24 \<le> a)"
    then have ab: "b \<le> a" "a < b + 24" by simp_all
    have y: "b + 32 \<in> A" "\<not> small ?st (b + 32)" using collectableD(7) [OF c b] by auto
    have "a \<in> extent ?st (b + 32)" using ab y(2) total_size_ge [of "bytes ?st" "b + 32"] by (simp add: extent_def)
    then have "b + 32 = x" using extents_meet [OF wf x(1) y(1) ax] x(2) by auto
    then show False using a(1) ab by simp
  qed
  show "segment_addr a \<notin> all_segs h Ps Qs"
    using collectableD(5) [OF c x] ax segment_addr_range [of a] by fastforce
qed

text \<open>The sweep of a heap in which exactly the objects of \<open>R\<close> are marked.\<close>

definition kept_exactly ::
  "addr set \<Rightarrow> seg_store \<Rightarrow> heap \<Rightarrow> (nat \<Rightarrow> addr list) \<Rightarrow> (nat \<Rightarrow> addr list) \<Rightarrow> seg_store \<Rightarrow> bool" where
  "kept_exactly R st h Ps Qs st' \<longleftrightarrow>
     (\<forall>i<NUM_SUBHEAPS. \<forall>s\<in>set (heap_segs h Ps Qs i). \<forall>j<num_blocks (compute_segment_layout i).
        used (bytes st') s j \<longleftrightarrow> (\<exists>x\<in>R. small st x \<and> x = block_addr s (compute_segment_layout i) j)) \<and>
     (\<forall>x\<in>R. (small st x \<longrightarrow> segment_addr x \<in> all_segs h Ps Qs) \<longrightarrow>
        (\<forall>a. x - 4 \<le> a \<and> a < x - 4 + OBJ_TOTAL_SIZE (bytes st) x \<longrightarrow> bytes st' a = bytes st a))"

lemma marked_heap_swept:
  assumes c: "collectable A hs (alloc_heap alloc) Ps Qs FL FP Ms" and mk: "marking_of A (hs_store hs) st1"
    and om: "\<forall>x. live_target A (hs_store hs) x \<longrightarrow> obj_marked st1 x = (x \<in> R)"
    and R: "\<forall>x\<in>R. live_target A (hs_store hs) x"
  obtains h' hs' F P Q where
    "sml_heap_worker_async nan alloc (hs\<lparr>hs_store := st1\<rparr>) =
      Some (alloc\<lparr>remembered_set := NULL, alloc_heap := h'\<rparr>, filter (\<lambda>a. gc_target (hs_store hs) (a + 32) \<and> a + 32 \<notin> R) Ms, hs')"
    "kept_exactly R (hs_store hs) (alloc_heap alloc) Ps Qs (hs_store hs')"
    "heap_swept st1 (alloc_heap alloc) Ps Qs (FL @ FP) Ms F P Q h' (pool_freelist (hs_pool hs')) (hs_store hs')"
    "\<exists>fl. hs_pool hs' = (hs_pool hs)\<lparr>pool_freelist := fl\<rparr>"
proof -
  let ?st = "hs_store hs" and ?h = "alloc_heap alloc" and ?R = R
  note wf = collectableD(1) [OF c] and w = sweepableD [OF heap_readyD(1) [OF collectableD(2) [OF c]]]
  from reclaim_heap_sweeps [OF marked_ready [OF c mk], of nan] obtain h' hs' F P Q where
    2: "reclaim_heap nan ?h (hs\<lparr>hs_store := st1\<rparr>) = Some (h', filter (\<lambda>a. \<not> mseg_keep st1 a) Ms, hs')"
      "heap_swept st1 ?h Ps Qs (FL @ FP) Ms F P Q h' (pool_freelist (hs_pool hs')) (hs_store hs')" by auto
  have sets: "swept_sets NUM_SUBHEAPS Ps Qs F P Q" using 2(2) by (simp add: heap_swept_def)
  have sw: "swept i st1 (hs_store hs') s" if "i < NUM_SUBHEAPS" "s \<in> set (heap_segs ?h Ps Qs i)" for i s
    using swept_blocks [OF that sets] 2(2) that by (simp add: heap_swept_def)
  have used: "used (bytes (hs_store hs')) s j \<longleftrightarrow> (\<exists>x\<in>?R. small ?st x \<and> x = block_addr s (compute_segment_layout i) j)"
    if i: "i < NUM_SUBHEAPS" and s: "s \<in> set (heap_segs ?h Ps Qs i)" and j: "j < num_blocks (compute_segment_layout i)" for i s j
  proof -
    have j': "j < 32 * words0 (compute_segment_layout i)" using words_bounds(1) [of "compute_segment_layout i"] j by simp
    have "used (bytes (hs_store hs')) s j \<longleftrightarrow> marked (bytes st1) s (compute_segment_layout i) j"
      using sw [OF i s] j by (simp add: swept_def Let_def)
    also have "\<dots> \<longleftrightarrow> (\<exists>x\<in>?R. small ?st x \<and> x = block_addr s (compute_segment_layout i) j)"
      unfolding block_marked [OF c mk i s j'] using om j R by (auto simp: live_target_def)
    finally show ?thesis .
  qed
  have freed: "filter (\<lambda>a. \<not> mseg_keep st1 a) Ms = filter (\<lambda>a. gc_target ?st (a + 32) \<and> a + 32 \<notin> ?R) Ms"
    by (rule filter_cong) (use large_keep(1) [OF c mk] om collectableD(7) [OF c] in \<open>auto simp: live_target_def\<close>)
  have large: "bytes (hs_store hs') a = bytes ?st a"
    if x: "x \<in> ?R" "\<not> small ?st x" and a: "x - 4 \<le> a" "a < x - 4 + OBJ_TOTAL_SIZE (bytes ?st) x" for x a
  proof -
    have xA: "x \<in> A" using R x(1) by (simp add: live_target_def)
    have "bytes (hs_store hs') a = bytes st1 a" using 2(2) large_outside [OF c xA x(2) a] by (simp add: heap_swept_def)
    then show ?thesis using marking_body [OF mk xA a] by simp
  qed
  have body: "bytes (hs_store hs') a = bytes ?st a"
    if x: "x \<in> ?R" "small ?st x" "segment_addr x \<in> all_segs ?h Ps Qs"
      and a: "x - 4 \<le> a" "a < x - 4 + OBJ_TOTAL_SIZE (bytes ?st) x" for x a
  proof -
    from x(3) obtain i where i: "i < NUM_SUBHEAPS" "segment_addr x \<in> set (heap_segs ?h Ps Qs i)" by (auto simp: all_segs_def)
    have m: "SEGMENT_SIZE dvd segment_addr x" "seg_layout (segs ?st (segment_addr x)) = Some i"
      using w(4) [OF i] by (simp_all add: managed_def)
    have xA: "x \<in> A" using R x(1) by (simp add: live_target_def)
    show ?thesis
    proof (rule small_block [OF heap_wfD(4) [OF wf xA x(2)]])
      fix sg l k
      assume k: "sg = segment_addr x" "l = layout_of ?st sg" "k < num_blocks l" "x = block_addr sg l k"
      have l: "l = compute_segment_layout i" using k(1,2) m(2) by (simp add: layout_of_def)
      have "x = block_addr (segment_addr x) (compute_segment_layout i) k" "k < num_blocks (compute_segment_layout i)"
        using k(3) k(4) [unfolded k(1)] l by simp_all
      then show ?thesis by (rule swept_body [OF sw [OF i] mk i(1) xA x(2) _ _ m a])
    qed
  qed
  have pool: "\<exists>fl. hs_pool hs' = (hs_pool hs)\<lparr>pool_freelist := fl\<rparr>"
    using reclaim_heap_pool [OF 2(1)] by simp
  show thesis
  proof (rule that)
    show "sml_heap_worker_async nan alloc (hs\<lparr>hs_store := st1\<rparr>) =
      Some (alloc\<lparr>remembered_set := NULL, alloc_heap := h'\<rparr>, filter (\<lambda>a. gc_target ?st (a + 32) \<and> a + 32 \<notin> R) Ms, hs')"
      by (simp add: sml_heap_worker_async_def 2(1) freed)
    show "kept_exactly R ?st ?h Ps Qs (hs_store hs')" unfolding kept_exactly_def using used body large by blast
    show "heap_swept st1 ?h Ps Qs (FL @ FP) Ms F P Q h' (pool_freelist (hs_pool hs')) (hs_store hs')" using 2(2) .
    show "\<exists>fl. hs_pool hs' = (hs_pool hs)\<lparr>pool_freelist := fl\<rparr>" by (rule pool)
  qed
qed

text \<open>
  C2: a collection by one worker, from the roots to the end of the sweep.  Starting with empty sets, the worker pushes
  roots onto its root set and the barrier puts objects onto its remembered set, in any order (\<open>es\<close>).  Then the mark step
  and the sweep end without a fatal error.  Afterwards the used blocks of all segments of its heap are exactly
  those that hold an object reachable from the objects of \<open>es\<close>, and the malloc segments given back are exactly those
  whose objects the collection decides about and \<open>es\<close> does not reach.  Reachable objects, small and
  large, have the headers and contents they had at the start, and every segment of the heap is in one of the
  lists, as its marks say.
\<close>

theorem collection_keeps_reachable:
  assumes "collectable A hs (alloc_heap alloc) Ps Qs FL FP Ms" and "\<forall>e\<in>set es. gc_pointer A (hs_store hs) (snd e)"
    and "root_set alloc = NULL" and "remembered_set alloc = NULL"
  shows "\<exists>alloc1 st st1 alloc' freed hs' F P Q.
    fold shade es (alloc, hs_store hs) = (alloc1, st) \<and>
    sml_heap_worker_mark alloc1 st = ret (alloc, st1) \<and>
    sml_heap_worker_async nan alloc (hs\<lparr>hs_store := st1\<rparr>) = Some (alloc', freed, hs') \<and>
    kept_exactly (reached A (hs_store hs) (map snd es)) (hs_store hs) (alloc_heap alloc) Ps Qs (hs_store hs') \<and>
    freed = filter (\<lambda>a. gc_target (hs_store hs) (a + 32) \<and> a + 32 \<notin> reached A (hs_store hs) (map snd es)) Ms \<and>
    heap_swept st1 (alloc_heap alloc) Ps Qs (FL @ FP) Ms F P Q (alloc_heap alloc') (pool_freelist (hs_pool hs')) (hs_store hs')"
proof -
  let ?R = "reached A (hs_store hs) (map snd es)"
  note c = assms(1)
  from roots_marked [OF collectableD(1) [OF c] collectableD(6) [OF c] assms(2,3,4)] obtain alloc1 st st1 where
    1: "fold shade es (alloc, hs_store hs) = (alloc1, st)" "sml_heap_worker_mark alloc1 st = ret (alloc, st1)"
    and mk: "marking_of A (hs_store hs) st1" and om: "\<forall>x. live_target A (hs_store hs) x \<longrightarrow> obj_marked st1 x = (x \<in> ?R)" by blast
  have R: "\<forall>x\<in>?R. live_target A (hs_store hs) x" using reached_live by blast
  from marked_heap_swept [OF c mk om R, of nan] obtain h' hs' F P Q where
    2: "sml_heap_worker_async nan alloc (hs\<lparr>hs_store := st1\<rparr>) =
      Some (alloc\<lparr>remembered_set := NULL, alloc_heap := h'\<rparr>, filter (\<lambda>a. gc_target (hs_store hs) (a + 32) \<and> a + 32 \<notin> ?R) Ms, hs')"
      "kept_exactly ?R (hs_store hs) (alloc_heap alloc) Ps Qs (hs_store hs')"
      "heap_swept st1 (alloc_heap alloc) Ps Qs (FL @ FP) Ms F P Q h' (pool_freelist (hs_pool hs')) (hs_store hs')" .
  then have "heap_swept st1 (alloc_heap alloc) Ps Qs (FL @ FP) Ms F P Q
      (alloc_heap (alloc\<lparr>remembered_set := NULL, alloc_heap := h'\<rparr>)) (pool_freelist (hs_pool hs')) (hs_store hs')" by simp
  with 1 2(1,2) show ?thesis by blast
qed

text \<open>A heap with one segment and two objects, the first of which points to the second.\<close>

definition small_heap :: sml_alloc where
  "small_heap = \<lparr>alloc_heap = (init_heap (init_subheap_count_init 0))\<lparr>heap_subheap := (\<lambda>i. \<lparr>sh_filled = (if i = 9 then 32768 else 0), sh_partial = 0\<rparr>)\<rparr>,
     root_set = NULL, remembered_set = NULL\<rparr>"

definition small_heap_state :: heap_state where
  "small_heap_state = \<lparr>hs_store = sample_objects,
     hs_pool = \<lparr>pool_subpool = (\<lambda>_. \<lparr>sp_filled = NULL, sp_partial = NULL, sp_partial_marked = NULL\<rparr>), malloc_subpool = NULL, pool_freelist = NULL,
       pool_memory = \<lparr>mem_begin = 0, mem_count = 0, mem_alloced = 0, mem_pagesize = 4096\<rparr>,
       min_num_segments = 0, max_num_segments = 0\<rparr>, hs_gc_requests = 0\<rparr>"

abbreviation (input) one_list :: "nat \<Rightarrow> addr list" where
  "one_list \<equiv> (\<lambda>i. if i = 9 then [32768] else [])"

lemma small_heap_collectable:
  "collectable {32880, 36976} small_heap_state (alloc_heap small_heap) (\<lambda>_. []) one_list [] [] []"
proof -
  have cur: "current (heap_ptr (alloc_heap small_heap) i) = []" for i
    by (simp add: current_def small_heap_def init_heap_def init_alloc_ptr_def clear_alloc_ptr_def)
  have segs: "heap_segs (alloc_heap small_heap) (\<lambda>_. []) one_list i = one_list i" for i by (simp add: heap_segs_def cur)
  have st: "hs_store small_heap_state = sample_objects" by (simp add: small_heap_state_def)
  have l: "layout_ok (compute_segment_layout 9)" by (rule compute_segment_layout_ok) simp
  have b2: "base2 32768 (compute_segment_layout 9) = 32808" unfolding layout9(1) by (simp add: base2_def layout9)
  have ld: "load32 (bytes sample_objects) 32808 = load32 (bytes sample_store) 32808"
    by (simp add: sample_objects_def upd_seg_def load_store_other)
  have un: "unmarked 9 sample_objects 32768"
  proof -
    have "\<not> marked (bytes sample_objects) 32768 (compute_segment_layout 9) j" if "j < 32 * words0 (compute_segment_layout 9)" for j
    proof -
      have "j div 32 = 0" using that unfolding layout9(1) by (simp add: layout9)
      then show ?thesis using seg_clean_bitmaps(3) [OF l sample_store_ok(2) that] by (simp add: marked_def b2 bitmap_bit_def ld)
    qed
    then show ?thesis by (simp add: unmarked_def)
  qed
  then have man: "managed 9 sample_objects 32768" by (simp add: managed_def sample_object_facts unmarked_def)
  have nx: "get_seg_next sample_objects 32768 = 0"
    by (simp add: get_seg_next_def sample_objects_def sample_store_def init_segment_def upd_seg_def Let_def)
  have sub: "sh_filled (heap_subheap (alloc_heap small_heap) i) = (if i = 9 then 32768 else 0)"
    "sh_partial (heap_subheap (alloc_heap small_heap) i) = 0" "heap_freelist (alloc_heap small_heap) = LIST_INIT"
    "malloc_subheap (alloc_heap small_heap) = 0" for i by (simp_all add: small_heap_def init_heap_def)
  have "heap_lists {..<NUM_SUBHEAPS} sample_objects (alloc_heap small_heap) (\<lambda>_. []) one_list"
    by (simp add: heap_lists_def sub seg.items_at_def seg_node_def nx)
  then have sw: "sweepable sample_objects (alloc_heap small_heap) (\<lambda>_. []) one_list"
    unfolding sweepable_def segs using man by simp
  have rd: "heap_ready small_heap_state (alloc_heap small_heap) (\<lambda>_. []) one_list [] [] []"
    using sw by (simp add: heap_ready_def st sub small_heap_state_def seg.items_at_def mseg.items_at_def msegs_apart_def msegs_beside_def)
  show ?thesis
    unfolding collectable_def segs st using sample_heap_wf rd un sample_unmarked by (simp add: sample_small)
qed

lemma sample_reached:
  assumes "36976 \<in> set rs" and "32880 \<notin> set rs"
  shows "reached {32880, 36976} sample_objects rs = {36976}"
proof -
  let ?A = "{32880, 36976} :: addr set"
  have tgt: "live_target ?A sample_objects 36976" using sample_targets by (simp add: live_target_def)
  have "(36976, y) \<notin> points_to ?A sample_objects" for y by (auto simp: points_to_def sample_pointers_of)
  then have "x = 36976" if "(36976, x) \<in> (points_to ?A sample_objects)\<^sup>*" for x using that by (auto elim: converse_rtranclE)
  moreover have "r = 36976" if "r \<in> set rs" "live_target ?A sample_objects r" for r using that assms(2) by (auto simp: live_target_def)
  ultimately show ?thesis using tgt assms(1) by (auto simp: reached_def)
qed

lemma sample_kept:
  assumes "kept_exactly {36976} sample_objects (alloc_heap small_heap) (\<lambda>_. []) one_list st'"
  shows "used (bytes st') 32768 1" "\<not> used (bytes st') 32768 0"
proof -
  have n: "num_blocks (compute_segment_layout 9) = 7" unfolding layout9(1) by (simp add: layout9)
  have seg: "32768 \<in> set (heap_segs (alloc_heap small_heap) (\<lambda>_. []) one_list 9)" by (simp add: heap_segs_def)
  have b: "block_addr 32768 (compute_segment_layout 9) 0 = 32880" "block_addr 32768 (compute_segment_layout 9) 1 = 36976"
    using sample_blocks unfolding layout9(1) by simp_all
  have "used (bytes st') 32768 j \<longleftrightarrow> (\<exists>x\<in>{36976}. small sample_objects x \<and> x = block_addr 32768 (compute_segment_layout 9) j)" if "j < 7" for j
    using assms seg n that unfolding kept_exactly_def by auto
  from this [of 0] this [of 1] show "used (bytes st') 32768 1" "\<not> used (bytes st') 32768 0" using b sample_small by simp_all
qed

text \<open>The barrier remembers the second object, and no root points to the first.\<close>

theorem collection_keeps_reachable_witness:
  "\<exists>alloc1 st st1 alloc' hs'. fold shade [(True, 36976)] (small_heap, sample_objects) = (alloc1, st) \<and>
     sml_heap_worker_mark alloc1 st = ret (small_heap, st1) \<and>
     sml_heap_worker_async 0 small_heap (small_heap_state\<lparr>hs_store := st1\<rparr>) = Some (alloc', [], hs') \<and>
     used (bytes (hs_store hs')) 32768 1 \<and> \<not> used (bytes (hs_store hs')) 32768 0"
proof -
  let ?A = "{32880, 36976} :: addr set"
  have st: "hs_store small_heap_state = sample_objects" by (simp add: small_heap_state_def)
  have al: "root_set small_heap = NULL" "remembered_set small_heap = NULL" by (simp_all add: small_heap_def)
  have R: "reached ?A sample_objects [36976] = {36976}" by (rule sample_reached) simp_all
  have g: "\<forall>e\<in>set [(True, 36976)]. gc_pointer ?A (hs_store small_heap_state) (snd e)" by (simp add: gc_pointer_def)
  have e: "map snd [(True, 36976 :: addr)] = [36976]" by simp
  from collection_keeps_reachable [OF small_heap_collectable g al, of 0, unfolded st e R]
  obtain alloc1 st2 st1 alloc' freed hs' where
    "fold shade [(True, 36976)] (small_heap, sample_objects) = (alloc1, st2)" "sml_heap_worker_mark alloc1 st2 = ret (small_heap, st1)"
    "sml_heap_worker_async 0 small_heap (small_heap_state\<lparr>hs_store := st1\<rparr>) = Some (alloc', freed, hs')"
    "kept_exactly {36976} sample_objects (alloc_heap small_heap) (\<lambda>_. []) one_list (hs_store hs')" "freed = []" by auto
  then show ?thesis using sample_kept by blast
qed

end
