(* ===== verification/Worker.thy ===== *)
theory Worker
  imports Seglist Phase Top
begin

text \<open>
  Worker contexts of \<open>control.c\<close>: the state word with its phase and its lock, the list of all
  workers with the phase of new workers in its pointer, and the actions by which workers answer
  the phases of a collection.

  Every definition is one thread's code between two points where other threads may interfere, with
  its atomic operations carried out on the state at hand.  A function that has to wait for another
  thread has no result (\<open>None\<close>): it repeats its attempt, which changes nothing, until the other
  thread has moved.
\<close>

section \<open>State words\<close>

definition PHASE_MASK :: u32 where "PHASE_MASK = 0x07"
definition INACTIVE_STATE :: u32 where "INACTIVE_STATE = 0x10"
definition HELPER_STATE :: u32 where "HELPER_STATE = 0x20"

definition PHASE :: "u32 \<Rightarrow> u32" where "PHASE state = state AND PHASE_MASK"
definition ACTIVE :: "u32 \<Rightarrow> u32" where "ACTIVE phase = phase"
definition INACTIVE :: "u32 \<Rightarrow> u32" where "INACTIVE phase = phase OR INACTIVE_STATE"
definition IS_ACTIVE :: "u32 \<Rightarrow> bool" where "IS_ACTIVE state \<longleftrightarrow> state AND INACTIVE_STATE = 0"

definition BUSY_FLAG :: u32 where "BUSY_FLAG = 0x01"
definition CANCELED_FLAG :: u32 where "CANCELED_FLAG = 0x02"
definition DEAD_FLAG :: u32 where "DEAD_FLAG = 0x04"
definition GLOBALENUM_FLAG :: u32 where "GLOBALENUM_FLAG = 0x08"
definition PTHREAD_FLAG :: u32 where "PTHREAD_FLAG = 0x10"

lemmas control_flags =
  PHASE_MASK_def INACTIVE_STATE_def HELPER_STATE_def BUSY_FLAG_def CANCELED_FLAG_def DEAD_FLAG_def GLOBALENUM_FLAG_def PTHREAD_FLAG_def

text \<open>The phase as a number in a state word.\<close>

definition phase_word :: "sml_sync_phase \<Rightarrow> u32" where
  "phase_word p = word_of_nat (phase_code p)"

text \<open>The attempts to set or to clear a bit: the new value, or none when the thread has to wait.\<close>

definition acquire_bit :: "u32 \<Rightarrow> u32 \<Rightarrow> u32 option" where
  "acquire_bit flags b = (if flags AND b \<noteq> 0 then None else Some (flags OR b))"

definition acquire_unbit :: "u32 \<Rightarrow> u32 \<Rightarrow> u32 option" where
  "acquire_unbit flags b = (if flags AND b = 0 then None else Some (flags AND NOT b))"

text \<open>
  The other updates of state words: \<open>fetch_xor\<close> in \<open>change_phase\<close>, \<open>fetch_or\<close> in \<open>leave_worker\<close>, and the
  words that \<open>help_inactive\<close> tests and writes.
\<close>

definition change_state :: "sml_sync_phase \<Rightarrow> sml_sync_phase \<Rightarrow> u32 \<Rightarrow> u32" where
  "change_state old_phase new_phase state = state XOR (phase_word old_phase XOR phase_word new_phase)"

definition leave_state :: "u32 \<Rightarrow> u32" where
  "leave_state state = state OR (INACTIVE_STATE OR 1)"

definition needs_help :: "u32 \<Rightarrow> bool" where
  "needs_help state \<longleftrightarrow> state = INACTIVE (state AND NOT 1)"

definition help_state :: "u32 \<Rightarrow> u32" where
  "help_state state = ACTIVE (PHASE state OR 1) OR HELPER_STATE"

definition unhelp_state :: "u32 \<Rightarrow> u32" where
  "unhelp_state state = state XOR (INACTIVE_STATE OR HELPER_STATE)"

section \<open>Tagged pointers\<close>

definition PTROR :: "addr \<Rightarrow> u32 \<Rightarrow> addr" where
  "PTROR p x = p OR unat x"

definition PTRAND :: "addr \<Rightarrow> u64 \<Rightarrow> addr" where
  "PTRAND p x = unat (word_of_nat p AND x)"

definition untagged :: "addr \<Rightarrow> addr" where
  "untagged p = PTRAND p (NOT (ucast PHASE_MASK))"

definition tag_of :: "addr \<Rightarrow> u32" where
  "tag_of p = PHASE (word_of_nat p)"

section \<open>Contexts\<close>

record frame_stack_range =
  range_bottom :: addr
  range_top :: addr
  range_next :: addr

record sml_user =
  user_flags :: u32
  user_next :: addr
  user_worker :: addr
  user_stack :: addr
  exn_object :: addr

record sml_worker =
  worker_state :: u32
  worker_flags :: u32
  worker_users :: addr
  current_user :: addr
  allocator :: addr
  worker_next :: addr
  check_hook :: addr

text \<open>
  The variables of \<open>control.c\<close> with the contexts by address, the memory of the stacks, the
  thread-local variables by thread, and the heap.
\<close>

record 'h control =
  ctl_worker :: "addr \<Rightarrow> sml_worker"
  ctl_user :: "addr \<Rightarrow> sml_user"
  ctl_range :: "addr \<Rightarrow> frame_stack_range"
  ctl_stack :: mem
  workers_available :: addr
  workers_handshake :: addr
  sml_check_flag :: u32
  gc_count :: u64
  tlv_worker :: "nat \<Rightarrow> addr"
  tlv_user :: "nat \<Rightarrow> addr"
  ctl_heap :: 'h

definition upd_worker :: "addr \<Rightarrow> (sml_worker \<Rightarrow> sml_worker) \<Rightarrow> 'h control \<Rightarrow> 'h control" where
  "upd_worker w f c = c\<lparr>ctl_worker := (ctl_worker c)(w := f (ctl_worker c w))\<rparr>"

definition upd_user :: "addr \<Rightarrow> (sml_user \<Rightarrow> sml_user) \<Rightarrow> 'h control \<Rightarrow> 'h control" where
  "upd_user u f c = c\<lparr>ctl_user := (ctl_user c)(u := f (ctl_user c u))\<rparr>"

definition upd_range :: "addr \<Rightarrow> (frame_stack_range \<Rightarrow> frame_stack_range) \<Rightarrow> 'h control \<Rightarrow> 'h control" where
  "upd_range r f c = c\<lparr>ctl_range := (ctl_range c)(r := f (ctl_range c r))\<rparr>"

definition upd_heap :: "('h \<Rightarrow> 'h) \<Rightarrow> 'h control \<Rightarrow> 'h control" where
  "upd_heap f c = c\<lparr>ctl_heap := f (ctl_heap c)\<rparr>"

definition set_state :: "addr \<Rightarrow> u32 \<Rightarrow> 'h control \<Rightarrow> 'h control" where
  "set_state w s = upd_worker w (\<lambda>x. x\<lparr>worker_state := s\<rparr>)"

definition IS_PTHREAD :: "'h control \<Rightarrow> addr \<Rightarrow> bool" where
  "IS_PTHREAD c w \<longleftrightarrow> worker_flags (ctl_worker c w) AND PTHREAD_FLAG \<noteq> 0"

definition is_dead :: "'h control \<Rightarrow> addr \<Rightarrow> bool" where
  "is_dead c w \<longleftrightarrow> worker_flags (ctl_worker c w) AND DEAD_FLAG \<noteq> 0"

text \<open>
  The parts of the run-time system that \<open>control.c\<close> calls: the heap behind \<open>heap.h\<close>, which has several
  implementations, the frame tables and the finalizers.  \<open>rt_alloc_important\<close> includes the header that its
  callers write for the new user context.
\<close>

datatype root_slot = Exn_Object addr | Stack_Slot addr

record 'h runtime =
  rt_worker_init :: "nat \<Rightarrow> 'h \<Rightarrow> (addr \<times> addr) option \<times> 'h"
  rt_worker_register :: "addr \<Rightarrow> u32 \<Rightarrow> 'h \<Rightarrow> 'h"
  rt_worker_kill :: "addr \<Rightarrow> 'h \<Rightarrow> 'h"
  rt_alloc_important :: "addr \<Rightarrow> nat \<Rightarrow> u32 \<Rightarrow> 'h \<Rightarrow> addr \<times> 'h"
  rt_user_sync2 :: "addr \<Rightarrow> root_slot list \<Rightarrow> addr \<Rightarrow> 'h \<Rightarrow> 'h"
  rt_worker_sync2 :: "addr \<Rightarrow> addr \<Rightarrow> 'h \<Rightarrow> 'h"
  rt_global_sync2 :: "addr \<Rightarrow> 'h \<Rightarrow> 'h"
  rt_worker_mark :: "addr \<Rightarrow> 'h \<Rightarrow> 'h"
  rt_mark_finish :: "'h \<Rightarrow> bool"
  rt_run_finalizer :: "'h \<Rightarrow> 'h"
  rt_global_before_async :: "'h \<Rightarrow> 'h"
  rt_worker_async :: "addr \<Rightarrow> 'h \<Rightarrow> 'h"
  rt_global_async :: "'h \<Rightarrow> 'h"
  rt_lookup_frametable :: "addr \<Rightarrow> addr result"
  rt_tables :: mem


section \<open>The list of workers\<close>

text \<open>Dead workers at the front of a list are passed over.\<close>

partial_function (option) skip_dead :: "'h control \<Rightarrow> addr \<Rightarrow> addr option" where
  "skip_dead c w = (if w \<noteq> NULL \<and> is_dead c w then skip_dead c (worker_next (ctl_worker c w)) else Some w)"

definition sml_next_allocator :: "'h control \<Rightarrow> addr \<Rightarrow> (addr \<times> addr) option" where
  "sml_next_allocator c w =
     map_option (\<lambda>w'. if w' \<noteq> NULL then (allocator (ctl_worker c w'), worker_next (ctl_worker c w')) else (NULL, NULL))
       (skip_dead c w)"

definition sml_get_allocators :: "'h control \<Rightarrow> (addr \<times> addr) option" where
  "sml_get_allocators c = sml_next_allocator c (untagged (workers_available c))"

text \<open>
  A thread that registers a worker after the end of the program has begun (phase 0) sleeps
  forever.
\<close>

definition register_worker :: "addr \<Rightarrow> 'h control \<Rightarrow> (u32 \<times> 'h control) option" where
  "register_worker worker c =
     (let old = workers_available c; phase = tag_of old
      in if phase = 0 then None
         else map_option (\<lambda>next.
             (phase, (upd_worker worker (\<lambda>x. x\<lparr>worker_next := next, worker_state := ACTIVE phase\<rparr>) c)
                \<lparr>workers_available := PTROR worker phase\<rparr>))
           (skip_dead c (untagged old)))"

definition global_phase :: "sml_sync_phase \<Rightarrow> 'h control \<Rightarrow> (addr \<times> 'h control) option" where
  "global_phase new_phase c =
     map_option (\<lambda>r. (r, c\<lparr>workers_available := PTROR r (phase_word new_phase)\<rparr>))
       (skip_dead c (untagged (workers_available c)))"

text \<open>
  The loop of \<open>change_phase\<close>: the link it looks at is the head of the list, a local variable, or the
  \<open>next\<close> field of a worker.
\<close>

definition follow_link :: "link_addr \<Rightarrow> addr \<Rightarrow> 'h control \<Rightarrow> addr" where
  "follow_link i workers c = (case i of Head_Field \<Rightarrow> workers | Next_Of a \<Rightarrow> worker_next (ctl_worker c a))"

definition unlink_worker :: "link_addr \<Rightarrow> addr \<Rightarrow> 'h control \<Rightarrow> 'h control" where
  "unlink_worker i next c = (case i of Head_Field \<Rightarrow> c | Next_Of a \<Rightarrow> upd_worker a (\<lambda>x. x\<lparr>worker_next := next\<rparr>) c)"

partial_function (option) change_phase_loop ::
  "'h runtime \<Rightarrow> sml_sync_phase \<Rightarrow> sml_sync_phase \<Rightarrow> addr \<Rightarrow> link_addr \<Rightarrow> nat \<Rightarrow> 'h control \<Rightarrow> (nat \<times> 'h control) option" where
  "change_phase_loop rt old_phase new_phase workers i n c =
     (let worker = follow_link i workers c; wk = ctl_worker c worker; flags = worker_flags wk
      in if worker = NULL then Some (n, c)
         else if flags AND DEAD_FLAG \<noteq> 0 \<and> i \<noteq> Head_Field then
           change_phase_loop rt old_phase new_phase workers i n (unlink_worker i (worker_next wk) c)
         else if old_phase = ASYNC \<and> flags AND CANCELED_FLAG \<noteq> 0 \<and> worker_users wk = NULL then
           let c1 = upd_worker worker (\<lambda>x. x\<lparr>worker_flags := flags OR DEAD_FLAG\<rparr>)
                 (upd_heap (rt_worker_kill rt (allocator wk)) c)
           in if i \<noteq> Head_Field
              then change_phase_loop rt old_phase new_phase workers i n (unlink_worker i (worker_next wk) c1)
              else change_phase_loop rt old_phase new_phase workers (Next_Of worker) n c1
         else
           change_phase_loop rt old_phase new_phase workers (Next_Of worker) (n + 1)
             (set_state worker (change_state old_phase new_phase (worker_state wk)) c))"

definition change_phase ::
  "'h runtime \<Rightarrow> addr \<Rightarrow> sml_sync_phase \<Rightarrow> sml_sync_phase \<Rightarrow> 'h control \<Rightarrow> (nat \<times> 'h control) option" where
  "change_phase rt workers old_phase new_phase c =
     map_option (\<lambda>(n, c1). (n, c1\<lparr>workers_handshake := PTROR workers (phase_word new_phase)\<rparr>))
       (change_phase_loop rt old_phase new_phase workers Head_Field 0 c)"

text \<open>The way to the next phase that all actions share: new workers, old workers, and the counter.\<close>

definition advance ::
  "'h runtime \<Rightarrow> sml_sync_phase \<Rightarrow> sml_sync_phase \<Rightarrow> sml_sync_phase \<Rightarrow> 'h control \<Rightarrow> 'h control option" where
  "advance rt new_phase old_phase pre_phase c =
     Option.bind (global_phase new_phase c) (\<lambda>(workers, c1).
       map_option (\<lambda>(n, c2). c2\<lparr>sml_check_flag := sml_check_flag c2 + word_of_nat n\<rparr>)
         (change_phase rt workers old_phase pre_phase c1))"

text \<open>\<open>fetch_sub\<close> on \<open>sml_check_flag\<close>: whether the caller is the last to answer.\<close>

definition answer :: "'h control \<Rightarrow> bool \<times> 'h control" where
  "answer c = (sml_check_flag c = 1, c\<lparr>sml_check_flag := sml_check_flag c - 1\<rparr>)"

section \<open>Enumeration of the stacks\<close>

definition FRAME_CODE_ADDRESS :: "mem \<Rightarrow> addr \<Rightarrow> addr" where
  "FRAME_CODE_ADDRESS m frame_end = load64 m (frame_end - 8)"

definition NEXT_FRAME :: "addr \<Rightarrow> addr" where
  "NEXT_FRAME frame_begin = frame_begin + 8"

text \<open>\<open>frame_enum_ptr\<close>: the slots given to \<open>trace\<close>, and the next frame.\<close>

definition frame_enum_ptr :: "'h runtime \<Rightarrow> mem \<Rightarrow> addr \<Rightarrow> (root_slot list \<times> addr) result" where
  "frame_enum_ptr rt stack frame_end =
     (case rt_lookup_frametable rt (FRAME_CODE_ADDRESS stack frame_end) of
        Inl e \<Rightarrow> Inl e
      | Inr layout \<Rightarrow>
          let frame_begin = frame_end + 8 * frame_size (rt_tables rt) layout;
              slots = map (\<lambda>i. frame_end + 8 * root_offset (rt_tables rt) layout i) [0..<num_roots (rt_tables rt) layout]
          in Inr (map Stack_Slot (filter (\<lambda>a. load64 stack a \<noteq> NULL) slots), NEXT_FRAME frame_begin))"

text \<open>The frames of a stack range, and the ranges of a user.\<close>

partial_function (option) frames_enum :: "'h runtime \<Rightarrow> mem \<Rightarrow> addr \<Rightarrow> addr \<Rightarrow> root_slot list \<Rightarrow> root_slot list result option" where
  "frames_enum rt stack bottom fp acc =
     (case frame_enum_ptr rt stack fp of
        Inl e \<Rightarrow> Some (Inl e)
      | Inr r \<Rightarrow> if fp = bottom then ret (acc @ fst r) else frames_enum rt stack bottom (snd r) (acc @ fst r))"

partial_function (option) ranges_enum :: "'h runtime \<Rightarrow> 'h control \<Rightarrow> addr \<Rightarrow> root_slot list \<Rightarrow> root_slot list result option" where
  "ranges_enum rt c rg acc =
     (if rg = NULL then ret acc
      else andthen (frames_enum rt (ctl_stack c) (range_bottom (ctl_range c rg)) (range_top (ctl_range c rg)) acc)
             (\<lambda>acc'. ranges_enum rt c (range_next (ctl_range c rg)) acc'))"

definition sml_stack_enum_ptr :: "'h runtime \<Rightarrow> 'h control \<Rightarrow> addr \<Rightarrow> root_slot list result option" where
  "sml_stack_enum_ptr rt c user =
     ranges_enum rt c (user_stack (ctl_user c user)) (if exn_object (ctl_user c user) \<noteq> NULL then [Exn_Object user] else [])"

section \<open>Actions of workers\<close>

definition worker_async :: "'h runtime \<Rightarrow> addr \<Rightarrow> 'h control \<Rightarrow> 'h control" where
  "worker_async rt worker c =
     (let c1 = upd_heap (rt_worker_async rt (allocator (ctl_worker c worker))) c; (last_one, c2) = answer c1
      in if last_one then (upd_heap (rt_global_async rt) c2)\<lparr>gc_count := gc_count c2 + 1\<rparr> else c2)"

partial_function (option) worker_mark :: "'h runtime \<Rightarrow> addr \<Rightarrow> bool \<Rightarrow> 'h control \<Rightarrow> 'h control option" where
  "worker_mark rt worker greedy c =
     (let r = answer (upd_heap (rt_worker_mark rt (allocator (ctl_worker c worker))) c); c2 = snd r
      in if \<not> fst r then Some c2
         else if rt_mark_finish rt (ctl_heap c2) then
           map_option (\<lambda>c4. if greedy then worker_async rt worker (set_state worker (ACTIVE (phase_word ASYNC)) c4) else c4)
             (advance rt ASYNC MARK PREASYNC (upd_heap (rt_global_before_async rt) (upd_heap (rt_run_finalizer rt) c2)))
         else
           Option.bind (advance rt MARK MARK PREMARK c2) (\<lambda>c3.
             if greedy then worker_mark rt worker greedy (set_state worker (ACTIVE (phase_word MARK)) c3) else Some c3))"

text \<open>
  The loops of \<open>worker_sync2\<close> over the users of a worker.  The inner one goes through the list from
  link \<open>i\<close>; users whose lock is taken move to \<open>pending\<close>, users of other workers leave the list, and the
  stacks of the others are enumerated.  The result includes the link at the end of the list.
\<close>

definition follow_users :: "addr \<Rightarrow> link_addr \<Rightarrow> 'h control \<Rightarrow> addr" where
  "follow_users worker i c = (case i of Head_Field \<Rightarrow> worker_users (ctl_worker c worker) | Next_Of u \<Rightarrow> user_next (ctl_user c u))"

definition write_users :: "addr \<Rightarrow> link_addr \<Rightarrow> addr \<Rightarrow> 'h control \<Rightarrow> 'h control" where
  "write_users worker i p =
     (case i of Head_Field \<Rightarrow> upd_worker worker (\<lambda>x. x\<lparr>worker_users := p\<rparr>) | Next_Of u \<Rightarrow> upd_user u (\<lambda>x. x\<lparr>user_next := p\<rparr>))"

partial_function (option) sync2_pass ::
  "'h runtime \<Rightarrow> addr \<Rightarrow> link_addr \<Rightarrow> addr \<Rightarrow> 'h control \<Rightarrow> (link_addr \<times> addr \<times> 'h control) result option" where
  "sync2_pass rt worker i pending c =
     (let user = follow_users worker i c; u = ctl_user c user
      in if user = NULL then ret (i, pending, c)
         else
           case acquire_bit (user_flags u) BUSY_FLAG of
             None \<Rightarrow>
               sync2_pass rt worker i user (upd_user user (\<lambda>x. x\<lparr>user_next := pending\<rparr>) (write_users worker i (user_next u) c))
           | Some f \<Rightarrow>
               let c1 = upd_user user (\<lambda>x. x\<lparr>user_flags := f\<rparr>) c
               in if user_worker u \<noteq> worker then sync2_pass rt worker i pending (write_users worker i (user_next u) c1)
                  else
                    andthen (sml_stack_enum_ptr rt c1 user) (\<lambda>slots.
                      sync2_pass rt worker (Next_Of user) pending
                        (upd_user user (\<lambda>x. x\<lparr>user_flags := 0\<rparr>)
                          (upd_heap (rt_user_sync2 rt user slots (allocator (ctl_worker c1 worker))) c1))))"

partial_function (option) sync2_users :: "'h runtime \<Rightarrow> addr \<Rightarrow> link_addr \<Rightarrow> 'h control \<Rightarrow> 'h control result option" where
  "sync2_users rt worker i c =
     andthen (sync2_pass rt worker i NULL c) (\<lambda>r.
       let i' = fst r; pending = fst (snd r); c1 = write_users worker i' pending (snd (snd r))
       in if pending = NULL then ret c1 else sync2_users rt worker i' c1)"

definition worker_sync2 :: "'h runtime \<Rightarrow> addr \<Rightarrow> bool \<Rightarrow> 'h control \<Rightarrow> 'h control result option" where
  "worker_sync2 rt worker greedy c =
     andthen (sync2_users rt worker Head_Field c) (\<lambda>c1.
       let c2 = upd_heap (rt_worker_sync2 rt worker (allocator (ctl_worker c1 worker))) c1;
           flags = worker_flags (ctl_worker c2 worker);
           c3 = (if flags AND GLOBALENUM_FLAG \<noteq> 0
                 then upd_worker worker (\<lambda>x. x\<lparr>worker_flags := flags AND NOT GLOBALENUM_FLAG\<rparr>)
                        (upd_heap (rt_global_sync2 rt (allocator (ctl_worker c2 worker))) c2)
                 else c2);
           r = answer c3
       in if \<not> fst r then ret (snd r)
          else Option.bind (advance rt MARK SYNC2 PREMARK (snd r)) (\<lambda>c4.
            if greedy then map_option Inr (worker_mark rt worker greedy (set_state worker (ACTIVE (phase_word MARK)) c4)) else ret c4))"

definition worker_sync1 :: "'h runtime \<Rightarrow> addr \<Rightarrow> bool \<Rightarrow> 'h control \<Rightarrow> 'h control result option" where
  "worker_sync1 rt worker greedy c =
     (let r = answer c
      in if \<not> fst r then ret (snd r)
         else
           let c1 = upd_worker worker (\<lambda>x. x\<lparr>worker_flags := worker_flags x OR GLOBALENUM_FLAG\<rparr>) (snd r)
           in Option.bind (advance rt SYNC2 SYNC1 PRESYNC2 c1) (\<lambda>c2.
                if greedy then worker_sync2 rt worker greedy (set_state worker (ACTIVE (phase_word SYNC2)) c2) else ret c2))"


section \<open>Meaning of state words\<close>

text \<open>
  A worker is run by its thread, by nobody, or by a helper; together with the phase this is what a
  state word says.
\<close>

datatype owner = Owned | Unowned | Helped

definition state_word :: "sml_sync_phase \<Rightarrow> owner \<Rightarrow> u32" where
  "state_word p w = phase_word p OR (case w of Owned \<Rightarrow> 0 | Unowned \<Rightarrow> INACTIVE_STATE | Helped \<Rightarrow> HELPER_STATE)"

text \<open>The phases of the handshake, and the phase in which a signal has been accepted.\<close>

definition is_phase :: "sml_sync_phase \<Rightarrow> bool" where
  "is_phase p \<longleftrightarrow> p \<noteq> DUMMY_PHASE"

fun accepted :: "sml_sync_phase \<Rightarrow> sml_sync_phase" where
  "accepted PREASYNC = ASYNC"
| "accepted PRESYNC1 = SYNC1"
| "accepted PRESYNC2 = SYNC2"
| "accepted PREMARK = MARK"
| "accepted p = p"

definition pending :: "sml_sync_phase \<Rightarrow> bool" where
  "pending p \<longleftrightarrow> accepted p \<noteq> p"

lemmas state_words = state_word_def phase_word_def is_phase_def pending_def control_flags
  PHASE_def IS_ACTIVE_def INACTIVE_def ACTIVE_def

lemma state_word_phase:
  assumes "is_phase p"
  shows "PHASE (state_word p w) = phase_word p" and "IS_ACTIVE (state_word p w) \<longleftrightarrow> w \<noteq> Unowned"
    and "state_word p Owned = ACTIVE (phase_word p)"
  using assms by (cases p; cases w; simp add: state_words)+

lemma state_word_inject:
  assumes "is_phase p" and "is_phase q"
  shows "state_word p w = state_word q v \<longleftrightarrow> p = q \<and> w = v"
  using assms by (cases p; cases q; cases w; cases v) (simp_all add: state_words)

lemma change_state_word:
  assumes "is_phase p" and "is_phase q"
  shows "change_state p q (state_word p w) = state_word q w"
  using assms by (cases p; cases q; cases w) (simp_all add: state_words change_state_def)

lemma own_state_word:
  assumes "is_phase p"
  shows "leave_state (state_word p Owned) = state_word (accepted p) Unowned"
    and "acquire_unbit (state_word p w) INACTIVE_STATE = (if w = Unowned then Some (state_word p Owned) else None)"
    and "state_word p Owned OR 1 = state_word (accepted p) Owned"
  using assms by (cases p; cases w; simp add: state_words leave_state_def acquire_unbit_def)+

lemma help_state_word:
  assumes "is_phase p"
  shows "needs_help (state_word p w) \<longleftrightarrow> w = Unowned \<and> pending p"
    and "help_state (state_word p Unowned) = state_word (accepted p) Helped"
    and "unhelp_state (state_word p Helped) = state_word p Unowned"
    and "state_word p Helped OR 1 = state_word (accepted p) Helped"
  using assms by (cases p; cases w; simp add: state_words needs_help_def help_state_def unhelp_state_def)+

text \<open>
  C27: the bit operations on state words follow the diagram of phases.  For a word that says a phase
  and an owner, \<open>fetch_xor\<close> in \<open>change_phase\<close> replaces the phase and keeps the owner; \<open>leave_worker\<close>
  releases the worker and accepts a pending signal; the lock is taken exactly from unowned workers;
  \<open>help_inactive\<close> selects exactly the unowned workers with a pending signal, accepts it as a helper and
  gives the worker back; and different phases and owners have different words.
\<close>

theorem state_words_follow_diagram:
  assumes "is_phase p" and "is_phase q"
  shows "PHASE (state_word p w) = phase_word p \<and> (IS_ACTIVE (state_word p w) \<longleftrightarrow> w \<noteq> Unowned) \<and>
    change_state p q (state_word p w) = state_word q w \<and>
    leave_state (state_word p Owned) = state_word (accepted p) Unowned \<and>
    acquire_unbit (state_word p w) INACTIVE_STATE = (if w = Unowned then Some (state_word p Owned) else None) \<and>
    (needs_help (state_word p w) \<longleftrightarrow> w = Unowned \<and> pending p) \<and>
    help_state (state_word p Unowned) = state_word (accepted p) Helped \<and>
    unhelp_state (state_word p Helped) = state_word p Unowned \<and>
    (state_word p w = state_word q v \<longleftrightarrow> p = q \<and> w = v)"
  using assms
  by (intro conjI state_word_phase change_state_word own_state_word help_state_word state_word_inject)

theorem state_words_follow_diagram_witness:
  "leave_state (ACTIVE (phase_word PRESYNC2)) = INACTIVE (phase_word SYNC2) \<and>
   change_state SYNC1 PRESYNC2 (INACTIVE (phase_word SYNC1)) = INACTIVE (phase_word PRESYNC2)"
proof -
  have "is_phase PRESYNC2" "is_phase SYNC1" by (simp_all add: is_phase_def)
  then show ?thesis
    using state_words_follow_diagram [of PRESYNC2 SYNC1 Owned Owned] state_words_follow_diagram [of SYNC1 PRESYNC2 Unowned Owned]
    by (simp add: state_word_def ACTIVE_def INACTIVE_def)
qed

section \<open>Changing the phase of all workers\<close>

text \<open>The workers from \<open>p\<close> on, in the order of the list.\<close>

fun worker_list :: "'h control \<Rightarrow> addr \<Rightarrow> addr list \<Rightarrow> bool" where
  "worker_list c p [] \<longleftrightarrow> p = NULL"
| "worker_list c p (w # ws) \<longleftrightarrow> p = w \<and> w \<noteq> NULL \<and> worker_list c (worker_next (ctl_worker c w)) ws"

definition removable :: "sml_sync_phase \<Rightarrow> 'h control \<Rightarrow> addr \<Rightarrow> bool" where
  "removable old_phase c w \<longleftrightarrow>
     is_dead c w \<or> old_phase = ASYNC \<and> worker_flags (ctl_worker c w) AND CANCELED_FLAG \<noteq> 0 \<and> worker_users (ctl_worker c w) = NULL"

definition change_states :: "sml_sync_phase \<Rightarrow> sml_sync_phase \<Rightarrow> addr set \<Rightarrow> 'h control \<Rightarrow> 'h control" where
  "change_states old_phase new_phase ws c =
     c\<lparr>ctl_worker := (\<lambda>w. if w \<in> ws then (ctl_worker c w)\<lparr>worker_state := change_state old_phase new_phase (worker_state (ctl_worker c w))\<rparr>
                          else ctl_worker c w)\<rparr>"

lemma change_phase_loop_all:
  assumes "worker_list c (follow_link i workers c) ws" and "distinct ws" and "\<forall>w\<in>set ws. \<not> removable old_phase c w"
  shows "change_phase_loop rt old_phase new_phase workers i n c = Some (n + length ws, change_states old_phase new_phase (set ws) c)"
  using assms
proof (induction ws arbitrary: i n c)
  case Nil
  then show ?case by (subst change_phase_loop.simps) (simp add: change_states_def)
next
  case (Cons w ws)
  let ?c = "set_state w (change_state old_phase new_phase (worker_state (ctl_worker c w))) c"
  have w: "follow_link i workers c = w" "w \<noteq> NULL" "w \<notin> set ws" "\<not> removable old_phase c w"
    using Cons.prems by auto
  have frame: "worker_list ?c p xs \<longleftrightarrow> worker_list c p xs" for p xs
    by (induction xs arbitrary: p) (simp_all add: set_state_def upd_worker_def)
  have "follow_link (Next_Of w) workers ?c = worker_next (ctl_worker c w)"
    by (simp add: follow_link_def set_state_def upd_worker_def)
  then have "worker_list ?c (follow_link (Next_Of w) workers ?c) ws" using Cons.prems(1) by (simp add: frame)
  moreover have "\<forall>v\<in>set ws. \<not> removable old_phase ?c v"
    using Cons.prems w(3) by (auto simp: removable_def is_dead_def set_state_def upd_worker_def)
  ultimately have "change_phase_loop rt old_phase new_phase workers (Next_Of w) (n + 1) ?c =
      Some (n + 1 + length ws, change_states old_phase new_phase (set ws) ?c)"
    using Cons.IH Cons.prems(2) by simp
  moreover have "change_states old_phase new_phase (set ws) ?c = change_states old_phase new_phase (set (w # ws)) c"
    using w(3) by (auto simp: change_states_def set_state_def upd_worker_def fun_eq_iff)
  ultimately show ?case
    using w by (subst change_phase_loop.simps) (auto simp: removable_def is_dead_def Let_def)
qed

lemma skip_dead_live: "w = NULL \<or> \<not> is_dead c w \<Longrightarrow> skip_dead c w = Some w"
  by (subst skip_dead.simps) auto

text \<open>Tags in the low bits of pointers to workers.\<close>

lemma untagged_div: "p < 2 ^ 64 \<Longrightarrow> untagged p = 8 * (p div 8)"
proof -
  assume p: "p < 2 ^ 64"
  have m: "(NOT (ucast PHASE_MASK) :: u64) = push_bit 3 (- 1)"
    by (simp add: PHASE_MASK_def mask_eq_decr_exp)
  have e: "8 * (p div 8) = push_bit 3 (drop_bit 3 p)" by (simp add: push_bit_eq_mult drop_bit_eq_div)
  have "(word_of_nat p AND push_bit 3 (- 1) :: u64) = word_of_nat (8 * (p div 8))"
    unfolding e by (rule bit_word_eqI) (auto simp: bit_simps)
  moreover have "8 * (p div 8) < 2 ^ 64" using p by (meson le_less_trans times_div_less_eq_dividend)
  ultimately show ?thesis unfolding untagged_def PTRAND_def m
    by (simp only:) (unfold unat_of_nat, simp)
qed

lemma take_bit_word_of_nat: "take_bit 3 (word_of_nat x :: u32) = word_of_nat (take_bit 3 x)"
  by (rule bit_word_eqI) (auto simp: bit_simps)

lemma or_low:
  assumes "8 dvd p" and "k < 8"
  shows "p OR k = p + (k :: nat)"
proof (rule disjunctive_add [symmetric])
  from assms(1) obtain q where q: "p = push_bit 3 q" by (auto simp: push_bit_eq_mult)
  have k: "k = take_bit 3 k" using assms(2) by (simp add: take_bit_nat_eq_self)
  show "\<not> bit p n \<or> \<not> bit k n" for n
    unfolding q by (subst k) (auto simp: bit_push_bit_iff bit_take_bit_iff)
qed

text \<open>Addresses of workers: aligned, as \<open>register_worker\<close> asserts, and in the address space.\<close>

definition worker_addr :: "addr \<Rightarrow> bool" where
  "worker_addr p \<longleftrightarrow> 8 dvd p \<and> p < 2 ^ 64"

lemma phase_word_unat: "is_phase p \<Longrightarrow> unat (phase_word p) = phase_code p \<and> phase_code p < 8"
  by (cases p) (simp_all add: phase_word_def is_phase_def)

lemma tagged:
  assumes "worker_addr w" and "is_phase p"
  shows "PTROR w (phase_word p) = w + phase_code p"
    and "untagged (PTROR w (phase_word p)) = w" and "tag_of (PTROR w (phase_word p)) = phase_word p"
proof -
  have k: "phase_code p < 8" and e: "PTROR w (phase_word p) = w + phase_code p"
    using or_low [of w "phase_code p"] phase_word_unat [OF assms(2)] assms(1) by (simp_all add: PTROR_def worker_addr_def)
  obtain q where q: "w = 8 * q" using assms(1) by (auto simp: worker_addr_def)
  have "w + 8 \<le> 2 ^ 64" using assms(1) q by (simp add: worker_addr_def)
  then have "w + phase_code p < 2 ^ 64" using k by linarith
  then show "untagged (PTROR w (phase_word p)) = w" unfolding e using k by (simp add: untagged_div q)
  show "PTROR w (phase_word p) = w + phase_code p" by (rule e)
  have "take_bit 3 (w + phase_code p) = phase_code p" using k by (simp add: take_bit_eq_mod q)
  then have "(word_of_nat (w + phase_code p) :: u32) AND mask 3 = word_of_nat (phase_code p)"
    using take_bit_word_of_nat [of "w + phase_code p"] by (simp only: take_bit_eq_mask)
  then show "tag_of (PTROR w (phase_word p)) = phase_word p"
    unfolding e by (simp add: tag_of_def PHASE_def PHASE_MASK_def phase_word_def mask_eq_decr_exp)
qed

lemma advance_eq:
  assumes "worker_list c (untagged (workers_available c)) ws" and "distinct ws" and "\<forall>w\<in>set ws. \<not> removable old c w"
  shows "advance rt new old pre c =
    Some ((change_states old pre (set ws) (c\<lparr>workers_available := PTROR (untagged (workers_available c)) (phase_word new)\<rparr>))
      \<lparr>workers_handshake := PTROR (untagged (workers_available c)) (phase_word pre),
       sml_check_flag := sml_check_flag c + word_of_nat (length ws)\<rparr>)"
proof -
  define h where "h = untagged (workers_available c)"
  have hd: "h = NULL \<and> ws = [] \<or> ws \<noteq> [] \<and> h = hd ws" using assms(1) by (cases ws) (auto simp: h_def)
  have sk: "skip_dead c h = Some h" by (rule skip_dead_live) (use hd assms(3) in \<open>auto simp: removable_def\<close>)
  define c1 where "c1 = c\<lparr>workers_available := PTROR h (phase_word new)\<rparr>"
  have frame1: "worker_list c1 p xs = worker_list c p xs" for p xs
    by (induction xs arbitrary: p) (simp_all add: c1_def)
  have rm: "removable old c1 w = removable old c w" for w by (simp add: removable_def is_dead_def c1_def)
  have "change_phase_loop rt old pre h Head_Field 0 c1 = Some (0 + length ws, change_states old pre (set ws) c1)"
    by (rule change_phase_loop_all) (use assms rm in \<open>simp_all add: follow_link_def frame1 h_def [symmetric]\<close>)
  moreover have "sml_check_flag (change_states old pre (set ws) c1) = sml_check_flag c" by (simp add: change_states_def c1_def)
  ultimately show ?thesis
    by (simp add: advance_def global_phase_def h_def [symmetric] sk change_phase_def c1_def)
qed

text \<open>
  A step of the collection to its next phase.  When the workers \<open>ws\<close> are all in phase \<open>old\<close>, none of them
  dead or to be removed, then \<open>global_phase\<close> and \<open>change_phase\<close> terminate: each of these workers goes to the
  pending phase and keeps its owner, no other worker changes, workers that register later start in the
  accepted phase, all of the workers may be helped, and the counter grows by their number.
\<close>

lemma advance_all_workers:
  assumes "worker_list c (untagged (workers_available c)) ws" and "distinct ws" and "\<forall>w\<in>set ws. \<not> removable old c w"
    and "\<forall>w\<in>set ws. worker_addr w \<and> worker_state (ctl_worker c w) = state_word old (own w)"
    and "is_phase new" and "is_phase old" and "is_phase pre"
  shows "\<exists>c'. advance rt new old pre c = Some c' \<and>
    (\<forall>w. ctl_worker c' w = (if w \<in> set ws then (ctl_worker c w)\<lparr>worker_state := state_word pre (own w)\<rparr> else ctl_worker c w)) \<and>
    untagged (workers_available c') = untagged (workers_available c) \<and> tag_of (workers_available c') = phase_word new \<and>
    worker_list c' (untagged (workers_handshake c')) ws \<and>
    sml_check_flag c' = sml_check_flag c + word_of_nat (length ws) \<and>
    ctl_heap c' = ctl_heap c \<and> gc_count c' = gc_count c"
proof -
  define h where "h = untagged (workers_available c)"
  have ha: "worker_addr h" using assms(1,4) by (cases ws) (auto simp: h_def worker_addr_def)
  define c1 where "c1 = c\<lparr>workers_available := PTROR h (phase_word new)\<rparr>"
  define c2 where "c2 = change_states old pre (set ws) c1"
  let ?c = "c2\<lparr>workers_handshake := PTROR h (phase_word pre), sml_check_flag := sml_check_flag c + word_of_nat (length ws)\<rparr>"
  have frame: "worker_list ?c p xs = worker_list c p xs" for p xs
    by (induction xs arbitrary: p) (simp_all add: c2_def c1_def change_states_def)
  have "advance rt new old pre c = Some ?c" using advance_eq [OF assms(1-3)] by (simp add: c2_def c1_def h_def)
  moreover have "ctl_worker ?c w = (if w \<in> set ws then (ctl_worker c w)\<lparr>worker_state := state_word pre (own w)\<rparr> else ctl_worker c w)" for w
    using assms(4,6,7) by (simp add: c2_def c1_def change_states_def change_state_word)
  ultimately show ?thesis
    using tagged [OF ha assms(5)] tagged [OF ha assms(7)] assms(1) frame
    by (intro exI [of _ ?c]) (simp add: h_def [symmetric], simp add: c2_def c1_def change_states_def)
qed

text \<open>A run-time system that does nothing, and one worker, active in the phase between collections.\<close>

definition sample_runtime :: "unit runtime" where
  "sample_runtime =
     \<lparr>rt_worker_init = (\<lambda>_ h. (None, h)), rt_worker_register = (\<lambda>_ _ h. h), rt_worker_kill = (\<lambda>_ h. h),
      rt_alloc_important = (\<lambda>_ _ _ h. (0, h)), rt_user_sync2 = (\<lambda>_ _ _ h. h), rt_worker_sync2 = (\<lambda>_ _ h. h),
      rt_global_sync2 = (\<lambda>_ h. h), rt_worker_mark = (\<lambda>_ h. h), rt_mark_finish = (\<lambda>_. True), rt_run_finalizer = id,
      rt_global_before_async = id, rt_worker_async = (\<lambda>_ h. h), rt_global_async = id,
      rt_lookup_frametable = (\<lambda>_. Inr 64), rt_tables = (\<lambda>a. if a = 66 then 3 else if a = 68 then 1 else if a = 70 then 2 else 0)\<rparr>"


definition one_worker :: "unit control" where
  "one_worker =
     \<lparr>ctl_worker = (\<lambda>_. \<lparr>worker_state = 1, worker_flags = 0, worker_users = 0, current_user = 0, allocator = 0,
        worker_next = 0, check_hook = 0\<rparr>),
      ctl_user = (\<lambda>_. \<lparr>user_flags = 0, user_next = 0, user_worker = 4096, user_stack = 512, exn_object = 0\<rparr>),
      ctl_range = (\<lambda>_. \<lparr>range_bottom = 0, range_top = 0, range_next = 0\<rparr>),
      ctl_stack = (\<lambda>_. 0), workers_available = 4097, workers_handshake = 0, sml_check_flag = 0, gc_count = 0,
      tlv_worker = (\<lambda>_. 4096), tlv_user = (\<lambda>_. 0), ctl_heap = ()\<rparr>"

lemma one_worker_simps:
  "untagged (workers_available one_worker) = 4096" "worker_list one_worker 4096 [4096]"
  "worker_state (ctl_worker one_worker w) = state_word ASYNC Owned" "\<not> removable p one_worker w" "worker_addr 4096"
  by (simp_all add: one_worker_def untagged_div state_words removable_def is_dead_def worker_addr_def)

end
