(* ===== verification/Control.thy ===== *)
theory Control
  imports Worker
begin

text \<open>
  The entry points of \<open>control.c\<close>: ML code is entered and left, users move between workers, workers
  answer the phases of a collection and help inactive ones, and collections are started and
  awaited.
\<close>

section \<open>Threads\<close>

text \<open>
  A thread of the program: its worker thread and its user thread, which select the thread-local
  variables, and whether the worker belongs to the user-level thread library.
\<close>

record thread =
  th_worker :: nat
  th_user :: nat
  is_myth_worker :: bool

definition get_worker :: "thread \<Rightarrow> 'h control \<Rightarrow> addr" where
  "get_worker th c = tlv_worker c (th_worker th)"

definition set_tlv_worker :: "thread \<Rightarrow> addr \<Rightarrow> 'h control \<Rightarrow> 'h control" where
  "set_tlv_worker th w c = c\<lparr>tlv_worker := (tlv_worker c)(th_worker th := w)\<rparr>"

definition set_tlv_user :: "thread \<Rightarrow> addr \<Rightarrow> 'h control \<Rightarrow> 'h control" where
  "set_tlv_user th u c = c\<lparr>tlv_user := (tlv_user c)(th_user th := u)\<rparr>"

section \<open>Ends of threads\<close>

definition cancel_worker :: "addr \<Rightarrow> 'h control \<Rightarrow> 'h control result" where
  "cancel_worker worker c =
     (let state = worker_state (ctl_worker c worker)
      in if IS_ACTIVE state \<and> state AND HELPER_STATE = 0 then Inl (Fatal ''thread is canceled asynchronously'')
         else Inr (upd_worker worker (\<lambda>x. x\<lparr>worker_flags := worker_flags x OR CANCELED_FLAG\<rparr>) c))"

definition cancel_user :: "addr \<Rightarrow> 'h control \<Rightarrow> 'h control option" where
  "cancel_user user c =
     (if user = NULL then Some c
      else map_option (\<lambda>_. upd_user user (\<lambda>x. x\<lparr>user_worker := NULL, user_flags := CANCELED_FLAG\<rparr>) c)
             (acquire_bit (user_flags (ctl_user c user)) BUSY_FLAG))"

section \<open>Entering and leaving workers\<close>

abbreviation (input) SIZEOF_WORKER :: nat where "SIZEOF_WORKER \<equiv> 48"
abbreviation (input) SIZEOF_USER :: nat where "SIZEOF_USER \<equiv> 40"

text \<open>The new user context, null when the worker existed, and the worker.\<close>

definition enter_worker :: "'h runtime \<Rightarrow> thread \<Rightarrow> 'h control \<Rightarrow> (addr \<times> addr \<times> 'h control) option" where
  "enter_worker rt th c =
     (let worker = get_worker th c
      in if worker \<noteq> NULL then
           map_option (\<lambda>s. (NULL, worker, set_state worker s c))
             (acquire_unbit (worker_state (ctl_worker c worker)) INACTIVE_STATE)
         else
           let user_offset = CEILING SIZEOF_WORKER 8;
               (init, heap) = rt_worker_init rt (user_offset + SIZEOF_USER) (ctl_heap c)
           in Option.bind init (\<lambda>(memory, alloc).
                let worker = memory; new_user = memory + user_offset;
                    c1 = upd_worker worker (\<lambda>x. x\<lparr>allocator := alloc, worker_users := NULL, check_hook := NULL,
                           worker_flags := (if is_myth_worker th then 0 else PTHREAD_FLAG),
                           current_user := (if is_myth_worker th then current_user x else NULL)\<rparr>) (c\<lparr>ctl_heap := heap\<rparr>)
                in map_option (\<lambda>(phase, c2).
                       (new_user, worker, set_tlv_worker th worker (upd_heap (rt_worker_register rt alloc phase) c2)))
                     (register_worker worker c1)))"

definition leave_worker :: "'h runtime \<Rightarrow> addr \<Rightarrow> 'h control \<Rightarrow> 'h control result option" where
  "leave_worker rt worker c =
     (let old = worker_state (ctl_worker c worker); c1 = set_state worker (leave_state old) c
      in if old = ACTIVE (phase_word PREASYNC) then ret (worker_async rt worker c1)
         else if old = ACTIVE (phase_word PRESYNC1) then worker_sync1 rt worker False c1
         else if old = ACTIVE (phase_word PRESYNC2) then worker_sync2 rt worker False c1
         else if old = ACTIVE (phase_word PREMARK) then map_option Inr (worker_mark rt worker False c1)
         else ret c1)"

definition set_top :: "addr \<Rightarrow> addr \<Rightarrow> 'h control \<Rightarrow> 'h control" where
  "set_top user p c = upd_range (user_stack (ctl_user c user)) (\<lambda>x. x\<lparr>range_top := p\<rparr>) c"

definition get_top :: "addr \<Rightarrow> 'h control \<Rightarrow> addr" where
  "get_top user c = range_top (ctl_range c (user_stack (ctl_user c user)))"

definition sml_leave_internal :: "'h runtime \<Rightarrow> thread \<Rightarrow> addr \<Rightarrow> 'h control \<Rightarrow> 'h control result option" where
  "sml_leave_internal rt th frame_pointer c =
     (let worker = get_worker th c; user = current_user (ctl_worker c worker); c1 = set_top user frame_pointer c;
          c2 = (if \<not> IS_PTHREAD c1 worker then set_tlv_user th user c1 else c1)
      in leave_worker rt worker c2)"

definition sml_leave :: "'h runtime \<Rightarrow> thread \<Rightarrow> addr \<Rightarrow> 'h control \<Rightarrow> 'h control result option" where
  "sml_leave rt th caller_frame_end = sml_leave_internal rt th caller_frame_end"

text \<open>
  The user context of a thread that has come from another worker is copied.  While the other worker
  may be enumerating its stack, from \<open>SYNC1\<close> to \<open>SYNC2\<close>, this is done under the user's lock: the first
  attempt that succeeds enumerates the stack when the own worker has answered \<open>SYNC2\<close>;
  \<open>waited\<close> says that an attempt has failed before.
\<close>

definition claim_user :: "'h runtime \<Rightarrow> bool \<Rightarrow> addr \<Rightarrow> addr \<Rightarrow> 'h control \<Rightarrow> 'h control result option" where
  "claim_user rt waited worker user c =
     (let phase = PHASE (worker_state (ctl_worker c worker))
      in if phase_word SYNC1 \<le> phase \<and> phase \<le> phase_word SYNC2 then
           Option.bind (acquire_bit (user_flags (ctl_user c user)) BUSY_FLAG) (\<lambda>f.
             let c1 = upd_user user (\<lambda>x. x\<lparr>user_flags := f\<rparr>) c
             in andthen (if \<not> waited \<and> phase = phase_word SYNC2
                         then andthen (sml_stack_enum_ptr rt c1 user) (\<lambda>slots.
                                ret (upd_heap (rt_user_sync2 rt user slots (allocator (ctl_worker c1 worker))) c1))
                         else ret c1)
                  (\<lambda>c2. ret (upd_user user (\<lambda>x. x\<lparr>user_worker := worker, user_flags := 0\<rparr>) c2)))
         else ret (upd_user user (\<lambda>x. x\<lparr>user_worker := worker\<rparr>) c))"

definition move_user :: "addr \<Rightarrow> addr \<Rightarrow> addr \<Rightarrow> 'h control \<Rightarrow> 'h control" where
  "move_user worker user new_user c =
     upd_worker worker (\<lambda>x. x\<lparr>worker_users := new_user\<rparr>)
       (upd_user new_user (\<lambda>_. \<lparr>user_flags = 0, user_next = worker_users (ctl_worker c worker), user_worker = worker,
          user_stack = user_stack (ctl_user c user), exn_object = exn_object (ctl_user c user)\<rparr>) c)"

text \<open>
  One round of \<open>sml_enter_internal\<close>; the result \<open>False\<close> says that the thread has left the worker again because no
  user context could be allocated, and starts over.
\<close>

definition enter_round ::
  "'h runtime \<Rightarrow> thread \<Rightarrow> bool \<Rightarrow> 'h control \<Rightarrow> (bool \<times> 'h control) result option" where
  "enter_round rt th waited c0 =
     Option.bind (enter_worker rt th c0) (\<lambda>(_, worker, c).
       let user = (if IS_PTHREAD c worker then current_user (ctl_worker c worker) else tlv_user c (th_user th));
           finish = (\<lambda>user c.
             let c1 = (if \<not> IS_PTHREAD c worker
                       then upd_worker worker (\<lambda>x. x\<lparr>current_user := user\<rparr>) (set_tlv_user th NULL c) else c)
             in ret (True, set_top user NULL c1))
       in if user_worker (ctl_user c user) \<noteq> worker then
            let phase = PHASE (worker_state (ctl_worker c worker));
                (new_user, heap) = rt_alloc_important rt (allocator (ctl_worker c worker)) SIZEOF_USER phase (ctl_heap c);
                c1 = c\<lparr>ctl_heap := heap\<rparr>
            in if new_user = NULL then andthen (leave_worker rt worker c1) (\<lambda>c2. ret (False, c2))
               else andthen (claim_user rt waited worker user c1) (\<lambda>c2. finish new_user (move_user worker user new_user c2))
          else finish user c)"

partial_function (option) sml_enter_internal :: "'h runtime \<Rightarrow> thread \<Rightarrow> bool \<Rightarrow> 'h control \<Rightarrow> 'h control result option" where
  "sml_enter_internal rt th waited c =
     andthen (enter_round rt th waited c) (\<lambda>r. if fst r then ret (snd r) else sml_enter_internal rt th waited (snd r))"

definition sml_enter :: "'h runtime \<Rightarrow> thread \<Rightarrow> bool \<Rightarrow> 'h control \<Rightarrow> 'h control result option" where
  "sml_enter rt th waited = sml_enter_internal rt th waited"

section \<open>Saved frames and exceptions\<close>

definition current_context :: "thread \<Rightarrow> 'h control \<Rightarrow> addr" where
  "current_context th c = current_user (ctl_worker c (get_worker th c))"

definition sml_save :: "thread \<Rightarrow> addr \<Rightarrow> 'h control \<Rightarrow> 'h control" where
  "sml_save th caller_frame_end c = set_top (current_context th c) caller_frame_end c"

definition sml_unsave :: "thread \<Rightarrow> 'h control \<Rightarrow> 'h control" where
  "sml_unsave th c = set_top (current_context th c) NULL c"

definition sml_save_exn :: "thread \<Rightarrow> addr \<Rightarrow> 'h control \<Rightarrow> 'h control result" where
  "sml_save_exn th obj c =
     (if exn_object (ctl_user c (current_context th c)) \<noteq> NULL then Inl (Fatal ''unhandled exception during exception handling'')
      else Inr (upd_user (current_context th c) (\<lambda>x. x\<lparr>exn_object := obj\<rparr>) c))"

definition sml_unsave_exn :: "thread \<Rightarrow> addr \<Rightarrow> 'h control \<Rightarrow> addr \<times> 'h control" where
  "sml_unsave_exn th p c =
     (if p = NULL then (NULL, c)
      else (exn_object (ctl_user c (current_context th c)), upd_user (current_context th c) (\<lambda>x. x\<lparr>exn_object := NULL\<rparr>) c))"

definition sml_current_phase :: "thread \<Rightarrow> 'h control \<Rightarrow> u32" where
  "sml_current_phase th c = PHASE (worker_state (ctl_worker c (get_worker th c)))"

section \<open>Start and end of ML code\<close>

text \<open>
  A round of \<open>sml_start\<close>; as for \<open>sml_enter_internal\<close>, the result \<open>False\<close> starts over.  The range is the memory
  the caller gives.
\<close>

definition start_round :: "'h runtime \<Rightarrow> thread \<Rightarrow> addr \<Rightarrow> 'h control \<Rightarrow> (bool \<times> 'h control) result option" where
  "start_round rt th rg c0 =
     (Option.bind (enter_worker rt th c0) (\<lambda>(new_user, worker, c).
           let user = (if IS_PTHREAD c worker then current_user (ctl_worker c worker) else tlv_user c (th_user th));
               fresh = (\<lambda>user c. ret (True,
                 upd_worker worker (\<lambda>x. x\<lparr>worker_users := user, current_user := user\<rparr>)
                   (upd_user user (\<lambda>_. \<lparr>user_flags = 0, user_next = worker_users (ctl_worker c worker), user_worker = worker,
                      user_stack = rg, exn_object = NULL\<rparr>) (upd_range rg (\<lambda>x. x\<lparr>range_next := NULL\<rparr>) c))))
           in if user = NULL then
                if new_user \<noteq> NULL then fresh new_user c
                else
                  let phase = PHASE (worker_state (ctl_worker c worker));
                      (user, heap) = rt_alloc_important rt (allocator (ctl_worker c worker)) SIZEOF_USER phase (ctl_heap c);
                      c1 = c\<lparr>ctl_heap := heap\<rparr>
                  in if user = NULL then andthen (leave_worker rt worker c1) (\<lambda>c2. ret (False, c2)) else fresh user c1
              else
                let c1 = upd_user user (\<lambda>x. x\<lparr>user_stack := rg\<rparr>)
                      (upd_range rg (\<lambda>x. x\<lparr>range_next := user_stack (ctl_user c user)\<rparr>) c)
                in ret (True, if \<not> IS_PTHREAD c1 worker
                              then set_tlv_user th NULL (upd_worker worker (\<lambda>x. x\<lparr>current_user := user\<rparr>) c1) else c1)))"

partial_function (option) start_loop :: "'h runtime \<Rightarrow> thread \<Rightarrow> addr \<Rightarrow> 'h control \<Rightarrow> 'h control result option" where
  "start_loop rt th rg c = andthen (start_round rt th rg c) (\<lambda>r. if fst r then ret (snd r) else start_loop rt th rg (snd r))"

definition sml_start :: "'h runtime \<Rightarrow> thread \<Rightarrow> addr \<Rightarrow> addr \<Rightarrow> 'h control \<Rightarrow> 'h control result option" where
  "sml_start rt th rg frame_pointer c =
     start_loop rt th rg (upd_range rg (\<lambda>x. x\<lparr>range_top := NULL, range_bottom := frame_pointer\<rparr>) c)"

definition sml_end :: "'h runtime \<Rightarrow> thread \<Rightarrow> 'h control \<Rightarrow> 'h control result option" where
  "sml_end rt th c =
     (let worker = get_worker th c; user = current_user (ctl_worker c worker);
          stack = range_next (ctl_range c (user_stack (ctl_user c user)));
          c1 = upd_user user (\<lambda>x. x\<lparr>user_stack := stack\<rparr>) c;
          c2 = (if stack = NULL
                then upd_worker worker (\<lambda>x. x\<lparr>current_user := NULL\<rparr>) (upd_user user (\<lambda>x. x\<lparr>user_worker := NULL\<rparr>) c1)
                else if \<not> IS_PTHREAD c1 worker then set_tlv_user th user c1 else c1)
      in leave_worker rt worker c2)"

section \<open>Helping inactive workers\<close>

text \<open>
  The action for a phase by a helper, and its loop: when the worker's state has changed while the
  helper acted, the helper answers the new phase, too.
\<close>

definition helper_action :: "'h runtime \<Rightarrow> addr \<Rightarrow> u32 \<Rightarrow> 'h control \<Rightarrow> 'h control result option" where
  "helper_action rt worker old_state c =
     (if PHASE old_state = phase_word PREASYNC then ret (worker_async rt worker c)
      else if PHASE old_state = phase_word PRESYNC1 then worker_sync1 rt worker False c
      else if PHASE old_state = phase_word PRESYNC2 then worker_sync2 rt worker False c
      else if PHASE old_state = phase_word PREMARK then map_option Inr (worker_mark rt worker False c)
      else Some (Inl (Fatal ''unexpected state'')))"

partial_function (option) help_loop :: "'h runtime \<Rightarrow> addr \<Rightarrow> u32 \<Rightarrow> u32 \<Rightarrow> 'h control \<Rightarrow> 'h control result option" where
  "help_loop rt worker old_state new_state c =
     andthen (helper_action rt worker old_state c) (\<lambda>c1.
       let s = worker_state (ctl_worker c1 worker)
       in if s = new_state then ret (set_state worker (unhelp_state new_state) c1)
          else help_loop rt worker s (s OR 1) (set_state worker (s OR 1) c1))"

text \<open>
  \<open>weak\<close> is the outcome of the weak compare-and-swap that takes a worker from \<open>workers_handshake\<close>, which may
  fail for no reason.
\<close>

partial_function (option) help_scan ::
  "'h runtime \<Rightarrow> addr \<Rightarrow> bool \<Rightarrow> addr \<Rightarrow> u32 \<Rightarrow> addr \<Rightarrow> 'h control \<Rightarrow> 'h control result option" where
  "help_scan rt helper weak workers stamp worker c =
     (if worker = NULL then
        ret (if workers \<noteq> NULL \<and> helper \<noteq> NULL \<and> weak then c\<lparr>workers_handshake := PTROR NULL stamp\<rparr> else c)
      else if is_dead c worker \<or> \<not> needs_help (worker_state (ctl_worker c worker)) then
        help_scan rt helper weak workers stamp (worker_next (ctl_worker c worker)) c
      else if \<not> weak then ret c
      else
        let old_state = worker_state (ctl_worker c worker); new_state = help_state old_state;
            c1 = c\<lparr>workers_handshake := PTROR (worker_next (ctl_worker c worker)) stamp\<rparr>
        in help_loop rt worker old_state new_state (set_state worker new_state c1))"

definition help_inactive :: "'h runtime \<Rightarrow> addr \<Rightarrow> bool \<Rightarrow> 'h control \<Rightarrow> 'h control result option" where
  "help_inactive rt helper weak c =
     (let old = workers_handshake c; workers = untagged old in help_scan rt helper weak workers (tag_of old) workers c)"

section \<open>Collections\<close>

definition sml_gc :: "'h runtime \<Rightarrow> thread \<Rightarrow> bool \<Rightarrow> 'h control \<Rightarrow> (u64 \<times> 'h control) result option" where
  "sml_gc rt th greedy c =
     (let gc = gc_count c
      in if gc AND 1 \<noteq> 0 then ret (gc + 1, c)
         else Option.bind (advance rt SYNC1 ASYNC PRESYNC1 (c\<lparr>gc_count := gc OR 1\<rparr>)) (\<lambda>c1.
           if greedy then
             let worker = get_worker th c1
             in andthen (worker_sync1 rt worker greedy (set_state worker (ACTIVE (phase_word SYNC1)) c1)) (\<lambda>c2. ret (gc + 2, c2))
           else ret (gc + 2, c1)))"

definition sml_set_check_hook :: "thread \<Rightarrow> addr \<Rightarrow> 'h control \<Rightarrow> addr \<times> 'h control" where
  "sml_set_check_hook th hook c =
     (let worker = get_worker th c
      in (check_hook (ctl_worker c worker), upd_worker worker (\<lambda>x. x\<lparr>check_hook := hook\<rparr>) c))"

text \<open>The action on a stack range closed for its time.\<close>

definition with_closed_range :: "addr \<Rightarrow> addr \<Rightarrow> ('h control \<Rightarrow> 'h control result option) \<Rightarrow> 'h control \<Rightarrow> 'h control result option" where
  "with_closed_range user frame_pointer act c =
     (if get_top user c = NULL then andthen (act (set_top user frame_pointer c)) (\<lambda>c1. ret (set_top user NULL c1)) else act c)"

text \<open>The part of \<open>sml_check_internal\<close> that answers the phase.\<close>

definition check_phase :: "'h runtime \<Rightarrow> addr \<Rightarrow> addr \<Rightarrow> bool \<Rightarrow> 'h control \<Rightarrow> 'h control result option" where
  "check_phase rt worker frame_pointer weak c =
     (let state = worker_state (ctl_worker c worker); user = current_user (ctl_worker c worker)
      in if state = ACTIVE (phase_word PRESYNC1) then
           with_closed_range user frame_pointer (worker_sync1 rt worker True) (set_state worker (ACTIVE (phase_word SYNC1)) c)
         else if state = ACTIVE (phase_word PRESYNC2) then
           with_closed_range user frame_pointer (worker_sync2 rt worker True) (set_state worker (ACTIVE (phase_word SYNC2)) c)
         else if state = ACTIVE (phase_word PREMARK) then
           map_option Inr (worker_mark rt worker True (set_state worker (ACTIVE (phase_word MARK)) c))
         else if state = ACTIVE (phase_word PREASYNC) then ret (worker_async rt worker (set_state worker (ACTIVE (phase_word ASYNC)) c))
         else help_inactive rt worker weak c)"

text \<open>
  \<open>call hook\<close> is \<open>sml_call_with_cleanup\<close> without its cleanup, with the exception it ended with or null; the
  cleanup enters ML code again and restores the range.
\<close>

definition sml_check_internal ::
  "'h runtime \<Rightarrow> thread \<Rightarrow> (addr \<Rightarrow> 'h control \<Rightarrow> addr \<times> 'h control) \<Rightarrow> addr \<Rightarrow> bool \<Rightarrow> 'h control \<Rightarrow> 'h control result option" where
  "sml_check_internal rt th call frame_pointer weak c =
     (let worker = get_worker th c
      in andthen (check_phase rt worker frame_pointer weak c) (\<lambda>c1.
           let hook = check_hook (ctl_worker c1 worker)
           in if hook = NULL then ret c1
              else
                let c2 = upd_worker worker (\<lambda>x. x\<lparr>check_hook := NULL\<rparr>) c1; user = current_user (ctl_worker c2 worker);
                    rg = user_stack (ctl_user c2 user); orig = range_top (ctl_range c2 rg);
                    fp = (if orig \<noteq> NULL then orig else frame_pointer)
                in andthen (sml_leave_internal rt th fp c2) (\<lambda>c3.
                     let (e, c4) = call hook c3
                     in andthen (sml_enter_internal rt th False c4) (\<lambda>c5.
                          ret (snd (sml_unsave_exn th e (upd_range rg (\<lambda>x. x\<lparr>range_top := orig\<rparr>) c5)))))))"

definition sml_check ::
  "'h runtime \<Rightarrow> thread \<Rightarrow> (addr \<Rightarrow> 'h control \<Rightarrow> addr \<times> 'h control) \<Rightarrow> addr \<Rightarrow> bool \<Rightarrow> 'h control \<Rightarrow> 'h control result option" where
  "sml_check rt th call caller_frame_end weak = sml_check_internal rt th call caller_frame_end weak"

text \<open>The loop of \<open>sml_wait_gc\<close>.\<close>

partial_function (option) wait_loop ::
  "'h runtime \<Rightarrow> thread \<Rightarrow> (addr \<Rightarrow> 'h control \<Rightarrow> addr \<times> 'h control) \<Rightarrow> addr \<Rightarrow> u64 \<Rightarrow> 'h control \<Rightarrow> 'h control result option" where
  "wait_loop rt th call frame_pointer gc c =
     (if gc_count c < gc
      then andthen (sml_check_internal rt th call frame_pointer True c) (\<lambda>c1. wait_loop rt th call frame_pointer gc c1)
      else ret c)"

definition sml_wait_gc ::
  "'h runtime \<Rightarrow> thread \<Rightarrow> (addr \<Rightarrow> 'h control \<Rightarrow> addr \<times> 'h control) \<Rightarrow> addr \<Rightarrow> 'h control \<Rightarrow> (u64 \<times> 'h control) result option" where
  "sml_wait_gc rt th call frame_pointer c =
     (let user = current_context th c; orig = get_top user c;
          c1 = (if orig = NULL then set_top user frame_pointer c else c)
      in andthen (sml_gc rt th True c1) (\<lambda>(gc, c2).
           andthen (wait_loop rt th call frame_pointer gc (if orig = NULL then set_top user NULL c2 else c2))
             (\<lambda>c3. ret (gc, c3))))"

section \<open>End of the program\<close>

text \<open>
  The loop of \<open>sml_exit\<close> over the other workers: whether all of them could be locked, in which case
  \<open>sml_finish\<close> is called before the process exits.
\<close>

partial_function (option) lock_others :: "addr \<Rightarrow> addr \<Rightarrow> 'h control \<Rightarrow> (bool \<times> 'h control) option" where
  "lock_others cur worker c =
     (if worker = NULL then Some (True, c)
      else if worker = cur then lock_others cur (worker_next (ctl_worker c worker)) c
      else
        let old_state = worker_state (ctl_worker c worker); c1 = set_state worker (old_state AND NOT INACTIVE_STATE) c
        in if IS_ACTIVE old_state then Some (False, c1) else lock_others cur (worker_next (ctl_worker c1 worker)) c1)"

definition sml_exit :: "thread \<Rightarrow> 'h control \<Rightarrow> (bool \<times> 'h control) option" where
  "sml_exit th c =
     (let workers = untagged (workers_available c)
      in lock_others (get_worker th c) workers (c\<lparr>workers_available := workers\<rparr>))"


section \<open>Root slots of a stack\<close>

text \<open>
  The frames of a range, given by their ends and their layouts: the first one ends at \<open>fp\<close>, each next one
  begins behind the frame before it, and the last one ends at \<open>bottom\<close>.
\<close>

fun frames_of :: "'h runtime \<Rightarrow> mem \<Rightarrow> addr \<Rightarrow> addr \<Rightarrow> (addr \<times> addr) list \<Rightarrow> bool" where
  "frames_of rt m fp bottom [] \<longleftrightarrow> False"
| "frames_of rt m fp bottom ((f, l) # fs) \<longleftrightarrow>
     f = fp \<and> rt_lookup_frametable rt (FRAME_CODE_ADDRESS m f) = Inr l \<and>
     (if fp = bottom then fs = [] else frames_of rt m (f + 8 * frame_size (rt_tables rt) l + 8) bottom fs)"

definition frame_roots :: "'h runtime \<Rightarrow> mem \<Rightarrow> addr \<times> addr \<Rightarrow> addr list" where
  "frame_roots rt m = (\<lambda>(f, l). filter (\<lambda>a. load64 m a \<noteq> NULL)
     (map (\<lambda>i. f + 8 * root_offset (rt_tables rt) l i) [0..<num_roots (rt_tables rt) l]))"

fun ranges_of :: "'h runtime \<Rightarrow> 'h control \<Rightarrow> addr \<Rightarrow> (addr \<times> addr) list list \<Rightarrow> bool" where
  "ranges_of rt c p [] \<longleftrightarrow> p = NULL"
| "ranges_of rt c p (fs # fss) \<longleftrightarrow>
     p \<noteq> NULL \<and> frames_of rt (ctl_stack c) (range_top (ctl_range c p)) (range_bottom (ctl_range c p)) fs \<and>
     ranges_of rt c (range_next (ctl_range c p)) fss"

lemma frames_enum_roots:
  "frames_of rt m fp bottom fs \<Longrightarrow>
   frames_enum rt m bottom fp acc = ret (acc @ map Stack_Slot (concat (map (frame_roots rt m) fs)))"
proof (induction fs arbitrary: fp acc)
  case (Cons x fs)
  obtain f l where x: "x = (f, l)" by (cases x)
  have f: "f = fp" and lk: "rt_lookup_frametable rt (FRAME_CODE_ADDRESS m fp) = Inr l" using Cons.prems by (auto simp: x)
  have e: "frame_enum_ptr rt m fp = Inr (map Stack_Slot (frame_roots rt m x), fp + 8 * frame_size (rt_tables rt) l + 8)"
    using lk by (simp add: x frame_enum_ptr_def frame_roots_def NEXT_FRAME_def Let_def f)
  show ?case
  proof (cases "fp = bottom")
    case True
    then show ?thesis using Cons.prems e by (subst frames_enum.simps) (simp add: x)
  next
    case False
    then have "frames_of rt m (fp + 8 * frame_size (rt_tables rt) l + 8) bottom fs" using Cons.prems f by (simp add: x)
    from Cons.IH [OF this] show ?thesis using e False by (subst frames_enum.simps) simp
  qed
qed simp

lemma ranges_enum_roots:
  "ranges_of rt c p fss \<Longrightarrow>
   ranges_enum rt c p acc = ret (acc @ map Stack_Slot (concat (map (frame_roots rt (ctl_stack c)) (concat fss))))"
proof (induction fss arbitrary: p acc)
  case Nil
  then show ?case by (subst ranges_enum.simps) simp
next
  case (Cons fs fss)
  then have r: "p \<noteq> NULL" "frames_of rt (ctl_stack c) (range_top (ctl_range c p)) (range_bottom (ctl_range c p)) fs"
    "ranges_of rt c (range_next (ctl_range c p)) fss" by simp_all
  show ?case using r(1) Cons.IH [OF r(3)] by (subst ranges_enum.simps) (simp add: frames_enum_roots [OF r(2)])
qed

text \<open>
  C28: \<open>sml_stack_enum_ptr\<close> on a user whose stack ranges are closed and consist of frames the frame tables
  know: it terminates without a fatal error and calls \<open>trace\<close> once for each root slot of each frame that
  is not null, from the newest range and frame to the oldest, after the saved exception.
\<close>

theorem stack_enum_root_slots:
  assumes "ranges_of rt c (user_stack (ctl_user c user)) fss"
  shows "sml_stack_enum_ptr rt c user =
    ret ((if exn_object (ctl_user c user) \<noteq> NULL then [Exn_Object user] else []) @
         map Stack_Slot (concat (map (frame_roots rt (ctl_stack c)) (concat fss))))"
  using ranges_enum_roots [OF assms] by (simp add: sml_stack_enum_ptr_def)

text \<open>A stack of one frame with one root, which is not null.\<close>

definition sample_control :: "unit control" where
  "sample_control = one_worker\<lparr>ctl_range := (\<lambda>_. \<lparr>range_bottom = 1024, range_top = 1024, range_next = 0\<rparr>), ctl_stack := (\<lambda>a. if a = 1040 then 1 else 0)\<rparr>"

lemma load_bytes:
  "load_le m a 2 = unat (m a) + 256 * unat (m (Suc a))"
  "load_le m a 8 = unat (m a) + 256 * load_le m (Suc a) 7"
  "(\<And>i. i < n \<Longrightarrow> m (a + i) = 0) \<Longrightarrow> load_le m a n = 0"
proof -
  have "(2 :: nat) = Suc (Suc 0)" "(8 :: nat) = Suc 7" by simp_all
  then show "load_le m a 2 = unat (m a) + 256 * unat (m (Suc a))" "load_le m a 8 = unat (m a) + 256 * load_le m (Suc a) 7"
    by (simp_all only: load_le.simps mult_0_right add_0_right)
  have "load_le m a n = load_le (\<lambda>_. 0) 0 n" if "\<And>i. i < n \<Longrightarrow> m (a + i) = 0"
    by (rule load_le_cong) (use that in simp)
  moreover have "load_le (\<lambda>_. 0) b n = 0" for b by (induction n arbitrary: b) simp_all
  ultimately show "(\<And>i. i < n \<Longrightarrow> m (a + i) = 0) \<Longrightarrow> load_le m a n = 0" by metis
qed

theorem stack_enum_root_slots_witness:
  "sml_stack_enum_ptr sample_runtime sample_control 8 = ret [Stack_Slot 1040]"
proof -
  have roots: "frame_roots sample_runtime (ctl_stack sample_control) (1024, 64) = [1040]"
    by (simp add: frame_roots_def sample_runtime_def sample_control_def num_roots_def root_offset_def load16_def load64_def load_bytes(1,2))
  have "ranges_of sample_runtime sample_control (user_stack (ctl_user sample_control 8)) [[(1024, 64)]]"
    by (simp add: sample_control_def sample_runtime_def one_worker_def)
  from stack_enum_root_slots [OF this] roots show ?thesis by (simp add: sample_control_def one_worker_def)
qed

section \<open>Leaving and entering\<close>

text \<open>
  C29: a thread that leaves ML code and enters it again finds everything as it was.  When its worker has no
  pending signal, \<open>sml_leave\<close> closes the stack range of the user with the frame pointer, keeps the user for
  the thread and releases the worker; when no other thread has moved, \<open>sml_enter\<close> gets the worker back and
  restores the state, with the same user and an open stack range.
\<close>

theorem leave_enter_roundtrip:
  fixes c :: "'h control" and th :: thread
  defines "w \<equiv> get_worker th c" and "u \<equiv> current_context th c"
  assumes "w \<noteq> NULL" and "is_phase p" and "\<not> pending p" and st: "worker_state (ctl_worker c w) = state_word p Owned"
    and "user_worker (ctl_user c u) = w" and "get_top u c = NULL"
    and "\<not> IS_PTHREAD c w \<longrightarrow> tlv_user c (th_user th) = NULL"
  shows "\<exists>c1. sml_leave rt th fp c = ret c1 \<and> get_top u c1 = fp \<and> worker_state (ctl_worker c1 w) = state_word p Unowned \<and>
    (\<not> IS_PTHREAD c w \<longrightarrow> tlv_user c1 (th_user th) = u) \<and> sml_enter rt th waited c1 = ret c"
proof -
  have u: "u = current_user (ctl_worker c w)" by (simp add: u_def w_def current_context_def)
  define c0 where "c0 = (if \<not> IS_PTHREAD c w then set_tlv_user th u (set_top u fp c) else set_top u fp c)"
  define c1 where "c1 = set_state w (state_word p Unowned) c0"
  have cw: "ctl_worker c0 = ctl_worker c" "IS_PTHREAD (set_top u fp c) w = IS_PTHREAD c w"
    by (simp_all add: c0_def set_tlv_user_def set_top_def upd_range_def IS_PTHREAD_def)
  have acc: "accepted p = p" using assms(5) by (simp add: pending_def)
  have np: "state_word p Owned \<noteq> ACTIVE (phase_word q)" if "pending q" for q
  proof -
    have q: "is_phase q" "p \<noteq> q" using that assms(5) by (cases q; auto simp: pending_def is_phase_def)+
    then show ?thesis using state_word_inject [OF assms(4) q(1)] state_word_phase(3) [OF q(1)] by metis
  qed
  have "leave_worker rt w c0 = ret c1"
    using np [of PREASYNC] np [of PRESYNC1] np [of PRESYNC2] np [of PREMARK] own_state_word(1) [OF assms(4)] st acc
    by (simp add: leave_worker_def cw(1) c1_def pending_def Let_def)
  then have leave: "sml_leave rt th fp c = ret c1"
    unfolding c0_def sml_leave_def sml_leave_internal_def Let_def w_def [symmetric] u [symmetric] cw(2) .
  have tl: "get_worker th c1 = w" by (simp add: c1_def c0_def set_state_def upd_worker_def get_worker_def set_tlv_user_def set_top_def upd_range_def w_def)
  have e: "enter_worker rt th c1 = Some (NULL, w, c0)"
  proof -
    have "worker_state (ctl_worker c1 w) = state_word p Unowned" "set_state w (state_word p Owned) c1 = c0"
      using st cw(1) by (simp_all add: c1_def set_state_def upd_worker_def fun_upd_idem)
    then show ?thesis using own_state_word(2) [OF assms(4), of Unowned] assms(3) by (simp add: enter_worker_def tl Let_def)
  qed
  have cu: "ctl_user c0 = ctl_user c" by (simp add: c0_def set_tlv_user_def set_top_def upd_range_def)
  have us: "(if IS_PTHREAD c0 w then current_user (ctl_worker c0 w) else tlv_user c0 (th_user th)) = u"
    by (simp add: IS_PTHREAD_def cw(1) u) (simp add: c0_def set_tlv_user_def IS_PTHREAD_def u)
  have "set_top u NULL (if \<not> IS_PTHREAD c0 w then upd_worker w (\<lambda>x. x\<lparr>current_user := u\<rparr>) (set_tlv_user th NULL c0) else c0) = c"
    using assms(8,9)
    by (simp add: IS_PTHREAD_def cw(1)) (simp add: c0_def IS_PTHREAD_def set_top_def get_top_def upd_range_def set_tlv_user_def upd_worker_def u fun_upd_idem)
  then have "enter_round rt th waited c1 = ret (True, c)"
    using us assms(7) by (cases "IS_PTHREAD c0 w") (simp_all add: enter_round_def e Let_def cu)
  then have "sml_enter rt th waited c1 = ret c" by (simp add: sml_enter_def sml_enter_internal.simps)
  moreover have "get_top u c1 = fp" "worker_state (ctl_worker c1 w) = state_word p Unowned"
    "\<not> IS_PTHREAD c w \<longrightarrow> tlv_user c1 (th_user th) = u"
    by (simp_all add: c1_def c0_def set_state_def upd_worker_def get_top_def set_top_def upd_range_def set_tlv_user_def)
  ultimately show ?thesis using leave by blast
qed


theorem leave_enter_roundtrip_witness:
  "\<exists>c1. sml_leave sample_runtime \<lparr>th_worker = 0, th_user = 0, is_myth_worker = True\<rparr> 2048
       (upd_worker 4096 (\<lambda>x. x\<lparr>current_user := 8192\<rparr>) one_worker) = ret c1 \<and>
     sml_enter sample_runtime \<lparr>th_worker = 0, th_user = 0, is_myth_worker = True\<rparr> False c1 =
       ret (upd_worker 4096 (\<lambda>x. x\<lparr>current_user := 8192\<rparr>) one_worker)"
proof -
  let ?th = "\<lparr>th_worker = 0, th_user = 0, is_myth_worker = True\<rparr>"
  let ?c = "upd_worker 4096 (\<lambda>x. x\<lparr>current_user := 8192\<rparr>) one_worker"
  have w: "get_worker ?th ?c = 4096" "current_context ?th ?c = 8192"
    by (simp_all add: get_worker_def current_context_def upd_worker_def one_worker_def)
  have p: "is_phase ASYNC" "\<not> pending ASYNC" by (simp_all add: is_phase_def pending_def)
  have "worker_state (ctl_worker ?c (get_worker ?th ?c)) = state_word ASYNC Owned"
    unfolding w using one_worker_simps(3) by (simp add: upd_worker_def)
  moreover have "user_worker (ctl_user ?c (current_context ?th ?c)) = get_worker ?th ?c" "get_top (current_context ?th ?c) ?c = NULL"
    "tlv_user ?c (th_user ?th) = NULL" "get_worker ?th ?c \<noteq> NULL"
    unfolding w by (simp_all add: upd_worker_def one_worker_def get_top_def)
  ultimately show ?thesis
    using leave_enter_roundtrip [of ?th ?c ASYNC sample_runtime 2048 False] p by blast
qed

end
