(* ===== verification/Solo.thy ===== *)
theory Solo
  imports Control
begin

text \<open>
  A collection by a program with one worker.  \<open>sml_gc\<close> with the flag \<open>greedy\<close> goes through all phases in one call:
  the worker answers every signal itself, and the heap sees the operations of a collection in the
  order in which the collector is correct.
\<close>

section \<open>Phases of a single worker\<close>

definition alone :: "addr \<Rightarrow> sml_sync_phase \<Rightarrow> 'h control \<Rightarrow> bool" where
  "alone w p c \<longleftrightarrow> worker_list c (untagged (workers_available c)) [w] \<and> worker_addr w \<and>
     worker_state (ctl_worker c w) = state_word p Owned \<and>
     worker_flags (ctl_worker c w) AND DEAD_FLAG = 0 \<and> worker_flags (ctl_worker c w) AND CANCELED_FLAG = 0"

lemma globalenum_flag:
  assumes "(flags :: u32) AND f = 0" and "f = DEAD_FLAG \<or> f = CANCELED_FLAG"
  shows "(flags OR GLOBALENUM_FLAG) AND f = 0" and "(flags AND NOT GLOBALENUM_FLAG) AND f = 0"
proof -
  have "GLOBALENUM_FLAG AND f = 0" using assms(2) by (auto simp: control_flags)
  then show "(flags OR GLOBALENUM_FLAG) AND f = 0" using assms(1) by (simp add: bit.conj_disj_distrib2)
  have "(flags AND NOT GLOBALENUM_FLAG) AND f = (flags AND f) AND NOT GLOBALENUM_FLAG" by (simp add: and.assoc and.commute and.left_commute)
  then show "(flags AND NOT GLOBALENUM_FLAG) AND f = 0" using assms(1) by simp
qed

text \<open>A phase change, answered by the worker itself.\<close>

lemma advance_alone:
  assumes al: "alone w old c" and ph: "is_phase old" "is_phase new" "is_phase pre"
  shows "\<exists>c'. advance rt new old pre c = Some c' \<and>
    (\<exists>wa wh. set_state w (ACTIVE (phase_word new)) c' =
      c\<lparr>ctl_worker := (ctl_worker c)(w := (ctl_worker c w)\<lparr>worker_state := state_word new Owned\<rparr>),
        workers_available := wa, workers_handshake := wh, sml_check_flag := sml_check_flag c + 1\<rparr> \<and>
      untagged wa = untagged (workers_available c))"
proof -
  let ?h = "untagged (workers_available c)"
  have wl: "worker_list c ?h [w]" "worker_addr w" and fl: "worker_flags (ctl_worker c w) AND DEAD_FLAG = 0"
      "worker_flags (ctl_worker c w) AND CANCELED_FLAG = 0" using al by (simp_all add: alone_def)
  have rm: "\<forall>v\<in>set [w]. \<not> removable old c v" using fl by (simp add: removable_def is_dead_def)
  have h: "?h = w" using wl(1) by simp
  have t: "untagged (PTROR ?h (phase_word new)) = ?h" using tagged [of ?h new] wl(2) h ph(2) by simp
  let ?c = "(change_states old pre {w} (c\<lparr>workers_available := PTROR ?h (phase_word new)\<rparr>))
    \<lparr>workers_handshake := PTROR ?h (phase_word pre), sml_check_flag := sml_check_flag c + 1\<rparr>"
  have "advance rt new old pre c = Some ?c" using advance_eq [OF wl(1) _ rm] by simp
  moreover have "set_state w (ACTIVE (phase_word new)) ?c =
      c\<lparr>ctl_worker := (ctl_worker c)(w := (ctl_worker c w)\<lparr>worker_state := state_word new Owned\<rparr>),
        workers_available := PTROR ?h (phase_word new), workers_handshake := PTROR ?h (phase_word pre),
        sml_check_flag := sml_check_flag c + 1\<rparr>"
    by (simp add: set_state_def upd_worker_def change_states_def fun_eq_iff state_word_phase(3) [OF ph(2)])
  ultimately show ?thesis using t by blast
qed

lemma alone_next:
  assumes "alone w p c" and "worker_state (ctl_worker c' w) = state_word q Owned"
    and "worker_flags (ctl_worker c' w) = worker_flags (ctl_worker c w)" and "worker_next (ctl_worker c' w) = worker_next (ctl_worker c w)"
    and "untagged (workers_available c') = untagged (workers_available c)"
  shows "alone w q c'"
  using assms by (simp add: alone_def)

section \<open>The users of the worker\<close>

fun users_at :: "'h control \<Rightarrow> addr \<Rightarrow> addr list \<Rightarrow> bool" where
  "users_at c p [] \<longleftrightarrow> p = NULL"
| "users_at c p (u # us) \<longleftrightarrow> p = u \<and> u \<noteq> NULL \<and> users_at c (user_next (ctl_user c u)) us"

lemma users_at_cong: "ctl_user c' = ctl_user c \<Longrightarrow> users_at c' p us = users_at c p us"
  by (induction us arbitrary: p) simp_all

text \<open>The enumeration of a stack depends on the stack, the ranges and the fields of the user only.\<close>

lemma ranges_enum_cong:
  fixes c :: "'h control"
  assumes "ranges_enum rt c rg acc = Some y"
  shows "\<forall>c'. ctl_stack c' = ctl_stack c \<longrightarrow> ctl_range c' = ctl_range c \<longrightarrow> ranges_enum rt c' rg acc = Some y"
proof (rule ranges_enum.raw_induct [OF _ assms], intro allI impI)
  fix f rg acc y and rt :: "'h runtime" and c c' :: "'h control"
  assume IH: "\<And>(rt :: 'h runtime) c rg acc y. f rt c rg acc = Some y \<Longrightarrow>
      \<forall>c'. ctl_stack c' = ctl_stack c \<longrightarrow> ctl_range c' = ctl_range c \<longrightarrow> ranges_enum rt c' rg acc = Some y"
    and eq: "(if rg = NULL then ret acc
      else andthen (frames_enum rt (ctl_stack c) (range_bottom (ctl_range c rg)) (range_top (ctl_range c rg)) acc)
             (\<lambda>acc'. f rt c (range_next (ctl_range c rg)) acc')) = Some y"
    and c': "ctl_stack c' = ctl_stack c" "ctl_range c' = ctl_range c"
  have "andthen (frames_enum rt (ctl_stack c) (range_bottom (ctl_range c rg)) (range_top (ctl_range c rg)) acc)
      (\<lambda>acc'. ranges_enum rt c' (range_next (ctl_range c rg)) acc') = Some y" if "rg \<noteq> NULL"
    using IH [rule_format, OF _ c'] eq that
    by (cases "frames_enum rt (ctl_stack c) (range_bottom (ctl_range c rg)) (range_top (ctl_range c rg)) acc")
      (auto simp: andthen_def split: sum.splits)
  then show "ranges_enum rt c' rg acc = Some y" using eq c' by (subst ranges_enum.simps) auto
qed

lemma stack_enum_cong:
  assumes "sml_stack_enum_ptr rt c u = Some y" and "ctl_stack c' = ctl_stack c" and "ctl_range c' = ctl_range c"
    and "user_stack (ctl_user c' u) = user_stack (ctl_user c u)" and "exn_object (ctl_user c' u) = exn_object (ctl_user c u)"
  shows "sml_stack_enum_ptr rt c' u = Some y"
  using ranges_enum_cong [rule_format, OF _ assms(2,3)] assms(1,4,5) by (simp add: sml_stack_enum_ptr_def)

lemma write_users_same:
  assumes "follow_users w i c = p"
  shows "write_users w i p c = c"
proof (cases i)
  case Head_Field
  then have "(ctl_worker c w)\<lparr>worker_users := p\<rparr> = ctl_worker c w" using assms by (cases "ctl_worker c w") (simp add: follow_users_def)
  then show ?thesis using Head_Field by (simp add: write_users_def upd_worker_def)
next
  case (Next_Of u)
  then have "(ctl_user c u)\<lparr>user_next := p\<rparr> = ctl_user c u" using assms by (cases "ctl_user c u") (simp add: follow_users_def)
  then show ?thesis using Next_Of by (simp add: write_users_def upd_user_def)
qed

text \<open>The loop over the users, none of which is locked: their stacks are enumerated in order, and nothing but the heap changes.\<close>

lemma sync2_pass_users:
  assumes "users_at c (follow_users w i c) us" and "\<forall>u\<in>set us. user_flags (ctl_user c u) = 0 \<and> user_worker (ctl_user c u) = w"
    and "\<forall>u\<in>set us. sml_stack_enum_ptr rt c u = ret (slots u)"
  shows "\<exists>i'. sync2_pass rt w i NULL c =
    ret (i', NULL, c\<lparr>ctl_heap := fold (\<lambda>u. rt_user_sync2 rt u (slots u) (allocator (ctl_worker c w))) us (ctl_heap c)\<rparr>) \<and>
    follow_users w i' c = NULL"
  using assms
proof (induction us arbitrary: i c)
  case Nil
  then show ?case by (subst sync2_pass.simps) (simp add: Let_def)
next
  case (Cons u us)
  define c1 where "c1 = upd_user u (\<lambda>x. x\<lparr>user_flags := BUSY_FLAG\<rparr>) c"
  define c2 where "c2 = upd_user u (\<lambda>x. x\<lparr>user_flags := 0\<rparr>) (upd_heap (rt_user_sync2 rt u (slots u) (allocator (ctl_worker c1 w))) c1)"
  have u: "follow_users w i c = u" "u \<noteq> NULL" "users_at c (user_next (ctl_user c u)) us" "user_flags (ctl_user c u) = 0"
    "user_worker (ctl_user c u) = w" using Cons.prems by auto
  have "sml_stack_enum_ptr rt c u = ret (slots u)" using Cons.prems(3) by simp
  from stack_enum_cong [OF this, of c1] have en: "sml_stack_enum_ptr rt c1 u = ret (slots u)"
    by (simp add: c1_def upd_user_def)
  have c2: "c2 = c\<lparr>ctl_heap := rt_user_sync2 rt u (slots u) (allocator (ctl_worker c w)) (ctl_heap c)\<rparr>"
  proof -
    have "(ctl_user c u)\<lparr>user_flags := 0\<rparr> = ctl_user c u" using u(4) by (cases "ctl_user c u") simp
    then show ?thesis by (simp add: c2_def c1_def upd_user_def upd_heap_def)
  qed
  have step: "sync2_pass rt w i NULL c = sync2_pass rt w (Next_Of u) NULL c2"
    by (subst sync2_pass.simps) (simp add: u Let_def acquire_bit_def c1_def [symmetric] en, simp add: c2_def)
  have us: "users_at c2 (follow_users w (Next_Of u) c2) us" 
    using u(3) users_at_cong [of c2 c "user_next (ctl_user c u)" us] by (simp add: c2 follow_users_def)
  have en2: "\<forall>v\<in>set us. sml_stack_enum_ptr rt c2 v = ret (slots v)"
    using Cons.prems(3) stack_enum_cong [of rt c _ _ c2] by (simp add: c2)
  have "follow_users w i' c2 = follow_users w i' c" for i' by (simp add: c2 follow_users_def split: link_addr.splits)
  then show ?case using Cons.IH [OF us _ en2] Cons.prems(2) unfolding step by (simp add: c2)
qed

section \<open>The actions\<close>

lemma worker_async_alone:
  assumes "alone w ASYNC c" and "sml_check_flag c = 1"
  shows "worker_async rt w c = c\<lparr>ctl_heap := rt_global_async rt (rt_worker_async rt (allocator (ctl_worker c w)) (ctl_heap c)),
    sml_check_flag := 0, gc_count := gc_count c + 1\<rparr>"
  using assms(2) by (simp add: worker_async_def answer_def upd_heap_def)

text \<open>The next phase, with the worker in it and the counter at one.\<close>

definition in_phase :: "addr \<Rightarrow> sml_sync_phase \<Rightarrow> 'h control \<Rightarrow> 'h control \<Rightarrow> bool" where
  "in_phase w p c c' \<longleftrightarrow> alone w p c' \<and> sml_check_flag c' = 1 \<and> gc_count c' = gc_count c \<and> ctl_heap c' = ctl_heap c \<and>
     ctl_user c' = ctl_user c \<and> ctl_range c' = ctl_range c \<and> ctl_stack c' = ctl_stack c \<and> tlv_worker c' = tlv_worker c \<and>
     ctl_worker c' w = (ctl_worker c w)\<lparr>worker_state := state_word p Owned\<rparr>"

lemma advance_in_phase:
  assumes al: "alone w old c" and ph: "is_phase old" "is_phase new" "is_phase pre" and z: "sml_check_flag c = 0"
  obtains c' where "advance rt new old pre c = Some c'" "in_phase w new c (set_state w (ACTIVE (phase_word new)) c')"
proof -
  from advance_alone [OF al ph] obtain c' wa wh where
    1: "advance rt new old pre c = Some c'" "untagged wa = untagged (workers_available c)"
      "set_state w (ACTIVE (phase_word new)) c' =
        c\<lparr>ctl_worker := (ctl_worker c)(w := (ctl_worker c w)\<lparr>worker_state := state_word new Owned\<rparr>),
          workers_available := wa, workers_handshake := wh, sml_check_flag := sml_check_flag c + 1\<rparr>" by blast
  have "alone w new (set_state w (ACTIVE (phase_word new)) c')" by (rule alone_next [OF al]) (simp_all add: 1(2,3))
  then have "in_phase w new c (set_state w (ACTIVE (phase_word new)) c')" unfolding in_phase_def 1(3) using z by simp
  then show thesis using that 1(1) by blast
qed

lemma alone_cong:
  assumes "alone w p c" and "ctl_worker c' w = ctl_worker c w" and "workers_available c' = workers_available c"
  shows "alone w p c'"
  using assms by (simp add: alone_def)

lemma worker_mark_alone:
  assumes "alone w MARK c" and "sml_check_flag c = 1" and "a = allocator (ctl_worker c w)"
    and "\<forall>k<n. \<not> rt_mark_finish rt ((rt_worker_mark rt a ^^ Suc k) (ctl_heap c))"
    and "rt_mark_finish rt ((rt_worker_mark rt a ^^ Suc n) (ctl_heap c))"
  shows "\<exists>c'. worker_mark rt w True c = Some c' \<and> alone w ASYNC c' \<and> sml_check_flag c' = 0 \<and> gc_count c' = gc_count c + 1 \<and>
    ctl_heap c' = rt_global_async rt (rt_worker_async rt a (rt_global_before_async rt (rt_run_finalizer rt
      ((rt_worker_mark rt a ^^ Suc n) (ctl_heap c)))))"
  using assms
proof (induction n arbitrary: c)
  case 0
  define c1 where "c1 = c\<lparr>sml_check_flag := 0, ctl_heap := rt_global_before_async rt (rt_run_finalizer rt (rt_worker_mark rt a (ctl_heap c)))\<rparr>"
  have "alone w MARK c1" by (rule alone_cong [OF 0(1)]) (simp_all add: c1_def)
  from advance_in_phase [OF this, of ASYNC PREASYNC rt] obtain c2 where
    2: "advance rt ASYNC MARK PREASYNC c1 = Some c2" "in_phase w ASYNC c1 (set_state w (ACTIVE (phase_word ASYNC)) c2)"
    by (auto simp: is_phase_def c1_def)
  let ?c3 = "set_state w (ACTIVE (phase_word ASYNC)) c2"
  note p = 2(2) [unfolded in_phase_def]
  have as: "worker_async rt w ?c3 = ?c3\<lparr>ctl_heap := rt_global_async rt (rt_worker_async rt (allocator (ctl_worker ?c3 w)) (ctl_heap ?c3)),
      sml_check_flag := 0, gc_count := gc_count ?c3 + 1\<rparr>" by (rule worker_async_alone) (use p in blast)+
  have "worker_mark rt w True c = Some (worker_async rt w ?c3)"
    using 0(2,3,5) 2(1) by (subst worker_mark.simps) (simp add: Let_def answer_def upd_heap_def c1_def)
  moreover have "alone w ASYNC (worker_async rt w ?c3)" unfolding as
    by (rule alone_cong [of w ASYNC ?c3]) (use p in simp_all)
  ultimately show ?case using p 0(3) unfolding as by (simp add: c1_def)
next
  case (Suc n)
  define c1 where "c1 = c\<lparr>ctl_heap := rt_worker_mark rt a (ctl_heap c), sml_check_flag := 0\<rparr>"
  have "alone w MARK c1" by (rule alone_cong [OF Suc.prems(1)]) (simp_all add: c1_def)
  from advance_in_phase [OF this, of MARK PREMARK rt] obtain c2 where
    2: "advance rt MARK MARK PREMARK c1 = Some c2" "in_phase w MARK c1 (set_state w (ACTIVE (phase_word MARK)) c2)"
    by (auto simp: is_phase_def c1_def)
  let ?c3 = "set_state w (ACTIVE (phase_word MARK)) c2"
  note p = 2(2) [unfolded in_phase_def]
  have h: "ctl_heap ?c3 = rt_worker_mark rt a (ctl_heap c)" using p by (simp add: c1_def)
  have nf: "\<not> rt_mark_finish rt (rt_worker_mark rt a (ctl_heap c))" using Suc.prems(4) by auto
  have "worker_mark rt w True c = worker_mark rt w True ?c3"
    using Suc.prems(2,3) nf 2(1) by (subst worker_mark.simps) (simp add: Let_def answer_def upd_heap_def c1_def)
  moreover have "\<forall>k<n. \<not> rt_mark_finish rt ((rt_worker_mark rt a ^^ Suc k) (ctl_heap ?c3))"
    using Suc.prems(4) unfolding h by (auto simp: funpow_swap1)
  moreover have "rt_mark_finish rt ((rt_worker_mark rt a ^^ Suc n) (ctl_heap ?c3))"
    using Suc.prems(5) unfolding h by (simp add: funpow_swap1)
  ultimately show ?case using Suc.IH [of ?c3] p Suc.prems(3) h by (simp add: c1_def funpow_swap1)
qed

text \<open>What the heap sees from the roots to the end of the sweep.\<close>

definition collect_heap :: "'h runtime \<Rightarrow> addr \<Rightarrow> addr \<Rightarrow> (addr \<Rightarrow> root_slot list) \<Rightarrow> addr list \<Rightarrow> 'h \<Rightarrow> 'h" where
  "collect_heap rt w a slots us h =
     rt_global_sync2 rt a (rt_worker_sync2 rt w a (fold (\<lambda>u. rt_user_sync2 rt u (slots u) a) us h))"

definition sweep_heap :: "'h runtime \<Rightarrow> addr \<Rightarrow> 'h \<Rightarrow> 'h" where
  "sweep_heap rt a h = rt_global_async rt (rt_worker_async rt a (rt_global_before_async rt (rt_run_finalizer rt h)))"

lemma worker_sync2_alone:
  assumes al: "alone w SYNC2 c" and one: "sml_check_flag c = 1" and a: "a = allocator (ctl_worker c w)"
    and ge: "worker_flags (ctl_worker c w) AND GLOBALENUM_FLAG \<noteq> 0"
    and us: "users_at c (worker_users (ctl_worker c w)) us"
      "\<forall>u\<in>set us. user_flags (ctl_user c u) = 0 \<and> user_worker (ctl_user c u) = w"
      "\<forall>u\<in>set us. sml_stack_enum_ptr rt c u = ret (slots u)"
    and fin: "\<forall>k<n. \<not> rt_mark_finish rt ((rt_worker_mark rt a ^^ Suc k) (collect_heap rt w a slots us (ctl_heap c)))"
      "rt_mark_finish rt ((rt_worker_mark rt a ^^ Suc n) (collect_heap rt w a slots us (ctl_heap c)))"
  shows "\<exists>c'. worker_sync2 rt w True c = ret c' \<and> alone w ASYNC c' \<and> sml_check_flag c' = 0 \<and> gc_count c' = gc_count c + 1 \<and>
    ctl_heap c' = sweep_heap rt a ((rt_worker_mark rt a ^^ Suc n) (collect_heap rt w a slots us (ctl_heap c)))"
proof -
  let ?U = "fold (\<lambda>u. rt_user_sync2 rt u (slots u) a) us (ctl_heap c)"
  have f: "users_at c (follow_users w Head_Field c) us" using us(1) by (simp add: follow_users_def)
  from sync2_pass_users [OF f us(2,3)] obtain i' where
    1: "sync2_pass rt w Head_Field NULL c = ret (i', NULL, c\<lparr>ctl_heap := ?U\<rparr>)" "follow_users w i' c = NULL" unfolding a by blast
  have "write_users w i' NULL (c\<lparr>ctl_heap := ?U\<rparr>) = c\<lparr>ctl_heap := ?U\<rparr>"
    by (rule write_users_same) (use 1(2) in \<open>simp add: follow_users_def split: link_addr.splits\<close>)
  then have users: "sync2_users rt w Head_Field c = ret (c\<lparr>ctl_heap := ?U\<rparr>)"
    using 1(1) by (subst sync2_users.simps) (simp add: Let_def)
  define c1 where "c1 = upd_worker w (\<lambda>x. x\<lparr>worker_flags := worker_flags (ctl_worker c w) AND NOT GLOBALENUM_FLAG\<rparr>)
      (c\<lparr>ctl_heap := collect_heap rt w a slots us (ctl_heap c)\<rparr>)\<lparr>sml_check_flag := 0\<rparr>"
  have al1: "alone w SYNC2 c1"
    using al globalenum_flag(2) [of "worker_flags (ctl_worker c w)" DEAD_FLAG]
      globalenum_flag(2) [of "worker_flags (ctl_worker c w)" CANCELED_FLAG]
    by (simp add: alone_def c1_def upd_worker_def)
  from advance_in_phase [OF al1, of MARK PREMARK rt] obtain c2 where
    2: "advance rt MARK SYNC2 PREMARK c1 = Some c2" "in_phase w MARK c1 (set_state w (ACTIVE (phase_word MARK)) c2)"
    by (auto simp: is_phase_def c1_def)
  let ?c3 = "set_state w (ACTIVE (phase_word MARK)) c2"
  note p = 2(2) [unfolded in_phase_def]
  have h: "ctl_heap ?c3 = collect_heap rt w a slots us (ctl_heap c)" "gc_count ?c3 = gc_count c" "a = allocator (ctl_worker ?c3 w)"
    using p a by (simp_all add: c1_def upd_worker_def)
  have "worker_sync2 rt w True c = map_option Inr (worker_mark rt w True ?c3)"
    using users one a ge 2(1) by (simp add: worker_sync2_def Let_def upd_heap_def answer_def c1_def collect_heap_def upd_worker_def)
  moreover have "alone w MARK ?c3" "sml_check_flag ?c3 = 1" using p by simp_all
  ultimately show ?thesis
    using worker_mark_alone [of w ?c3 a n rt] fin h unfolding sweep_heap_def by auto
qed

definition solo_users :: "'h runtime \<Rightarrow> addr \<Rightarrow> (addr \<Rightarrow> root_slot list) \<Rightarrow> addr list \<Rightarrow> 'h control \<Rightarrow> bool" where
  "solo_users rt w slots us c \<longleftrightarrow> users_at c (worker_users (ctl_worker c w)) us \<and>
     (\<forall>u\<in>set us. user_flags (ctl_user c u) = 0 \<and> user_worker (ctl_user c u) = w \<and> sml_stack_enum_ptr rt c u = ret (slots u))"

lemma solo_users_cong:
  assumes "solo_users rt w slots us c" and "ctl_user c' = ctl_user c" and "ctl_range c' = ctl_range c" and "ctl_stack c' = ctl_stack c"
    and "worker_users (ctl_worker c' w) = worker_users (ctl_worker c w)"
  shows "solo_users rt w slots us c'"
  using assms users_at_cong [OF assms(2)] stack_enum_cong [of rt c _ _ c'] by (simp add: solo_users_def)

text \<open>How many rounds of marking a collection takes.\<close>

definition marking_rounds :: "'h runtime \<Rightarrow> addr \<Rightarrow> nat \<Rightarrow> 'h \<Rightarrow> bool" where
  "marking_rounds rt a n h \<longleftrightarrow> n > 0 \<and> rt_mark_finish rt ((rt_worker_mark rt a ^^ n) h) \<and>
     (\<forall>k\<in>{1..<n}. \<not> rt_mark_finish rt ((rt_worker_mark rt a ^^ k) h))"

lemma worker_sync1_alone:
  assumes al: "alone w SYNC1 c" and one: "sml_check_flag c = 1" and a: "a = allocator (ctl_worker c w)"
    and us: "solo_users rt w slots us c" and fin: "marking_rounds rt a n (collect_heap rt w a slots us (ctl_heap c))"
  shows "\<exists>c'. worker_sync1 rt w True c = ret c' \<and> alone w ASYNC c' \<and> sml_check_flag c' = 0 \<and> gc_count c' = gc_count c + 1 \<and>
    ctl_heap c' = sweep_heap rt a ((rt_worker_mark rt a ^^ n) (collect_heap rt w a slots us (ctl_heap c)))"
proof -
  define c1 where "c1 = upd_worker w (\<lambda>x. x\<lparr>worker_flags := worker_flags x OR GLOBALENUM_FLAG\<rparr>) (c\<lparr>sml_check_flag := 0\<rparr>)"
  have al1: "alone w SYNC1 c1"
    using al globalenum_flag(1) [of "worker_flags (ctl_worker c w)" DEAD_FLAG]
      globalenum_flag(1) [of "worker_flags (ctl_worker c w)" CANCELED_FLAG]
    by (simp add: alone_def c1_def upd_worker_def)
  from advance_in_phase [OF al1, of SYNC2 PRESYNC2 rt] obtain c2 where
    2: "advance rt SYNC2 SYNC1 PRESYNC2 c1 = Some c2" "in_phase w SYNC2 c1 (set_state w (ACTIVE (phase_word SYNC2)) c2)"
    by (auto simp: is_phase_def c1_def upd_worker_def)
  let ?c3 = "set_state w (ACTIVE (phase_word SYNC2)) c2"
  note p = 2(2) [unfolded in_phase_def]
  have s: "solo_users rt w slots us ?c3"
    by (rule solo_users_cong [OF us]) (use p in \<open>simp_all add: c1_def upd_worker_def\<close>)
  have "(worker_flags (ctl_worker c w) OR GLOBALENUM_FLAG) AND GLOBALENUM_FLAG = GLOBALENUM_FLAG"
    by (simp add: bit.conj_disj_distrib2)
  then have ge: "worker_flags (ctl_worker ?c3 w) AND GLOBALENUM_FLAG \<noteq> 0"
    using p by (simp add: c1_def upd_worker_def control_flags)
  have h: "ctl_heap ?c3 = ctl_heap c" "gc_count ?c3 = gc_count c" "a = allocator (ctl_worker ?c3 w)"
    using p a by (simp_all add: c1_def upd_worker_def)
  obtain m where n: "n = Suc m" using fin by (cases n) (simp_all add: marking_rounds_def)
  have "\<forall>k<m. \<not> rt_mark_finish rt ((rt_worker_mark rt a ^^ Suc k) (collect_heap rt w a slots us (ctl_heap ?c3)))"
  proof (intro allI impI)
    fix k assume "k < m"
    then have "Suc k \<in> {1..<n}" by (simp add: n)
    then show "\<not> rt_mark_finish rt ((rt_worker_mark rt a ^^ Suc k) (collect_heap rt w a slots us (ctl_heap ?c3)))"
      using fin unfolding marking_rounds_def h(1) by blast
  qed
  moreover have "rt_mark_finish rt ((rt_worker_mark rt a ^^ Suc m) (collect_heap rt w a slots us (ctl_heap ?c3)))"
    using fin unfolding marking_rounds_def h(1) n by blast
  ultimately have "\<exists>c'. worker_sync2 rt w True ?c3 = ret c' \<and> alone w ASYNC c' \<and> sml_check_flag c' = 0 \<and> gc_count c' = gc_count ?c3 + 1 \<and>
      ctl_heap c' = sweep_heap rt a ((rt_worker_mark rt a ^^ Suc m) (collect_heap rt w a slots us (ctl_heap ?c3)))"
    using worker_sync2_alone [of w ?c3 a us rt slots m] p h(3) ge s by (simp only: solo_users_def) blast
  moreover have "worker_sync1 rt w True c = worker_sync2 rt w True ?c3"
    using one 2(1) by (simp add: worker_sync1_def answer_def c1_def)
  ultimately show ?thesis unfolding h(1,2) n by simp
qed

section \<open>A collection\<close>

text \<open>
  A program with one worker that calls \<open>sml_gc\<close> between collections, greedily, is through the whole collection
  when the call returns.  The heap has seen, in this order: the roots of every user, the worker's and the global roots,
  rounds of marking until the heap finds the marking finished, the finalizers, and the two steps of
  the sweep; no signal is left unanswered, the worker is in \<open>ASYNC\<close> again, and the count of
  collections, odd during the collection, is the next even number, the one that the call returns.
\<close>

lemma solo_gc:
  assumes "alone w ASYNC c" and "get_worker th c = w" and "sml_check_flag c = 0" and "even (gc_count c)"
    and "solo_users rt w slots us c"
    and "marking_rounds rt (allocator (ctl_worker c w)) n (collect_heap rt w (allocator (ctl_worker c w)) slots us (ctl_heap c))"
  shows "\<exists>c'. sml_gc rt th True c = ret (gc_count c + 2, c') \<and> gc_count c' = gc_count c + 2 \<and>
    alone w ASYNC c' \<and> sml_check_flag c' = 0 \<and>
    ctl_heap c' = sweep_heap rt (allocator (ctl_worker c w)) ((rt_worker_mark rt (allocator (ctl_worker c w)) ^^ n)
      (collect_heap rt w (allocator (ctl_worker c w)) slots us (ctl_heap c)))"
proof -
  define c1 where "c1 = c\<lparr>gc_count := gc_count c OR 1\<rparr>"
  have ev: "gc_count c AND 1 = 0" "gc_count c OR 1 = gc_count c + 1"
    using assms(4) by (simp_all add: and_one_eq or_one_eq mod_2_eq_odd)
  have "alone w ASYNC c1" by (rule alone_cong [OF assms(1)]) (simp_all add: c1_def)
  from advance_in_phase [OF this, of SYNC1 PRESYNC1 rt] obtain c2 where
    2: "advance rt SYNC1 ASYNC PRESYNC1 c1 = Some c2" "in_phase w SYNC1 c1 (set_state w (ACTIVE (phase_word SYNC1)) c2)"
    using assms(3) by (auto simp: is_phase_def c1_def)
  let ?c3 = "set_state w (ACTIVE (phase_word SYNC1)) c2" and ?a = "allocator (ctl_worker c w)"
  note p = 2(2) [unfolded in_phase_def]
  have s: "solo_users rt w slots us ?c3" by (rule solo_users_cong [OF assms(5)]) (use p in \<open>simp_all add: c1_def\<close>)
  have h: "ctl_heap ?c3 = ctl_heap c" "gc_count ?c3 = gc_count c + 1" "?a = allocator (ctl_worker ?c3 w)"
    using p by (simp_all add: c1_def ev)
  have "tlv_worker c2 = tlv_worker c" using p by (simp add: c1_def set_state_def upd_worker_def)
  then have gw: "get_worker th c2 = w" using assms(2) by (simp add: get_worker_def)
  have "marking_rounds rt ?a n (collect_heap rt w ?a slots us (ctl_heap ?c3))" unfolding h(1) by (rule assms(6))
  with worker_sync1_alone [of w ?c3 ?a rt slots us n] p h(3) s obtain c' where
    3: "worker_sync1 rt w True ?c3 = ret c'" "alone w ASYNC c'" "sml_check_flag c' = 0" "gc_count c' = gc_count ?c3 + 1"
      "ctl_heap c' = sweep_heap rt ?a ((rt_worker_mark rt ?a ^^ n) (collect_heap rt w ?a slots us (ctl_heap ?c3)))" by blast
  have "sml_gc rt th True c = ret (gc_count c + 2, c')"
    using ev(1) 2(1) gw 3(1) by (simp add: sml_gc_def Let_def c1_def)
  then show ?thesis using 3 h(1,2) by auto
qed

end
