(* ===== verification/Whole.thy ===== *)
theory Whole
  imports Cycle Solo
begin

text \<open>
  The control of \<open>control.c\<close> on top of the heap of \<open>heap_concurrent.c\<close>: one call of \<open>sml_gc\<close> in a program with one worker, down to the bits
  of the bitmaps.  The roots are pushed before and after the snapshot of the allocation pointers
  is taken, and contexts of users and workers, which live in the heap themselves, are marked without being pushed.
\<close>

section \<open>Roots\<close>

text \<open>
  The state while roots are collected: of the objects the collection decides about, those of \<open>R\<close> are marked, and all of these are on the
  mark stack except for objects of \<open>K\<close>, which have no pointers.
\<close>

definition root_state :: "addr set \<Rightarrow> seg_store \<Rightarrow> addr set \<Rightarrow> addr set \<Rightarrow> seg_store \<Rightarrow> addr \<Rightarrow> bool" where
  "root_state A st0 K R st t \<longleftrightarrow> marking_of A st0 st \<and>
     (\<forall>x. live_target A st0 x \<longrightarrow> obj_marked st x = (x \<in> R)) \<and>
     (\<exists>xs. mark_stack A st0 st t xs \<and> distinct xs \<and> (\<forall>x. live_target A st0 x \<and> obj_marked st x \<and> x \<notin> K \<longrightarrow> x \<in> set xs))"

lemma store_le_load_le: "store_le m a n (load_le m a n) = m"
proof (induction n arbitrary: a)
  case (Suc n)
  have lt: "unat (m a) < 256" using unsigned_less [of "m a"] by simp
  have "(word_of_nat (256 * k) :: u8) = 0" for k by (subst word_of_nat_eq_0_iff) simp
  then have "word_of_nat (load_le m a (Suc n)) = m a" by simp
  moreover have "load_le m a (Suc n) div 256 = load_le m (Suc a) n" using lt by simp
  ultimately show ?case using Suc.IH [of "Suc a"] by simp
qed simp

lemma store64_load64_same: "store64 m a (load64 m a) = m"
  by (simp add: store64_def load64_def store_le_load_le)

lemma visit_marks:
  assumes mk: "marking_of A st0 st" and x: "live_target A st0 x" and un: "\<not> obj_marked st x"
  shows "marking_of A st0 (snd (visit x st))"
    and "y \<in> A \<Longrightarrow> obj_marked (snd (visit x st)) y = (obj_marked st y \<or> y = x)"
    and "y \<in> A \<Longrightarrow> y \<noteq> x \<Longrightarrow> stack_link (snd (visit x st)) y = stack_link st y"
proof -
  let ?m = "BITPTRW_SET (bytes st) (case_prod BITPTR (mark_bit st0 x))"
  have xA: "x \<in> A" and gx: "gc_target st0 x" using x by (simp_all add: live_target_def)
  have v: "snd (visit x st) = st\<lparr>bytes := store64 ?m (object_stack_slot st0 x) (load64 ?m (object_stack_slot st0 x))\<rparr>"
    using visit_object [OF mk xA] gx un by (simp add: store64_load64_same)
  note e = mark_and_link [OF mk xA gx load64_bound v]
  show "marking_of A st0 (snd (visit x st))"
    and "y \<in> A \<Longrightarrow> obj_marked (snd (visit x st)) y = (obj_marked st y \<or> y = x)"
    and "y \<in> A \<Longrightarrow> y \<noteq> x \<Longrightarrow> stack_link (snd (visit x st)) y = stack_link st y"
    by (rule e; assumption)+
qed

lemma visit_skips:
  assumes "marking_of A st0 st" and "gc_pointer A st0 x" and "\<not> live_target A st0 x \<or> obj_marked st x"
  shows "snd (visit x st) = st"
proof (cases "x \<in> A")
  case True
  then show ?thesis using assms(3) visit_object [OF assms(1) True] by (auto simp: live_target_def)
next
  case False
  then show ?thesis using assms(2) visit_static [OF assms(1), of x] by (simp add: gc_pointer_def)
qed

lemma root_visit:
  assumes rs: "root_state A st0 K R st t" and p: "gc_pointer A st0 x" and k: "x \<in> K"
  shows "root_state A st0 K (insert x R) (snd (visit x st)) t"
proof (cases "\<not> live_target A st0 x \<or> obj_marked st x")
  case True
  have mk: "marking_of A st0 st" using rs by (simp add: root_state_def)
  have "snd (visit x st) = st" by (rule visit_skips [OF mk p True])
  moreover have "live_target A st0 y \<Longrightarrow> y = x \<Longrightarrow> obj_marked st y" for y using True by blast
  ultimately show ?thesis using rs unfolding root_state_def by auto
next
  case False
  then have x: "live_target A st0 x" "\<not> obj_marked st x" by simp_all
  from rs obtain xs where mk: "marking_of A st0 st" and om: "\<forall>y. live_target A st0 y \<longrightarrow> obj_marked st y = (y \<in> R)"
    and xs: "mark_stack A st0 st t xs" "distinct xs" "\<forall>y. live_target A st0 y \<and> obj_marked st y \<and> y \<notin> K \<longrightarrow> y \<in> set xs"
    unfolding root_state_def by blast
  note v = visit_marks [OF mk x]
  have A: "y \<in> A" if "live_target A st0 y" for y using that by (simp add: live_target_def)
  have "mark_stack A st0 (snd (visit x st)) t xs"
    by (rule mark_stack_frame [OF xs(1)]) (use v(2,3) A x(2) in blast)
  moreover have "\<forall>y. live_target A st0 y \<and> obj_marked (snd (visit x st)) y \<and> y \<notin> K \<longrightarrow> y \<in> set xs"
    using xs(3) v(2) A k by blast
  moreover have "\<forall>y. live_target A st0 y \<longrightarrow> obj_marked (snd (visit x st)) y = (y \<in> insert x R)"
    using v(2) A om by auto
  ultimately show ?thesis using v(1) xs(2) unfolding root_state_def by blast
qed

lemma root_push:
  assumes rs: "root_state A st0 K R st t" and p: "gc_pointer A st0 x"
  obtains st' t' where "push x (st, t) = (st', t')" "root_state A st0 K (insert x R) st' t'"
proof -
  from rs obtain xs where mk: "marking_of A st0 st" and om: "\<forall>y. live_target A st0 y \<longrightarrow> obj_marked st y = (y \<in> R)"
    and xs: "mark_stack A st0 st t xs" "distinct xs" "\<forall>y. live_target A st0 y \<and> obj_marked st y \<and> y \<notin> K \<longrightarrow> y \<in> set xs"
    unfolding root_state_def by blast
  have "gc.chain A st0 st t xs" using xs(1) by (simp add: gc_chain)
  from gc.push_valid [OF mk p this xs(2)] obtain st' t' ys where
    1: "push x (st, t) = (st', t')" "marking_of A st0 st'" "gc.chain A st0 st' t' (ys @ xs)" "distinct (ys @ xs)"
      "set ys = {y. y = x \<and> live_target A st0 y} - gc.marks A st0 st" "gc.marks A st0 st' = gc.marks A st0 st \<union> set ys" by blast
  have m: "obj_marked st' y = (obj_marked st y \<or> y = x)" if "live_target A st0 y" for y
    using 1(5,6) that by (auto simp: gc.marks_def set_eq_iff)
  have "\<forall>y. live_target A st0 y \<and> obj_marked st' y \<and> y \<notin> K \<longrightarrow> y \<in> set (ys @ xs)"
    using 1(6) xs(3) by (auto simp: gc.marks_def set_eq_iff)
  moreover have "mark_stack A st0 st' t' (ys @ xs)" using 1(3) by (simp add: gc_chain)
  ultimately have "root_state A st0 K (insert x R) st' t'"
    unfolding root_state_def using 1(2,4) m om by auto
  then show thesis using that 1(1) by blast
qed

text \<open>Slots outside of the words that marking writes, and what is pushed from them.\<close>

definition root_slot_ok :: "addr set \<Rightarrow> seg_store \<Rightarrow> addr \<Rightarrow> bool" where
  "root_slot_ok A st0 a \<longleftrightarrow> gc_pointer A st0 (load64 (bytes st0) a) \<and> (\<forall>x\<in>A. \<forall>i<8. a + i \<notin> mark_zone st0 x)"

lemma root_push_slots:
  assumes "root_state A st0 K R st t" and "\<forall>a\<in>set slots. root_slot_ok A st0 a"
  obtains st' t' where "fold push_enum slots (st, t) = (st', t')" "root_state A st0 K (R \<union> load64 (bytes st0) ` set slots) st' t'"
  using assms
proof (induction slots arbitrary: R st t thesis)
  case (Cons a slots)
  have mk: "marking_of A st0 st" using Cons.prems(2) by (simp add: root_state_def)
  have ok: "root_slot_ok A st0 a" using Cons.prems(3) by simp
  have "load64 (bytes st) a = load64 (bytes st0) a"
    by (rule load64_cong, rule marking_byte [OF mk]) (use ok in \<open>auto simp: root_slot_ok_def\<close>)
  then have pe: "push_enum a (st, t) = push (load64 (bytes st0) a) (st, t)" by (simp add: push_enum_def)
  have "gc_pointer A st0 (load64 (bytes st0) a)" using ok by (simp add: root_slot_ok_def)
  from root_push [OF Cons.prems(2) this] obtain st1 t1 where
    1: "push (load64 (bytes st0) a) (st, t) = (st1, t1)" "root_state A st0 K (insert (load64 (bytes st0) a) R) st1 t1" .
  have "\<forall>a\<in>set slots. root_slot_ok A st0 a" using Cons.prems(3) by simp
  from Cons.IH [OF _ 1(2) this] obtain st2 t2 where
    2: "fold push_enum slots (st1, t1) = (st2, t2)" "root_state A st0 K (insert (load64 (bytes st0) a) R \<union> load64 (bytes st0) ` set slots) st2 t2" by blast
  show ?case by (rule Cons.prems(1) [of st2 t2]) (use 1(1) 2 pe in simp_all)
qed simp

section \<open>The snapshot of the allocation pointers\<close>

text \<open>The snapshot changes nothing but the field for it, and objects that are allocated are decided about before and after it.\<close>

lemma snapshot_store:
  "bytes (take_allocptr_snapshot h st) = bytes st"
  "seg_layout (segs (take_allocptr_snapshot h st) s) = seg_layout (segs st s)"
  "segs st = segs st' \<Longrightarrow> segs (take_allocptr_snapshot h st) = segs (take_allocptr_snapshot h st')"
proof -
  have b: "bytes (save_alloc_ptr p st) = bytes st" "seg_layout (segs (save_alloc_ptr p st) s) = seg_layout (segs st s)" for p st
    by (simp_all add: save_alloc_ptr_def upd_seg_def)
  have e: "segs (save_alloc_ptr p st) = segs (save_alloc_ptr p st')" if "segs st = segs st'" for p st st'
    using that by (simp add: save_alloc_ptr_def upd_seg_def)
  have "bytes (fold (\<lambda>i. save_alloc_ptr (heap_ptr h i)) is st) = bytes st" for "is" by (induction "is" arbitrary: st) (simp_all add: b)
  then show "bytes (take_allocptr_snapshot h st) = bytes st" by (simp add: take_allocptr_snapshot_def)
  have "seg_layout (segs (fold (\<lambda>i. save_alloc_ptr (heap_ptr h i)) is st) s) = seg_layout (segs st s)" for "is"
    by (induction "is" arbitrary: st) (simp_all add: b)
  then show "seg_layout (segs (take_allocptr_snapshot h st) s) = seg_layout (segs st s)" by (simp add: take_allocptr_snapshot_def)
  have "segs (fold (\<lambda>i. save_alloc_ptr (heap_ptr h i)) is st) = segs (fold (\<lambda>i. save_alloc_ptr (heap_ptr h i)) is st')"
    if "segs st = segs st'" for "is"
    using that
  proof (induction "is" arbitrary: st st')
    case (Cons i "is")
    show ?case unfolding fold_simps by (rule Cons.IH [OF e [OF Cons.prems]])
  qed simp
  then show "segs st = segs st' \<Longrightarrow> segs (take_allocptr_snapshot h st) = segs (take_allocptr_snapshot h st')"
    unfolding take_allocptr_snapshot_def by blast
qed

lemma snapshot_same:
  "small (take_allocptr_snapshot h st) x = small st x" "layout_of (take_allocptr_snapshot h st) s = layout_of st s"
  "mark_bit (take_allocptr_snapshot h st) x = mark_bit st x" "obj_marked (take_allocptr_snapshot h st) x = obj_marked st x"
  "mark_zone (take_allocptr_snapshot h st) x = mark_zone st x" "stack_link (take_allocptr_snapshot h st) x = stack_link st x"
  "gc_pointer A (take_allocptr_snapshot h st) x = gc_pointer A st x"
proof -
  note b = snapshot_store(1,2)
  show 1: "small (take_allocptr_snapshot h st) x = small st x" for x by (simp add: small_def b)
  show 2: "layout_of (take_allocptr_snapshot h st) s = layout_of st s" for s by (simp add: layout_of_def b)
  show 3: "mark_bit (take_allocptr_snapshot h st) x = mark_bit st x" by (simp add: mark_bit_def 1 2)
  show "obj_marked (take_allocptr_snapshot h st) x = obj_marked st x" by (simp add: obj_marked_def 3 b)
  show "mark_zone (take_allocptr_snapshot h st) x = mark_zone st x" by (simp add: mark_zone_def 1 2)
  show "stack_link (take_allocptr_snapshot h st) x = stack_link st x" by (simp add: stack_link_def object_stack_slot_def b 2)
  have "extent (take_allocptr_snapshot h st) y = extent st y" for y by (simp add: extent_def 1 2 b)
  then show "gc_pointer A (take_allocptr_snapshot h st) x = gc_pointer A st x" by (simp add: gc_pointer_def static_ptr_def b)
qed

lemma extent_snapshot: "extent (take_allocptr_snapshot h st) x = extent st x"
  by (simp add: extent_def snapshot_same(1,2) snapshot_store(1))

lemma root_snapshot:
  assumes rs: "root_state A st0 K R st t" and wf: "heap_wf A (take_allocptr_snapshot h st0)"
    and tg: "\<forall>x\<in>A. gc_target (take_allocptr_snapshot h st0) x = gc_target st0 x"
  shows "root_state A (take_allocptr_snapshot h st0) K R (take_allocptr_snapshot h st) t"
proof -
  let ?old = "take_allocptr_snapshot h st0" and ?new = "take_allocptr_snapshot h st"
  from rs obtain xs where mk: "marking_of A st0 st" and om: "\<forall>y. live_target A st0 y \<longrightarrow> obj_marked st y = (y \<in> R)"
    and xs: "mark_stack A st0 st t xs" "distinct xs" "\<forall>y. live_target A st0 y \<and> obj_marked st y \<and> y \<notin> K \<longrightarrow> y \<in> set xs"
    unfolding root_state_def by blast
  have l: "live_target A ?old x = live_target A st0 x" for x
    unfolding live_target_def using bspec [OF tg, of x] by (rule conj_cong [OF refl])
  have "mark_stack A ?old ?new t xs = mark_stack A st0 st t xs"
    by (induction xs arbitrary: t) (simp_all add: l snapshot_same)
  moreover have "marks_within A ?old ?new = marks_within A st0 st"
    unfolding marks_within_def snapshot_store(1,2) snapshot_same(1) extent_snapshot using tg by (simp cong: bex_cong)
  moreover have "large_marks_within A ?old ?new"
    using mk unfolding marking_of_def large_marks_within_def snapshot_store(1) snapshot_same(1) by blast
  moreover have "segs ?new = segs ?old" using mk by (intro snapshot_store(3)) (simp add: marking_of_def)
  ultimately show ?thesis using wf mk om xs unfolding root_state_def marking_of_def
    by (simp add: l snapshot_same snapshot_store(1)) blast
qed

section \<open>The mark step\<close>

lemma root_mark:
  assumes rs: "root_state A st0 K R st (root_set alloc)" and rem: "remembered_set alloc = NULL"
    and k: "\<forall>x\<in>K. \<forall>y. (x, y) \<notin> points_to A st0"
  shows "\<exists>st1. sml_heap_worker_mark alloc st = ret (alloc\<lparr>root_set := NULL, remembered_set := NULL\<rparr>, st1) \<and> marking_of A st0 st1 \<and>
    (\<forall>x. live_target A st0 x \<longrightarrow> obj_marked st1 x = (\<exists>r\<in>R. live_target A st0 r \<and> (r, x) \<in> (points_to A st0)\<^sup>*))"
proof -
  from rs obtain xs where mk: "marking_of A st0 st" and om: "\<forall>y. live_target A st0 y \<longrightarrow> obj_marked st y = (y \<in> R)"
    and xs: "mark_stack A st0 st (root_set alloc) xs" "distinct xs"
      "\<forall>y. live_target A st0 y \<and> obj_marked st y \<and> y \<notin> K \<longrightarrow> y \<in> set xs"
    unfolding root_state_def by blast
  have nil: "mark_stack A st0 st (remembered_set alloc) []" using rem by simp
  have "scanned_except A st0 (set xs \<union> set [] \<union> {}) st"
    unfolding scanned_except_def using xs(3) k by (auto simp: points_to_def)
  from worker_mark_spec [OF mk xs(1,2) nil distinct.simps(1) [THEN iffD2, OF TrueI] this] obtain st1 where
    2: "sml_heap_worker_mark alloc st = ret (alloc\<lparr>root_set := NULL, remembered_set := NULL\<rparr>, st1)"
      "marking_of A st0 st1" "scanned_except A st0 {} st1"
      "\<forall>x. live_target A st0 x \<and> obj_marked st x \<longrightarrow> obj_marked st1 x \<and> stack_link st1 x = stack_link st x"
      "\<forall>x. live_target A st0 x \<and> obj_marked st1 x \<longrightarrow> obj_marked st x \<or> (\<exists>r\<in>set xs \<union> set []. (r, x) \<in> (points_to A st0)\<^sup>*)"
    by blast
  have xsR: "live_target A st0 r \<and> r \<in> R" if "r \<in> set xs" for r using mark_stack_live [OF xs(1) that] om by blast
  have "obj_marked st1 x = (\<exists>r\<in>R. live_target A st0 r \<and> (r, x) \<in> (points_to A st0)\<^sup>*)" if x: "live_target A st0 x" for x
  proof
    assume "obj_marked st1 x"
    then consider "x \<in> R" | r where "r \<in> set xs" "(r, x) \<in> (points_to A st0)\<^sup>*" using 2(5) x om by auto
    then show "\<exists>r\<in>R. live_target A st0 r \<and> (r, x) \<in> (points_to A st0)\<^sup>*" using x xsR by cases blast+
  next
    assume "\<exists>r\<in>R. live_target A st0 r \<and> (r, x) \<in> (points_to A st0)\<^sup>*"
    then obtain r where "r \<in> R" "live_target A st0 r" "(r, x) \<in> (points_to A st0)\<^sup>*" by blast
    then show "obj_marked st1 x" using marked_closed [OF 2(3)] 2(4) om by blast
  qed
  then show ?thesis using 2(1,2) by blast
qed

section \<open>The heap behind the interface\<close>

text \<open>
  The state of the heap that the control changes: the allocator of the worker and the shared part.  There is none after a fatal error.
\<close>

type_synonym solo_heap = "(sml_alloc \<times> heap_state) option"

definition on_store :: "(sml_alloc \<times> seg_store \<Rightarrow> sml_alloc \<times> seg_store) \<Rightarrow> solo_heap \<Rightarrow> solo_heap" where
  "on_store f = map_option (\<lambda>(alloc, hs). let (alloc', st) = f (alloc, hs_store hs) in (alloc', hs\<lparr>hs_store := st\<rparr>))"

text \<open>
  The operations of \<open>heap.h\<close> that a collection calls, by \<open>heap_concurrent.c\<close>.  \<open>slot_of\<close> gives the address of a slot of a user,
  \<open>gs\<close> and \<open>cs\<close> are the addresses of the global slots and of those of the callbacks; \<open>a\<close> is the one allocator.  The other operations and the
  tables are those of \<open>rt\<close>.
\<close>

definition concurrent_heap ::
  "(root_slot \<Rightarrow> addr) \<Rightarrow> addr list \<Rightarrow> addr list \<Rightarrow> nat \<Rightarrow> addr \<Rightarrow> solo_heap runtime \<Rightarrow> solo_heap runtime" where
  "concurrent_heap slot_of gs cs nan a rt = rt
     \<lparr>rt_user_sync2 := (\<lambda>user slots _. on_store (sml_heap_user_sync2 user (\<lambda>f. fold f (map slot_of slots)))),
      rt_worker_sync2 := (\<lambda>worker alloc_addr. on_store (\<lambda>(alloc, st). (alloc, sml_heap_worker_sync2 worker alloc_addr alloc st))),
      rt_global_sync2 := (\<lambda>_. on_store (sml_heap_global_sync2 (\<lambda>f. fold f gs) (\<lambda>f. fold f cs))),
      rt_worker_mark := (\<lambda>_ h. Option.bind h (\<lambda>(alloc, hs). case sml_heap_worker_mark alloc (hs_store hs) of
          Some (Inr (alloc', st)) \<Rightarrow> Some (alloc', hs\<lparr>hs_store := st\<rparr>) | _ \<Rightarrow> None)),
      rt_mark_finish := (\<lambda>h. case h of None \<Rightarrow> False | Some (alloc, hs) \<Rightarrow>
          sml_heap_mark_finish [a] (\<lambda>_. remembered_set alloc) (\<lambda>_. remembered_set alloc) [a]),
      rt_global_before_async := map_option (\<lambda>(alloc, hs). (alloc, hs\<lparr>hs_pool := sml_heap_global_before_async (hs_pool hs)\<rparr>)),
      rt_worker_async := (\<lambda>_ h. Option.bind h (\<lambda>(alloc, hs).
          map_option (\<lambda>(alloc', freed, hs'). (alloc', hs')) (sml_heap_worker_async nan alloc hs))),
      rt_global_async := (\<lambda>h. Option.bind h (\<lambda>(alloc, hs).
          map_option (\<lambda>(freed, hs'). (alloc, hs')) (sml_heap_global_async hs)))\<rparr>"

text \<open>A pool without segments of classes: only dead workers leave segments there.\<close>

definition pool_idle :: "segment_pool \<Rightarrow> bool" where
  "pool_idle pool \<longleftrightarrow> malloc_subpool pool = NULL \<and>
     (\<forall>i. pool_subpool pool i = \<lparr>sp_filled = NULL, sp_partial = NULL, sp_partial_marked = NULL\<rparr>)"

lemma before_async_idle:
  assumes "pool_idle pool"
  shows "sml_heap_global_before_async pool = pool"
proof -
  have 1: "upd_subpool i (\<lambda>s. s\<lparr>sp_partial := NULL, sp_partial_marked := sp_partial s\<rparr>) pool = pool" for i
  proof -
    have "(pool_subpool pool i)\<lparr>sp_partial := NULL, sp_partial_marked := sp_partial (pool_subpool pool i)\<rparr> = pool_subpool pool i"
      using assms by (simp add: pool_idle_def)
    then show ?thesis by (simp add: upd_subpool_def)
  qed
  have "fold (\<lambda>i. upd_subpool i (\<lambda>s. s\<lparr>sp_partial := NULL, sp_partial_marked := sp_partial s\<rparr>)) is pool = pool" for "is"
    by (induction "is") (simp_all add: 1)
  then show ?thesis by (simp add: sml_heap_global_before_async_def)
qed

lemma reclaim_subpool_idle:
  assumes "sp = \<lparr>sp_filled = NULL, sp_partial = NULL, sp_partial_marked = NULL\<rparr>"
  shows "reclaim_subpool sp free st = Some (sp, free, st)"
proof -
  have "reclaim_marked sp free st = Some (sp, free, st)"
    using assms by (subst reclaim_marked.simps) (simp add: segment_pop_def Let_def)
  then show ?thesis
    using assms by (simp add: reclaim_subpool_def for_each.simps LIST_FINISH_def LIST_INIT_def write_last_def segment_push_list_def)
qed

lemma global_async_idle:
  assumes "pool_idle (hs_pool hs)"
  shows "sml_heap_global_async hs = Some ([], hs)"
proof -
  let ?P = "hs_pool hs"
  have sp: "reclaim_subpool (pool_subpool ?P i) free st = Some (pool_subpool ?P i, free, st)" for i free st
    by (rule reclaim_subpool_idle) (use assms in \<open>simp add: pool_idle_def\<close>)
  have u: "upd_subpool i (\<lambda>_. pool_subpool ?P i) ?P = ?P" for i by (simp add: upd_subpool_def)
  have "fold (\<lambda>i s. Option.bind s (\<lambda>(pool, free, st). Option.bind (reclaim_subpool (pool_subpool pool i) free st) (\<lambda>(sp', free', st').
      Some (upd_subpool i (\<lambda>_. sp') pool, free', st')))) is (Some (?P, LIST_INIT, hs_store hs)) = Some (?P, LIST_INIT, hs_store hs)" for "is"
    by (induction "is") (simp_all add: sp u)
  moreover have "reclaim_malloc_segments (malloc_subpool ?P) (hs_store hs) = Some (NULL, [], hs_store hs)"
    using assms by (simp add: pool_idle_def reclaim_malloc_segments_def reclaim_msegs.simps LIST_FINISH_def LIST_INIT_def write_last_def)
  ultimately show ?thesis using assms
    by (simp add: sml_heap_global_async_def reclaim_segment_pool_def segment_push_list_def LIST_INIT_def pool_idle_def)
qed

section \<open>A collection\<close>

text \<open>The contexts are objects of the heap without pointers, or objects outside of it.\<close>

definition contexts_ok :: "addr set \<Rightarrow> seg_store \<Rightarrow> addr set \<Rightarrow> bool" where
  "contexts_ok A st K \<longleftrightarrow> (\<forall>x\<in>K. gc_pointer A st x \<and> (\<forall>y. (x, y) \<notin> points_to A st))"

definition slot_values :: "seg_store \<Rightarrow> addr list \<Rightarrow> addr list" where
  "slot_values st as = map (load64 (bytes st)) as"

lemma user_roots:
  assumes "root_state A st0 K R st (root_set alloc)" and "\<forall>u\<in>set us. u \<in> K \<and> gc_pointer A st0 u"
    and "\<forall>u\<in>set us. \<forall>r\<in>set (slots u). root_slot_ok A st0 (slot_of r)"
  obtains st' t where
    "fold (\<lambda>u. rt_user_sync2 (concurrent_heap slot_of gs cs nan a rt) u (slots u) a) us (Some (alloc, hs\<lparr>hs_store := st\<rparr>)) =
      Some (alloc\<lparr>root_set := t\<rparr>, hs\<lparr>hs_store := st'\<rparr>)"
    "root_state A st0 K (R \<union> set us \<union> set (slot_values st0 (map slot_of (concat (map slots us))))) st' t"
  using assms
proof (induction us arbitrary: R st alloc thesis)
  case Nil
  show ?case by (rule Nil(1) [of "root_set alloc" st]) (use Nil(2) in \<open>simp_all add: slot_values_def\<close>)
next
  case (Cons u us)
  have u: "u \<in> K" "gc_pointer A st0 u" using Cons.prems(3) by simp_all
  from root_visit [OF Cons.prems(2) u(2,1)] have 1: "root_state A st0 K (insert u R) (snd (visit u st)) (root_set alloc)" .
  have "\<forall>b\<in>set (map slot_of (slots u)). root_slot_ok A st0 b" using Cons.prems(4) by simp
  from root_push_slots [OF 1 this] obtain st1 t1 where
    2: "fold push_enum (map slot_of (slots u)) (snd (visit u st), root_set alloc) = (st1, t1)"
      "root_state A st0 K (insert u R \<union> load64 (bytes st0) ` set (map slot_of (slots u))) st1 (root_set (alloc\<lparr>root_set := t1\<rparr>))" by auto
  have "rt_user_sync2 (concurrent_heap slot_of gs cs nan a rt) u (slots u) a (Some (alloc, hs\<lparr>hs_store := st\<rparr>)) =
      Some (alloc\<lparr>root_set := t1\<rparr>, hs\<lparr>hs_store := st1\<rparr>)"
    using 2(1) by (cases "visit u st") (simp add: concurrent_heap_def on_store_def sml_heap_user_sync2_def)
  moreover have "\<forall>v\<in>set us. v \<in> K \<and> gc_pointer A st0 v" "\<forall>v\<in>set us. \<forall>r\<in>set (slots v). root_slot_ok A st0 (slot_of r)"
    using Cons.prems(3,4) by simp_all
  from Cons.IH [OF _ 2(2) this] obtain st2 t2 where
    3: "fold (\<lambda>u. rt_user_sync2 (concurrent_heap slot_of gs cs nan a rt) u (slots u) a) us (Some (alloc\<lparr>root_set := t1\<rparr>, hs\<lparr>hs_store := st1\<rparr>)) =
      Some (alloc\<lparr>root_set := t2\<rparr>, hs\<lparr>hs_store := st2\<rparr>)"
      "root_state A st0 K (insert u R \<union> load64 (bytes st0) ` set (map slot_of (slots u)) \<union> set us \<union>
        set (slot_values st0 (map slot_of (concat (map slots us))))) st2 t2" by auto
  moreover have "insert u R \<union> load64 (bytes st0) ` set (map slot_of (slots u)) \<union> set us \<union>
        set (slot_values st0 (map slot_of (concat (map slots us)))) =
      R \<union> set (u # us) \<union> set (slot_values st0 (map slot_of (concat (map slots (u # us)))))"
    by (auto simp: slot_values_def)
  ultimately show ?case using Cons.prems(1) [of t2 st2] by simp
qed

lemma root_slot_snapshot: "root_slot_ok A (take_allocptr_snapshot h st) a = root_slot_ok A st a"
  by (simp add: root_slot_ok_def snapshot_store(1) snapshot_same(5,7))

lemma collect_roots:
  assumes K: "contexts_ok A (hs_store hs) (set us \<union> {w, a})" and wf: "heap_wf A (hs_store hs)"
    and un: "\<forall>x\<in>A. \<not> obj_marked (hs_store hs) x" and nil: "root_set alloc = NULL"
    and slots: "\<forall>u\<in>set us. \<forall>r\<in>set (slots u). root_slot_ok A (hs_store hs) (slot_of r)"
      "\<forall>b\<in>set (gs @ cs). root_slot_ok A (hs_store hs) b"
    and snap: "heap_wf A (take_allocptr_snapshot (alloc_heap alloc) (hs_store hs))"
      "\<forall>x\<in>A. gc_target (take_allocptr_snapshot (alloc_heap alloc) (hs_store hs)) x = gc_target (hs_store hs) x"
  obtains st t where
    "collect_heap (concurrent_heap slot_of gs cs nan a rt) w a slots us (Some (alloc, hs)) = Some (alloc\<lparr>root_set := t\<rparr>, hs\<lparr>hs_store := st\<rparr>)"
    "root_state A (take_allocptr_snapshot (alloc_heap alloc) (hs_store hs)) (set us \<union> {w, a})
      (set us \<union> {w, a} \<union> set (slot_values (hs_store hs) (map slot_of (concat (map slots us)) @ gs @ cs))) st t"
proof -
  let ?st = "hs_store hs" and ?K = "set us \<union> {w, a}" and ?snap = "take_allocptr_snapshot (alloc_heap alloc)"
  have "\<forall>x. live_target A ?st x \<longrightarrow> \<not> obj_marked ?st x" using un by (simp add: live_target_def)
  then have 0: "root_state A ?st ?K {} ?st (root_set alloc)"
    unfolding root_state_def using marking_refl [OF wf] nil by (auto intro!: exI [of _ "[]"])
  have us: "\<forall>u\<in>set us. u \<in> ?K \<and> gc_pointer A ?st u" and wa: "gc_pointer A ?st w" "gc_pointer A ?st a"
    using K by (simp_all add: contexts_ok_def)
  have hs: "hs\<lparr>hs_store := ?st\<rparr> = hs" by simp
  from user_roots [OF 0 us slots(1), of gs cs nan a rt hs, unfolded hs Un_empty_left] obtain st1 t1 where
    1: "fold (\<lambda>u. rt_user_sync2 (concurrent_heap slot_of gs cs nan a rt) u (slots u) a) us (Some (alloc, hs)) =
      Some (alloc\<lparr>root_set := t1\<rparr>, hs\<lparr>hs_store := st1\<rparr>)"
      "root_state A ?st ?K (set us \<union> set (slot_values ?st (map slot_of (concat (map slots us))))) st1 t1" .
  define st2 where "st2 = snd (visit a (snd (visit w st1)))"
  have "root_state A ?st ?K (insert a (insert w (set us \<union> set (slot_values ?st (map slot_of (concat (map slots us))))))) st2 t1"
    unfolding st2_def by (rule root_visit [OF root_visit [OF 1(2) wa(1)] wa(2)]) simp_all
  from root_snapshot [OF this snap] have
    2: "root_state A (?snap ?st) ?K (insert a (insert w (set us \<union> set (slot_values ?st (map slot_of (concat (map slots us))))))) (?snap st2) t1" .
  have "\<forall>b\<in>set (gs @ cs). root_slot_ok A (?snap ?st) b" using slots(2) by (simp add: root_slot_snapshot)
  from root_push_slots [OF 2 this] obtain st3 t3 where
    3: "fold push_enum (gs @ cs) (?snap st2, t1) = (st3, t3)"
      "root_state A (?snap ?st) ?K (insert a (insert w (set us \<union> set (slot_values ?st (map slot_of (concat (map slots us)))))) \<union>
        load64 (bytes (?snap ?st)) ` set (gs @ cs)) st3 t3" .
  have R: "insert a (insert w (set us \<union> set (slot_values ?st (map slot_of (concat (map slots us)))))) \<union> load64 (bytes (?snap ?st)) ` set (gs @ cs) =
      ?K \<union> set (slot_values ?st (map slot_of (concat (map slots us)) @ gs @ cs))"
    by (auto simp: slot_values_def snapshot_store(1))
  have w: "rt_worker_sync2 (concurrent_heap slot_of gs cs nan a rt) w a (Some (alloc\<lparr>root_set := t1\<rparr>, hs\<lparr>hs_store := st1\<rparr>)) =
      Some (alloc\<lparr>root_set := t1\<rparr>, hs\<lparr>hs_store := ?snap st2\<rparr>)"
    by (simp add: concurrent_heap_def on_store_def sml_heap_worker_sync2_def st2_def split: prod.splits)
  obtain st4 t4 where 4: "fold push_enum gs (?snap st2, t1) = (st4, t4)" by fastforce
  then have 5: "fold push_enum cs (st4, t4) = (st3, t3)" using 3(1) by simp
  have "rt_global_sync2 (concurrent_heap slot_of gs cs nan a rt) a (Some (alloc\<lparr>root_set := t1\<rparr>, hs\<lparr>hs_store := ?snap st2\<rparr>)) =
      Some (alloc\<lparr>root_set := t3\<rparr>, hs\<lparr>hs_store := st3\<rparr>)"
    by (simp add: concurrent_heap_def on_store_def sml_heap_global_sync2_def 4 5)
  then have "collect_heap (concurrent_heap slot_of gs cs nan a rt) w a slots us (Some (alloc, hs)) = Some (alloc\<lparr>root_set := t3\<rparr>, hs\<lparr>hs_store := st3\<rparr>)"
    by (simp add: collect_heap_def 1(1) w)
  then show thesis using that 3(2) unfolding R by blast
qed

text \<open>The snapshot does not change what is reached.\<close>

lemma reached_snapshot:
  assumes "\<forall>x\<in>A. gc_target (take_allocptr_snapshot h st) x = gc_target st x"
  shows "points_to A (take_allocptr_snapshot h st) = points_to A st" "reached A (take_allocptr_snapshot h st) rs = reached A st rs"
    "kept_exactly R (take_allocptr_snapshot h st) h' Ps Qs st' = kept_exactly R st h' Ps Qs st'"
proof -
  have l: "live_target A (take_allocptr_snapshot h st) x = live_target A st x" for x
    unfolding live_target_def using bspec [OF assms, of x] by (rule conj_cong [OF refl])
  show p: "points_to A (take_allocptr_snapshot h st) = points_to A st" unfolding points_to_def l snapshot_store(1) ..
  show "reached A (take_allocptr_snapshot h st) rs = reached A st rs" unfolding reached_def l p ..
  show "kept_exactly R (take_allocptr_snapshot h st) h' Ps Qs st' = kept_exactly R st h' Ps Qs st'"
    unfolding kept_exactly_def snapshot_same(1) snapshot_store(1) ..
qed

definition gc_roots :: "(root_slot \<Rightarrow> addr) \<Rightarrow> addr list \<Rightarrow> addr \<Rightarrow> addr \<Rightarrow> (addr \<Rightarrow> root_slot list) \<Rightarrow> addr list \<Rightarrow> seg_store \<Rightarrow> addr list" where
  "gc_roots slot_of gs w a slots us st = us @ [w, a] @ slot_values st (map slot_of (concat (map slots us)) @ gs)"

text \<open>The heap before a collection: no marks, empty sets, and the snapshot would not change what is decided about.\<close>

definition heap_before_gc ::
  "addr set \<Rightarrow> sml_alloc \<Rightarrow> heap_state \<Rightarrow> (nat \<Rightarrow> addr list) \<Rightarrow> (nat \<Rightarrow> addr list) \<Rightarrow> addr list \<Rightarrow> addr list \<Rightarrow> addr list \<Rightarrow> bool" where
  "heap_before_gc A alloc hs Ps Qs FL FP Ms \<longleftrightarrow>
     root_set alloc = NULL \<and> remembered_set alloc = NULL \<and> pool_idle (hs_pool hs) \<and> heap_wf A (hs_store hs) \<and>
     collectable A (hs\<lparr>hs_store := take_allocptr_snapshot (alloc_heap alloc) (hs_store hs)\<rparr>) (alloc_heap alloc) Ps Qs FL FP Ms \<and>
     (\<forall>x\<in>A. gc_target (take_allocptr_snapshot (alloc_heap alloc) (hs_store hs)) x = gc_target (hs_store hs) x)"

lemma heap_before_gcD:
  assumes "heap_before_gc A alloc hs Ps Qs FL FP Ms"
  shows "root_set alloc = NULL" "remembered_set alloc = NULL" "pool_idle (hs_pool hs)" "heap_wf A (hs_store hs)"
    "collectable A (hs\<lparr>hs_store := take_allocptr_snapshot (alloc_heap alloc) (hs_store hs)\<rparr>) (alloc_heap alloc) Ps Qs FL FP Ms"
    "\<forall>x\<in>A. gc_target (take_allocptr_snapshot (alloc_heap alloc) (hs_store hs)) x = gc_target (hs_store hs) x"
    "heap_wf A (take_allocptr_snapshot (alloc_heap alloc) (hs_store hs))" "\<forall>x\<in>A. \<not> obj_marked (hs_store hs) x"
proof -
  note a = assms [unfolded heap_before_gc_def]
  show "root_set alloc = NULL" "remembered_set alloc = NULL" "pool_idle (hs_pool hs)" "heap_wf A (hs_store hs)" using a by iprover+
  show c: "collectable A (hs\<lparr>hs_store := take_allocptr_snapshot (alloc_heap alloc) (hs_store hs)\<rparr>) (alloc_heap alloc) Ps Qs FL FP Ms" using a by iprover
  show "\<forall>x\<in>A. gc_target (take_allocptr_snapshot (alloc_heap alloc) (hs_store hs)) x = gc_target (hs_store hs) x" using a by iprover
  show "heap_wf A (take_allocptr_snapshot (alloc_heap alloc) (hs_store hs))" using collectableD(1) [OF c] by simp
  show "\<forall>x\<in>A. \<not> obj_marked (hs_store hs) x" using collectableD(6) [OF c] by (simp add: snapshot_same(4))
qed

lemma mark_and_sweep:
  fixes nan :: nat
  assumes b: "heap_before_gc A alloc hs Ps Qs FL FP Ms" and K: "contexts_ok A (hs_store hs) (set us \<union> {w, a})"
    and slots: "\<forall>u\<in>set us. \<forall>r\<in>set (slots u). root_slot_ok A (hs_store hs) (slot_of r)"
      "\<forall>x\<in>set (gs @ cs). root_slot_ok A (hs_store hs) x"
    and fin: "rt_run_finalizer rt = id"
  defines "rt' \<equiv> concurrent_heap slot_of gs cs nan a rt"
  obtains alloc' hs' where "marking_rounds rt' a 1 (collect_heap rt' w a slots us (Some (alloc, hs)))"
    "sweep_heap rt' a ((rt_worker_mark rt' a ^^ 1) (collect_heap rt' w a slots us (Some (alloc, hs)))) = Some (alloc', hs')"
    "kept_exactly (reached A (hs_store hs) (gc_roots slot_of (gs @ cs) w a slots us (hs_store hs))) (hs_store hs) (alloc_heap alloc) Ps Qs (hs_store hs')"
proof -
  let ?st = "hs_store hs" and ?snap = "take_allocptr_snapshot (alloc_heap alloc)" and ?K = "set us \<union> {w, a}"
  let ?rs = "gc_roots slot_of (gs @ cs) w a slots us ?st"
  note d = heap_before_gcD [OF b]
  from collect_roots [OF K d(4,8,1) slots d(7,6), of nan rt] obtain st t where
    1: "collect_heap rt' w a slots us (Some (alloc, hs)) = Some (alloc\<lparr>root_set := t\<rparr>, hs\<lparr>hs_store := st\<rparr>)"
    and rs: "root_state A (?snap ?st) ?K (?K \<union> set (slot_values ?st (map slot_of (concat (map slots us)) @ gs @ cs))) st t"
    unfolding rt'_def by blast
  have R: "?K \<union> set (slot_values ?st (map slot_of (concat (map slots us)) @ gs @ cs)) = set ?rs" by (auto simp: gc_roots_def)
  have rs': "root_state A (?snap ?st) ?K (set ?rs) st (root_set (alloc\<lparr>root_set := t\<rparr>))" using rs unfolding R by simp
  have k: "\<forall>x\<in>?K. \<forall>y. (x, y) \<notin> points_to A (?snap ?st)" using K unfolding reached_snapshot(1) [OF d(6)] contexts_ok_def by blast
  from root_mark [OF rs' _ k] d(2) obtain st1 where
    2: "sml_heap_worker_mark (alloc\<lparr>root_set := t\<rparr>) st = ret (alloc\<lparr>root_set := t\<rparr>\<lparr>root_set := NULL, remembered_set := NULL\<rparr>, st1)"
    and mk: "marking_of A (?snap ?st) st1" and om: "\<forall>x. live_target A (?snap ?st) x \<longrightarrow> obj_marked st1 x = (x \<in> reached A (?snap ?st) ?rs)"
    by (auto simp: reached_def)
  have al: "alloc\<lparr>root_set := t\<rparr>\<lparr>root_set := NULL, remembered_set := NULL\<rparr> = alloc" using d(1,2) by simp
  have m: "(rt_worker_mark rt' a ^^ 1) (collect_heap rt' w a slots us (Some (alloc, hs))) = Some (alloc, hs\<lparr>hs_store := st1\<rparr>)"
    using 2 unfolding 1 al by (simp add: rt'_def concurrent_heap_def)
  have "marking_rounds rt' a 1 (collect_heap rt' w a slots us (Some (alloc, hs)))"
    unfolding marking_rounds_def m using d(2) by (simp add: rt'_def concurrent_heap_def sml_heap_mark_finish_def)
  moreover
  let ?hs = "hs\<lparr>hs_store := ?snap ?st\<rparr>"
  have hs: "hs_store ?hs = ?snap ?st" "?hs\<lparr>hs_store := st1\<rparr> = hs\<lparr>hs_store := st1\<rparr>" "hs_pool ?hs = hs_pool hs" by simp_all
  have live: "\<forall>x\<in>reached A (?snap ?st) ?rs. live_target A (?snap ?st) x" using reached_live by blast
  from marked_heap_swept [OF d(5), unfolded hs, OF mk om live, of nan, unfolded hs] obtain h' hs' F P Q where
    3: "sml_heap_worker_async nan alloc (hs\<lparr>hs_store := st1\<rparr>) =
        Some (alloc\<lparr>remembered_set := NULL, alloc_heap := h'\<rparr>, filter (\<lambda>x. gc_target (?snap ?st) (x + 32) \<and> x + 32 \<notin> reached A (?snap ?st) ?rs) Ms, hs')"
      "kept_exactly (reached A (?snap ?st) ?rs) (?snap ?st) (alloc_heap alloc) Ps Qs (hs_store hs')"
      "heap_swept st1 (alloc_heap alloc) Ps Qs (FL @ FP) Ms F P Q h' (pool_freelist (hs_pool hs')) (hs_store hs')"
      "\<exists>fl. hs_pool hs' = (hs_pool hs)\<lparr>pool_freelist := fl\<rparr>" .
  have "pool_idle (hs_pool hs')" using 3(4) d(3) by (auto simp: pool_idle_def)
  then have "sweep_heap rt' a (Some (alloc, hs\<lparr>hs_store := st1\<rparr>)) = Some (alloc\<lparr>remembered_set := NULL, alloc_heap := h'\<rparr>, hs')"
    using 3(1) fin before_async_idle [OF d(3)] global_async_idle [of hs']
    by (simp add: sweep_heap_def rt'_def concurrent_heap_def)
  moreover have "kept_exactly (reached A ?st ?rs) ?st (alloc_heap alloc) Ps Qs (hs_store hs')"
    using 3(2) unfolding reached_snapshot(2,3) [OF d(6)] .
  ultimately show thesis using that unfolding m by blast
qed

text \<open>
  C1: a collection from the call to the last bit.  In a program with one worker, between collections, \<open>sml_gc\<close> (greedy) over the heap of
  \<open>heap_concurrent.c\<close> returns with the collection done.  Afterwards the used blocks of all segments of the heap are exactly those
  of the objects reachable from the roots: the contexts, the slots of the stacks of all users, the
  global slots and those of the callbacks.  Finalizers do nothing to the heap.  Reachable objects, small and large, keep their contents, the worker is in \<open>ASYNC\<close> with no signal
  outstanding, and the count of collections is the one returned.
\<close>

theorem gc_keeps_reachable:
  assumes "alone w ASYNC c" and "get_worker th c = w" and "sml_check_flag c = 0" and "even (gc_count c)"
    and "solo_users (concurrent_heap slot_of gs cs nan a rt) w slots us c" and "a = allocator (ctl_worker c w)"
    and "ctl_heap c = Some (alloc, hs)" and "heap_before_gc A alloc hs Ps Qs FL FP Ms"
    and "contexts_ok A (hs_store hs) (set us \<union> {w, a})"
    and "\<forall>u\<in>set us. \<forall>r\<in>set (slots u). root_slot_ok A (hs_store hs) (slot_of r)"
    and "\<forall>x\<in>set (gs @ cs). root_slot_ok A (hs_store hs) x" and "rt_run_finalizer rt = id"
  shows "\<exists>c' alloc' hs'. sml_gc (concurrent_heap slot_of gs cs nan a rt) th True c = ret (gc_count c + 2, c') \<and>
    gc_count c' = gc_count c + 2 \<and> alone w ASYNC c' \<and> sml_check_flag c' = 0 \<and> ctl_heap c' = Some (alloc', hs') \<and>
    kept_exactly (reached A (hs_store hs) (gc_roots slot_of (gs @ cs) w a slots us (hs_store hs))) (hs_store hs) (alloc_heap alloc) Ps Qs (hs_store hs')"
proof -
  from mark_and_sweep [OF assms(8-12), of nan] obtain alloc' hs' where
    1: "marking_rounds (concurrent_heap slot_of gs cs nan a rt) a 1 (collect_heap (concurrent_heap slot_of gs cs nan a rt) w a slots us (ctl_heap c))"
      "sweep_heap (concurrent_heap slot_of gs cs nan a rt) a ((rt_worker_mark (concurrent_heap slot_of gs cs nan a rt) a ^^ 1)
        (collect_heap (concurrent_heap slot_of gs cs nan a rt) w a slots us (ctl_heap c))) = Some (alloc', hs')"
      "kept_exactly (reached A (hs_store hs) (gc_roots slot_of (gs @ cs) w a slots us (hs_store hs))) (hs_store hs) (alloc_heap alloc) Ps Qs (hs_store hs')"
    unfolding assms(7) by blast
  from solo_gc [OF assms(1-5), folded assms(6), OF 1(1)] 1(2,3) show ?thesis by (auto simp only:)
qed

text \<open>A worker whose context is the second object of the small heap, and which has no users.\<close>

definition small_runtime :: "solo_heap runtime" where
  "small_runtime =
     \<lparr>rt_worker_init = (\<lambda>_ h. (None, h)), rt_worker_register = (\<lambda>_ _ h. h), rt_worker_kill = (\<lambda>_ h. h),
      rt_alloc_important = (\<lambda>_ _ _ h. (0, h)), rt_user_sync2 = (\<lambda>_ _ _ h. h), rt_worker_sync2 = (\<lambda>_ _ h. h),
      rt_global_sync2 = (\<lambda>_ h. h), rt_worker_mark = (\<lambda>_ h. h), rt_mark_finish = (\<lambda>_. True), rt_run_finalizer = id,
      rt_global_before_async = id, rt_worker_async = (\<lambda>_ h. h), rt_global_async = id, rt_lookup_frametable = (\<lambda>_. Inr 64), rt_tables = (\<lambda>_. 0)\<rparr>"

definition small_control :: "solo_heap control" where
  "small_control =
     \<lparr>ctl_worker = (\<lambda>_. \<lparr>worker_state = 1, worker_flags = 0, worker_users = 0, current_user = 0, allocator = 0, worker_next = 0, check_hook = 0\<rparr>),
      ctl_user = (\<lambda>_. \<lparr>user_flags = 0, user_next = 0, user_worker = 0, user_stack = 0, exn_object = 0\<rparr>),
      ctl_range = (\<lambda>_. \<lparr>range_bottom = 0, range_top = 0, range_next = 0\<rparr>),
      ctl_stack = (\<lambda>_. 0), workers_available = 36977, workers_handshake = 0, sml_check_flag = 0, gc_count = 4,
      tlv_worker = (\<lambda>_. 36976), tlv_user = (\<lambda>_. 0), ctl_heap = Some (small_heap, small_heap_state)\<rparr>"

lemma small_heap_before_gc: "heap_before_gc {32880, 36976} small_heap small_heap_state (\<lambda>_. []) one_list [] [] []"
proof -
  have p: "ap_p (heap_ptr (alloc_heap small_heap) i) = NULL" for i by (simp add: small_heap_def init_heap_def init_alloc_ptr_def clear_alloc_ptr_def)
  have "fold (\<lambda>i. save_alloc_ptr (heap_ptr (alloc_heap small_heap) i)) is st = st" for "is" st
    by (induction "is") (simp_all add: save_alloc_ptr_def p)
  then have s: "take_allocptr_snapshot (alloc_heap small_heap) st = st" for st by (simp add: take_allocptr_snapshot_def)
  have "pool_idle (hs_pool small_heap_state)" by (simp add: pool_idle_def small_heap_state_def)
  then show ?thesis
    using small_heap_collectable collectableD(1) [OF small_heap_collectable] unfolding heap_before_gc_def s by (simp add: small_heap_def)
qed

theorem gc_keeps_reachable_witness:
  "\<exists>c' alloc' hs'. sml_gc (concurrent_heap (\<lambda>_. 0) [] [] 0 0 small_runtime) \<lparr>th_worker = 0, th_user = 0, is_myth_worker = False\<rparr> True small_control = ret (6, c') \<and>
     ctl_heap c' = Some (alloc', hs') \<and> used (bytes (hs_store hs')) 32768 1 \<and> \<not> used (bytes (hs_store hs')) 32768 0"
proof -
  let ?th = "\<lparr>th_worker = 0, th_user = 0, is_myth_worker = False\<rparr>" and ?A = "{32880, 36976} :: addr set"
  let ?rt = "concurrent_heap (\<lambda>_. 0) [] [] 0 0 small_runtime"
  have 1: "alone 36976 ASYNC small_control" by (simp add: alone_def small_control_def untagged_div state_words worker_addr_def)
  have 2: "get_worker ?th small_control = 36976" "sml_check_flag small_control = 0" "even (gc_count small_control)"
    "0 = allocator (ctl_worker small_control 36976)" "ctl_heap small_control = Some (small_heap, small_heap_state)"
    by (simp_all add: small_control_def get_worker_def)
  have 3: "solo_users ?rt 36976 (\<lambda>_. []) [] small_control" by (simp add: solo_users_def small_control_def)
  have st: "hs_store small_heap_state = sample_objects" by (simp add: small_heap_state_def)
  have "(36976, y) \<notin> points_to ?A sample_objects" "(0, y) \<notin> points_to ?A sample_objects" for y
    by (auto simp: points_to_def sample_pointers_of live_target_def)
  then have 4: "contexts_ok ?A (hs_store small_heap_state) (set [] \<union> {36976, 0})"
    unfolding contexts_ok_def st by (simp add: gc_pointer_def static_ptr_def)
  have R: "reached ?A sample_objects (gc_roots (\<lambda>_. 0) ([] @ []) 36976 0 (\<lambda>_. []) [] sample_objects) = {36976}"
    by (rule sample_reached) (simp_all add: gc_roots_def slot_values_def)
  from gc_keeps_reachable [OF 1 2(1-3) 3 2(4,5) small_heap_before_gc 4, unfolded st R]
  obtain c' alloc' hs' where
    "sml_gc ?rt ?th True small_control = ret (gc_count small_control + 2, c')" "ctl_heap c' = Some (alloc', hs')"
    "kept_exactly {36976} sample_objects (alloc_heap small_heap) (\<lambda>_. []) one_list (hs_store hs')"
    by (auto simp: small_runtime_def)
  moreover have "gc_count small_control + 2 = 6" by (simp add: small_control_def)
  ultimately show ?thesis using sample_kept by auto
qed

end
