(* ===== verification/Signal.thy ===== *)
theory Signal
  imports Solo
begin

text \<open>
  Signals of the operating system (\<open>signal.c\<close>).  The handler notes the signal in a word, sets the check hook of the
  interrupted worker and asks for a collection, so that the worker runs the hook at its next check; the hook takes
  the noted signals by \<open>sml_signal_check\<close>.
\<close>

section \<open>Functions\<close>

record signal_state =
  signals :: u32
  signal_hook :: addr

definition sml_signal_check :: "signal_state \<Rightarrow> u32 \<times> signal_state" where
  "sml_signal_check s = (let r = signals s in if r \<noteq> 0 then (r, s\<lparr>signals := 0\<rparr>) else (r, s))"

definition signal_handler ::
  "'h runtime \<Rightarrow> thread \<Rightarrow> nat \<Rightarrow> signal_state \<Rightarrow> 'h control \<Rightarrow> (signal_state \<times> 'h control) result option" where
  "signal_handler rt th signum s c =
     (if signum < 32 \<and> signal_hook s \<noteq> NULL then
        let s1 = s\<lparr>signals := signals s OR push_bit signum 1\<rparr>; c1 = snd (sml_set_check_hook th (signal_hook s) c)
        in andthen (sml_gc rt th False c1) (\<lambda>(_, c2). ret (s1, c2))
      else ret (s, c))"

text \<open>
  The parameter \<open>sigaction\<close> of the operating system sets the handler of a signal and gives its result with the old one;
  \<open>SIG_DFL\<close> is the null pointer.
\<close>

definition do_sigaction :: "(nat \<Rightarrow> addr \<Rightarrow> 'o \<Rightarrow> int \<times> addr \<times> 'o) \<Rightarrow> nat \<Rightarrow> addr \<Rightarrow> 'o \<Rightarrow> int \<times> 'o" where
  "do_sigaction sigaction signum sa os =
     (let (r, old, os1) = sigaction signum sa os
      in if r = 0 \<and> old \<noteq> NULL then (let (r2, _, os2) = sigaction signum old os1 in (r2, os2)) else (r, os1))"

fun sigactions :: "(nat \<Rightarrow> addr \<Rightarrow> 'o \<Rightarrow> int \<times> addr \<times> 'o) \<Rightarrow> addr \<Rightarrow> nat list \<Rightarrow> 'o \<Rightarrow> int \<times> 'o" where
  "sigactions sigaction sa [] os = (0, os)"
| "sigactions sigaction sa (n # ns) os =
     (let (r, os1) = do_sigaction sigaction n sa os in if r \<noteq> 0 then (r, os1) else sigactions sigaction sa ns os1)"

text \<open>\<open>SIGINT\<close>, \<open>SIGHUP\<close>, \<open>SIGPIPE\<close> and \<open>SIGTERM\<close>, in this order; \<open>sigemptyset\<close> does not fail.\<close>

definition sml_signal_sigaction ::
  "(nat \<Rightarrow> addr \<Rightarrow> 'o \<Rightarrow> int \<times> addr \<times> 'o) \<Rightarrow> addr \<Rightarrow> addr \<Rightarrow> signal_state \<Rightarrow> 'o \<Rightarrow> int \<times> signal_state \<times> 'o" where
  "sml_signal_sigaction sigaction handler hook s os =
     (let (r, os1) = sigactions sigaction handler [2, 1, 13, 15] os in (r, s\<lparr>signal_hook := hook\<rparr>, os1))"

section \<open>Installation\<close>

lemma sigactions_install:
  assumes "\<And>n h d. sigaction n h d = (0, d n, d(n := h))"
  shows "sigactions sigaction sa ns d = (0, \<lambda>n. if n \<in> set ns \<and> d n = NULL then sa else d n)"
proof (induction ns arbitrary: d)
  case (Cons n ns)
  have "do_sigaction sigaction n sa d = (0, d(n := if d n = NULL then sa else d n))"
    by (simp add: do_sigaction_def assms)
  then show ?case using Cons.IH by (auto simp: fun_eq_iff)
qed (simp add: fun_eq_iff)

text \<open>The handler is installed for those of the four signals whose action is the default one; handlers that are set already stay.\<close>

lemma signal_sigaction_installs:
  assumes "\<And>n h d. sigaction n h d = (0, d n, d(n := h))"
  shows "sml_signal_sigaction sigaction handler hook s d =
    (0, s\<lparr>signal_hook := hook\<rparr>, \<lambda>n. if n \<in> {1, 2, 13, 15} \<and> d n = NULL then handler else d n)"
  unfolding sml_signal_sigaction_def sigactions_install [OF assms] by (auto simp: fun_eq_iff)

section \<open>No signal is lost\<close>

text \<open>
  The word is shared by the handlers and by all threads that check.  A check is a read and, when the value read is not zero, an exchange;
  handlers and other checks may come between the two.  The events of a run tell what the checks have returned.  A run starts when
  the hook has been set; before, the handler does nothing, which is no step.
\<close>

datatype signal_event = Delivered nat | Saw_None nat | Saw_Some nat | Reported nat u32

inductive signal_step :: "u32 \<times> nat set \<Rightarrow> signal_event \<Rightarrow> u32 \<times> nat set \<Rightarrow> bool" where
  deliver: "k < 32 \<Longrightarrow> signal_step (w, ts) (Delivered k) (w OR push_bit k 1, ts)"
| load_zero: "t \<notin> ts \<Longrightarrow> signal_step (0, ts) (Saw_None t) (0, ts)"
| load: "t \<notin> ts \<Longrightarrow> w \<noteq> 0 \<Longrightarrow> signal_step (w, ts) (Saw_Some t) (w, insert t ts)"
| swap: "t \<in> ts \<Longrightarrow> signal_step (w, ts) (Reported t w) (0, ts - {t})"

inductive signal_run :: "signal_event list \<Rightarrow> u32 \<times> nat set \<Rightarrow> bool" where
  start: "signal_run [] (0, {})"
| more: "signal_run es s \<Longrightarrow> signal_step s e s' \<Longrightarrow> signal_run (es @ [e]) s'"

inductive_cases signal_stepE: "signal_step s e s'"

text \<open>A signal is outstanding when it has been delivered after the last report of it.\<close>

definition outstanding :: "nat \<Rightarrow> signal_event list \<Rightarrow> bool" where
  "outstanding k es =
     fold (\<lambda>e b. case e of Delivered j \<Rightarrow> b \<or> j = k | Reported t w \<Rightarrow> b \<and> \<not> bit w k | _ \<Rightarrow> b) es False"

lemma outstanding_snoc:
  "outstanding k (es @ [e]) =
     (case e of Delivered j \<Rightarrow> outstanding k es \<or> j = k | Reported t w \<Rightarrow> outstanding k es \<and> \<not> bit w k | _ \<Rightarrow> outstanding k es)"
  by (cases e) (simp_all add: outstanding_def)

lemma noted_outstanding:
  assumes "signal_run es s"
  shows "\<forall>k<32. bit (fst s) k = outstanding k es"
  using assms
proof induction
  case (more es s e s')
  from more.hyps(2) more.IH show ?case
    by (auto elim!: signal_stepE simp: outstanding_snoc bit_or_iff bit_exp_iff)
qed (simp add: outstanding_def)

text \<open>
  C33: signals are reported exactly once, however handlers and checks interleave.  A check that exchanges the word returns exactly the
  signals that have been delivered since they were last reported, and a check that finds the word zero has found
  a moment at which no signal is outstanding.
\<close>

theorem signals_reported_once:
  assumes "signal_run (es @ [e]) s"
  shows "case e of Reported t w \<Rightarrow> (\<forall>k<32. bit w k = outstanding k es) \<and> (\<forall>k<32. \<not> outstanding k (es @ [e]))
    | Saw_None t \<Rightarrow> (\<forall>k<32. \<not> outstanding k es) | Saw_Some t \<Rightarrow> (\<exists>k<32. outstanding k es) | Delivered k \<Rightarrow> outstanding k (es @ [e])"
proof -
  from assms obtain s0 where s0: "signal_run es s0" "signal_step s0 e s" by (cases rule: signal_run.cases) auto
  note n0 = noted_outstanding [OF s0(1)] and n1 = noted_outstanding [OF assms]
  from s0(2) show ?thesis
  proof cases
    case (load t ts w)
    then obtain k where "bit w k" by (auto simp: bit_eq_iff)
    moreover from this have "k < 32" using bit_imp_le_length [of w k] by simp
    ultimately show ?thesis using n0 load by auto
  qed (use n0 n1 in \<open>auto simp: outstanding_snoc\<close>)
qed

theorem signals_reported_once_witness:
  "\<not> outstanding 2 [Delivered 2, Saw_Some 0, Delivered 15, Reported 0 (4 OR 32768)]"
proof -
  have 1: "signal_run [Delivered 2] (4, {})" using more [OF start deliver [of 2]] by simp
  have 2: "signal_run [Delivered 2, Saw_Some 0] (4, {0})" using more [OF 1 load [of 0]] by simp
  have 3: "signal_run [Delivered 2, Saw_Some 0, Delivered 15] (4 OR 32768, {0})" using more [OF 2 deliver [of 15]] by simp
  have "signal_run ([Delivered 2, Saw_Some 0, Delivered 15] @ [Reported 0 (4 OR 32768)]) (0, {})"
    using more [OF 3 swap [of 0]] by simp
  from signals_reported_once [OF this] show ?thesis by simp
qed

section \<open>The interrupted worker\<close>

lemma signal_handler_interrupts:
  assumes "alone w ASYNC c" and "get_worker th c = w" and "sml_check_flag c = 0" and "even (gc_count c)"
    and "signum < 32" and "signal_hook s \<noteq> NULL"
  shows "\<exists>c'. signal_handler rt th signum s c = ret (s\<lparr>signals := signals s OR push_bit signum 1\<rparr>, c') \<and>
    check_hook (ctl_worker c' w) = signal_hook s \<and> sml_check_flag c' = 1 \<and> worker_state (ctl_worker c' w) = state_word PRESYNC1 Owned"
proof -
  define c1 where "c1 = (upd_worker w (\<lambda>x. x\<lparr>check_hook := signal_hook s\<rparr>) c)\<lparr>gc_count := gc_count c OR 1\<rparr>"
  have wl: "worker_list c1 (untagged (workers_available c1)) [w]"
    and st: "worker_state (ctl_worker c1 w) = state_word ASYNC Owned" and rm: "\<forall>v\<in>set [w]. \<not> removable ASYNC c1 v"
    using assms(1) by (simp_all add: alone_def c1_def upd_worker_def removable_def is_dead_def)
  have "gc_count c AND 1 = 0" using assms(4) by (simp add: and_one_eq mod_2_eq_odd)
  then have "sml_gc rt th False (snd (sml_set_check_hook th (signal_hook s) c)) =
      Option.bind (advance rt SYNC1 ASYNC PRESYNC1 c1) (\<lambda>c2. ret (gc_count c + 2, c2))"
    using assms(2) by (simp add: sml_gc_def sml_set_check_hook_def c1_def upd_worker_def Let_def)
  then have "signal_handler rt th signum s c =
      Option.bind (advance rt SYNC1 ASYNC PRESYNC1 c1) (\<lambda>c2. ret (s\<lparr>signals := signals s OR push_bit signum 1\<rparr>, c2))"
    using assms(5,6) by (simp add: signal_handler_def advance_eq [OF wl _ rm])
  moreover have "sml_check_flag c1 = 0" "check_hook (ctl_worker c1 w) = signal_hook s" using assms(3) by (simp_all add: c1_def upd_worker_def)
  ultimately show ?thesis using st advance_eq [OF wl _ rm, of rt SYNC1 PRESYNC1]
    by (simp add: change_states_def change_state_word is_phase_def)
qed

end
