(* ===== verification/Prim.thy ===== *)
theory Prim
  imports Memory
begin

text \<open>
  The primitives of the Basis Library (\<open>prim.c\<close>) that compute something of their own: comparison and
  printing, names of system errors, modes of files, polling, paths, dates, file status and conversions
  of big integers.  Calls of the operating system and of the library of big integers are parameters.
  A string argument is the list of its characters without the null character behind it.
\<close>

section \<open>Comparison of strings\<close>

fun memcmp_loop :: "mem \<Rightarrow> addr \<Rightarrow> addr \<Rightarrow> nat \<Rightarrow> int" where
  "memcmp_loop m s1 s2 0 = 0"
| "memcmp_loop m s1 s2 (Suc len) =
     (if m s1 \<noteq> m s2 then int (unat (m s1)) - int (unat (m s2)) else memcmp_loop m (s1 + 1) (s2 + 1) len)"

definition sml_memcmp :: "mem \<Rightarrow> addr \<Rightarrow> nat \<Rightarrow> addr \<Rightarrow> nat \<Rightarrow> int \<Rightarrow> int" where
  "sml_memcmp m s1 i1 s2 i2 len = (if s1 + i1 = s2 + i2 then 0 else memcmp_loop m (s1 + i1) (s2 + i2) (nat len))"

section \<open>Printing of numbers\<close>

text \<open>\<open>buf[--index] = c\<close>; there is no result when this is outside of the buffer.\<close>

definition put_char :: "char \<Rightarrow> char list \<Rightarrow> nat \<Rightarrow> (char list \<times> nat) option" where
  "put_char c buf index = (if 0 < index \<and> index \<le> length buf then Some (buf[index - 1 := c], index - 1) else None)"

definition digits :: string where
  "digits = ''0123456789ABCDEF''"

text \<open>A radix outside of 2 to 16 divides by zero, does not end or reads behind the digits.\<close>

partial_function (option) fmt_loop :: "nat \<Rightarrow> nat \<Rightarrow> char list \<Rightarrow> nat \<Rightarrow> (char list \<times> nat) option" where
  "fmt_loop value radix buf index =
     (if value = 0 then Some (buf, index)
      else if radix = 0 \<or> value mod radix \<ge> length digits then None
      else Option.bind (put_char (digits ! (value mod radix)) buf index) (\<lambda>(buf', index').
             fmt_loop (value div radix) radix buf' index'))"

definition fmt :: "u32 \<Rightarrow> nat \<Rightarrow> char list \<Rightarrow> nat \<Rightarrow> (char list \<times> nat) option" where
  "fmt value radix buf index =
     (if value = 0 then put_char CHR ''0'' buf index else fmt_loop (unat value) radix buf index)"

definition fmt_buf :: "char list" where
  "fmt_buf = replicate (4 * 8 + 2) CHR 0x00"

definition fmt_int :: "u32 \<Rightarrow> nat \<Rightarrow> string option" where
  "fmt_int value radix =
     Option.bind (fmt (if sint value < 0 then 0 - value else value) radix fmt_buf (length fmt_buf)) (\<lambda>(buf, i).
       map_option (\<lambda>(buf', i'). drop i' buf') (if sint value < 0 then put_char CHR ''~'' buf i else Some (buf, i)))"

section \<open>Names of system errors\<close>

text \<open>The parameter \<open>E\<close> gives the numbers of the constants of \<open>errno.h\<close>.\<close>

definition sys_errors :: "(string \<Rightarrow> u32) \<Rightarrow> (u32 \<times> string) list" where
  "sys_errors E =
     [(E ''EACCES'', ''acces''), (E ''EAGAIN'', ''again''), (E ''EBADF'', ''badf''), (E ''EBADMSG'', ''badmsg''), (E ''EBUSY'', ''busy''),
      (E ''ECANCELED'', ''canceled''), (E ''ECHILD'', ''child''), (E ''EDEADLK'', ''deadlk''), (E ''EDOM'', ''dom''), (E ''EEXIST'', ''exist''),
      (E ''EFAULT'', ''fault''), (E ''EFBIG'', ''fbig''), (E ''EINPROGRESS'', ''inprogress''), (E ''EINTR'', ''intr''), (E ''EINVAL'', ''inval''),
      (E ''EIO'', ''io''), (E ''EISDIR'', ''isdir''), (E ''ELOOP'', ''loop''), (E ''EMFILE'', ''mfile''), (E ''EMLINK'', ''mlink''),
      (E ''EMSGSIZE'', ''msgsize''), (E ''ENAMETOOLONG'', ''nametoolong''), (E ''ENFILE'', ''nfile''), (E ''ENODEV'', ''nodev''), (E ''ENOENT'', ''noent''),
      (E ''ENOEXEC'', ''noexec''), (E ''ENOLCK'', ''nolck''), (E ''ENOMEM'', ''nomem''), (E ''ENOSPC'', ''nospc''), (E ''ENOSYS'', ''nosys''),
      (E ''ENOTDIR'', ''notdir''), (E ''ENOTEMPTY'', ''notempty''), (E ''ENOTSUP'', ''notsup''), (E ''ENOTTY'', ''notty''), (E ''ENXIO'', ''nxio''),
      (E ''EPERM'', ''perm''), (E ''EPIPE'', ''pipe''), (E ''ERANGE'', ''range''), (E ''EROFS'', ''rofs''), (E ''ESPIPE'', ''spipe''),
      (E ''ESRCH'', ''srch''), (E ''E2BIG'', ''toobig''), (E ''EXDEV'', ''xdev'')]"

definition prim_GenericOS_errorName :: "(string \<Rightarrow> u32) \<Rightarrow> u32 \<Rightarrow> string option" where
  "prim_GenericOS_errorName E errnum =
     (case find (\<lambda>e. fst e = errnum) (sys_errors E) of None \<Rightarrow> fmt_int errnum 10 | Some e \<Rightarrow> Some (snd e))"

text \<open>
  What the C library sees of a string ends at the first null character.  \<open>atoi\<close> reads digits behind
  spaces and a sign; a number that is no \<open>int\<close> has no defined result.
\<close>

definition c_view :: "string \<Rightarrow> string" where
  "c_view s = takeWhile (\<lambda>c. c \<noteq> CHR 0x00) s"

definition isdigit :: "char \<Rightarrow> bool" where
  "isdigit c \<longleftrightarrow> 48 \<le> (of_char c :: nat) \<and> (of_char c :: nat) \<le> 57"

definition isspace :: "char \<Rightarrow> bool" where
  "isspace c \<longleftrightarrow> (of_char c :: nat) = 32 \<or> 9 \<le> (of_char c :: nat) \<and> (of_char c :: nat) \<le> 13"

definition decimal :: "string \<Rightarrow> int" where
  "decimal s = foldl (\<lambda>n c. 10 * n + (int (of_char c) - 48)) 0 (takeWhile isdigit s)"

definition atoi :: "string \<Rightarrow> u32 option" where
  "atoi s =
     (let s1 = dropWhile isspace (c_view s);
          n = (if s1 \<noteq> [] \<and> hd s1 = CHR ''-'' then - decimal (tl s1)
               else if s1 \<noteq> [] \<and> hd s1 = CHR ''+'' then decimal (tl s1) else decimal s1)
      in if - (2 ^ 31) \<le> n \<and> n < 2 ^ 31 then Some (word_of_int n) else None)"

definition prim_GenericOS_syserror :: "(string \<Rightarrow> u32) \<Rightarrow> string \<Rightarrow> u32 option" where
  "prim_GenericOS_syserror E errorname =
     (if errorname \<noteq> [] \<and> isdigit (hd errorname) then atoi errorname
      else case find (\<lambda>e. c_view errorname = snd e) (sys_errors E) of None \<Rightarrow> Some (- 1) | Some e \<Rightarrow> Some (fst e))"

section \<open>Files\<close>

text \<open>The mode string of \<open>fopen\<close>; \<open>O_BINARY\<close> does not exist on POSIX systems, and no result stands for \<open>EINVAL\<close>.\<close>

datatype open_flag = O_RDONLY | O_WRONLY | O_RDWR | O_TRUNC | O_CREAT | O_APPEND

definition char_at :: "string \<Rightarrow> nat \<Rightarrow> char" where
  "char_at s i = (if i < length s then s ! i else CHR 0x00)"

definition open_flags :: "string \<Rightarrow> open_flag set option" where
  "open_flags fmode =
     (let c = char_at fmode 0;
          i = (if char_at fmode 1 = CHR ''b'' then 2 else 1);
          mode = (\<lambda>flags subflags. Some ({if char_at fmode i = CHR ''+'' then O_RDWR else flags} \<union> subflags))
      in if c = CHR ''r'' then mode O_RDONLY {}
         else if c = CHR ''w'' then mode O_WRONLY {O_TRUNC, O_CREAT}
         else if c = CHR ''a'' then mode O_WRONLY {O_APPEND, O_CREAT}
         else None)"

definition prim_GenericOS_open :: "(string \<Rightarrow> open_flag set \<Rightarrow> nat \<Rightarrow> int) \<Rightarrow> string \<Rightarrow> string \<Rightarrow> int" where
  "prim_GenericOS_open os_open filename fmode =
     (case open_flags fmode of None \<Rightarrow> - 1 | Some flags \<Rightarrow> os_open (c_view filename) flags 438)"

text \<open>The fields of \<open>struct stat\<close> are 64 bits wide, the elements of the array 32.\<close>

record stat =
  st_dev :: u64
  st_ino :: u64
  st_mode :: u32
  st_atime :: u64
  st_mtime :: u64
  st_size :: u64

definition set_stat :: "stat \<Rightarrow> u32 list \<Rightarrow> u32 list" where
  "set_stat st arr = [ucast (st_dev st), ucast (st_ino st), st_mode st, ucast (st_atime st), ucast (st_mtime st), ucast (st_size st)] @ drop 6 arr"

text \<open>The three functions differ in the call of the operating system.\<close>

definition stat_with :: "('f \<Rightarrow> int + stat) \<Rightarrow> 'f \<Rightarrow> u32 list \<Rightarrow> int \<times> u32 list" where
  "stat_with call f arr = (case call f of Inl err \<Rightarrow> (err, arr) | Inr st \<Rightarrow> (0, set_stat st arr))"

definition prim_GenericOS_fstat :: "(int \<Rightarrow> int + stat) \<Rightarrow> int \<Rightarrow> u32 list \<Rightarrow> int \<times> u32 list" where
  "prim_GenericOS_fstat = stat_with"

definition prim_GenericOS_stat :: "(string \<Rightarrow> int + stat) \<Rightarrow> string \<Rightarrow> u32 list \<Rightarrow> int \<times> u32 list" where
  "prim_GenericOS_stat call filename = stat_with call (c_view filename)"

definition prim_GenericOS_lstat :: "(string \<Rightarrow> int + stat) \<Rightarrow> string \<Rightarrow> u32 list \<Rightarrow> int \<times> u32 list" where
  "prim_GenericOS_lstat call filename = stat_with call (c_view filename)"

text \<open>
  \<open>os_readlink filename size\<close> gives the characters that the call writes into its buffer.  All calls
  write into the array \<open>buf\<close> of 128 characters, also those of the loop, which get a larger size.
\<close>

datatype 'a memory_access = Access 'a | Overflow

partial_function (option) readlink_loop ::
  "(string \<Rightarrow> nat \<Rightarrow> string option) \<Rightarrow> string \<Rightarrow> nat \<Rightarrow> string option \<Rightarrow> string option memory_access option" where
  "readlink_loop os_readlink filename len written =
     (if written = None \<or> length (the written) < len then Some (Access written)
      else
        let t = os_readlink filename len
        in if t \<noteq> None \<and> length (the t) > 128 then Some Overflow else readlink_loop os_readlink filename (2 * len) t)"

definition prim_GenericOS_readlink :: "(string \<Rightarrow> nat \<Rightarrow> string option) \<Rightarrow> string \<Rightarrow> string option memory_access option" where
  "prim_GenericOS_readlink os_readlink filename =
     (case os_readlink (c_view filename) 128 of
        None \<Rightarrow> Some (Access None)
      | Some s \<Rightarrow> if length s < 128 then Some (Access (Some s)) else readlink_loop os_readlink (c_view filename) 128 (Some s))"

text \<open>\<open>os_getcwd size\<close> gives the path, or \<open>Inl True\<close> for \<open>ERANGE\<close> and \<open>Inl False\<close> for other errors.\<close>

partial_function (option) getcwd_loop :: "(nat \<Rightarrow> bool + string) \<Rightarrow> nat \<Rightarrow> string option option" where
  "getcwd_loop os_getcwd sz =
     (case os_getcwd sz of
        Inr pwd \<Rightarrow> Some (Some pwd)
      | Inl erange \<Rightarrow> if \<not> erange then Some None else getcwd_loop os_getcwd (sz + 256))"

definition prim_GenericOS_getcwd :: "(nat \<Rightarrow> bool + string) \<Rightarrow> string option option" where
  "prim_GenericOS_getcwd os_getcwd = getcwd_loop os_getcwd 256"

section \<open>Polling\<close>

definition SML_POLLIN :: u32 where "SML_POLLIN = 1"
definition SML_POLLOUT :: u32 where "SML_POLLOUT = 2"
definition SML_POLLPRI :: u32 where "SML_POLLPRI = 4"

text \<open>
  \<open>fd_set\<close> holds descriptors below \<open>FD_SETSIZE\<close>, 1024.  \<open>os_select\<close> gets the number, the three sets and the timeout, and
  gives its result with the sets as they are afterwards.
\<close>

type_synonym fd_sets = "int set \<times> int set \<times> int set"

definition fd_ok :: "int \<Rightarrow> bool" where
  "fd_ok fd \<longleftrightarrow> 0 \<le> fd \<and> fd < 1024"

fun poll_sets :: "(int \<times> u32) list \<Rightarrow> int \<Rightarrow> fd_sets \<Rightarrow> (int \<times> fd_sets) option" where
  "poll_sets [] nfds sets = Some (nfds, sets)"
| "poll_sets ((fd, ev) # rest) nfds (infds, outfds, prifds) =
     (if ev AND (SML_POLLIN OR SML_POLLOUT OR SML_POLLPRI) \<noteq> 0 \<and> \<not> fd_ok fd then None
      else
        let add = (\<lambda>flag s. if ev AND flag \<noteq> 0 then insert fd s else s);
            setfd = (if ev AND (SML_POLLIN OR SML_POLLOUT OR SML_POLLPRI) \<noteq> 0 then fd else 0)
        in poll_sets rest (if nfds > setfd then nfds else setfd) (add SML_POLLIN infds, add SML_POLLOUT outfds, add SML_POLLPRI prifds))"

definition poll_event :: "fd_sets \<Rightarrow> int \<Rightarrow> u32" where
  "poll_event sets fd =
     (case sets of (infds, outfds, prifds) \<Rightarrow>
        (if fd \<notin> infds then SML_POLLIN else 0) OR (if fd \<notin> outfds then SML_POLLOUT else 0) OR
        (if fd \<notin> prifds then SML_POLLPRI else 0))"

definition prim_GenericOS_poll ::
  "(int \<Rightarrow> fd_sets \<Rightarrow> (int \<times> int) option \<Rightarrow> int \<times> fd_sets) \<Rightarrow> int list \<Rightarrow> u32 list \<Rightarrow> int \<Rightarrow> int \<Rightarrow> (int \<times> u32 list) option" where
  "prim_GenericOS_poll os_select fdary evary timeout_sec timeout_usec =
     Option.bind (poll_sets (zip fdary evary) 0 ({}, {}, {})) (\<lambda>(nfds, sets).
       let (err, ready) = os_select (nfds + 1) sets (if timeout_sec < 0 \<or> timeout_usec < 0 then None else Some (timeout_sec, timeout_usec))
       in if err < 0 then Some (err, evary)
          else if list_all fd_ok fdary then Some (err, map (poll_event ready) fdary) else None)"

section \<open>Dates\<close>

text \<open>The nine fields of \<open>struct tm\<close> that the code copies, in their order, which is the order in the array.\<close>

record tm =
  tm_sec :: u32
  tm_min :: u32
  tm_hour :: u32
  tm_mday :: u32
  tm_mon :: u32
  tm_year :: u32
  tm_wday :: u32
  tm_yday :: u32
  tm_isdst :: u32

definition copy_tm :: "tm \<Rightarrow> u32 list \<Rightarrow> u32 list" where
  "copy_tm tm arr =
     [tm_sec tm, tm_min tm, tm_hour tm, tm_mday tm, tm_mon tm, tm_year tm, tm_wday tm, tm_yday tm, tm_isdst tm] @ drop 9 arr"

definition prim_Date_localTime :: "(u64 \<Rightarrow> tm option) \<Rightarrow> u32 \<Rightarrow> u32 list \<Rightarrow> int \<times> u32 list" where
  "prim_Date_localTime localtime time arr = (case localtime (scast time) of None \<Rightarrow> (- 1, arr) | Some tm \<Rightarrow> (0, copy_tm tm arr))"

definition prim_Date_gmTime :: "(u64 \<Rightarrow> tm option) \<Rightarrow> u32 \<Rightarrow> u32 list \<Rightarrow> int \<times> u32 list" where
  "prim_Date_gmTime gmtime time arr = (case gmtime (scast time) of None \<Rightarrow> (- 1, arr) | Some tm \<Rightarrow> (0, copy_tm tm arr))"

definition prim_Date_mkTime :: "(tm \<Rightarrow> u64) \<Rightarrow> u32 list \<Rightarrow> u32" where
  "prim_Date_mkTime mktime time =
     ucast (mktime \<lparr>tm_sec = time ! 0, tm_min = time ! 1, tm_hour = time ! 2, tm_mday = time ! 3, tm_mon = time ! 4,
       tm_year = time ! 5, tm_wday = time ! 6, tm_yday = time ! 7, tm_isdst = time ! 8\<rparr>)"

section \<open>Big integers\<close>

text \<open>
  Conversions between words and the numbers of the GMP library, which are integers here.  The functions \<open>mpz_get_si\<close>, \<open>mpz_get_ui\<close>, \<open>mpz_sgn\<close>,
  \<open>mpz_set_si\<close> and \<open>mpz_set_ui\<close> are parameters; \<open>long\<close> has 64 bits.
\<close>

definition prim_IntInf_toWord :: "(int \<Rightarrow> u64) \<Rightarrow> int \<Rightarrow> u32" where
  "prim_IntInf_toWord get_si obj = ucast (get_si obj)"

definition prim_IntInf_toWord64 :: "(int \<Rightarrow> u64) \<Rightarrow> (int \<Rightarrow> int) \<Rightarrow> int \<Rightarrow> u64" where
  "prim_IntInf_toWord64 get_ui mpz_sgn obj = (let n = get_ui obj in if mpz_sgn obj < 0 then - n else n)"

definition prim_IntInf_fromInt :: "(u64 \<Rightarrow> int) \<Rightarrow> u32 \<Rightarrow> int" where
  "prim_IntInf_fromInt set_si x = set_si (scast x)"

definition prim_IntInf_fromWord :: "(u64 \<Rightarrow> int) \<Rightarrow> u32 \<Rightarrow> int" where
  "prim_IntInf_fromWord set_ui x = set_ui (ucast x)"

definition prim_IntInf_fromInt64 :: "(u64 \<Rightarrow> int) \<Rightarrow> u64 \<Rightarrow> int" where
  "prim_IntInf_fromInt64 set_si x = set_si x"

definition prim_IntInf_fromWord64 :: "(u64 \<Rightarrow> int) \<Rightarrow> u64 \<Rightarrow> int" where
  "prim_IntInf_fromWord64 set_ui x = set_ui x"

section \<open>Comparison is lexicographic\<close>

definition bytes_at :: "mem \<Rightarrow> addr \<Rightarrow> nat \<Rightarrow> u8 list" where
  "bytes_at m a n = map (\<lambda>i. m (a + i)) [0..<n]"

lemma bytes_at_Suc [simp]: "bytes_at m a (Suc n) = m a # bytes_at m (a + 1) n" "bytes_at m a 0 = []"
  by (simp_all add: bytes_at_def upt_conv_Cons map_Suc_upt [symmetric] del: upt_Suc)

lemma memcmp_loop_lexord:
  "(memcmp_loop m s1 s2 n = 0 \<longleftrightarrow> bytes_at m s1 n = bytes_at m s2 n) \<and>
   (memcmp_loop m s1 s2 n < 0 \<longleftrightarrow> (bytes_at m s1 n, bytes_at m s2 n) \<in> lexord {(a, b). a < b})"
proof (induction n arbitrary: s1 s2)
  case (Suc n)
  have "int (unat (m s1)) - int (unat (m s2)) \<noteq> 0" if "m s1 \<noteq> m s2" using that by (metis diff_eq_eq add_0 of_nat_eq_iff word_unat_eq_iff)
  moreover have "int (unat (m s1)) - int (unat (m s2)) < 0 \<longleftrightarrow> m s1 < m s2" unfolding word_less_nat_alt by linarith
  ultimately show ?case using Suc.IH by simp
qed simp

text \<open>
  C40: \<open>sml_memcmp\<close> compares the two ranges of bytes as unsigned numbers in lexicographic order: the result is 0
  exactly for equal ranges and negative exactly when the first comes before the second.
\<close>

theorem memcmp_lexicographic:
  "(sml_memcmp m s1 i1 s2 i2 len = 0 \<longleftrightarrow> bytes_at m (s1 + i1) (nat len) = bytes_at m (s2 + i2) (nat len)) \<and>
   (sml_memcmp m s1 i1 s2 i2 len < 0 \<longleftrightarrow> (bytes_at m (s1 + i1) (nat len), bytes_at m (s2 + i2) (nat len)) \<in> lexord {(a, b). a < b})"
proof (cases "s1 + i1 = s2 + i2")
  case True
  moreover have "(x, x) \<notin> lexord {(a :: u8, b). a < b}" for x by (rule lexord_irreflexive) simp
  ultimately show ?thesis by (simp add: sml_memcmp_def)
next
  case False
  then show ?thesis using memcmp_loop_lexord [of m "s1 + i1" "s2 + i2" "nat len"] by (simp add: sml_memcmp_def)
qed

section \<open>Printed numbers\<close>

lemma unat_abs_sint: "unat (if sint v < 0 then 0 - v else v) = nat \<bar>sint (v :: u32)\<bar>"
proof -
  have r: "- 2147483648 \<le> sint v" "sint v < 2147483648" using sint_ge [of v] sint_lt [of v] by simp_all
  have v: "word_of_int (sint v) = v" by simp
  have u: "unat (word_of_int k :: u32) = nat k" if "0 \<le> k" "k \<le> 2147483648" for k
    using that by (simp add: unsigned_of_int take_bit_int_eq_self)
  have "0 - v = word_of_int (- sint v)" using v by (metis diff_0 of_int_minus)
  then show ?thesis using u [of "sint v"] u [of "- sint v"] r v by (auto simp: abs_if)
qed

definition radix_value :: "nat \<Rightarrow> nat list \<Rightarrow> nat" where
  "radix_value r ds = foldl (\<lambda>n d. n * r + d) 0 ds"

text \<open>The digits of a number: most significant first, no zero in front.\<close>

definition digits_of :: "nat \<Rightarrow> nat \<Rightarrow> nat list \<Rightarrow> bool" where
  "digits_of r n ds \<longleftrightarrow> ds \<noteq> [] \<and> radix_value r ds = n \<and> (\<forall>d\<in>set ds. d < r) \<and> (hd ds = 0 \<longrightarrow> ds = [0])"

definition digit_chars :: "nat list \<Rightarrow> string" where
  "digit_chars ds = map (\<lambda>d. digits ! d) ds"

lemma put_char_some: "0 < i \<Longrightarrow> i \<le> length buf \<Longrightarrow> put_char c buf i = Some (take (i - 1) buf @ c # drop i buf, i - 1)"
  by (cases i) (simp_all add: put_char_def upd_conv_take_nth_drop)

lemma fmt_loop_digits:
  assumes "2 \<le> r" "r \<le> 16" "0 < v" "v < r ^ k" "k \<le> i" "i \<le> length buf"
  shows "\<exists>ds. fmt_loop v r buf i = Some (take (i - length ds) buf @ digit_chars ds @ drop i buf, i - length ds) \<and>
    digits_of r v ds \<and> length ds \<le> k"
  using assms(3-)
proof (induction v arbitrary: k i buf rule: less_induct)
  case (less v)
  have k: "0 < k" using less.prems(1,2) by (cases k) auto
  let ?b = "take (i - 1) buf @ digits ! (v mod r) # drop i buf"
  have d: "v mod r < r" using assms(1) by simp
  then have "v mod r < length digits" using assms(2) by (simp add: digits_def)
  then have step: "fmt_loop v r buf i = fmt_loop (v div r) r ?b (i - 1)"
    using less.prems k assms(1) by (subst fmt_loop.simps) (simp add: put_char_some)
  show ?case
  proof (cases "v div r = 0")
    case True
    then have "v mod r = v" "v < r" using assms(1) by (auto simp: div_eq_0_iff)
    then have "digits_of r v [v]" using less.prems(1) by (simp add: digits_of_def radix_value_def)
    moreover have "fmt_loop v r buf i = Some (?b, i - 1)" unfolding step True by (subst fmt_loop.simps) simp
    ultimately show ?thesis using k \<open>v mod r = v\<close> by (intro exI [of _ "[v]"]) (simp add: digit_chars_def)
  next
    case False
    have lt: "v div r < v" using less.prems(1) assms(1) by simp
    have "v div r < r ^ (k - 1)" using less.prems(2) k assms(1)
      by (cases k) (simp_all add: less_mult_imp_div_less mult.commute)
    moreover have "k - 1 \<le> i - 1" "i - 1 \<le> length ?b" using less.prems k by simp_all
    ultimately obtain ds where ds: "fmt_loop (v div r) r ?b (i - 1) =
        Some (take (i - 1 - length ds) ?b @ digit_chars ds @ drop (i - 1) ?b, i - 1 - length ds)"
      "digits_of r (v div r) ds" "length ds \<le> k - 1"
      using less.IH [OF lt, of "k - 1" "i - 1" ?b] False by blast
    have "digits_of r v (ds @ [v mod r])" using ds(2) d False
      by (auto simp: digits_of_def radix_value_def)
    moreover have "take (i - 1 - length ds) ?b = take (i - Suc (length ds)) buf" "drop (i - 1) ?b = digits ! (v mod r) # drop i buf"
      using less.prems k by simp_all
    ultimately show ?thesis using ds(1,3) k unfolding step
      by (intro exI [of _ "ds @ [v mod r]"]) (simp add: digit_chars_def)
  qed
qed

lemma fmt_digits:
  assumes "2 \<le> r" "r \<le> 16" "32 \<le> i" "i \<le> length buf"
  shows "\<exists>ds. fmt v r buf i = Some (take (i - length ds) buf @ digit_chars ds @ drop i buf, i - length ds) \<and>
    digits_of r (unat v) ds \<and> length ds \<le> 32"
proof (cases "v = 0")
  case True
  then show ?thesis using assms
    by (intro exI [of _ "[0]"]) (simp add: fmt_def put_char_some digit_chars_def digits_def digits_of_def radix_value_def)
next
  case False
  have "unat v < 2 ^ 32" using unsigned_less [of v] by simp
  also have "\<dots> \<le> r ^ 32" using assms(1) by (rule power_mono) simp
  finally show ?thesis using fmt_loop_digits [OF assms(1,2) _ _ assms(3,4), of "unat v"] False by (simp add: fmt_def unat_gt_0)
qed

lemma fmt_int_digits:
  assumes "2 \<le> radix" and "radix \<le> 16"
  shows "\<exists>ds. fmt_int value radix = Some ((if sint value < 0 then ''~'' else []) @ digit_chars ds) \<and>
    digits_of radix (nat \<bar>sint value\<bar>) ds \<and> length ds \<le> 32"
proof -
  let ?v = "if sint value < 0 then 0 - value else value"
  have v: "unat ?v = nat \<bar>sint value\<bar>" by (rule unat_abs_sint)
  have l: "length fmt_buf = 34" by (simp add: fmt_buf_def)
  from fmt_digits [OF assms, of 34 fmt_buf ?v] l obtain ds where
    ds: "fmt ?v radix fmt_buf 34 = Some (take (34 - length ds) fmt_buf @ digit_chars ds, 34 - length ds)"
      "digits_of radix (nat \<bar>sint value\<bar>) ds" "length ds \<le> 32" unfolding v by auto
  have "length (digit_chars ds) = length ds" by (simp add: digit_chars_def)
  then have "fmt_int value radix = Some ((if sint value < 0 then ''~'' else []) @ digit_chars ds)"
    using ds(1,3) l by (simp add: fmt_int_def put_char_some)
  then show ?thesis using ds(2,3) by blast
qed

text \<open>
  C35: \<open>fmt_int\<close> prints every \<open>int\<close>, the least one included, in every radix from 2 to 16, without leaving its buffer of 34
  characters: the digits of the absolute value, most significant first and without leading zeros, behind the
  sign of ML, if there is one.
\<close>

theorem fmt_int_prints:
  assumes "2 \<le> radix" and "radix \<le> 16"
  shows "\<exists>ds. fmt_int value radix = Some ((if sint value < 0 then ''~'' else []) @ digit_chars ds) \<and>
    digits_of radix (nat \<bar>sint value\<bar>) ds \<and> length ds \<le> 32"
  using assms by (rule fmt_int_digits)

theorem fmt_int_prints_witness:
  "\<exists>ds. fmt_int (- 2147483648) 16 = Some (''~'' @ digit_chars ds) \<and> digits_of 16 2147483648 ds"
  using fmt_int_prints [of 16 "- 2147483648"] by auto

section \<open>Names of errors read back\<close>

lemma digit_char_isdigit: "d < 10 \<Longrightarrow> isdigit (digits ! d) \<and> int (of_char (digits ! d)) - 48 = int d \<and> digits ! d \<noteq> CHR 0x00 \<and> \<not> isspace (digits ! d)"
proof -
  assume "d < 10"
  then have "d \<in> {0, 1, 2, 3, 4, 5, 6, 7, 8, 9}" by auto
  then show ?thesis by (elim insertE emptyE) (simp_all add: digits_def isdigit_def isspace_def)
qed

lemma decimal_digits:
  assumes "\<forall>d\<in>set ds. d < 10"
  shows "decimal (digit_chars ds) = int (radix_value 10 ds)"
proof -
  have t: "takeWhile isdigit (digit_chars ds) = digit_chars ds"
    using assms digit_char_isdigit by (auto simp: takeWhile_eq_all_conv digit_chars_def)
  have "foldl (\<lambda>n c. 10 * n + (int (of_char c) - 48)) (int a) (digit_chars ds) = int (foldl (\<lambda>n d. n * 10 + d) a ds)" for a
    using assms
  proof (induction ds arbitrary: a)
    case (Cons d ds)
    then show ?case using digit_char_isdigit [of d] Cons.IH [of "a * 10 + d"] by (simp add: digit_chars_def algebra_simps)
  qed (simp add: digit_chars_def)
  from this [of 0] show ?thesis by (simp add: decimal_def t radix_value_def)
qed

lemma atoi_digits:
  assumes "ds \<noteq> []" and "\<forall>d\<in>set ds. d < 10" and "radix_value 10 ds < 2 ^ 31"
  shows "atoi (digit_chars ds) = Some (word_of_nat (radix_value 10 ds))"
proof -
  have v: "c_view (digit_chars ds) = digit_chars ds"
    using assms(2) digit_char_isdigit by (auto simp: c_view_def takeWhile_eq_all_conv digit_chars_def)
  obtain d es where ds: "ds = d # es" using assms(1) by (cases ds) auto
  then have d: "isdigit (digits ! d)" "\<not> isspace (digits ! d)" using digit_char_isdigit assms(2) by simp_all
  then have w: "dropWhile isspace (digit_chars ds) = digit_chars ds" by (simp add: ds digit_chars_def)
  have h: "hd (digit_chars ds) \<noteq> CHR ''-''" "hd (digit_chars ds) \<noteq> CHR ''+''" using d(1) by (auto simp: ds digit_chars_def isdigit_def)
  show ?thesis using assms(3) unfolding atoi_def v w Let_def decimal_digits [OF assms(2)] using h by simp
qed

lemma sys_error_names:
  "distinct (map snd (sys_errors E))" "\<forall>e\<in>set (sys_errors E). snd e \<noteq> [] \<and> \<not> isdigit (hd (snd e)) \<and> c_view (snd e) = snd e"
  by (simp_all add: sys_errors_def isdigit_def c_view_def)

lemma find_distinct_snd:
  "distinct (map snd xs) \<Longrightarrow> e \<in> set xs \<Longrightarrow> find (\<lambda>x. snd e = snd x) xs = Some e"
  by (induction xs) (auto simp: image_iff)

text \<open>
  C34: \<open>prim_GenericOS_syserror\<close> reads back what \<open>prim_GenericOS_errorName\<close> prints: for every error number that has a name or is not
  negative the two give the number back, whatever numbers the system gives to its errors.  A negative
  number without a name is printed with the sign of ML, which is not read: the result is -1.
\<close>

theorem errorname_roundtrip:
  "\<exists>s. prim_GenericOS_errorName E errnum = Some s \<and>
     prim_GenericOS_syserror E s = Some (if errnum \<in> fst ` set (sys_errors E) \<or> 0 \<le> sint errnum then errnum else - 1)"
proof (cases "find (\<lambda>e. fst e = errnum) (sys_errors E)")
  case (Some e)
  then have e: "e \<in> set (sys_errors E)" "fst e = errnum" by (auto simp: find_Some_iff)
  then have "prim_GenericOS_syserror E (snd e) = Some errnum"
    using sys_error_names(2) find_distinct_snd [OF sys_error_names(1) e(1)] by (auto simp: prim_GenericOS_syserror_def)
  then show ?thesis using Some e by (auto simp: prim_GenericOS_errorName_def)
next
  case None
  then have n: "errnum \<notin> fst ` set (sys_errors E)" by (auto simp: find_None_iff)
  from fmt_int_digits [of 10 errnum] obtain ds where
    ds: "fmt_int errnum 10 = Some ((if sint errnum < 0 then ''~'' else []) @ digit_chars ds)" "digits_of 10 (nat \<bar>sint errnum\<bar>) ds" by auto
  have "prim_GenericOS_syserror E ((if sint errnum < 0 then ''~'' else []) @ digit_chars ds) = Some (if 0 \<le> sint errnum then errnum else - 1)"
  proof (cases "sint errnum < 0")
    case True
    have "c_view (''~'' @ digit_chars ds) \<noteq> snd e" if "e \<in> set (sys_errors E)" for e
      using that by (auto simp: sys_errors_def c_view_def)
    then have "find (\<lambda>e. c_view (''~'' @ digit_chars ds) = snd e) (sys_errors E) = None" unfolding find_None_iff by blast
    then show ?thesis using True by (simp add: prim_GenericOS_syserror_def isdigit_def)
  next
    case False
    have d: "ds \<noteq> []" "\<forall>d\<in>set ds. d < 10" "radix_value 10 ds = nat (sint errnum)" using ds(2) False by (simp_all add: digits_of_def)
    have "radix_value 10 ds < 2 ^ 31" using sint_lt [of errnum] d(3) by simp
    from atoi_digits [OF d(1,2) this] have "atoi (digit_chars ds) = Some errnum" unfolding d(3) using False by simp
    moreover have "digit_chars ds \<noteq> []" "isdigit (hd (digit_chars ds))"
      using d(1,2) digit_char_isdigit [of "hd ds"] by (cases ds; simp add: digit_chars_def)+
    ultimately show ?thesis using False by (simp add: prim_GenericOS_syserror_def)
  qed
  then show ?thesis using None n ds(1) by (auto simp: prim_GenericOS_errorName_def)
qed

section \<open>Polling reports the opposite\<close>

lemma poll_sets_requested:
  assumes "\<forall>fd\<in>set (map fst ps). fd_ok fd" and "0 \<le> n"
  shows "poll_sets ps n (I, O', P) =
    Some (fold (\<lambda>(fd, ev) n. max n (if ev AND (SML_POLLIN OR SML_POLLOUT OR SML_POLLPRI) \<noteq> 0 then fd else 0)) ps n,
      I \<union> {fd. \<exists>ev. (fd, ev) \<in> set ps \<and> ev AND SML_POLLIN \<noteq> 0}, O' \<union> {fd. \<exists>ev. (fd, ev) \<in> set ps \<and> ev AND SML_POLLOUT \<noteq> 0},
      P \<union> {fd. \<exists>ev. (fd, ev) \<in> set ps \<and> ev AND SML_POLLPRI \<noteq> 0})"
  using assms
proof (induction ps arbitrary: n I O' P)
  case (Cons p ps)
  obtain fd ev where p: "p = (fd, ev)" by fastforce
  let ?n = "if ev AND (SML_POLLIN OR SML_POLLOUT OR SML_POLLPRI) \<noteq> 0 then fd else 0"
  have fd: "fd_ok fd" using Cons.prems by (simp add: p)
  have m: "(if n > ?n then n else ?n) = max n ?n" "0 \<le> max n ?n" using Cons.prems(2) by (auto simp: max_def)
  show ?case unfolding p using fd Cons.IH [OF _ m(2)] Cons.prems(1) m(1) by (auto simp: Let_def p)
qed simp

lemma poll_event_bits:
  "poll_event (I, O', P) fd AND SML_POLLIN \<noteq> 0 \<longleftrightarrow> fd \<notin> I" "poll_event (I, O', P) fd AND SML_POLLOUT \<noteq> 0 \<longleftrightarrow> fd \<notin> O'"
  "poll_event (I, O', P) fd AND SML_POLLPRI \<noteq> 0 \<longleftrightarrow> fd \<notin> P"
  by (simp_all add: poll_event_def SML_POLLIN_def SML_POLLOUT_def SML_POLLPRI_def)

text \<open>The descriptors that are asked for with one of the events of a mask.\<close>

definition requested :: "int list \<Rightarrow> u32 list \<Rightarrow> u32 \<Rightarrow> int set" where
  "requested fdary evary kinds = fst ` {q \<in> set (zip fdary evary). snd q AND kinds \<noteq> 0}"

lemma requested_iff: "requested fdary evary kinds = {fd. \<exists>ev. (fd, ev) \<in> set (zip fdary evary) \<and> ev AND kinds \<noteq> 0}"
  by (force simp: requested_def)

lemma Max_insert_max: "finite S \<Longrightarrow> Max (insert (max a b) S) = Max (insert a (insert b S))" for a b :: int
  by (cases "S = {}") (simp_all add: max.assoc)

lemma largest_requested:
  "0 \<le> n \<Longrightarrow> fold (\<lambda>(fd, ev) n. max n (if ev AND kinds \<noteq> 0 then fd else 0)) ps n
     = Max (insert n (fst ` {q \<in> set ps. snd q AND kinds \<noteq> (0 :: u32)}))" for n :: int
proof (induction ps arbitrary: n)
  case (Cons p ps)
  obtain fd ev where p: "p = (fd, ev)" by fastforce
  let ?S = "fst ` {q \<in> set ps. snd q AND kinds \<noteq> 0}" and ?k = "if ev AND kinds \<noteq> 0 then fd else 0"
  have fin: "finite ?S" by simp
  have "0 \<le> max n ?k" using Cons.prems by simp
  from Cons.IH [OF this] have "fold (\<lambda>(fd, ev) n. max n (if ev AND kinds \<noteq> 0 then fd else 0)) (p # ps) n
      = Max (insert (max n ?k) ?S)" by (simp add: p)
  also have "\<dots> = Max (insert n (fst ` {q \<in> set (p # ps). snd q AND kinds \<noteq> 0}))"
  proof (cases "ev AND kinds = 0")
    case True
    then have "{q \<in> set (p # ps). snd q AND kinds \<noteq> 0} = {q \<in> set ps. snd q AND kinds \<noteq> 0}" by (auto simp: p)
    then show ?thesis using True Cons.prems by (simp add: max_def)
  next
    case False
    then have "fst ` {q \<in> set (p # ps). snd q AND kinds \<noteq> 0} = insert fd ?S" by (force simp: p)
    then show ?thesis using False by (simp only: Max_insert_max [OF fin] if_True not_False_eq_True)
  qed
  finally show ?case .
qed simp

lemma poll_result:
  assumes "length evary = length fdary" and "\<forall>fd\<in>set fdary. fd_ok fd"
    and "os_select (Max (insert 0 (requested fdary evary (SML_POLLIN OR SML_POLLOUT OR SML_POLLPRI))) + 1)
      (requested fdary evary SML_POLLIN, requested fdary evary SML_POLLOUT, requested fdary evary SML_POLLPRI)
      (if sec < 0 \<or> usec < 0 then None else Some (sec, usec)) = (err, infds, outfds, prifds)"
  shows "err < 0 \<Longrightarrow> prim_GenericOS_poll os_select fdary evary sec usec = Some (err, evary)"
    and "0 \<le> err \<Longrightarrow> \<exists>evs. prim_GenericOS_poll os_select fdary evary sec usec = Some (err, evs) \<and> length evs = length fdary \<and>
      (\<forall>i<length fdary. (evs ! i AND SML_POLLIN \<noteq> 0 \<longleftrightarrow> fdary ! i \<notin> infds) \<and> (evs ! i AND SML_POLLOUT \<noteq> 0 \<longleftrightarrow> fdary ! i \<notin> outfds) \<and>
         (evs ! i AND SML_POLLPRI \<noteq> 0 \<longleftrightarrow> fdary ! i \<notin> prifds))"
proof -
  have "\<forall>fd\<in>set (map fst (zip fdary evary)). fd_ok fd" using assms(1,2) by simp
  from poll_sets_requested [OF this, of 0 "{}" "{}" "{}"]
  have "poll_sets (zip fdary evary) 0 ({}, {}, {})
      = Some (Max (insert 0 (requested fdary evary (SML_POLLIN OR SML_POLLOUT OR SML_POLLPRI))),
          requested fdary evary SML_POLLIN, requested fdary evary SML_POLLOUT, requested fdary evary SML_POLLPRI)"
    by (simp only: largest_requested [OF order_refl] requested_def [symmetric] requested_iff [symmetric] Un_empty_left order_refl)
  moreover have "list_all fd_ok fdary" using assms(2) by (simp add: list_all_iff)
  ultimately have "prim_GenericOS_poll os_select fdary evary sec usec
      = (if err < 0 then Some (err, evary) else Some (err, map (poll_event (infds, outfds, prifds)) fdary))"
    using assms(3) by (simp add: prim_GenericOS_poll_def)
  then show "err < 0 \<Longrightarrow> prim_GenericOS_poll os_select fdary evary sec usec = Some (err, evary)"
    and "0 \<le> err \<Longrightarrow> \<exists>evs. prim_GenericOS_poll os_select fdary evary sec usec = Some (err, evs) \<and> length evs = length fdary \<and>
      (\<forall>i<length fdary. (evs ! i AND SML_POLLIN \<noteq> 0 \<longleftrightarrow> fdary ! i \<notin> infds) \<and> (evs ! i AND SML_POLLOUT \<noteq> 0 \<longleftrightarrow> fdary ! i \<notin> outfds) \<and>
         (evs ! i AND SML_POLLPRI \<noteq> 0 \<longleftrightarrow> fdary ! i \<notin> prifds))"
    using poll_event_bits by auto
qed

text \<open>
  C37: what \<open>prim_GenericOS_poll\<close> asks of \<open>select\<close> and what it answers.  It calls \<open>select\<close> with exactly the descriptors requested
  for each kind of event, with a count of one more than the largest of them, and without a timeout exactly when one of its parts is
  negative.  An error of \<open>select\<close> is returned and the events stay as they were.  Otherwise each kind of event is reported for exactly
  the descriptors that are not in the set that \<open>select\<close> has left: a descriptor that is ready is reported as not ready, and one that
  is not ready, or was not asked for, as ready.
\<close>

theorem poll_reports_complement:
  assumes "length evary = length fdary" and "\<forall>fd\<in>set fdary. fd_ok fd"
    and "os_select (Max (insert 0 (requested fdary evary (SML_POLLIN OR SML_POLLOUT OR SML_POLLPRI))) + 1)
      (requested fdary evary SML_POLLIN, requested fdary evary SML_POLLOUT, requested fdary evary SML_POLLPRI)
      (if sec < 0 \<or> usec < 0 then None else Some (sec, usec)) = (err, infds, outfds, prifds)"
  shows "(err < 0 \<longrightarrow> prim_GenericOS_poll os_select fdary evary sec usec = Some (err, evary)) \<and>
    (0 \<le> err \<longrightarrow> (\<exists>evs. prim_GenericOS_poll os_select fdary evary sec usec = Some (err, evs) \<and> length evs = length fdary \<and>
      (\<forall>i<length fdary. (evs ! i AND SML_POLLIN \<noteq> 0 \<longleftrightarrow> fdary ! i \<notin> infds) \<and> (evs ! i AND SML_POLLOUT \<noteq> 0 \<longleftrightarrow> fdary ! i \<notin> outfds) \<and>
         (evs ! i AND SML_POLLPRI \<noteq> 0 \<longleftrightarrow> fdary ! i \<notin> prifds))))"
  using poll_result [of evary fdary os_select sec usec, OF assms] by blast

text \<open>
  A \<open>select\<close> on which descriptor 3 is always ready, as far as the count covers it: polling 3 for input and 5 for output reports
  input on 5 and none on 3.
\<close>

theorem poll_reports_complement_witness:
  "\<exists>evs. prim_GenericOS_poll (\<lambda>n (i, o', p) t. (1, {fd \<in> i. fd = 3 \<and> fd < n}, {}, {})) [3, 5] [SML_POLLIN, SML_POLLOUT] 0 0
     = Some (1, evs) \<and> evs ! 0 AND SML_POLLIN = 0 \<and> evs ! 1 AND SML_POLLIN \<noteq> 0"
proof -
  define sel where "sel = (\<lambda>n (i, o' :: int set, p :: int set) (t :: (int \<times> int) option).
    (1 :: int, {fd \<in> i. fd = 3 \<and> fd < (n :: int)}, {} :: int set, {} :: int set))"
  have r: "requested [3, 5] [SML_POLLIN, SML_POLLOUT] (SML_POLLIN OR SML_POLLOUT OR SML_POLLPRI) = {3, 5}"
    "requested [3, 5] [SML_POLLIN, SML_POLLOUT] SML_POLLIN = {3}"
    unfolding requested_iff by (auto simp: SML_POLLIN_def SML_POLLOUT_def SML_POLLPRI_def)
  have call: "sel (Max (insert 0 (requested [3, 5] [SML_POLLIN, SML_POLLOUT] (SML_POLLIN OR SML_POLLOUT OR SML_POLLPRI))) + 1)
      (requested [3, 5] [SML_POLLIN, SML_POLLOUT] SML_POLLIN, requested [3, 5] [SML_POLLIN, SML_POLLOUT] SML_POLLOUT,
       requested [3, 5] [SML_POLLIN, SML_POLLOUT] SML_POLLPRI)
      (if (0 :: int) < 0 \<or> (0 :: int) < 0 then None else Some (0, 0)) = (1, {3}, {}, {})"
    unfolding r sel_def by auto
  have "length [SML_POLLIN, SML_POLLOUT] = length [3 :: int, 5]" and "\<forall>fd\<in>set [3 :: int, 5]. fd_ok fd"
    by (simp_all add: fd_ok_def)
  from poll_reports_complement [of "[SML_POLLIN, SML_POLLOUT]" "[3, 5]" sel 0 0, OF this call] show ?thesis
    unfolding sel_def by (auto simp: less_Suc_eq numeral_2_eq_2)
qed

section \<open>Paths\<close>

text \<open>
  C38: \<open>prim_GenericOS_readlink\<close> ends without writing behind its buffer, but gives no more than the first 128 characters of the
  link: the loop that is to enlarge the buffer asks again for 128 characters and then stops.
\<close>

theorem readlink_truncates:
  assumes "\<And>n. os_readlink (c_view filename) n = Some (take n target)"
  shows "prim_GenericOS_readlink os_readlink filename = Some (Access (Some (take 128 target)))"
proof (cases "length target < 128")
  case False
  have "readlink_loop os_readlink (c_view filename) 256 (Some (take 128 target)) = Some (Access (Some (take 128 target)))"
    by (subst readlink_loop.simps) (simp add: min_less_iff_disj)
  then have "readlink_loop os_readlink (c_view filename) 128 (Some (take 128 target)) = Some (Access (Some (take 128 target)))"
    using False by (subst readlink_loop.simps) (simp add: assms Let_def)
  then show ?thesis using False by (simp add: prim_GenericOS_readlink_def assms)
qed (simp add: prim_GenericOS_readlink_def assms)

theorem readlink_truncates_witness:
  "prim_GenericOS_readlink (\<lambda>_ n. Some (take n (replicate 200 CHR ''x''))) ''link'' = Some (Access (Some (replicate 128 CHR ''x'')))"
  using readlink_truncates [of "\<lambda>_ n. Some (take n (replicate 200 CHR ''x''))" "''link''" "replicate 200 CHR ''x''"] by simp

text \<open>\<open>getcwd\<close> succeeds as soon as the buffer has room for the path; then the loop ends with the path.\<close>

lemma getcwd_loop_returns:
  assumes "\<And>n. os_getcwd n = (if length path < n then Inr path else Inl True)"
  shows "getcwd_loop os_getcwd n = Some (Some path)"
proof (induction "Suc (length path) - n" arbitrary: n rule: less_induct)
  case less
  show ?case
  proof (cases "length path < n")
    case True
    then show ?thesis by (subst getcwd_loop.simps) (simp add: assms)
  next
    case False
    then have "getcwd_loop os_getcwd (n + 256) = Some (Some path)" by (intro less) simp
    then show ?thesis using False by (subst getcwd_loop.simps) (simp add: assms)
  qed
qed

lemma getcwd_returns:
  assumes "\<And>n. os_getcwd n = (if length path < n then Inr path else Inl True)"
  shows "prim_GenericOS_getcwd os_getcwd = Some (Some path)"
  unfolding prim_GenericOS_getcwd_def by (rule getcwd_loop_returns [OF assms])

text \<open>The array of a date is read in the order in which it is written.\<close>

lemma date_array_roundtrip:
  assumes "localtime (scast t) = Some tm"
  shows "\<exists>arr'. prim_Date_localTime localtime t arr = (0, arr') \<and> prim_Date_mkTime mktime arr' = ucast (mktime tm)"
  using assms by (cases tm) (simp add: prim_Date_localTime_def prim_Date_mkTime_def copy_tm_def)

text \<open>The modes of the C standard.\<close>

lemma open_modes:
  "open_flags ''r'' = Some {O_RDONLY}" "open_flags ''w'' = Some {O_WRONLY, O_TRUNC, O_CREAT}" "open_flags ''a'' = Some {O_WRONLY, O_APPEND, O_CREAT}"
  "open_flags ''rb+'' = Some {O_RDWR}" "open_flags ''r+b'' = Some {O_RDWR}" "open_flags ''wb'' = Some {O_WRONLY, O_TRUNC, O_CREAT}"
  "open_flags ''a+'' = Some {O_RDWR, O_APPEND, O_CREAT}" "open_flags [] = None"
  by (simp_all add: open_flags_def char_at_def)

section \<open>Big integers and words\<close>

lemma low_bits:
  assumes "a mod 2 ^ 63 = (b :: int) mod 2 ^ 63"
  shows "(word_of_int a :: u32) = word_of_int b"
proof -
  have "a mod 2 ^ 32 = (a mod 2 ^ 63) mod 2 ^ 32" "b mod 2 ^ 32 = (b mod 2 ^ 63) mod 2 ^ 32" by (simp_all add: mod_mod_cancel)
  then show ?thesis using assms by (simp add: word_of_int_eq_iff take_bit_eq_mod)
qed

text \<open>
  C39: the conversions to words give the low bits of a big integer of any size and sign, and the conversions from signed and unsigned words
  are exact, so that a word converted to a big integer and back is the same word.  The library is used as
  documented: \<open>mpz_get_ui\<close> gives the low bits of the absolute value, \<open>mpz_get_si\<close> the number itself
  when it fits and otherwise low bits with the sign.
\<close>

theorem intinf_words:
  fixes get_si get_ui :: "int \<Rightarrow> u64"
  assumes si: "\<And>x. sint (get_si x) mod 2 ^ 63 = x mod 2 ^ 63" and ui: "\<And>x. get_ui x = word_of_int \<bar>x\<bar>" and sg: "\<And>x. mpz_sgn x = sgn x"
    and set: "\<And>w. set_si w = sint w" "\<And>w. set_ui w = uint w"
  shows "prim_IntInf_toWord get_si x = word_of_int x \<and> prim_IntInf_toWord64 get_ui mpz_sgn x = word_of_int x \<and>
    prim_IntInf_fromInt set_si w = sint w \<and> prim_IntInf_fromWord set_ui w = uint w \<and>
    prim_IntInf_fromInt64 set_si v = sint v \<and> prim_IntInf_fromWord64 set_ui v = uint v \<and>
    prim_IntInf_toWord get_si (prim_IntInf_fromWord set_ui w) = w \<and> prim_IntInf_toWord64 get_ui mpz_sgn (prim_IntInf_fromInt64 set_si v) = v"
proof -
  have w: "prim_IntInf_toWord get_si x = word_of_int x" for x
  proof -
    have "(ucast (get_si x) :: u32) = word_of_int (sint (get_si x))"
      using down_cast_same [where ?'a = 64 and ?'b = 32] by (simp add: is_down)
    also have "\<dots> = word_of_int x" by (rule low_bits [OF si])
    finally show ?thesis by (simp add: prim_IntInf_toWord_def)
  qed
  have l: "prim_IntInf_toWord64 get_ui mpz_sgn x = word_of_int x" for x
    by (simp add: prim_IntInf_toWord64_def ui sg Let_def abs_if)
  have f: "prim_IntInf_fromInt set_si w = sint w" "prim_IntInf_fromWord set_ui w = uint w"
    "prim_IntInf_fromInt64 set_si v = sint v" "prim_IntInf_fromWord64 set_ui v = uint v"
    by (simp_all add: prim_IntInf_fromInt_def prim_IntInf_fromWord_def prim_IntInf_fromInt64_def prim_IntInf_fromWord64_def set
        sint_up_scast uint_up_ucast is_up)
  show ?thesis unfolding w l f by simp
qed

theorem intinf_words_witness:
  "prim_IntInf_toWord (\<lambda>x. word_of_int x) (- 1) = - 1 \<and> prim_IntInf_toWord64 (\<lambda>x. word_of_int \<bar>x\<bar>) sgn (2 ^ 70 - 1) = - 1"
proof -
  have "sint (word_of_int x :: u64) mod 2 ^ 63 = x mod 2 ^ 63" for x
    using take_bit_signed_take_bit [of 63 63 x] by (simp add: take_bit_eq_mod sint_sbintrunc')
  then show ?thesis
    using intinf_words [of "\<lambda>x. word_of_int x" "\<lambda>x. word_of_int \<bar>x\<bar>" sgn sint uint "- 1"]
      intinf_words [of "\<lambda>x. word_of_int x" "\<lambda>x. word_of_int \<bar>x\<bar>" sgn sint uint "2 ^ 70 - 1"] by simp
qed

end
