(* ===== verification/Init.thy ===== *)
theory Init
  imports Prim Complex_Main
begin

text \<open>
  The size of the heap from the environment (\<open>init.c\<close>): \<open>parse_size\<close> reads a number with an optional fraction and unit, \<open>parse_heapsize\<close> one or two sizes.
  Strings are C strings without null characters; a pointer into a string is the rest of the string.
\<close>

section \<open>Functions\<close>

text \<open>The functions of the C library, as far as they are used: \<open>strtol\<close> in base 10, and \<open>strtod\<close> on a string that begins with a point.\<close>

definition clamp_long :: "int \<Rightarrow> int" where
  "clamp_long n = max (- (2 ^ 63)) (min (2 ^ 63 - 1) n)"

definition first_is :: "char set \<Rightarrow> string \<Rightarrow> bool" where
  "first_is cs s \<longleftrightarrow> s \<noteq> [] \<and> hd s \<in> cs"

definition strtol :: "string \<Rightarrow> int \<times> string" where
  "strtol src =
     (let s1 = dropWhile isspace src; s2 = (if first_is {CHR ''-'', CHR ''+''} s1 then tl s1 else s1)
      in if \<not> first_is {c. isdigit c} s2 then (0, src)
         else (clamp_long (if first_is {CHR ''-''} s1 then - decimal s2 else decimal s2), dropWhile isdigit s2))"

definition exponent_part :: "string \<Rightarrow> int \<times> string" where
  "exponent_part s =
     (let s1 = (if first_is {CHR ''e'', CHR ''E''} s then tl s else s);
          s2 = (if first_is {CHR ''-'', CHR ''+''} s1 then tl s1 else s1)
      in if first_is {CHR ''e'', CHR ''E''} s \<and> first_is {c. isdigit c} s2
         then (if first_is {CHR ''-''} s1 then - decimal s2 else decimal s2, dropWhile isdigit s2) else (0, s))"

definition power10 :: "int \<Rightarrow> rat" where
  "power10 k = (if 0 \<le> k then 10 ^ nat k else 1 / 10 ^ nat (- k))"

definition strtod_fraction :: "(rat \<Rightarrow> rat) \<Rightarrow> string \<Rightarrow> rat \<times> string" where
  "strtod_fraction dbl s =
     (let ds = takeWhile isdigit (tl s); (e, rest) = exponent_part (dropWhile isdigit (tl s))
      in if ds = [] then (0, s) else (dbl (of_int (decimal ds) * power10 (e - int (length ds))), rest))"

text \<open>
  \<open>dbl\<close> rounds to a number of type \<open>double\<close>.  The product of a size and a \<open>long\<close> is a size and wraps around; the sum is computed in \<open>double\<close>.
\<close>

definition parse_size :: "(rat \<Rightarrow> rat) \<Rightarrow> string \<Rightarrow> nat \<times> string" where
  "parse_size dbl src =
     (let (n, p0) = strtol src;
          p1 = (if n < 0 then src else p0);
          (f, p2) = (if first_is {CHR ''.''} p1 then strtod_fraction dbl p1 else (0, p1));
          (r, p3) = (if first_is {CHR ''G''} p2 then (1024 * 1024 * 1024, tl p2) else if first_is {CHR ''M''} p2 then (1024 * 1024, tl p2)
                     else if first_is {CHR ''k''} p2 then (1024, tl p2) else (1 :: nat, p2))
      in (nat \<lfloor>dbl (dbl (of_int ((int r * n) mod 2 ^ 64)) + dbl (of_nat r * f))\<rfloor>, p3))"

definition parse_heapsize :: "(rat \<Rightarrow> rat) \<Rightarrow> string \<Rightarrow> nat \<times> nat \<Rightarrow> nat \<times> nat" where
  "parse_heapsize dbl src bounds =
     (let (min0, p) = parse_size dbl src;
          min1 = (if p = src then fst bounds else min0);
          (max0, p') = (if first_is {CHR '':''} p then parse_size dbl (tl p) else (min1, p));
          max1 = (if max0 < min1 then min1 else max0)
      in if p' = [] \<and> src \<noteq> [] then (min1, max1) else bounds)"

definition DEFAULT_HEAPSIZE_MIN :: nat where "DEFAULT_HEAPSIZE_MIN = 1 * 1024 * 1024"
definition DEFAULT_HEAPSIZE_MAX :: nat where "DEFAULT_HEAPSIZE_MAX = 2 * 1024 * 1024 * 1024"

text \<open>What \<open>sml_init\<close> gives to \<open>sml_heap_init\<close>, from the value of \<open>SMLSHARP_HEAPSIZE\<close>, and whether it starts more than one worker thread.\<close>

definition heapsizes :: "(rat \<Rightarrow> rat) \<Rightarrow> string option \<Rightarrow> nat \<times> nat" where
  "heapsizes dbl env =
     (let (heapsize_min, heapsize_max) =
        (case env of None \<Rightarrow> (DEFAULT_HEAPSIZE_MIN, DEFAULT_HEAPSIZE_MAX)
         | Some s \<Rightarrow> parse_heapsize dbl s (DEFAULT_HEAPSIZE_MIN, DEFAULT_HEAPSIZE_MAX))
      in (heapsize_min, if heapsize_max < heapsize_min then heapsize_min else heapsize_max))"

definition has_MYTH_env :: "string list \<Rightarrow> bool" where
  "has_MYTH_env environ \<longleftrightarrow> list_ex (\<lambda>p. take 5 p = ''MYTH_'') environ"

section \<open>Sizes with units\<close>

definition unit_scale :: "string \<Rightarrow> nat" where
  "unit_scale u = (if u = ''G'' then 2 ^ 30 else if u = ''M'' then 2 ^ 20 else if u = ''k'' then 2 ^ 10 else 1)"

definition is_unit :: "string \<Rightarrow> bool" where
  "is_unit u \<longleftrightarrow> u \<in> {[], ''k'', ''M'', ''G''}"

text \<open>A decimal number with a unit, whose value is exact in \<open>double\<close>.\<close>

definition size_text :: "string \<Rightarrow> nat \<Rightarrow> bool" where
  "size_text s n \<longleftrightarrow> (\<exists>ds u. s = digit_chars ds @ u \<and> ds \<noteq> [] \<and> (\<forall>d\<in>set ds. d < 10) \<and> is_unit u \<and>
     n = radix_value 10 ds * unit_scale u \<and> n < 2 ^ 53)"

lemma digits_then:
  assumes "\<forall>d\<in>set ds. d < 10" and "rest = [] \<or> \<not> isdigit (hd rest)"
  shows "takeWhile isdigit (digit_chars ds @ rest) = digit_chars ds" "dropWhile isdigit (digit_chars ds @ rest) = rest"
proof -
  have d: "\<forall>c\<in>set (digit_chars ds). isdigit c" using assms(1) digit_char_isdigit by (auto simp: digit_chars_def)
  have r: "takeWhile isdigit rest = []" "dropWhile isdigit rest = rest" using assms(2) by (cases rest; simp)+
  show "takeWhile isdigit (digit_chars ds @ rest) = digit_chars ds" "dropWhile isdigit (digit_chars ds @ rest) = rest"
    using d r by (simp_all add: takeWhile_append2 dropWhile_append2)
qed

lemma strtol_digits:
  assumes "ds \<noteq> []" and "\<forall>d\<in>set ds. d < 10" and "rest = [] \<or> \<not> isdigit (hd rest)" and "radix_value 10 ds < 2 ^ 63"
  shows "strtol (digit_chars ds @ rest) = (int (radix_value 10 ds), rest)"
proof -
  obtain d es where ds: "ds = d # es" using assms(1) by (cases ds) auto
  have d: "isdigit (digits ! d)" "\<not> isspace (digits ! d)" using digit_char_isdigit [of d] assms(2) by (simp_all add: ds)
  have w: "dropWhile isspace (digit_chars ds @ rest) = digit_chars ds @ rest" using d(2) by (simp add: ds digit_chars_def)
  have h: "\<not> first_is {CHR ''-'', CHR ''+''} (digit_chars ds @ rest)" "\<not> first_is {CHR ''-''} (digit_chars ds @ rest)"
    "first_is {c. isdigit c} (digit_chars ds @ rest)"
    using d(1) by (auto simp: first_is_def ds digit_chars_def isdigit_def)
  have "decimal (digit_chars ds @ rest) = decimal (digit_chars ds)"
    unfolding decimal_def digits_then(1) [OF assms(2,3)] digits_then(1) [OF assms(2), of "[]", unfolded append_Nil2, OF disjI1 [OF refl]] ..
  then have v: "decimal (digit_chars ds @ rest) = int (radix_value 10 ds)" using decimal_digits [OF assms(2)] by simp
  have "clamp_long (int (radix_value 10 ds)) = int (radix_value 10 ds)" using assms(4) by (simp add: clamp_long_def)
  then show ?thesis unfolding strtol_def Let_def w using h v digits_then(2) [OF assms(2,3)] by simp
qed

lemma parse_size_text:
  assumes t: "size_text s n" and dbl: "\<And>k. k < 2 ^ 53 \<Longrightarrow> dbl (of_nat k) = of_nat k" and rest: "rest = [] \<or> hd rest = CHR '':''"
  shows "parse_size dbl (s @ rest) = (n, rest)" "s \<noteq> []"
proof -
  from t obtain ds u where s: "s = digit_chars ds @ u" "ds \<noteq> []" "\<forall>d\<in>set ds. d < 10" "is_unit u"
    "n = radix_value 10 ds * unit_scale u" "n < 2 ^ 53" unfolding size_text_def by blast
  let ?v = "radix_value 10 ds"
  have u: "u = [] \<or> u = ''k'' \<or> u = ''M'' \<or> u = ''G''" using s(4) by (auto simp: is_unit_def)
  have "1 \<le> unit_scale u" by (simp add: unit_scale_def)
  then have "?v \<le> n" unfolding s(5) by simp
  then have v: "?v < 2 ^ 63" using s(6) by simp
  have "u @ rest = [] \<or> \<not> isdigit (hd (u @ rest))" using u rest by (auto simp: isdigit_def)
  from strtol_digits [OF s(2,3) this v] have st: "strtol (s @ rest) = (int ?v, u @ rest)" by (simp add: s(1))
  have z: "dbl 0 = 0" using dbl [of 0] by simp
  have m: "(int (unit_scale u) * int ?v) mod 2 ^ 64 = int n"
  proof -
    have "int (unit_scale u) * int ?v = int n" unfolding s(5) by (simp add: mult.commute)
    then show ?thesis using s(6) by simp
  qed
  have "nat \<lfloor>dbl (dbl (of_int ((int (unit_scale u) * int ?v) mod 2 ^ 64)) + dbl (of_nat (unit_scale u) * 0))\<rfloor> = n"
    unfolding m using dbl [OF s(6)] by (simp add: z)
  moreover have "\<not> first_is {CHR ''.''} (u @ rest)" using u rest by (auto simp: first_is_def)
  moreover have "rest \<noteq> [] \<Longrightarrow> hd rest = CHR '':''" using rest by blast
  ultimately show "parse_size dbl (s @ rest) = (n, rest)"
    using u unfolding parse_size_def st by (auto simp: first_is_def unit_scale_def)
  show "s \<noteq> []" using s(1,2) by (simp add: digit_chars_def)
qed

text \<open>
  C36: the setting \<open>SMLSHARP_HEAPSIZE\<close>.  One size sets both bounds, two sizes with a colon set them to the first size and the larger of the two, a size behind a
  colon alone keeps the minimum, and for every other text the lower bound given to \<open>sml_heap_init\<close> is not above the upper one either.
\<close>

theorem heapsize_setting:
  assumes "\<And>k. k < 2 ^ 53 \<Longrightarrow> dbl (of_nat k) = of_nat k" and "size_text s n" and "size_text t m"
  shows "heapsizes dbl (Some s) = (n, n) \<and> heapsizes dbl (Some (s @ '':'' @ t)) = (n, max n m) \<and>
    heapsizes dbl (Some ('':'' @ t)) = (DEFAULT_HEAPSIZE_MIN, max DEFAULT_HEAPSIZE_MIN m) \<and>
    fst (heapsizes dbl env) \<le> snd (heapsizes dbl env)"
proof -
  note ps = parse_size_text [OF assms(2,1)] and pt = parse_size_text [OF assms(3,1), of "[]"]
  have s: "parse_size dbl s = (n, [])" "parse_size dbl (s @ '':'' @ t) = (n, '':'' @ t)" "s \<noteq> []" "parse_size dbl t = (m, [])"
    using ps(1) [of "[]"] ps(1) [of "'':'' @ t"] ps(2) [of "[]"] pt by simp_all
  have "parse_heapsize dbl s r = (n, n)" for r using s(1,3) by (simp add: parse_heapsize_def first_is_def)
  moreover have "parse_heapsize dbl (s @ '':'' @ t) r = (n, max n m)" for r
  proof -
    have "'':'' @ t \<noteq> s @ '':'' @ t" using s(3) by simp
    then show ?thesis unfolding parse_heapsize_def s(2) using s(3,4) by (simp add: first_is_def max_def)
  qed
  moreover have "parse_heapsize dbl ('':'' @ t) (DEFAULT_HEAPSIZE_MIN, x) = (DEFAULT_HEAPSIZE_MIN, max DEFAULT_HEAPSIZE_MIN m)" for x
  proof -
    have "snd (parse_size dbl ('':'' @ t)) = '':'' @ t"
      by (simp add: parse_size_def strtol_def first_is_def isspace_def isdigit_def)
    then obtain k where "parse_size dbl ('':'' @ t) = (k, '':'' @ t)" by (metis prod.collapse)
    then show ?thesis unfolding parse_heapsize_def using s(4) by (simp add: first_is_def max_def)
  qed
  ultimately show ?thesis by (simp add: heapsizes_def max_def split: prod.splits)
qed

theorem heapsize_setting_witness: "heapsizes (\<lambda>x. x) (Some ''4M:1G'') = (4194304, 1073741824)"
proof -
  have "size_text (digit_chars [4] @ ''M'') 4194304" "size_text (digit_chars [1] @ ''G'') 1073741824"
    unfolding size_text_def by (intro exI [of _ "[4]"] exI [of _ "[1]"] exI [of _ "''M''"] exI [of _ "''G''"],
      simp add: is_unit_def radix_value_def unit_scale_def)+
  then have "size_text ''4M'' 4194304" "size_text ''1G'' 1073741824" by (simp_all add: digit_chars_def digits_def)
  from heapsize_setting [of "\<lambda>x. x", OF refl this] show ?thesis by simp
qed

end
