(* ===== verification/Handshake.thy ===== *)
theory Handshake
  imports Worker
begin

text \<open>
  The handshake by which a collection goes through its phases, as a system of concurrent threads.
  Every step is one atomic operation of \<open>control.c\<close> on the state of a worker, on \<open>workers_available\<close>,
  \<open>workers_handshake\<close>, \<open>sml_check_flag\<close> or \<open>gc_count\<close>; the steps of different threads interleave.
  Workers that have been cancelled or are dead, and the users of workers, are left out: they do not change who has
  to answer a signal.  \<open>help_other\<close> joins the two compare-and-swaps of \<open>help_inactive\<close>, on \<open>workers_handshake\<close> and on the
  state of the worker, into one step; the states between the two, in which the worker is off the list of candidates and not
  yet taken, and the failure of the second, after which the helper gives up, are not modelled.
\<close>

section \<open>States and steps\<close>

text \<open>
  A thread runs ML code or C code (\<open>Free\<close>), has accepted a signal for a worker and has not answered it yet
  (\<open>Act\<close>), or has answered for a worker that it helps and has still to give it back (\<open>Release\<close>).
  Threads are identified with their workers.
\<close>

datatype job = Free | Act nat | Release nat

text \<open>
  At most one thread takes the workers to the next phase: it is about to call \<open>global_phase\<close> (\<open>Global\<close>), in
  the loop of \<open>change_phase\<close> (\<open>Changing\<close>, with the workers still to change and those changed), or about to
  add to the counter (\<open>Adding\<close>).
\<close>

datatype coordinator =
    Idle
  | Global sml_sync_phase sml_sync_phase sml_sync_phase nat
  | Changing sml_sync_phase sml_sync_phase "nat list" "nat list" nat
  | Adding "nat list" nat

record protocol =
  pr_workers :: "nat list"
  pr_new :: sml_sync_phase
  pr_phase :: "nat \<Rightarrow> sml_sync_phase"
  pr_owner :: "nat \<Rightarrow> owner"
  pr_job :: "nat \<Rightarrow> job"
  pr_coord :: coordinator
  pr_handshake :: "nat list"
  pr_flag :: u32
  pr_gc :: nat

fun runner :: "coordinator \<Rightarrow> nat option" where
  "runner Idle = None"
| "runner (Global new old pre t) = Some t"
| "runner (Changing old pre todo dn t) = Some t"
| "runner (Adding dn t) = Some t"

definition free :: "protocol \<Rightarrow> nat \<Rightarrow> bool" where
  "free s t \<longleftrightarrow> t \<in> set (pr_workers s) \<and> pr_job s t = Free \<and> runner (pr_coord s) \<noteq> Some t"

definition helpable :: "protocol \<Rightarrow> nat \<Rightarrow> bool" where
  "helpable s w \<longleftrightarrow> pr_owner s w = Unowned \<and> pending (pr_phase s w)"

text \<open>A thread that accepts the signal of worker \<open>w\<close>.\<close>

definition accept :: "nat \<Rightarrow> nat \<Rightarrow> owner \<Rightarrow> protocol \<Rightarrow> protocol" where
  "accept t w ow s =
     s\<lparr>pr_phase := (pr_phase s)(w := accepted (pr_phase s w)), pr_owner := (pr_owner s)(w := ow), pr_job := (pr_job s)(t := Act w)\<rparr>"

text \<open>The decrement of the counter by a thread that has acted for \<open>w\<close>.\<close>

definition answered :: "nat \<Rightarrow> nat \<Rightarrow> protocol \<Rightarrow> protocol" where
  "answered t w s =
     s\<lparr>pr_flag := pr_flag s - 1, pr_job := (pr_job s)(t := (if pr_owner s w = Helped then Release w else Free))\<rparr>"

text \<open>The phases that follow: of new workers and of old ones.  Marking may have to be repeated.\<close>

definition follows :: "sml_sync_phase \<Rightarrow> (sml_sync_phase \<times> sml_sync_phase) set" where
  "follows p = (case p of SYNC1 \<Rightarrow> {(SYNC2, PRESYNC2)} | SYNC2 \<Rightarrow> {(MARK, PREMARK)}
     | MARK \<Rightarrow> {(ASYNC, PREASYNC), (MARK, PREMARK)} | _ \<Rightarrow> {})"

inductive step :: "protocol \<Rightarrow> protocol \<Rightarrow> bool" where
  start: "even (pr_gc s) \<Longrightarrow> free s t \<Longrightarrow> pr_owner s t = Owned \<Longrightarrow>
    step s (s\<lparr>pr_gc := pr_gc s + 1, pr_coord := Global SYNC1 ASYNC PRESYNC1 t\<rparr>)"
| global: "pr_coord s = Global new old pre t \<Longrightarrow> step s (s\<lparr>pr_new := new, pr_coord := Changing old pre (pr_workers s) [] t\<rparr>)"
| change: "pr_coord s = Changing old pre (w # todo) dn t \<Longrightarrow>
    step s (s\<lparr>pr_phase := (pr_phase s)(w := pre), pr_coord := Changing old pre todo (dn @ [w]) t\<rparr>)"
| publish: "pr_coord s = Changing old pre [] dn t \<Longrightarrow> step s (s\<lparr>pr_handshake := dn, pr_coord := Adding dn t\<rparr>)"
| add: "pr_coord s = Adding dn t \<Longrightarrow> step s (s\<lparr>pr_flag := pr_flag s + word_of_nat (length dn), pr_coord := Idle\<rparr>)"
| check: "free s t \<Longrightarrow> pr_owner s t = Owned \<Longrightarrow> pending (pr_phase s t) \<Longrightarrow> step s (accept t t Owned s)"
| leave_act: "free s t \<Longrightarrow> pr_owner s t = Owned \<Longrightarrow> pending (pr_phase s t) \<Longrightarrow> step s (accept t t Unowned s)"
| leave: "free s t \<Longrightarrow> pr_owner s t = Owned \<Longrightarrow> \<not> pending (pr_phase s t) \<Longrightarrow> step s (s\<lparr>pr_owner := (pr_owner s)(t := Unowned)\<rparr>)"
| enter: "free s t \<Longrightarrow> pr_owner s t = Unowned \<Longrightarrow> step s (s\<lparr>pr_owner := (pr_owner s)(t := Owned)\<rparr>)"
| help_other: "free s t \<Longrightarrow> pr_owner s t = Owned \<Longrightarrow> \<not> pending (pr_phase s t) \<Longrightarrow> w \<in> set (pr_handshake s) \<Longrightarrow> helpable s w \<Longrightarrow>
    (\<forall>v\<in>set (takeWhile (\<lambda>v. v \<noteq> w) (pr_handshake s)). \<not> helpable s v) \<Longrightarrow>
    step s ((accept t w Helped s)\<lparr>pr_handshake := tl (dropWhile (\<lambda>v. v \<noteq> w) (pr_handshake s))\<rparr>)"
| clear: "free s t \<Longrightarrow> pr_owner s t = Owned \<Longrightarrow> \<not> pending (pr_phase s t) \<Longrightarrow> (\<forall>v\<in>set (pr_handshake s). \<not> helpable s v) \<Longrightarrow>
    step s (s\<lparr>pr_handshake := []\<rparr>)"
| ans: "pr_job s t = Act w \<Longrightarrow> runner (pr_coord s) \<noteq> Some t \<Longrightarrow> pr_flag s \<noteq> 1 \<Longrightarrow> step s (answered t w s)"
| last_ans: "pr_job s t = Act w \<Longrightarrow> runner (pr_coord s) \<noteq> Some t \<Longrightarrow> pr_flag s = 1 \<Longrightarrow> (new, pre) \<in> follows (pr_phase s w) \<Longrightarrow>
    step s ((answered t w s)\<lparr>pr_coord := Global new (pr_phase s w) pre t\<rparr>)"
| finish: "pr_job s t = Act w \<Longrightarrow> runner (pr_coord s) \<noteq> Some t \<Longrightarrow> pr_flag s = 1 \<Longrightarrow> pr_phase s w = ASYNC \<Longrightarrow>
    step s ((answered t w s)\<lparr>pr_gc := pr_gc s + 1\<rparr>)"
| release: "pr_job s t = Release w \<Longrightarrow> runner (pr_coord s) \<noteq> Some t \<Longrightarrow> \<not> pending (pr_phase s w) \<Longrightarrow>
    step s (s\<lparr>pr_owner := (pr_owner s)(w := Unowned), pr_job := (pr_job s)(t := Free)\<rparr>)"
| again: "pr_job s t = Release w \<Longrightarrow> runner (pr_coord s) \<noteq> Some t \<Longrightarrow> pending (pr_phase s w) \<Longrightarrow> step s (accept t w Helped s)"
| register: "t \<notin> set (pr_workers s) \<Longrightarrow> length (pr_workers s) + 1 < 2 ^ 31 \<Longrightarrow>
    step s (s\<lparr>pr_workers := t # pr_workers s, pr_phase := (pr_phase s)(t := pr_new s), pr_owner := (pr_owner s)(t := Owned)\<rparr>)"

definition initial :: protocol where
  "initial = \<lparr>pr_workers = [], pr_new = ASYNC, pr_phase = (\<lambda>_. ASYNC), pr_owner = (\<lambda>_. Unowned), pr_job = (\<lambda>_. Free),
     pr_coord = Idle, pr_handshake = [], pr_flag = 0, pr_gc = 0\<rparr>"

definition reachable :: "protocol \<Rightarrow> bool" where
  "reachable s \<longleftrightarrow> step\<^sup>*\<^sup>* initial s"

section \<open>The invariant\<close>

text \<open>The workers that have still to answer the current signal.\<close>

definition outstanding :: "protocol \<Rightarrow> nat set" where
  "outstanding s = {w \<in> set (pr_workers s). pending (pr_phase s w)} \<union> {w. \<exists>t. pr_job s t = Act w}"

definition signal :: "sml_sync_phase \<Rightarrow> bool" where
  "signal p \<longleftrightarrow> p \<in> {SYNC1, SYNC2, MARK, ASYNC}"

definition job_inv :: "protocol \<Rightarrow> bool" where
  "job_inv s \<longleftrightarrow>
     (\<forall>t. t \<notin> set (pr_workers s) \<longrightarrow> pr_job s t = Free) \<and>
     (\<forall>t w. pr_job s t = Act w \<longrightarrow> w \<in> set (pr_workers s) \<and> pr_phase s w = pr_new s \<and> (w \<noteq> t \<longrightarrow> pr_owner s w = Helped)) \<and>
     (\<forall>t w. pr_job s t = Release w \<longrightarrow> w \<in> set (pr_workers s) \<and> pr_owner s w = Helped) \<and>
     (\<forall>t t' w. pr_job s t \<in> {Act w, Release w} \<and> pr_job s t' \<in> {Act w, Release w} \<longrightarrow> t = t') \<and>
     (\<forall>w\<in>set (pr_workers s). pr_owner s w = Helped \<longrightarrow> (\<exists>t. pr_job s t \<in> {Act w, Release w}))"

definition coord_inv :: "protocol \<Rightarrow> bool" where
  "coord_inv s = (case pr_coord s of
     Idle \<Rightarrow> (\<forall>w\<in>set (pr_workers s). accepted (pr_phase s w) = pr_new s) \<and> pr_flag s = word_of_nat (card (outstanding s))
   | Global new old pre t \<Rightarrow> t \<in> set (pr_workers s) \<and> outstanding s = {} \<and> pr_flag s = 0 \<and> old = pr_new s \<and>
       signal new \<and> pending pre \<and> accepted pre = new \<and> (\<forall>w\<in>set (pr_workers s). pr_phase s w = pr_new s)
   | Changing old pre todo dn t \<Rightarrow> t \<in> set (pr_workers s) \<and> distinct (dn @ todo) \<and> set (dn @ todo) \<subseteq> set (pr_workers s) \<and>
       pending pre \<and> accepted pre = pr_new s \<and> signal old \<and> outstanding s \<subseteq> set dn \<and> (\<forall>w\<in>set todo. pr_phase s w = old) \<and>
       (\<forall>w\<in>set (pr_workers s) - set todo. accepted (pr_phase s w) = pr_new s) \<and>
       pr_flag s = word_of_nat (card (outstanding s)) - word_of_nat (length dn)
   | Adding dn t \<Rightarrow> t \<in> set (pr_workers s) \<and> distinct dn \<and> set dn \<subseteq> set (pr_workers s) \<and> outstanding s \<subseteq> set dn \<and>
       (\<forall>w\<in>set (pr_workers s). accepted (pr_phase s w) = pr_new s) \<and>
       pr_flag s = word_of_nat (card (outstanding s)) - word_of_nat (length dn))"

definition handshake_inv :: "protocol \<Rightarrow> bool" where
  "handshake_inv s \<longleftrightarrow> distinct (pr_workers s) \<and> length (pr_workers s) < 2 ^ 31 \<and> set (pr_handshake s) \<subseteq> set (pr_workers s) \<and> signal (pr_new s) \<and> job_inv s \<and> coord_inv s \<and>
     (even (pr_gc s) \<longrightarrow> pr_coord s = Idle \<and> outstanding s = {} \<and> pr_new s = ASYNC)"


section \<open>Preservation\<close>

lemma accepted_accepted [simp]: "accepted (accepted p) = accepted p"
  by (cases p) simp_all

lemma accepted_settled [simp]: "\<not> pending (accepted p)"
  by (simp add: pending_def)

lemma not_pending: "\<not> pending p \<Longrightarrow> accepted p = p"
  by (simp add: pending_def)

lemma signal_settled: "signal p \<Longrightarrow> \<not> pending p"
  by (auto simp: signal_def pending_def)

lemma job_invI:
  assumes "\<And>t. t \<notin> set (pr_workers s) \<Longrightarrow> pr_job s t = Free"
    and "\<And>t w. pr_job s t = Act w \<Longrightarrow> w \<in> set (pr_workers s) \<and> pr_phase s w = pr_new s \<and> (w \<noteq> t \<longrightarrow> pr_owner s w = Helped)"
    and "\<And>t w. pr_job s t = Release w \<Longrightarrow> w \<in> set (pr_workers s) \<and> pr_owner s w = Helped"
    and "\<And>t t' w. pr_job s t \<in> {Act w, Release w} \<Longrightarrow> pr_job s t' \<in> {Act w, Release w} \<Longrightarrow> t = t'"
    and "\<And>w. w \<in> set (pr_workers s) \<Longrightarrow> pr_owner s w = Helped \<Longrightarrow> \<exists>t. pr_job s t \<in> {Act w, Release w}"
  shows "job_inv s"
  unfolding job_inv_def
proof (intro conjI)
  show "\<forall>t. t \<notin> set (pr_workers s) \<longrightarrow> pr_job s t = Free" using assms(1) by blast
  show "\<forall>t w. pr_job s t = Act w \<longrightarrow> w \<in> set (pr_workers s) \<and> pr_phase s w = pr_new s \<and> (w \<noteq> t \<longrightarrow> pr_owner s w = Helped)"
    using assms(2) by blast
  show "\<forall>t w. pr_job s t = Release w \<longrightarrow> w \<in> set (pr_workers s) \<and> pr_owner s w = Helped" using assms(3) by blast
  show "\<forall>t t' w. pr_job s t \<in> {Act w, Release w} \<and> pr_job s t' \<in> {Act w, Release w} \<longrightarrow> t = t'" using assms(4) by meson
  show "\<forall>w\<in>set (pr_workers s). pr_owner s w = Helped \<longrightarrow> (\<exists>t. pr_job s t \<in> {Act w, Release w})" using assms(5) by blast
qed

lemma job_invD:
  assumes "job_inv s"
  shows "t \<notin> set (pr_workers s) \<Longrightarrow> pr_job s t = Free"
    and "pr_job s t = Act w \<Longrightarrow> w \<in> set (pr_workers s) \<and> pr_phase s w = pr_new s \<and> (w \<noteq> t \<longrightarrow> pr_owner s w = Helped)"
    and "pr_job s t = Release w \<Longrightarrow> w \<in> set (pr_workers s) \<and> pr_owner s w = Helped"
    and "pr_job s t \<in> {Act w, Release w} \<Longrightarrow> pr_job s t' \<in> {Act w, Release w} \<Longrightarrow> t = t'"
    and "w \<in> set (pr_workers s) \<Longrightarrow> pr_owner s w = Helped \<Longrightarrow> \<exists>t. pr_job s t \<in> {Act w, Release w}"
  using assms unfolding job_inv_def by meson+

lemma outstanding_workers: "job_inv s \<Longrightarrow> outstanding s \<subseteq> set (pr_workers s)"
  using job_invD(2) by (auto simp: outstanding_def)

lemma finite_outstanding: "job_inv s \<Longrightarrow> finite (outstanding s)"
  by (rule finite_subset [OF outstanding_workers]) simp_all

text \<open>A worker with a pending signal is on its way to the phase of new workers.\<close>

lemma pending_accepts:
  assumes "handshake_inv s" and "w \<in> set (pr_workers s)" and "pending (pr_phase s w)"
  shows "accepted (pr_phase s w) = pr_new s"
proof -
  have o: "w \<in> outstanding s" using assms by (simp add: outstanding_def)
  have c: "coord_inv s" using assms(1) by (simp add: handshake_inv_def)
  show ?thesis
  proof (cases "pr_coord s")
    case (Changing old pre todo dn t)
    then have "w \<in> set dn" "w \<notin> set todo" using c o by (auto simp: coord_inv_def)
    then show ?thesis using c Changing assms(2) by (auto simp: coord_inv_def)
  qed (use c o assms(2) in \<open>auto simp: coord_inv_def\<close>)
qed

lemma outstanding_accept:
  assumes "w \<in> set (pr_workers s)" and "pending (pr_phase s w)" and "pr_job s t \<in> {Free, Release w}"
  shows "outstanding (accept t w ow s) = outstanding s"
proof -
  have nt: "pr_job s t \<noteq> Act v" for v using assms(3) by auto
  have "{v. \<exists>t'. ((pr_job s)(t := Act w)) t' = Act v} = insert w {v. \<exists>t'. pr_job s t' = Act v}"
    by (auto, metis nt)
  then show ?thesis using assms(1,2) by (auto simp: outstanding_def accept_def simp del: fun_upd_apply) auto
qed

lemma coord_inv_frame:
  assumes "coord_inv s" and "outstanding s' = outstanding s" and "pr_coord s' = pr_coord s" and "pr_workers s' = pr_workers s"
    and "pr_flag s' = pr_flag s" and "pr_new s' = pr_new s"
    and "\<And>w. w \<in> set (pr_workers s) \<Longrightarrow> pr_phase s' w = pr_phase s w \<or> w \<in> outstanding s \<and> pr_phase s' w = accepted (pr_phase s w)"
  shows "coord_inv s'"
proof -
  have acc: "accepted (pr_phase s' w) = accepted (pr_phase s w)" if "w \<in> set (pr_workers s)" for w
    using assms(7) [OF that] by auto
  have same: "pr_phase s' w = pr_phase s w" if "w \<in> set (pr_workers s)" "w \<notin> outstanding s" for w
    using assms(7) [OF that(1)] that(2) by blast
  show ?thesis
  proof (cases "pr_coord s")
    case Idle
    then show ?thesis using assms(1-6) acc by (simp add: coord_inv_def)
  next
    case Global
    then show ?thesis using assms(1-6) same by (simp add: coord_inv_def)
  next
    case (Changing old pre todo dn t)
    have "\<forall>w\<in>set todo. w \<in> set (pr_workers s) \<and> w \<notin> outstanding s" using assms(1) Changing by (auto simp: coord_inv_def)
    then show ?thesis using assms(1-6) Changing acc same by (simp add: coord_inv_def)
  next
    case Adding
    then show ?thesis using assms(1-6) acc by (simp add: coord_inv_def)
  qed
qed

lemma inv_accept:
  assumes i: "handshake_inv s" and t: "t \<in> set (pr_workers s)" and w: "w \<in> set (pr_workers s)" "pending (pr_phase s w)"
    and j: "pr_job s t \<in> {Free, Release w}" and u: "\<And>t'. pr_job s t' \<in> {Act w, Release w} \<Longrightarrow> t' = t" and ow: "w \<noteq> t \<Longrightarrow> ow = Helped"
  shows "handshake_inv (accept t w ow s)"
proof -
  let ?s = "accept t w ow s"
  have ji: "job_inv s" and ci: "coord_inv s" using i by (simp_all add: handshake_inv_def)
  note d = job_invD [OF ji]
  have o: "outstanding ?s = outstanding s" by (rule outstanding_accept [OF w j])
  have ph: "accepted (pr_phase s w) = pr_new s" by (rule pending_accepts [OF i w])
  have na: "pr_job s t' \<noteq> Act w" for t' using d(2) [of t' w] w(2) ph by (auto simp: pending_def)
  have f: "pr_job ?s t' = (if t' = t then Act w else pr_job s t')" "pr_phase ?s v = (if v = w then pr_new s else pr_phase s v)"
    "pr_owner ?s v = (if v = w then ow else pr_owner s v)" "pr_workers ?s = pr_workers s" "pr_new ?s = pr_new s" for t' v
    using ph by (simp_all add: accept_def)
  have "job_inv ?s"
  proof (rule job_invI)
    show "pr_job ?s t' = Free" if "t' \<notin> set (pr_workers ?s)" for t' using that t d(1) by (auto simp: f)
    show "v \<in> set (pr_workers ?s) \<and> pr_phase ?s v = pr_new ?s \<and> (v \<noteq> t' \<longrightarrow> pr_owner ?s v = Helped)" if "pr_job ?s t' = Act v" for t' v
      using that w(1) ow d(2) [of t' v] na by (auto simp: f split: if_splits)
    show "v \<in> set (pr_workers ?s) \<and> pr_owner ?s v = Helped" if "pr_job ?s t' = Release v" for t' v
    proof -
      have r: "t' \<noteq> t" "pr_job s t' = Release v" using that by (simp_all add: f split: if_splits)
      then have "v \<noteq> w" using u by blast
      then show ?thesis using d(3) [OF r(2)] by (simp add: f)
    qed
    show "t1 = t2" if "pr_job ?s t1 \<in> {Act v, Release v}" "pr_job ?s t2 \<in> {Act v, Release v}" for t1 t2 v
    proof -
      have k: "t' = t \<and> v = w \<or> t' \<noteq> t \<and> pr_job s t' \<in> {Act v, Release v} \<and> v \<noteq> w" if "pr_job ?s t' \<in> {Act v, Release v}" for t'
        using that u by (cases "t' = t") (auto simp: f)
      show ?thesis using k [OF that(1)] k [OF that(2)] d(4) by blast
    qed
    show "\<exists>t'. pr_job ?s t' \<in> {Act v, Release v}" if v: "v \<in> set (pr_workers ?s)" "pr_owner ?s v = Helped" for v
    proof (cases "v = w")
      case True
      then show ?thesis by (intro exI [of _ t]) (simp add: f)
    next
      case False
      then obtain t' where "pr_job s t' \<in> {Act v, Release v}" using v d(5) [of v] by (auto simp: f)
      then show ?thesis using False j by (intro exI [of _ t']) (auto simp: f)
    qed
  qed
  moreover have "coord_inv ?s"
    by (rule coord_inv_frame [OF ci o]) (use w in \<open>auto simp: accept_def outstanding_def\<close>)
  ultimately show ?thesis using i o by (simp add: handshake_inv_def accept_def)
qed


lemma word_of_nat_inject32: "a < 2 ^ 32 \<Longrightarrow> b < 2 ^ 32 \<Longrightarrow> (word_of_nat a :: u32) = word_of_nat b \<longleftrightarrow> a = b"
proof -
  assume "a < 2 ^ 32" "b < 2 ^ 32"
  then have "unat (word_of_nat a :: u32) = a" "unat (word_of_nat b :: u32) = b" unfolding unat_of_nat by simp_all
  then show "(word_of_nat a :: u32) = word_of_nat b \<longleftrightarrow> a = b" by metis
qed

text \<open>The counter reaches one only after it has been raised, and only for the last worker to answer.\<close>

lemma flag_one:
  assumes i: "handshake_inv s" and f: "pr_flag s = 1" and w: "w \<in> outstanding s"
  shows "pr_coord s = Idle" and "outstanding s = {w}"
proof -
  have ji: "job_inv s" and ci: "coord_inv s" and len: "length (pr_workers s) < 2 ^ 31" and dw: "distinct (pr_workers s)"
    using i by (simp_all add: handshake_inv_def)
  have fin: "finite (outstanding s)" by (rule finite_outstanding [OF ji])
  have le: "card (outstanding s) \<le> length (pr_workers s)"
    using card_mono [OF _ outstanding_workers [OF ji]] distinct_card [OF dw] by simp
  have late: False if "outstanding s \<subseteq> set dn" "distinct dn" "set dn \<subseteq> set (pr_workers s)"
    "pr_flag s = word_of_nat (card (outstanding s)) - word_of_nat (length dn)" for dn
  proof -
    have "card (outstanding s) \<le> length dn" "length dn \<le> length (pr_workers s)"
      using card_mono [OF _ that(1)] card_mono [OF _ that(3)] distinct_card [OF that(2)] distinct_card [OF dw] by simp_all
    moreover have "(word_of_nat (card (outstanding s)) :: u32) = word_of_nat (length dn + 1)"
      using that(4) f by (simp add: algebra_simps)
    ultimately show False using word_of_nat_inject32 [of "card (outstanding s)" "length dn + 1"] len by simp
  qed
  show idle: "pr_coord s = Idle"
  proof (cases "pr_coord s")
    case Global
    then show ?thesis using ci f by (simp add: coord_inv_def)
  next
    case (Changing old pre todo dn t)
    then show ?thesis using ci late [of dn] by (auto simp: coord_inv_def)
  next
    case (Adding dn t)
    then show ?thesis using ci late [of dn] by (auto simp: coord_inv_def)
  qed
  have "(word_of_nat (card (outstanding s)) :: u32) = word_of_nat 1" using ci idle f by (simp add: coord_inv_def)
  then have "card (outstanding s) = 1" using word_of_nat_inject32 [of "card (outstanding s)" 1] le len by simp
  then show "outstanding s = {w}" using w fin by (metis card_1_singletonE singletonD)
qed

lemma answered_fields:
  "pr_workers (answered t w s) = pr_workers s" "pr_phase (answered t w s) = pr_phase s" "pr_owner (answered t w s) = pr_owner s"
  "pr_new (answered t w s) = pr_new s" "pr_coord (answered t w s) = pr_coord s" "pr_gc (answered t w s) = pr_gc s"
  "pr_flag (answered t w s) = pr_flag s - 1" "pr_handshake (answered t w s) = pr_handshake s"
  "pr_job (answered t w s) t' = (if t' = t then if pr_owner s w = Helped then Release w else Free else pr_job s t')"
  by (simp_all add: answered_def)

lemma act_outstanding:
  assumes "handshake_inv s" and "pr_job s t = Act w"
  shows "w \<in> outstanding s" and "\<not> pending (pr_phase s w)" and "pr_phase s w = pr_new s" and "w \<in> set (pr_workers s)"
proof -
  have ji: "job_inv s" and "signal (pr_new s)" using assms(1) by (simp_all add: handshake_inv_def)
  then show "w \<in> outstanding s" "\<not> pending (pr_phase s w)" "pr_phase s w = pr_new s" "w \<in> set (pr_workers s)"
    using job_invD(2) [OF ji assms(2)] signal_settled assms(2) by (auto simp: outstanding_def)
qed

lemma outstanding_answered:
  assumes i: "handshake_inv s" and j: "pr_job s t = Act w"
  shows "outstanding (answered t w s) = outstanding s - {w}"
proof -
  have ji: "job_inv s" using i by (simp add: handshake_inv_def)
  have u: "t' = t" if "pr_job s t' = Act w" for t' using job_invD(4) [OF ji, of t' w t] that j by simp
  have "(\<exists>t'. pr_job (answered t w s) t' = Act v) \<longleftrightarrow> (\<exists>t'. pr_job s t' = Act v) \<and> v \<noteq> w" for v
  proof
    assume "\<exists>t'. pr_job (answered t w s) t' = Act v"
    then obtain t' where "t' \<noteq> t" "pr_job s t' = Act v" by (auto simp: answered_fields split: if_splits)
    then show "(\<exists>t'. pr_job s t' = Act v) \<and> v \<noteq> w" using u by blast
  next
    assume "(\<exists>t'. pr_job s t' = Act v) \<and> v \<noteq> w"
    then obtain t' where "pr_job s t' = Act v" "t' \<noteq> t" using j by (metis job.inject(1))
    then show "\<exists>t'. pr_job (answered t w s) t' = Act v" by (auto simp: answered_fields)
  qed
  then have "{v. \<exists>t'. pr_job (answered t w s) t' = Act v} = {v. \<exists>t'. pr_job s t' = Act v} - {w}" by blast
  then show ?thesis using act_outstanding(2) [OF i j] by (auto simp: outstanding_def answered_fields(1,2))
qed

lemma job_inv_answered:
  assumes "job_inv s" and j: "pr_job s t = Act w"
  shows "job_inv (answered t w s)"
proof (rule job_invI; unfold answered_fields)
  note d = job_invD [OF assms(1)]
  have t: "t \<in> set (pr_workers s)" using d(1) [of t] j by auto
  show "(if t' = t then if pr_owner s w = Helped then Release w else Free else pr_job s t') = Free" if "t' \<notin> set (pr_workers s)" for t'
    using that t d(1) by auto
  show "v \<in> set (pr_workers s) \<and> pr_phase s v = pr_new s \<and> (v \<noteq> t' \<longrightarrow> pr_owner s v = Helped)"
    if "(if t' = t then if pr_owner s w = Helped then Release w else Free else pr_job s t') = Act v" for t' v
    using that d(2) [of t' v] by (simp split: if_splits)
  show "v \<in> set (pr_workers s) \<and> pr_owner s v = Helped"
    if "(if t' = t then if pr_owner s w = Helped then Release w else Free else pr_job s t') = Release v" for t' v
    using that d(3) [of t' v] d(2) [OF j] by (auto split: if_splits)
  have k: "pr_job s t' \<in> {Act v, Release v}"
    if "(if t' = t then if pr_owner s w = Helped then Release w else Free else pr_job s t') \<in> {Act v, Release v}" for t' v
    using that j by (auto split: if_splits)
  show "t1 = t2" if "(if t1 = t then if pr_owner s w = Helped then Release w else Free else pr_job s t1) \<in> {Act v, Release v}"
    "(if t2 = t then if pr_owner s w = Helped then Release w else Free else pr_job s t2) \<in> {Act v, Release v}" for t1 t2 v
    using d(4) [OF k [OF that(1)] k [OF that(2)]] .
  show "\<exists>t'. (if t' = t then if pr_owner s w = Helped then Release w else Free else pr_job s t') \<in> {Act v, Release v}"
    if v: "v \<in> set (pr_workers s)" "pr_owner s v = Helped" for v
  proof -
    obtain t' where t': "pr_job s t' \<in> {Act v, Release v}" using d(5) [OF v] by blast
    then show ?thesis using v(2) j by (intro exI [of _ t']) auto
  qed
qed


lemma inv_ans:
  assumes i: "handshake_inv s" and j: "pr_job s t = Act w"
  shows "handshake_inv (answered t w s)"
proof -
  have ji: "job_inv s" and ci: "coord_inv s" using i by (simp_all add: handshake_inv_def)
  note o = outstanding_answered [OF i j] and w = act_outstanding [OF i j]
  have fin: "finite (outstanding s)" by (rule finite_outstanding [OF ji])
  have "card (outstanding s) = Suc (card (outstanding s - {w}))" using w(1) fin by (metis card_Suc_Diff1)
  then have c: "word_of_nat (card (outstanding s)) - 1 = (word_of_nat (card (outstanding s - {w})) :: u32)" by simp
  have "coord_inv (answered t w s)"
  proof (cases "pr_coord s")
    case Idle
    then show ?thesis using ci c by (simp add: coord_inv_def answered_fields o)
  next
    case Global
    then show ?thesis using ci w(1) by (simp add: coord_inv_def)
  next
    case (Changing old pre todo dn r)
    then have "pr_flag s - 1 = word_of_nat (card (outstanding s - {w})) - word_of_nat (length dn)"
      using ci c by (simp add: coord_inv_def algebra_simps)
    then show ?thesis using ci Changing by (auto simp: coord_inv_def answered_fields o)
  next
    case (Adding dn r)
    then have "pr_flag s - 1 = word_of_nat (card (outstanding s - {w})) - word_of_nat (length dn)"
      using ci c by (simp add: coord_inv_def algebra_simps)
    then show ?thesis using ci Adding by (auto simp: coord_inv_def answered_fields o)
  qed
  then show ?thesis using i job_inv_answered [OF ji j] by (auto simp: handshake_inv_def answered_fields o)
qed

text \<open>The last worker to answer: all workers are in the same phase, and nobody else is acting.\<close>

lemma last_worker:
  assumes i: "handshake_inv s" and j: "pr_job s t = Act w" and f: "pr_flag s = 1"
  shows "pr_coord s = Idle" and "outstanding s = {w}" and "outstanding (answered t w s) = {}" and "pr_flag (answered t w s) = 0"
    and "v \<in> set (pr_workers s) \<Longrightarrow> pr_phase s v = pr_phase s w"
proof -
  note w = act_outstanding [OF i j] and o = flag_one [OF i f act_outstanding(1) [OF i j]]
  show "pr_coord s = Idle" "outstanding s = {w}" by (rule o)+
  show "outstanding (answered t w s) = {}" using outstanding_answered [OF i j] o(2) by simp
  show "pr_flag (answered t w s) = 0" using f by (simp add: answered_fields)
  have ci: "coord_inv s" using i by (simp add: handshake_inv_def)
  show "pr_phase s v = pr_phase s w" if v: "v \<in> set (pr_workers s)"
  proof -
    have "\<not> pending (pr_phase s v)" using o(2) v w(2) by (auto simp: outstanding_def)
    moreover have "accepted (pr_phase s v) = pr_new s" using ci o(1) v by (simp add: coord_inv_def)
    ultimately show ?thesis using w(3) by (simp add: not_pending)
  qed
qed

lemma inv_last:
  assumes i: "handshake_inv s" and j: "pr_job s t = Act w" and f: "pr_flag s = 1"
  shows "(new, pre) \<in> follows (pr_phase s w) \<Longrightarrow> handshake_inv ((answered t w s)\<lparr>pr_coord := Global new (pr_phase s w) pre t\<rparr>)"
    and "pr_phase s w = ASYNC \<Longrightarrow> handshake_inv ((answered t w s)\<lparr>pr_gc := pr_gc s + 1\<rparr>)"
proof -
  note l = last_worker [OF i j f] and w = act_outstanding [OF i j]
  have ji: "job_inv s" and ci: "coord_inv s" using i by (simp_all add: handshake_inv_def)
  note a = job_inv_answered [OF ji j]
  have t: "t \<in> set (pr_workers s)" using job_invD(1) [OF ji, of t] j by auto
  have odd: "odd (pr_gc s)" using i l(2) by (auto simp: handshake_inv_def)
  have upd: "job_inv (s'\<lparr>pr_coord := co\<rparr>) = job_inv s'" "job_inv (s'\<lparr>pr_gc := n\<rparr>) = job_inv s'"
    "outstanding (s'\<lparr>pr_coord := co\<rparr>) = outstanding s'" "outstanding (s'\<lparr>pr_gc := n\<rparr>) = outstanding s'" for s' co n
    by (simp_all add: job_inv_def outstanding_def)
  show "handshake_inv ((answered t w s)\<lparr>pr_coord := Global new (pr_phase s w) pre t\<rparr>)" if p: "(new, pre) \<in> follows (pr_phase s w)"
  proof -
    have "signal new \<and> pending pre \<and> accepted pre = new"
      using p by (cases "pr_phase s w") (auto simp: follows_def signal_def pending_def)
    then have "coord_inv ((answered t w s)\<lparr>pr_coord := Global new (pr_phase s w) pre t\<rparr>)"
      using l w(3) t by (simp add: coord_inv_def upd answered_fields)
    then show ?thesis using i a odd by (simp add: handshake_inv_def upd answered_fields)
  qed
  show "handshake_inv ((answered t w s)\<lparr>pr_gc := pr_gc s + 1\<rparr>)" if "pr_phase s w = ASYNC"
  proof -
    have "coord_inv ((answered t w s)\<lparr>pr_gc := pr_gc s + 1\<rparr>)"
      using ci l by (simp add: coord_inv_def upd answered_fields)
    then show ?thesis using i a l that w(3) by (simp add: handshake_inv_def upd answered_fields)
  qed
qed


text \<open>Steps of the coordinating thread.\<close>

lemma outstanding_upd [simp]:
  "outstanding (s\<lparr>pr_coord := co\<rparr>) = outstanding s" "outstanding (s\<lparr>pr_gc := n\<rparr>) = outstanding s"
  "outstanding (s\<lparr>pr_new := p\<rparr>) = outstanding s" "outstanding (s\<lparr>pr_handshake := h\<rparr>) = outstanding s"
  "outstanding (s\<lparr>pr_flag := f\<rparr>) = outstanding s" "outstanding (s\<lparr>pr_owner := o'\<rparr>) = outstanding s"
  by (simp_all add: outstanding_def)

lemma job_inv_upd [simp]:
  "job_inv (s\<lparr>pr_coord := co\<rparr>) = job_inv s" "job_inv (s\<lparr>pr_gc := n\<rparr>) = job_inv s"
  "job_inv (s\<lparr>pr_handshake := h\<rparr>) = job_inv s" "job_inv (s\<lparr>pr_flag := f\<rparr>) = job_inv s"
  by (simp_all add: job_inv_def)

lemma job_inv_frame:
  assumes ji: "job_inv s" and job: "pr_job s' = pr_job s" and ws: "set (pr_workers s) \<subseteq> set (pr_workers s')"
    and act: "\<And>t w. pr_job s t = Act w \<Longrightarrow> pr_phase s' w = pr_new s' \<and> (w \<noteq> t \<longrightarrow> pr_owner s' w = Helped)"
    and rel: "\<And>t w. pr_job s t = Release w \<Longrightarrow> pr_owner s' w = Helped"
    and hlp: "\<And>w. w \<in> set (pr_workers s') \<Longrightarrow> pr_owner s' w = Helped \<Longrightarrow> w \<in> set (pr_workers s) \<and> pr_owner s w = Helped"
  shows "job_inv s'"
proof (rule job_invI; (unfold job)?)
  note d = job_invD [OF ji]
  show "pr_job s t = Free" if "t \<notin> set (pr_workers s')" for t using that ws d(1) by blast
  show "w \<in> set (pr_workers s') \<and> pr_phase s' w = pr_new s' \<and> (w \<noteq> t \<longrightarrow> pr_owner s' w = Helped)" if "pr_job s t = Act w" for t w
    using act [OF that] d(2) [OF that] ws by blast
  show "w \<in> set (pr_workers s') \<and> pr_owner s' w = Helped" if "pr_job s t = Release w" for t w
    using rel [OF that] d(3) [OF that] ws by blast
  show "t = t'" if "pr_job s t \<in> {Act w, Release w}" "pr_job s t' \<in> {Act w, Release w}" for t t' w by (rule d(4) [OF that])
  show "\<exists>t. pr_job s t \<in> {Act w, Release w}" if "w \<in> set (pr_workers s')" "pr_owner s' w = Helped" for w
    using hlp [OF that] d(5) by blast
qed

lemma inv_start:
  assumes i: "handshake_inv s" and "even (pr_gc s)" and "t \<in> set (pr_workers s)"
  shows "handshake_inv (s\<lparr>pr_gc := pr_gc s + 1, pr_coord := Global SYNC1 ASYNC PRESYNC1 t\<rparr>)"
proof -
  have ci: "coord_inv s" and e: "pr_coord s = Idle" "outstanding s = {}" "pr_new s = ASYNC" using i assms(2) by (simp_all add: handshake_inv_def)
  have "pr_phase s w = ASYNC" if "w \<in> set (pr_workers s)" for w
  proof -
    have "\<not> pending (pr_phase s w)" using e(2) that by (auto simp: outstanding_def)
    moreover have "accepted (pr_phase s w) = ASYNC" using ci e(1,3) that by (simp add: coord_inv_def)
    ultimately show ?thesis by (simp add: not_pending)
  qed
  then have "coord_inv (s\<lparr>pr_gc := pr_gc s + 1, pr_coord := Global SYNC1 ASYNC PRESYNC1 t\<rparr>)"
    using ci e assms(3) by (simp add: coord_inv_def signal_def pending_def)
  then show ?thesis using i assms(2) by (auto simp: handshake_inv_def)
qed

lemma inv_global:
  assumes i: "handshake_inv s" and c: "pr_coord s = Global new old pre t"
  shows "handshake_inv (s\<lparr>pr_new := new, pr_coord := Changing old pre (pr_workers s) [] t\<rparr>)"
proof -
  have ji: "job_inv s" and ci: "coord_inv s" using i by (simp_all add: handshake_inv_def)
  have g: "t \<in> set (pr_workers s)" "outstanding s = {}" "pr_flag s = 0" "old = pr_new s" "signal new" "pending pre" "accepted pre = new"
    "\<forall>w\<in>set (pr_workers s). pr_phase s w = pr_new s" using ci c by (simp_all add: coord_inv_def)
  have na: "pr_job s t' \<noteq> Act w" for t' w using g(2) by (auto simp: outstanding_def)
  have "job_inv (s\<lparr>pr_new := new\<rparr>)"
    by (rule job_inv_frame [OF ji]) (use job_invD(3) [OF ji] na in simp_all)
  moreover have "coord_inv (s\<lparr>pr_new := new, pr_coord := Changing old pre (pr_workers s) [] t\<rparr>)"
    using g i by (simp add: coord_inv_def handshake_inv_def)
  ultimately show ?thesis using i c g(5) by (simp add: handshake_inv_def)
qed

lemma inv_change:
  assumes i: "handshake_inv s" and c: "pr_coord s = Changing old pre (w # todo) dn t"
  shows "handshake_inv (s\<lparr>pr_phase := (pr_phase s)(w := pre), pr_coord := Changing old pre todo (dn @ [w]) t\<rparr>)" (is "handshake_inv ?s")
proof -
  have ji: "job_inv s" and ci: "coord_inv s" using i by (simp_all add: handshake_inv_def)
  have g: "t \<in> set (pr_workers s)" "distinct (dn @ w # todo)" "set (dn @ w # todo) \<subseteq> set (pr_workers s)" "pending pre" "accepted pre = pr_new s"
    "signal old" "outstanding s \<subseteq> set dn" "\<forall>v\<in>set (w # todo). pr_phase s v = old"
    "\<forall>v\<in>set (pr_workers s) - set (w # todo). accepted (pr_phase s v) = pr_new s"
    "pr_flag s = word_of_nat (card (outstanding s)) - word_of_nat (length dn)" using ci c by (simp_all add: coord_inv_def)
  have wo: "w \<notin> outstanding s" "w \<in> set (pr_workers s)" using g(2,3,7) by auto
  have na: "pr_job s t' \<noteq> Act w" for t' using wo(1) by (auto simp: outstanding_def)
  have o: "outstanding ?s = insert w (outstanding s)" using wo(2) g(4) by (auto simp: outstanding_def)
  have "job_inv ?s"
  proof (rule job_inv_frame [OF ji])
    show "pr_phase ?s v = pr_new ?s \<and> (v \<noteq> t' \<longrightarrow> pr_owner ?s v = Helped)" if "pr_job s t' = Act v" for t' v
      using job_invD(2) [OF ji that] na [of t'] that by auto
  qed (use job_invD(3) [OF ji] in simp_all)
  moreover have "card (outstanding ?s) = Suc (card (outstanding s))" unfolding o using wo(1) finite_outstanding [OF ji] by simp
  then have "pr_flag s = word_of_nat (card (outstanding ?s)) - word_of_nat (length (dn @ [w]))" using g(10) by (simp add: algebra_simps)
  then have "coord_inv ?s" using g o by (auto simp: coord_inv_def simp del: of_nat_Suc)
  moreover have "odd (pr_gc s)" using i c by (auto simp: handshake_inv_def)
  ultimately show ?thesis using i by (simp add: handshake_inv_def)
qed

lemma inv_publish:
  assumes i: "handshake_inv s" and c: "pr_coord s = Changing old pre [] dn t"
  shows "handshake_inv (s\<lparr>pr_handshake := dn, pr_coord := Adding dn t\<rparr>)"
proof -
  have "odd (pr_gc s)" "coord_inv s" using i c by (auto simp: handshake_inv_def)
  then show ?thesis using i c by (simp add: handshake_inv_def coord_inv_def)
qed

lemma inv_add:
  assumes i: "handshake_inv s" and c: "pr_coord s = Adding dn t"
  shows "handshake_inv (s\<lparr>pr_flag := pr_flag s + word_of_nat (length dn), pr_coord := Idle\<rparr>)"
proof -
  have "odd (pr_gc s)" "coord_inv s" using i c by (auto simp: handshake_inv_def)
  then show ?thesis using i c by (simp add: handshake_inv_def coord_inv_def)
qed

text \<open>Steps that leave the outstanding workers alone.\<close>

lemma inv_owner:
  assumes i: "handshake_inv s" and "pr_owner s t \<noteq> Helped" and "ow \<noteq> Helped"
  shows "handshake_inv (s\<lparr>pr_owner := (pr_owner s)(t := ow)\<rparr>)" (is "handshake_inv ?s")
proof -
  have ji: "job_inv s" and ci: "coord_inv s" using i by (simp_all add: handshake_inv_def)
  have "job_inv ?s"
  proof (rule job_inv_frame [OF ji])
    show "pr_phase ?s v = pr_new ?s \<and> (v \<noteq> t' \<longrightarrow> pr_owner ?s v = Helped)" if "pr_job s t' = Act v" for t' v
      using job_invD(2) [OF ji that] assms(2) by auto
    show "pr_owner ?s v = Helped" if "pr_job s t' = Release v" for t' v using job_invD(3) [OF ji that] assms(2) by auto
    show "v \<in> set (pr_workers s) \<and> pr_owner s v = Helped" if "v \<in> set (pr_workers ?s)" "pr_owner ?s v = Helped" for v
      using that assms(3) by (auto split: if_splits)
  qed simp_all
  moreover have "coord_inv ?s" by (rule coord_inv_frame [OF ci]) simp_all
  ultimately show ?thesis using i by (simp add: handshake_inv_def)
qed

lemma inv_release:
  assumes i: "handshake_inv s" and j: "pr_job s t = Release w"
  shows "handshake_inv (s\<lparr>pr_owner := (pr_owner s)(w := Unowned), pr_job := (pr_job s)(t := Free)\<rparr>)" (is "handshake_inv ?s")
proof -
  have ji: "job_inv s" and ci: "coord_inv s" using i by (simp_all add: handshake_inv_def)
  note d = job_invD [OF ji]
  have u: "t' = t" if "pr_job s t' \<in> {Act w, Release w}" for t' using d(4) [OF that, of t] j by simp
  have na: "pr_job s t' \<noteq> Act w" for t' using u [of t'] j by auto
  have "job_inv ?s"
  proof (rule job_invI)
    show "pr_job ?s t' = Free" if "t' \<notin> set (pr_workers ?s)" for t' using that d(1) by simp
    show "v \<in> set (pr_workers ?s) \<and> pr_phase ?s v = pr_new ?s \<and> (v \<noteq> t' \<longrightarrow> pr_owner ?s v = Helped)" if "pr_job ?s t' = Act v" for t' v
      using that d(2) [of t' v] na [of t'] by (auto split: if_splits)
    show "v \<in> set (pr_workers ?s) \<and> pr_owner ?s v = Helped" if "pr_job ?s t' = Release v" for t' v
    proof -
      have r: "t' \<noteq> t" "pr_job s t' = Release v" using that by (simp_all split: if_splits)
      then have "v \<noteq> w" using u by blast
      then show ?thesis using d(3) [OF r(2)] by simp
    qed
    show "t1 = t2" if "pr_job ?s t1 \<in> {Act v, Release v}" "pr_job ?s t2 \<in> {Act v, Release v}" for t1 t2 v
      using that d(4) [of t1 v t2] by (simp split: if_splits)
    show "\<exists>t'. pr_job ?s t' \<in> {Act v, Release v}" if v: "v \<in> set (pr_workers ?s)" "pr_owner ?s v = Helped" for v
    proof -
      have "v \<noteq> w" "pr_owner s v = Helped" "v \<in> set (pr_workers s)" using v by (auto split: if_splits)
      then obtain t' where t': "pr_job s t' \<in> {Act v, Release v}" "v \<noteq> w" using d(5) by blast
      then have "t' \<noteq> t" using j by auto
      then show ?thesis using t' by (intro exI [of _ t']) simp
    qed
  qed
  moreover have o: "outstanding ?s = outstanding s"
  proof -
    have "(\<exists>t'. pr_job ?s t' = Act v) \<longleftrightarrow> (\<exists>t'. pr_job s t' = Act v)" for v using j by (auto split: if_splits) (metis job.distinct(5))
    then show ?thesis by (simp add: outstanding_def)
  qed
  then have "coord_inv ?s" by (rule coord_inv_frame [OF ci]) simp_all
  ultimately show ?thesis using i o by (simp add: handshake_inv_def)
qed

lemma inv_register:
  assumes i: "handshake_inv s" and t: "t \<notin> set (pr_workers s)" "length (pr_workers s) + 1 < 2 ^ 31"
  shows "handshake_inv (s\<lparr>pr_workers := t # pr_workers s, pr_phase := (pr_phase s)(t := pr_new s), pr_owner := (pr_owner s)(t := Owned)\<rparr>)" (is "handshake_inv ?s")
proof -
  have ji: "job_inv s" and ci: "coord_inv s" and sg: "signal (pr_new s)" using i by (simp_all add: handshake_inv_def)
  note d = job_invD [OF ji]
  have na: "pr_job s t' \<noteq> Act t" "pr_job s t' \<noteq> Release t" for t' using d(2) [of t' t] d(3) [of t' t] t(1) by auto
  have "job_inv ?s"
  proof (rule job_inv_frame [OF ji])
    show "pr_phase ?s v = pr_new ?s \<and> (v \<noteq> t' \<longrightarrow> pr_owner ?s v = Helped)" if "pr_job s t' = Act v" for t' v
      using d(2) [OF that] na(1) [of t'] that by auto
    show "pr_owner ?s v = Helped" if "pr_job s t' = Release v" for t' v using d(3) [OF that] na(2) [of t'] that by auto
    show "v \<in> set (pr_workers s) \<and> pr_owner s v = Helped" if "v \<in> set (pr_workers ?s)" "pr_owner ?s v = Helped" for v
      using that by (auto split: if_splits)
  qed auto
  moreover have o: "outstanding ?s = outstanding s" using t(1) signal_settled [OF sg] by (auto simp: outstanding_def)
  moreover have "coord_inv ?s"
  proof (cases "pr_coord s")
    case Idle
    then show ?thesis using ci o sg signal_settled [OF sg] by (auto simp: coord_inv_def not_pending)
  next
    case Global
    then show ?thesis using ci o by (auto simp: coord_inv_def)
  next
    case (Changing old pre todo dn r)
    then have "t \<notin> set todo" "t \<notin> set dn" using ci t(1) by (auto simp: coord_inv_def)
    then show ?thesis using Changing ci o signal_settled [OF sg] by (auto simp: coord_inv_def not_pending)
  next
    case Adding
    then show ?thesis using ci o signal_settled [OF sg] by (auto simp: coord_inv_def not_pending)
  qed
  moreover have "even (pr_gc ?s) \<longrightarrow> pr_coord ?s = Idle \<and> outstanding ?s = {} \<and> pr_new ?s = ASYNC"
    unfolding o using i by (simp add: handshake_inv_def)
  moreover have "distinct (pr_workers ?s)" "length (pr_workers ?s) < 2 ^ 31" "set (pr_handshake ?s) \<subseteq> set (pr_workers ?s)" "signal (pr_new ?s)"
    using i t by (auto simp: handshake_inv_def)
  ultimately show ?thesis unfolding handshake_inv_def by blast
qed

lemma inv_handshake: "handshake_inv s \<Longrightarrow> set h \<subseteq> set (pr_workers s) \<Longrightarrow> handshake_inv (s\<lparr>pr_handshake := h\<rparr>)"
  by (cases "pr_coord s") (simp_all add: handshake_inv_def coord_inv_def)

lemma tl_dropWhile_subset: "set (tl (dropWhile P xs)) \<subseteq> set xs"
  by (induction xs) auto

lemma unhelped_job:
  assumes "handshake_inv s" and "pr_owner s w \<noteq> Helped" and "pr_job s t \<in> {Act w, Release w}"
  shows "t = w \<and> pr_job s w = Act w"
proof -
  have ji: "job_inv s" using assms(1) by (simp add: handshake_inv_def)
  show ?thesis using job_invD(2,3) [OF ji, of t w] assms(2,3) by auto
qed

lemma inv_step:
  assumes "step s s'" and i: "handshake_inv s"
  shows "handshake_inv s'"
  using assms(1)
proof cases
  case (start t)
  then show ?thesis using inv_start [OF i] by (simp add: free_def)
next
  case (global new old pre t)
  then show ?thesis using inv_global [OF i] by simp
next
  case (change old pre w todo dn t)
  then show ?thesis using inv_change [OF i] by simp
next
  case (publish old pre dn t)
  then show ?thesis using inv_publish [OF i] by simp
next
  case (add dn t)
  then show ?thesis using inv_add [OF i] by simp
next
  case (check t)
  then show ?thesis using inv_accept [OF i, of t t Owned] unhelped_job [OF i, of t] by (auto simp: free_def)
next
  case (leave_act t)
  then show ?thesis using inv_accept [OF i, of t t Unowned] unhelped_job [OF i, of t] by (auto simp: free_def)
next
  case (leave t)
  then show ?thesis using inv_owner [OF i] by simp
next
  case (enter t)
  then show ?thesis using inv_owner [OF i] by simp
next
  case (help_other t w)
  have w: "w \<in> set (pr_workers s)" "pr_owner s w = Unowned" "pending (pr_phase s w)"
    using help_other i by (auto simp: helpable_def handshake_inv_def)
  have "pr_job s t' \<notin> {Act w, Release w}" for t'
    using unhelped_job [OF i, of w t'] act_outstanding(2) [OF i, of w w] w(2,3) by auto
  then have a: "handshake_inv (accept t w Helped s)" using inv_accept [OF i _ w(1,3), of t Helped] help_other by (auto simp: free_def)
  have "set (tl (dropWhile (\<lambda>v. v \<noteq> w) (pr_handshake s))) \<subseteq> set (pr_workers s)"
    by (rule subset_trans [OF tl_dropWhile_subset]) (use i in \<open>simp add: handshake_inv_def\<close>)
  then show ?thesis unfolding help_other(1) by (intro inv_handshake [OF a]) (simp add: accept_def)
next
  case (clear t)
  then show ?thesis using inv_handshake [OF i] by simp
next
  case (ans t w)
  then show ?thesis using inv_ans [OF i] by simp
next
  case (last_ans t w new pre)
  then show ?thesis using inv_last(1) [OF i] by simp
next
  case (finish t w)
  then show ?thesis using inv_last(2) [OF i] by simp
next
  case (release t w)
  then show ?thesis using inv_release [OF i] by simp
next
  case (again t w)
  have ji: "job_inv s" using i by (simp add: handshake_inv_def)
  have "t' = t" if "pr_job s t' \<in> {Act w, Release w}" for t' using job_invD(4) [OF ji that, of t] again by simp
  moreover have "t \<in> set (pr_workers s)" using job_invD(1) [OF ji, of t] again by auto
  ultimately show ?thesis using inv_accept [OF i, of t w Helped] again job_invD(3) [OF ji, of t w] by auto
next
  case (register t)
  then show ?thesis using inv_register [OF i] by simp
qed


lemma inv_initial: "handshake_inv initial"
  by (simp add: handshake_inv_def initial_def job_inv_def coord_inv_def outstanding_def signal_def)

lemma reachable_inv: "reachable s \<Longrightarrow> handshake_inv s"
  unfolding reachable_def by (induction rule: rtranclp_induct) (auto intro: inv_initial inv_step)

section \<open>Only the last worker advances the collection\<close>

text \<open>
  C3: the counter singles out the last worker.  In every reachable state, when a thread that has acted
  for worker \<open>w\<close> finds the counter at one, then no thread is changing phases, every worker has accepted the
  signal and is in the same phase as \<open>w\<close>, and no other thread still has to answer.  So the collection
  goes to its next phase only after the actions of all workers, and by one thread.
\<close>

theorem last_answer_is_last:
  assumes "reachable s" and "pr_job s t = Act w" and "pr_flag s = 1"
  shows "pr_coord s = Idle \<and> (\<forall>v\<in>set (pr_workers s). pr_phase s v = pr_phase s w \<and> \<not> pending (pr_phase s v)) \<and>
    (\<forall>t' v. pr_job s t' = Act v \<longrightarrow> t' = t \<and> v = w)"
proof -
  have i: "handshake_inv s" by (rule reachable_inv [OF assms(1)])
  note l = last_worker [OF i assms(2,3)] and w = act_outstanding [OF i assms(2)]
  have ji: "job_inv s" using i by (simp add: handshake_inv_def)
  have "t' = t \<and> v = w" if "pr_job s t' = Act v" for t' v
    using act_outstanding(1) [OF i that] l(2) job_invD(4) [OF ji, of t' w t] that assms(2) by auto
  then show ?thesis using l(1,5) w(2) by auto
qed


section \<open>A lost collection\<close>

text \<open>
  The counter is raised after the phases have been changed, and nobody looks at the result.  A thread that
  leaves ML code may be the last to answer; while it takes the workers to the next phase, its own worker
  is unowned, so that another thread may answer for it.
\<close>

definition stuck :: "protocol \<Rightarrow> bool" where
  "stuck s \<longleftrightarrow> odd (pr_gc s) \<and> pr_coord s = Idle \<and> outstanding s = {} \<and> pr_flag s = 0"

lemma stuck_step:
  assumes "step s s'" and "stuck s" and i: "handshake_inv s"
  shows "stuck s' \<and> pr_gc s' = pr_gc s"
proof -
  have nA: "pr_job s t \<noteq> Act w" for t w using assms(2) by (auto simp: stuck_def outstanding_def)
  have nP: "\<not> pending (pr_phase s w)" if "w \<in> set (pr_workers s)" for w using assms(2) that by (auto simp: stuck_def outstanding_def)
  have ji: "job_inv s" and sg: "signal (pr_new s)" using i by (simp_all add: handshake_inv_def)
  show ?thesis using assms(1)
  proof cases
    case (release t w)
    have "outstanding s' = {}" using nA nP by (auto simp: release(1) outstanding_def)
    then show ?thesis using assms(2) release(1) by (simp add: stuck_def)
  next
    case (again t w)
    then show ?thesis using nP job_invD(3) [OF ji, of t w] by simp
  next
    case (register t)
    have "outstanding s' = {}" using nA nP signal_settled [OF sg] by (auto simp: register(1) outstanding_def)
    then show ?thesis using assms(2) register(1) by (simp add: stuck_def)
  next
    case (help_other t w)
    then have "w \<in> set (pr_workers s)" "pending (pr_phase s w)" using i by (auto simp: handshake_inv_def helpable_def)
    then show ?thesis using nP by blast
  qed (use assms(2) nA nP in \<open>auto simp: stuck_def free_def\<close>)
qed

lemma stuck_forever:
  assumes "step\<^sup>*\<^sup>* s s'" and "stuck s" and "handshake_inv s"
  shows "stuck s' \<and> pr_gc s' = pr_gc s"
proof -
  have "stuck s' \<and> handshake_inv s' \<and> pr_gc s' = pr_gc s"
    using assms by (induction rule: rtranclp_induct) (auto dest: stuck_step inv_step)
  then show ?thesis by blast
qed

text \<open>States of two workers, 1 and 2.\<close>

definition two :: "(sml_sync_phase \<times> owner \<times> job) \<Rightarrow> (sml_sync_phase \<times> owner \<times> job) \<Rightarrow> sml_sync_phase \<Rightarrow> coordinator \<Rightarrow> nat list \<Rightarrow>
    u32 \<Rightarrow> nat \<Rightarrow> protocol" where
  "two a b new co hs fl gc =
     \<lparr>pr_workers = [2, 1], pr_new = new, pr_phase = (\<lambda>w. if w = 1 then fst a else if w = 2 then fst b else ASYNC),
      pr_owner = (\<lambda>w. if w = 1 then fst (snd a) else if w = 2 then fst (snd b) else Unowned),
      pr_job = (\<lambda>w. if w = 1 then snd (snd a) else if w = 2 then snd (snd b) else Free),
      pr_coord = co, pr_handshake = hs, pr_flag = fl, pr_gc = gc\<rparr>"

lemma step_eq: "step s s' \<Longrightarrow> s' = s'' \<Longrightarrow> step s s''"
  by simp

lemmas two_simps = two_def free_def accept_def answered_def helpable_def pending_def follows_def fun_eq_iff

lemma two_registered: "reachable (two (ASYNC, Owned, Free) (ASYNC, Owned, Free) ASYNC Idle [] 0 0)"
proof -
  let ?s1 = "initial\<lparr>pr_workers := [1], pr_phase := (pr_phase initial)(1 := ASYNC), pr_owner := (pr_owner initial)(1 := Owned)\<rparr>"
  have "step initial ?s1" by (rule step_eq [OF step.register [of 1]]) (simp_all add: initial_def)
  moreover have "step ?s1 (two (ASYNC, Owned, Free) (ASYNC, Owned, Free) ASYNC Idle [] 0 0)"
    by (rule step_eq [OF step.register [of 2]]) (auto simp: initial_def two_simps)
  ultimately show ?thesis unfolding reachable_def by (meson rtranclp.rtrancl_into_rtrancl rtranclp.rtrancl_refl)
qed

text \<open>Thread 2 starts a collection; thread 1 leaves ML code, answers last and changes the phases.\<close>

lemma two_answers:
  "step\<^sup>*\<^sup>* (two (ASYNC, Owned, Free) (ASYNC, Owned, Free) ASYNC Idle [] 0 0)
     (two (SYNC1, Unowned, Act 1) (SYNC1, Owned, Free) SYNC1 Idle [2, 1] 1 1)"
proof -
  have "step (two (ASYNC, Owned, Free) (ASYNC, Owned, Free) ASYNC Idle [] 0 0)
      (two (ASYNC, Owned, Free) (ASYNC, Owned, Free) ASYNC (Global SYNC1 ASYNC PRESYNC1 2) [] 0 1)" (is "step ?a ?b")
    by (rule step_eq [OF step.start [of _ 2]]) (auto simp: two_simps)
  moreover have "step ?b (two (ASYNC, Owned, Free) (ASYNC, Owned, Free) SYNC1 (Changing ASYNC PRESYNC1 [2, 1] [] 2) [] 0 1)" (is "step _ ?c")
    by (rule step_eq [OF step.global]) (auto simp: two_simps)
  moreover have "step ?c (two (ASYNC, Owned, Free) (PRESYNC1, Owned, Free) SYNC1 (Changing ASYNC PRESYNC1 [1] [2] 2) [] 0 1)" (is "step _ ?d")
    by (rule step_eq [OF step.change]) (auto simp: two_simps)
  moreover have "step ?d (two (PRESYNC1, Owned, Free) (PRESYNC1, Owned, Free) SYNC1 (Changing ASYNC PRESYNC1 [] [2, 1] 2) [] 0 1)" (is "step _ ?e")
    by (rule step_eq [OF step.change]) (auto simp: two_simps)
  moreover have "step ?e (two (PRESYNC1, Owned, Free) (PRESYNC1, Owned, Free) SYNC1 (Adding [2, 1] 2) [2, 1] 0 1)" (is "step _ ?f")
    by (rule step_eq [OF step.publish]) (auto simp: two_simps)
  moreover have "step ?f (two (PRESYNC1, Owned, Free) (PRESYNC1, Owned, Free) SYNC1 Idle [2, 1] 2 1)" (is "step _ ?g")
    by (rule step_eq [OF step.add]) (auto simp: two_simps)
  moreover have "step ?g (two (PRESYNC1, Owned, Free) (SYNC1, Owned, Act 2) SYNC1 Idle [2, 1] 2 1)" (is "step _ ?h")
    by (rule step_eq [OF step.check [of _ 2]]) (auto simp: two_simps)
  moreover have "step ?h (two (PRESYNC1, Owned, Free) (SYNC1, Owned, Free) SYNC1 Idle [2, 1] 1 1)" (is "step _ ?i")
    by (rule step_eq [OF step.ans [of _ 2 2]]) (auto simp: two_simps)
  moreover have "step ?i (two (SYNC1, Unowned, Act 1) (SYNC1, Owned, Free) SYNC1 Idle [2, 1] 1 1)"
    by (rule step_eq [OF step.leave_act [of _ 1]]) (auto simp: two_simps)
  ultimately show ?thesis by - ((rule converse_rtranclp_into_rtranclp, assumption)+, rule rtranclp.rtrancl_refl)
qed

lemma two_left:
  "step\<^sup>*\<^sup>* (two (SYNC1, Unowned, Act 1) (SYNC1, Owned, Free) SYNC1 Idle [2, 1] 1 1)
     (two (PRESYNC2, Unowned, Free) (PRESYNC2, Owned, Free) SYNC2 (Adding [2, 1] 1) [2, 1] 0 1)"
proof -
  have "step (two (SYNC1, Unowned, Act 1) (SYNC1, Owned, Free) SYNC1 Idle [2, 1] 1 1) (two (SYNC1, Unowned, Free) (SYNC1, Owned, Free) SYNC1 (Global SYNC2 SYNC1 PRESYNC2 1) [2, 1] 0 1)" (is "step _ ?k")
    by (rule step_eq [OF step.last_ans [of _ 1 1 SYNC2 PRESYNC2]]) (auto simp: two_simps)
  moreover have "step ?k (two (SYNC1, Unowned, Free) (SYNC1, Owned, Free) SYNC2 (Changing SYNC1 PRESYNC2 [2, 1] [] 1) [2, 1] 0 1)" (is "step _ ?l")
    by (rule step_eq [OF step.global]) (auto simp: two_simps)
  moreover have "step ?l (two (SYNC1, Unowned, Free) (PRESYNC2, Owned, Free) SYNC2 (Changing SYNC1 PRESYNC2 [1] [2] 1) [2, 1] 0 1)" (is "step _ ?m")
    by (rule step_eq [OF step.change]) (auto simp: two_simps)
  moreover have "step ?m (two (PRESYNC2, Unowned, Free) (PRESYNC2, Owned, Free) SYNC2 (Changing SYNC1 PRESYNC2 [] [2, 1] 1) [2, 1] 0 1)" (is "step _ ?n")
    by (rule step_eq [OF step.change]) (auto simp: two_simps)
  moreover have "step ?n (two (PRESYNC2, Unowned, Free) (PRESYNC2, Owned, Free) SYNC2 (Adding [2, 1] 1) [2, 1] 0 1)"
    by (rule step_eq [OF step.publish]) (auto simp: two_simps)
  ultimately show ?thesis by - ((rule converse_rtranclp_into_rtranclp, assumption)+, rule rtranclp.rtrancl_refl)
qed

theorem last_answer_is_last_witness:
  "\<exists>s. reachable s \<and> pr_job s 1 = Act 1 \<and> pr_flag s = 1 \<and> pr_coord s = Idle \<and> pr_phase s 2 = pr_phase s 1"
proof -
  let ?s = "two (SYNC1, Unowned, Act 1) (SYNC1, Owned, Free) SYNC1 Idle [2, 1] 1 1"
  have r: "reachable ?s" using two_registered two_answers unfolding reachable_def by (rule rtranclp_trans)
  have j: "pr_job ?s 1 = Act 1" "pr_flag ?s = 1" "2 \<in> set (pr_workers ?s)" by (simp_all add: two_def)
  show ?thesis using last_answer_is_last [OF r j(1,2)] r j by blast
qed

text \<open>Before thread 1 raises the counter, thread 2 answers for its own worker and for worker 1.\<close>

lemma two_lost:
  "step\<^sup>*\<^sup>* (two (PRESYNC2, Unowned, Free) (PRESYNC2, Owned, Free) SYNC2 (Adding [2, 1] 1) [2, 1] 0 1)
     (two (SYNC2, Unowned, Free) (SYNC2, Owned, Free) SYNC2 Idle [] 0 1)"
proof -
  have "step (two (PRESYNC2, Unowned, Free) (PRESYNC2, Owned, Free) SYNC2 (Adding [2, 1] 1) [2, 1] 0 1)
      (two (PRESYNC2, Unowned, Free) (SYNC2, Owned, Act 2) SYNC2 (Adding [2, 1] 1) [2, 1] 0 1)" (is "step ?a ?b")
    by (rule step_eq [OF step.check [of _ 2]]) (auto simp: two_simps)
  moreover have "step ?b (two (PRESYNC2, Unowned, Free) (SYNC2, Owned, Free) SYNC2 (Adding [2, 1] 1) [2, 1] (- 1) 1)" (is "step _ ?c")
    by (rule step_eq [OF step.ans [of _ 2 2]]) (auto simp: two_simps)
  moreover have "step ?c (two (SYNC2, Helped, Free) (SYNC2, Owned, Act 1) SYNC2 (Adding [2, 1] 1) [] (- 1) 1)" (is "step _ ?d")
    by (rule step_eq [OF step.help_other [of _ 2 1]]) (auto simp: two_simps)
  moreover have "step ?d (two (SYNC2, Helped, Free) (SYNC2, Owned, Release 1) SYNC2 (Adding [2, 1] 1) [] (- 2) 1)" (is "step _ ?e")
    by (rule step_eq [OF step.ans [of _ 2 1]]) (auto simp: two_simps)
  moreover have "step ?e (two (SYNC2, Unowned, Free) (SYNC2, Owned, Free) SYNC2 (Adding [2, 1] 1) [] (- 2) 1)" (is "step _ ?f")
    by (rule step_eq [OF step.release [of _ 2 1]]) (auto simp: two_simps)
  moreover have "step ?f (two (SYNC2, Unowned, Free) (SYNC2, Owned, Free) SYNC2 Idle [] 0 1)"
    by (rule step_eq [OF step.add]) (auto simp: two_simps)
  ultimately show ?thesis by - ((rule converse_rtranclp_into_rtranclp, assumption)+, rule rtranclp.rtrancl_refl)
qed

text \<open>
  C26: a collection can be lost.  With two workers there is a reachable state in which a collection is in
  progress, all workers have answered, the counter is zero and no thread is about to change the phases; from
  there on, whatever the threads do, the collection neither advances nor ends, and \<open>sml_wait_gc\<close> waits
  forever.
\<close>

theorem collection_can_be_lost:
  "\<exists>s. reachable s \<and> odd (pr_gc s) \<and> pr_coord s = Idle \<and> pr_flag s = 0 \<and>
     (\<forall>s'. step\<^sup>*\<^sup>* s s' \<longrightarrow> pr_gc s' = pr_gc s \<and> pr_coord s' = Idle \<and> outstanding s' = {})"
proof -
  let ?s = "two (SYNC2, Unowned, Free) (SYNC2, Owned, Free) SYNC2 Idle [] 0 1"
  have r: "reachable ?s" using two_registered two_answers two_left two_lost unfolding reachable_def by (meson rtranclp_trans)
  have "stuck ?s" by (auto simp: stuck_def two_def outstanding_def pending_def)
  then have "pr_gc s' = pr_gc ?s \<and> pr_coord s' = Idle \<and> outstanding s' = {}" if "step\<^sup>*\<^sup>* ?s s'" for s'
    using stuck_forever [OF that _ reachable_inv [OF r]] by (simp add: stuck_def)
  then show ?thesis using r by (intro exI [of _ ?s]) (simp add: two_def)
qed


theorem collection_can_be_lost_witness: "\<exists>s. reachable s \<and> odd (pr_gc s) \<and> pr_flag s = 0 \<and> outstanding s = {}"
  using collection_can_be_lost by (meson rtranclp.rtrancl_refl)

section \<open>Collections that can end\<close>

text \<open>
  A collection is lost when all workers have answered and nobody will look at the counter any more:
  either nobody changes the phases, or the changing thread has only to raise the counter.
\<close>

definition doomed :: "protocol \<Rightarrow> bool" where
  "doomed s \<longleftrightarrow> outstanding s = {} \<and>
     (case pr_coord s of Idle \<Rightarrow> True | Global _ _ _ _ \<Rightarrow> False | Changing _ _ todo _ _ \<Rightarrow> todo = [] | Adding _ _ \<Rightarrow> True)"

text \<open>What the constructions below keep track of.\<close>

definition leads :: "protocol \<Rightarrow> protocol \<Rightarrow> bool" where
  "leads s s' \<longleftrightarrow> step\<^sup>*\<^sup>* s s' \<and> handshake_inv s' \<and> pr_gc s' = pr_gc s \<and> pr_new s' = pr_new s"

lemma leads_refl: "handshake_inv s \<Longrightarrow> leads s s"
  by (simp add: leads_def)

lemma leads_step: "leads s s' \<Longrightarrow> step s' s'' \<Longrightarrow> pr_gc s'' = pr_gc s' \<Longrightarrow> pr_new s'' = pr_new s' \<Longrightarrow> leads s s''"
  by (auto simp: leads_def intro: inv_step rtranclp.rtrancl_into_rtrancl)

lemma leads_trans: "leads s s' \<Longrightarrow> leads s' s'' \<Longrightarrow> leads s s''"
  by (auto simp: leads_def)

lemma leads_inv: "leads s s' \<Longrightarrow> handshake_inv s'"
  by (simp add: leads_def)

text \<open>The coordinating thread gets through; a worker is left to answer.\<close>

lemma changing_ends:
  assumes "handshake_inv s" and "pr_coord s = Changing old pre todo dn t" and "todo \<noteq> [] \<or> outstanding s \<noteq> {}"
  shows "\<exists>s'. leads s s' \<and> pr_coord s' = Idle \<and> outstanding s' \<noteq> {}"
  using assms
proof (induction todo arbitrary: s dn)
  case Nil
  let ?s1 = "s\<lparr>pr_handshake := dn, pr_coord := Adding dn t\<rparr>"
  let ?s2 = "?s1\<lparr>pr_flag := pr_flag ?s1 + word_of_nat (length dn), pr_coord := Idle\<rparr>"
  have l1: "leads s ?s1" by (rule leads_step [OF leads_refl [OF Nil.prems(1)] step.publish [OF Nil.prems(2)]]) simp_all
  have "leads s ?s2" by (rule leads_step [OF l1 step.add [of ?s1 dn t]]) simp_all
  then show ?case using Nil.prems(3) by (intro exI [of _ ?s2]) simp
next
  case (Cons w todo)
  let ?s = "s\<lparr>pr_phase := (pr_phase s)(w := pre), pr_coord := Changing old pre todo (dn @ [w]) t\<rparr>"
  have l: "leads s ?s" by (rule leads_step [OF leads_refl [OF Cons.prems(1)] step.change [OF Cons.prems(2)]]) simp_all
  have "coord_inv s" using Cons.prems(1) by (simp add: handshake_inv_def)
  then have "w \<in> set (pr_workers s)" "pending pre" using Cons.prems(2) by (simp_all add: coord_inv_def)
  then have "w \<in> outstanding ?s" by (simp add: outstanding_def)
  then have "\<exists>s'. leads ?s s' \<and> pr_coord s' = Idle \<and> outstanding s' \<noteq> {}" by (intro Cons.IH [OF leads_inv [OF l]]) auto
  then show ?case using leads_trans [OF l] by blast
qed

lemma idle_flag:
  assumes "handshake_inv s" and "pr_coord s = Idle" and "pr_flag s \<noteq> 1" and "w \<in> outstanding s"
  shows "outstanding s - {w} \<noteq> {}"
proof
  assume "outstanding s - {w} = {}"
  then have "outstanding s = {w}" using assms(4) by blast
  then show False using assms(1-3) by (simp add: handshake_inv_def coord_inv_def)
qed

abbreviation (input) closer :: "(protocol \<times> protocol) set" where
  "closer \<equiv> measures [\<lambda>s. card (outstanding s), \<lambda>s. card {w \<in> set (pr_workers s). pending (pr_phase s w)},
     \<lambda>s. card {w \<in> set (pr_workers s). helpable s w}, \<lambda>s. card {t \<in> set (pr_workers s). \<exists>w. pr_job s t = Release w}]"

text \<open>While nobody changes phases, some thread can bring the last answer closer.\<close>

lemma accept_closer:
  assumes "handshake_inv s" and "w \<in> set (pr_workers s)" and "pending (pr_phase s w)" and "pr_job s t \<in> {Free, Release w}"
  shows "(accept t w ow s, s) \<in> closer"
proof -
  have "{v \<in> set (pr_workers (accept t w ow s)). pending (pr_phase (accept t w ow s) v)} \<subset> {v \<in> set (pr_workers s). pending (pr_phase s v)}"
    using assms(2,3) by (auto simp: accept_def)
  then have "card {v \<in> set (pr_workers (accept t w ow s)). pending (pr_phase (accept t w ow s) v)} < card {v \<in> set (pr_workers s). pending (pr_phase s v)}"
    by (rule psubset_card_mono [rotated]) simp
  then show ?thesis using outstanding_accept [OF assms(2-4)] by simp
qed

lemma progress:
  assumes i: "handshake_inv s" and c: "pr_coord s = Idle" and o: "outstanding s \<noteq> {}"
    and n: "\<not> (\<exists>t w. pr_job s t = Act w \<and> pr_flag s = 1)"
  shows "\<exists>s'. leads s s' \<and> pr_coord s' = Idle \<and> outstanding s' \<noteq> {} \<and> (s', s) \<in> closer"
proof -
  have ji: "job_inv s" using i by (simp add: handshake_inv_def)
  note d = job_invD [OF ji]
  have run: "runner (pr_coord s) \<noteq> Some t" for t using c by simp
  consider (act) t w where "pr_job s t = Act w" | (rel) t w where "pr_job s t = Release w"
    | (free) "\<And>t. pr_job s t = Free" by (metis job.exhaust)
  then show ?thesis
  proof cases
    case (act t w)
    have f: "pr_flag s \<noteq> 1" using act n by blast
    have w: "w \<in> outstanding s" by (rule act_outstanding [OF i act])
    have oa: "outstanding (answered t w s) = outstanding s - {w}" by (rule outstanding_answered [OF i act])
    have "leads s (answered t w s)"
      by (rule leads_step [OF leads_refl [OF i] step.ans [OF act run f]]) (simp_all add: answered_fields)
    moreover have "card (outstanding s - {w}) < card (outstanding s)" using w finite_outstanding [OF ji] by (metis card_Diff1_less)
    ultimately show ?thesis using oa idle_flag [OF i c f w] c by (intro exI [of _ "answered t w s"]) (simp add: answered_fields)
  next
    case (rel t w)
    have w: "w \<in> set (pr_workers s)" "t \<in> set (pr_workers s)" using d(3) [OF rel] d(1) [of t] rel by auto
    show ?thesis
    proof (cases "pending (pr_phase s w)")
      case True
      have "leads s (accept t w Helped s)"
        by (rule leads_step [OF leads_refl [OF i] step.again [OF rel run True]]) (simp_all add: accept_def)
      then show ?thesis using accept_closer [OF i w(1) True, of t Helped] outstanding_accept [OF w(1) True, of t Helped] rel c o
        by (intro exI [of _ "accept t w Helped s"]) (simp add: accept_def)
    next
      case False
      let ?s = "s\<lparr>pr_owner := (pr_owner s)(w := Unowned), pr_job := (pr_job s)(t := Free)\<rparr>"
      have l: "leads s ?s" by (rule leads_step [OF leads_refl [OF i] step.release [OF rel run False]]) simp_all
      have "(\<exists>t'. pr_job ?s t' = Act v) \<longleftrightarrow> (\<exists>t'. pr_job s t' = Act v)" for v
        using rel by (auto split: if_splits) (metis job.distinct(5))
      then have os: "outstanding ?s = outstanding s" by (simp add: outstanding_def)
      have hs: "{v \<in> set (pr_workers ?s). helpable ?s v} = {v \<in> set (pr_workers s). helpable s v}"
        using False d(3) [OF rel] by (auto simp: helpable_def split: if_splits)
      have "{v \<in> set (pr_workers ?s). \<exists>x. pr_job ?s v = Release x} \<subset> {v \<in> set (pr_workers s). \<exists>x. pr_job s v = Release x}"
        using rel w(2) by auto
      then have "card {v \<in> set (pr_workers ?s). \<exists>x. pr_job ?s v = Release x} < card {v \<in> set (pr_workers s). \<exists>x. pr_job s v = Release x}"
        by (rule psubset_card_mono [rotated]) simp
      then have "(?s, s) \<in> closer" using os hs by simp
      then show ?thesis using l os c o by (intro exI [of _ ?s]) simp
    qed
  next
    case free
    then obtain w where w: "w \<in> set (pr_workers s)" "pending (pr_phase s w)" using o by (auto simp: outstanding_def)
    have fr: "free s w" using w(1) free run by (simp add: free_def)
    have nh: "pr_owner s w \<noteq> Helped" using d(5) [OF w(1)] free by auto
    show ?thesis
    proof (cases "pr_owner s w")
      case Owned
      have "leads s (accept w w Owned s)"
        by (rule leads_step [OF leads_refl [OF i] step.check [OF fr Owned w(2)]]) (simp_all add: accept_def)
      then show ?thesis using accept_closer [OF i w, of w Owned] outstanding_accept [OF w, of w Owned] free [of w] c o
        by (intro exI [of _ "accept w w Owned s"]) (simp add: accept_def)
    next
      case Unowned
      let ?s = "s\<lparr>pr_owner := (pr_owner s)(w := Owned)\<rparr>"
      have l: "leads s ?s" by (rule leads_step [OF leads_refl [OF i] step.enter [OF fr Unowned]]) simp_all
      have "{v \<in> set (pr_workers ?s). helpable ?s v} \<subset> {v \<in> set (pr_workers s). helpable s v}"
        using w Unowned by (auto simp: helpable_def split: if_splits)
      then have "card {v \<in> set (pr_workers ?s). helpable ?s v} < card {v \<in> set (pr_workers s). helpable s v}"
        by (rule psubset_card_mono [rotated]) simp
      then have "(?s, s) \<in> closer" by simp
      then show ?thesis using l c o by (intro exI [of _ ?s]) simp
    qed (use nh in simp)
  qed
qed


lemma answers_end:
  assumes "handshake_inv s" and "pr_coord s = Idle" and "outstanding s \<noteq> {}"
  shows "\<exists>s' t w. leads s s' \<and> pr_job s' t = Act w \<and> pr_flag s' = 1"
proof -
  have "wf closer" by simp
  then show ?thesis using assms
  proof (induction s)
    case (less s)
    show ?case
    proof (cases "\<exists>t w. pr_job s t = Act w \<and> pr_flag s = 1")
      case True
      then show ?thesis using leads_refl [OF less.prems(1)] by blast
    next
      case False
      from progress [OF less.prems False] obtain s1 where
        s1: "leads s s1" "pr_coord s1 = Idle" "outstanding s1 \<noteq> {}" "(s1, s) \<in> closer" by blast
      from less.IH [OF s1(4) leads_inv [OF s1(1)] s1(2,3)] show ?thesis using leads_trans [OF s1(1)] by blast
    qed
  qed
qed

text \<open>From one phase to the next, and to the end.\<close>

lemma global_ends:
  assumes i: "handshake_inv s" and c: "pr_coord s = Global new old pre t"
  shows "\<exists>s'. step\<^sup>*\<^sup>* s s' \<and> handshake_inv s' \<and> pr_gc s' = pr_gc s \<and> pr_new s' = new \<and> pr_coord s' = Idle \<and> outstanding s' \<noteq> {}"
proof -
  let ?s = "s\<lparr>pr_new := new, pr_coord := Changing old pre (pr_workers s) [] t\<rparr>"
  have st: "step s ?s" by (rule step.global [OF c])
  have "t \<in> set (pr_workers s)" using i c by (simp add: handshake_inv_def coord_inv_def)
  then have "pr_workers s \<noteq> []" by auto
  then obtain s' where "leads ?s s'" "pr_coord s' = Idle" "outstanding s' \<noteq> {}"
    using changing_ends [OF inv_step [OF st i], of old pre "pr_workers s" "[]" t] by auto
  then show ?thesis using st by (intro exI [of _ s']) (auto simp: leads_def intro: converse_rtranclp_into_rtranclp)
qed

definition ends :: "protocol \<Rightarrow> bool" where
  "ends s \<longleftrightarrow> (\<exists>s'. step\<^sup>*\<^sup>* s s' \<and> pr_gc s' = pr_gc s + 1)"

lemma ends_from: "step\<^sup>*\<^sup>* s s' \<Longrightarrow> pr_gc s' = pr_gc s \<Longrightarrow> ends s' \<Longrightarrow> ends s"
  unfolding ends_def by (metis rtranclp_trans)

lemma phase_ends:
  assumes "handshake_inv s" and "pr_coord s = Idle" and "outstanding s \<noteq> {}"
  shows "pr_new s = ASYNC \<Longrightarrow> ends s"
    and "(new, pre) \<in> follows (pr_new s) \<Longrightarrow>
      \<exists>s'. step\<^sup>*\<^sup>* s s' \<and> handshake_inv s' \<and> pr_gc s' = pr_gc s \<and> pr_new s' = new \<and> pr_coord s' = Idle \<and> outstanding s' \<noteq> {}"
proof -
  from answers_end [OF assms] obtain s1 t w where
    l: "leads s s1" and j: "pr_job s1 t = Act w" and f: "pr_flag s1 = 1" by blast
  have s1: "step\<^sup>*\<^sup>* s s1" "handshake_inv s1" "pr_gc s1 = pr_gc s" "pr_new s1 = pr_new s" using l by (simp_all add: leads_def)
  have c: "runner (pr_coord s1) \<noteq> Some t" using last_worker(1) [OF s1(2) j f] by simp
  have p: "pr_phase s1 w = pr_new s" using act_outstanding(3) [OF s1(2) j] s1(4) by simp
  show "ends s" if a: "pr_new s = ASYNC"
  proof -
    have "step s1 ((answered t w s1)\<lparr>pr_gc := pr_gc s1 + 1\<rparr>)" by (rule step.finish [OF j c f]) (simp add: p a)
    then show ?thesis unfolding ends_def using s1 by (metis protocol.select_convs(9) protocol.surjective protocol.update_convs(9) rtranclp.rtrancl_into_rtrancl)
  qed
  show "\<exists>s'. step\<^sup>*\<^sup>* s s' \<and> handshake_inv s' \<and> pr_gc s' = pr_gc s \<and> pr_new s' = new \<and> pr_coord s' = Idle \<and> outstanding s' \<noteq> {}"
    if a: "(new, pre) \<in> follows (pr_new s)"
  proof -
    let ?s = "(answered t w s1)\<lparr>pr_coord := Global new (pr_phase s1 w) pre t\<rparr>"
    have st: "step s1 ?s" by (rule step.last_ans [OF j c f]) (simp add: p a)
    from global_ends [OF inv_step [OF st s1(2)], of new "pr_phase s1 w" pre t] obtain s' where
      "step\<^sup>*\<^sup>* ?s s'" "handshake_inv s'" "pr_gc s' = pr_gc ?s" "pr_new s' = new" "pr_coord s' = Idle" "outstanding s' \<noteq> {}" by auto
    then show ?thesis using st s1(1,3) by (intro exI [of _ s']) (auto simp: answered_fields intro: rtranclp_trans converse_rtranclp_into_rtranclp)
  qed
qed

lemma idle_ends:
  assumes "handshake_inv s" and "pr_coord s = Idle" and "outstanding s \<noteq> {}"
  shows "ends s"
proof -
  have async: "ends s" if "handshake_inv s" "pr_coord s = Idle" "outstanding s \<noteq> {}" "pr_new s = ASYNC" for s
    using phase_ends(1) [OF that] .
  have mark: "ends s" if "handshake_inv s" "pr_coord s = Idle" "outstanding s \<noteq> {}" "pr_new s = MARK" for s
    using phase_ends(2) [OF that(1-3), of ASYNC PREASYNC] that(4) async by (auto simp: follows_def intro: ends_from)
  have sync2: "ends s" if "handshake_inv s" "pr_coord s = Idle" "outstanding s \<noteq> {}" "pr_new s = SYNC2" for s
    using phase_ends(2) [OF that(1-3), of MARK PREMARK] that(4) mark by (auto simp: follows_def intro: ends_from)
  have sync1: "ends s" if "handshake_inv s" "pr_coord s = Idle" "outstanding s \<noteq> {}" "pr_new s = SYNC1" for s
    using phase_ends(2) [OF that(1-3), of SYNC2 PRESYNC2] that(4) sync2 by (auto simp: follows_def intro: ends_from)
  have "signal (pr_new s)" using assms(1) by (simp add: handshake_inv_def)
  then have "pr_new s = SYNC1 \<or> pr_new s = SYNC2 \<or> pr_new s = MARK \<or> pr_new s = ASYNC" by (simp add: signal_def)
  then show ?thesis using sync1 [OF assms] sync2 [OF assms] mark [OF assms] async [OF assms] by blast
qed

lemma not_doomed_ends:
  assumes i: "handshake_inv s" and n: "\<not> doomed s"
  shows "ends s"
proof (cases "pr_coord s")
  case Idle
  then show ?thesis using n by (intro idle_ends [OF i]) (simp_all add: doomed_def)
next
  case (Global new old pre t)
  from global_ends [OF i this] show ?thesis using idle_ends by (auto intro: ends_from)
next
  case (Changing old pre todo dn t)
  from changing_ends [OF i this] n Changing obtain s' where "leads s s'" "pr_coord s' = Idle" "outstanding s' \<noteq> {}"
    by (auto simp: doomed_def)
  then show ?thesis using idle_ends by (auto simp: leads_def intro: ends_from)
next
  case (Adding dn t)
  let ?s = "s\<lparr>pr_flag := pr_flag s + word_of_nat (length dn), pr_coord := Idle\<rparr>"
  have l: "leads s ?s" by (rule leads_step [OF leads_refl [OF i] step.add [OF Adding]]) simp_all
  have "ends ?s" by (rule idle_ends [OF leads_inv [OF l]]) (use n Adding in \<open>simp_all add: doomed_def\<close>)
  then show ?thesis using l by (auto simp: leads_def intro: ends_from)
qed

lemma doomed_step:
  assumes "step s s'" and "doomed s" and odd: "odd (pr_gc s)" and i: "handshake_inv s"
  shows "doomed s' \<and> pr_gc s' = pr_gc s"
proof -
  have o: "outstanding s = {}" using assms(2) by (simp add: doomed_def)
  have nA: "pr_job s t \<noteq> Act w" for t w using o by (auto simp: outstanding_def)
  have nP: "\<not> pending (pr_phase s w)" if "w \<in> set (pr_workers s)" for w using o that by (auto simp: outstanding_def)
  have ji: "job_inv s" and sg: "signal (pr_new s)" using i by (simp_all add: handshake_inv_def)
  show ?thesis using assms(1)
  proof cases
    case (release t w)
    have "outstanding s' = {}" using nA nP by (auto simp: release(1) outstanding_def)
    then show ?thesis using assms(2) release(1) by (simp add: doomed_def)
  next
    case (again t w)
    then show ?thesis using nP job_invD(3) [OF ji, of t w] by simp
  next
    case (register t)
    have "outstanding s' = {}" using nA nP signal_settled [OF sg] by (auto simp: register(1) outstanding_def)
    then show ?thesis using assms(2) register(1) by (simp add: doomed_def)
  next
    case (help_other t w)
    then have "w \<in> set (pr_workers s)" "pending (pr_phase s w)" using i by (auto simp: handshake_inv_def helpable_def)
    then show ?thesis using nP by blast
  qed (use assms(2) odd nA nP in \<open>auto simp: doomed_def free_def\<close>)
qed

lemma doomed_forever:
  assumes "step\<^sup>*\<^sup>* s s'" and "doomed s" and "odd (pr_gc s)" and "handshake_inv s"
  shows "doomed s' \<and> pr_gc s' = pr_gc s"
proof -
  have "doomed s' \<and> handshake_inv s' \<and> pr_gc s' = pr_gc s"
    using assms by (induction rule: rtranclp_induct) (auto dest: doomed_step inv_step)
  then show ?thesis by blast
qed

text \<open>
  C9: which collections can end.  In a reachable state with a collection in progress, the threads can still
  bring the collection to its end exactly when it is not lost (\<open>doomed\<close>): some worker has still to accept its signal, some
  thread has still to answer one, or a thread is going to change the phase of a worker.  It is lost when all have answered and
  either nobody changes phases, or the thread that does so has changed the phases of all workers and has only to publish them for helpers and
  to add to the counter, which then ends at zero.
\<close>

theorem collection_ends_iff:
  assumes "reachable s" and "odd (pr_gc s)"
  shows "(\<exists>s'. step\<^sup>*\<^sup>* s s' \<and> pr_gc s' = pr_gc s + 1) \<longleftrightarrow> \<not> doomed s"
proof
  assume "\<exists>s'. step\<^sup>*\<^sup>* s s' \<and> pr_gc s' = pr_gc s + 1"
  then show "\<not> doomed s" using doomed_forever [OF _ _ assms(2) reachable_inv [OF assms(1)]] by (metis n_not_Suc_n add.commute plus_1_eq_Suc)
next
  assume "\<not> doomed s"
  then show "\<exists>s'. step\<^sup>*\<^sup>* s s' \<and> pr_gc s' = pr_gc s + 1"
    using not_doomed_ends [OF reachable_inv [OF assms(1)]] unfolding ends_def by blast
qed

theorem collection_ends_iff_witness:
  "reachable (two (SYNC2, Unowned, Free) (SYNC2, Owned, Free) SYNC2 Idle [] 0 1) \<and>
   \<not> (\<exists>s'. step\<^sup>*\<^sup>* (two (SYNC2, Unowned, Free) (SYNC2, Owned, Free) SYNC2 Idle [] 0 1) s' \<and>
        pr_gc s' = pr_gc (two (SYNC2, Unowned, Free) (SYNC2, Owned, Free) SYNC2 Idle [] 0 1) + 1) \<and>
   (\<exists>s'. step\<^sup>*\<^sup>* (two (PRESYNC2, Unowned, Free) (PRESYNC2, Owned, Free) SYNC2 (Adding [2, 1] 1) [2, 1] 0 1) s' \<and> pr_gc s' = 2)"
proof -
  let ?a = "two (PRESYNC2, Unowned, Free) (PRESYNC2, Owned, Free) SYNC2 (Adding [2, 1] 1) [2, 1] 0 1"
  let ?b = "two (SYNC2, Unowned, Free) (SYNC2, Owned, Free) SYNC2 Idle [] 0 1"
  have r: "reachable ?a" using two_registered two_answers two_left unfolding reachable_def by (meson rtranclp_trans)
  then have rb: "reachable ?b" using two_lost unfolding reachable_def by (rule rtranclp_trans)
  have "doomed ?b" by (auto simp: doomed_def two_def outstanding_def pending_def)
  moreover have "1 \<in> outstanding ?a" by (simp add: two_def outstanding_def pending_def)
  then have "\<not> doomed ?a" by (auto simp: doomed_def)
  moreover have "odd (pr_gc ?a)" "odd (pr_gc ?b)" "pr_gc ?a + 1 = 2" by (simp_all add: two_def)
  ultimately show ?thesis using collection_ends_iff [OF r] collection_ends_iff [OF rb] rb by metis
qed

end
