(* ===== verification/Splay.thy ===== *)
theory Splay
  imports Prelude "HOL-Library.Tree"
begin

text \<open>
  The splay trees of \<open>splay.c\<close>, on which the callback and finalizer tables of the runtime rest.
  The model is at the level of the C code: nodes are cells of a store, reached by address,
  with a \<open>child\<close> array, the \<open>back\<close> pointer of the traversals and the user's item; references
  of type \<open>struct node **\<close> are slots.  The functions follow the code statement by statement,
  with \<open>partial_function (option)\<close> for the loops, and the lemmas show that they return and
  what they do to the sequence of items in the tree.
\<close>

section \<open>Nodes, slots and chunks\<close>

datatype direction = RIGHT | LEFT

definition DIR :: "int \<Rightarrow> direction" where
  "DIR n = (if n < 0 then LEFT else RIGHT)"

fun OPP :: "direction \<Rightarrow> direction" where
  "OPP RIGHT = LEFT"
| "OPP LEFT = RIGHT"

text \<open>
  A reference to a pointer to a node: the root field of the tree, an element of the local
  array \<open>result\<close> or a child field of a node.  The \<open>back\<close> field holds a node pointer, or a slot
  during \<open>sml_tree_reject\<close>.
\<close>

datatype slot = Root | Result direction | Child addr direction

datatype back_ref = BackNode addr | BackSlot slot

record 'i node =
  child :: "direction \<Rightarrow> addr"
  nd_back :: back_ref
  item :: 'i

type_synonym 'i nodes = "addr \<Rightarrow> 'i node"

record chunk =
  chunk_begin :: addr
  chunk_free :: addr

record 'i sml_tree =
  cmp :: "'i \<Rightarrow> 'i \<Rightarrow> int"
  item_size :: nat
  alloc_size :: nat
  root :: addr
  chunk :: "chunk list"
  freelist :: addr
  nodes :: "'i nodes"

abbreviation (input) NODE_ALIGN :: nat where
  "NODE_ALIGN \<equiv> 8"

abbreviation (input) SIZEOF_STRUCT_NODE :: nat where
  "SIZEOF_STRUCT_NODE \<equiv> 24"

definition NODE_OFFSET :: "nat \<Rightarrow> nat" where
  "NODE_OFFSET isz = CEILING isz NODE_ALIGN"

definition NODE_SIZE :: "nat \<Rightarrow> nat" where
  "NODE_SIZE isz = NODE_OFFSET isz + SIZEOF_STRUCT_NODE"

definition SIZEOF_NODE :: "nat \<Rightarrow> nat" where
  "SIZEOF_NODE isz = CEILING (NODE_SIZE isz) isz"

definition NODE :: "addr \<Rightarrow> nat \<Rightarrow> addr" where
  "NODE beg isz = beg + NODE_OFFSET isz"

definition NODE_ITEM :: "addr \<Rightarrow> nat \<Rightarrow> addr" where
  "NODE_ITEM nd isz = nd - NODE_OFFSET isz"

definition ITEM_OF :: "'i sml_tree \<Rightarrow> addr \<Rightarrow> addr" where
  "ITEM_OF t nd = NODE_ITEM nd (item_size t)"

definition CHUNK_SIZE :: nat where
  "CHUNK_SIZE = (4096 div 16 - 1) * 16"

definition CHUNK_REST :: "chunk \<Rightarrow> nat" where
  "CHUNK_REST c = (chunk_begin c + CHUNK_SIZE) - chunk_free c"

text \<open>
  \<open>chunk_alloc\<close> on the list of chunks linked by \<open>foot.next\<close>, the current chunk first.
  \<open>xmalloc\<close> is the parameter: the address of a new chunk, given those in use.  The assertion
  \<open>len < CHUNK_SIZE\<close> is left out; the code allocates a node as large as a chunk as well.
\<close>

definition chunk_alloc :: "addr \<Rightarrow> chunk list \<Rightarrow> nat \<Rightarrow> addr \<times> chunk list" where
  "chunk_alloc fresh cs len =
     (let cs' = (case cs of
            [] \<Rightarrow> [\<lparr>chunk_begin = fresh, chunk_free = fresh\<rparr>]
          | c # _ \<Rightarrow> if CHUNK_REST c < len then \<lparr>chunk_begin = fresh, chunk_free = fresh\<rparr> # cs else cs);
          c = hd cs'
      in (chunk_free c, c\<lparr>chunk_free := chunk_free c + len\<rparr> # tl cs'))"

definition set_child :: "'i nodes \<Rightarrow> addr \<Rightarrow> direction \<Rightarrow> addr \<Rightarrow> 'i nodes" where
  "set_child h nd d p = h(nd := (h nd)\<lparr>child := (child (h nd))(d := p)\<rparr>)"

definition set_back :: "'i nodes \<Rightarrow> addr \<Rightarrow> back_ref \<Rightarrow> 'i nodes" where
  "set_back h nd b = h(nd := (h nd)\<lparr>nd_back := b\<rparr>)"

section \<open>Allocation of nodes\<close>

definition sml_tree_new :: "('i \<Rightarrow> 'i \<Rightarrow> int) \<Rightarrow> nat \<Rightarrow> 'i nodes \<Rightarrow> 'i sml_tree" where
  "sml_tree_new cmp_fn isz mem =
     \<lparr>cmp = cmp_fn, item_size = isz, alloc_size = SIZEOF_NODE isz,
      root = NULL, chunk = [], freelist = NULL, nodes = mem\<rparr>"

text \<open>\<open>chunk_destroy\<close> frees every chunk of the list; the result is the list of freed blocks.\<close>

fun chunk_destroy :: "chunk list \<Rightarrow> addr list" where
  "chunk_destroy [] = []"
| "chunk_destroy (c # cs) = chunk_begin c # chunk_destroy cs"

definition sml_tree_destroy :: "'i sml_tree \<Rightarrow> addr list" where
  "sml_tree_destroy t = chunk_destroy (chunk t)"

fun back_node :: "back_ref \<Rightarrow> addr" where
  "back_node (BackNode a) = a"
| "back_node (BackSlot s) = NULL"

definition node_alloc :: "(chunk list \<Rightarrow> addr) \<Rightarrow> 'i sml_tree \<Rightarrow> addr \<times> 'i sml_tree" where
  "node_alloc xmalloc t =
     (if freelist t \<noteq> NULL then
        (freelist t, t\<lparr>freelist := back_node (nd_back (nodes t (freelist t)))\<rparr>)
      else
        let (newitem, cs) = chunk_alloc (xmalloc (chunk t)) (chunk t) (alloc_size t)
        in (NODE newitem (item_size t), t\<lparr>chunk := cs\<rparr>))"

definition node_reclaim :: "'i sml_tree \<Rightarrow> addr \<Rightarrow> 'i sml_tree" where
  "node_reclaim t nd = t\<lparr>nodes := set_back (nodes t) nd (BackNode (freelist t)), freelist := nd\<rparr>"

section \<open>Splaying\<close>

text \<open>The store that \<open>splay\<close> and \<open>assemble\<close> work on: the nodes and the local array \<open>result\<close>.\<close>

record 'i work =
  cells :: "'i nodes"
  result :: "direction \<Rightarrow> addr"

fun write_slot :: "slot \<Rightarrow> addr \<Rightarrow> 'i work \<Rightarrow> 'i work" where
  "write_slot Root p w = w"
| "write_slot (Result d) p w = w\<lparr>result := (result w)(d := p)\<rparr>"
| "write_slot (Child nd d) p w = w\<lparr>cells := set_child (cells w) nd d p\<rparr>"

fun read_slot :: "'i work \<Rightarrow> slot \<Rightarrow> addr" where
  "read_slot w Root = NULL"
| "read_slot w (Result d) = result w d"
| "read_slot w (Child nd d) = child (cells w nd) d"

partial_function (option) splay_loop ::
  "('i \<Rightarrow> 'i \<Rightarrow> int) \<Rightarrow> 'i \<Rightarrow> int \<Rightarrow> addr \<Rightarrow> (direction \<Rightarrow> slot) \<Rightarrow> 'i work
   \<Rightarrow> (int \<times> addr \<times> (direction \<Rightarrow> slot) \<times> 'i work) option" where
  "splay_loop cmp_fn x n nd hole w =
     (if n = 0 then Some (n, nd, hole, w)
      else
        let dir = DIR n; c = child (cells w nd) dir in
        if c = NULL then Some (n, nd, hole, w)
        else
          let n1 = cmp_fn x (item (cells w c)) in
          if n1 \<noteq> 0 \<and> DIR n1 = dir then
            let w1 = w\<lparr>cells := set_child (set_child (cells w) nd dir (child (cells w c) (OPP dir)))
                                   c (OPP dir) nd\<rparr>;
                c1 = child (cells w1 c) dir
            in if c1 = NULL then Some (n1, c, hole, w1)
               else
                 let n2 = cmp_fn x (item (cells w1 c1)) in
                 splay_loop cmp_fn x n2 c1
                   (hole(OPP dir := Child c dir)) (write_slot (hole (OPP dir)) c w1)
          else
            splay_loop cmp_fn x n1 c
              (hole(OPP dir := Child nd dir)) (write_slot (hole (OPP dir)) nd w))"

definition INIT_HOLE :: "direction \<Rightarrow> slot" where
  "INIT_HOLE = Result"

definition splay ::
  "('i \<Rightarrow> 'i \<Rightarrow> int) \<Rightarrow> 'i \<Rightarrow> addr \<Rightarrow> (direction \<Rightarrow> slot) \<Rightarrow> 'i work
   \<Rightarrow> (int \<times> addr \<times> (direction \<Rightarrow> slot) \<times> 'i work) option" where
  "splay cmp_fn x nd hole w = splay_loop cmp_fn x (cmp_fn x (item (cells w nd))) nd hole w"

definition assemble :: "addr \<Rightarrow> (direction \<Rightarrow> slot) \<Rightarrow> 'i work \<Rightarrow> 'i nodes" where
  "assemble nd hole w =
     (let w1 = write_slot (hole RIGHT) (child (cells w nd) RIGHT) w;
          w2 = write_slot (hole LEFT) (child (cells w1 nd) LEFT) w1;
          h3 = set_child (cells w2) nd RIGHT (result w2 RIGHT)
      in set_child h3 nd LEFT (result w2 LEFT))"

text \<open>The array \<open>result\<close> is uninitialised before the first write: any contents \<open>r0\<close>.\<close>

definition start_work :: "'i nodes \<Rightarrow> 'i work" where
  "start_work h = \<lparr>cells = h, result = (\<lambda>_. NULL)\<rparr>"

section \<open>Tree operations\<close>

definition sml_tree_find :: "'i sml_tree \<Rightarrow> 'i \<Rightarrow> (addr \<times> 'i sml_tree) option" where
  "sml_tree_find t x =
     (if root t = NULL then Some (NULL, t)
      else case splay (cmp t) x (root t) INIT_HOLE (start_work (nodes t)) of
          None \<Rightarrow> None
        | Some (n, nd, hole, w) \<Rightarrow>
            let t' = t\<lparr>root := nd, nodes := assemble nd hole w\<rparr>
            in Some (if n = 0 then ITEM_OF t nd else NULL, t'))"

text \<open>The common part of \<open>sml_tree_insert\<close> and \<open>insert_node\<close>: splay, or an empty tree with \<open>n = 1\<close>.\<close>

definition splay_root ::
  "'i sml_tree \<Rightarrow> 'i \<Rightarrow> (int \<times> addr \<times> (direction \<Rightarrow> slot) \<times> 'i work) option" where
  "splay_root t x =
     (if root t \<noteq> NULL then splay (cmp t) x (root t) INIT_HOLE (start_work (nodes t))
      else Some (1, NULL, INIT_HOLE, start_work (nodes t)))"

definition sml_tree_insert ::
  "(chunk list \<Rightarrow> addr) \<Rightarrow> 'i sml_tree \<Rightarrow> 'i \<Rightarrow> (addr \<times> 'i sml_tree) option" where
  "sml_tree_insert xmalloc t x =
     (case splay_root t x of
        None \<Rightarrow> None
      | Some (n, nd, hole, w) \<Rightarrow>
          let t1 = t\<lparr>root := nd, nodes := cells w\<rparr>;
              (nd', t2) =
                (if n \<noteq> 0 then
                   let (newnode, t2) = node_alloc xmalloc t1;
                       h = set_child (set_child (nodes t2) newnode (DIR n) NULL)
                             newnode (OPP (DIR n)) (root t2)
                   in (newnode, t2\<lparr>nodes := h, root := newnode\<rparr>)
                 else (nd, t1));
              h3 = assemble nd' hole (w\<lparr>cells := nodes t2\<rparr>);
              h4 = h3(nd' := (h3 nd')\<lparr>item := x\<rparr>)
          in Some (ITEM_OF t nd', t2\<lparr>nodes := h4\<rparr>))"

definition insert_node :: "'i sml_tree \<Rightarrow> addr \<Rightarrow> (int \<times> 'i sml_tree) option" where
  "insert_node t new =
     (case splay_root t (item (nodes t new)) of
        None \<Rightarrow> None
      | Some (n, nd, hole, w) \<Rightarrow>
          let (nd', h) =
                (if n \<noteq> 0 then
                   (new, set_child (set_child (cells w) new (DIR n) NULL) new (OPP (DIR n)) nd)
                 else (nd, cells w))
          in Some (n, t\<lparr>root := nd', nodes := assemble nd' hole (w\<lparr>cells := h\<rparr>)\<rparr>))"

definition join :: "('i \<Rightarrow> 'i \<Rightarrow> int) \<Rightarrow> addr \<Rightarrow> 'i nodes \<Rightarrow> (addr \<times> 'i nodes) option" where
  "join cmp_fn nd h =
     (let left = child (h nd) LEFT in
      if left = NULL then Some (child (h nd) RIGHT, h)
      else case splay cmp_fn (item (h nd)) left INIT_HOLE (start_work h) of
          None \<Rightarrow> None
        | Some (n, left', hole, w) \<Rightarrow>
            let w' = w\<lparr>cells := set_child (cells w) left' RIGHT (child (cells w nd) RIGHT)\<rparr>
            in Some (left', assemble left' hole w'))"

definition sml_tree_delete :: "'i sml_tree \<Rightarrow> 'i \<Rightarrow> (addr \<times> 'i sml_tree) option" where
  "sml_tree_delete t x =
     (if root t = NULL then Some (NULL, t)
      else case splay (cmp t) x (root t) INIT_HOLE (start_work (nodes t)) of
          None \<Rightarrow> None
        | Some (n, nd, hole, w) \<Rightarrow>
            if n \<noteq> 0 then Some (NULL, t\<lparr>root := nd, nodes := assemble nd hole w\<rparr>)
            else case join (cmp t) nd (cells w) of
                None \<Rightarrow> None
              | Some (newroot, h) \<Rightarrow>
                  (case (if newroot \<noteq> NULL then Some (newroot, assemble newroot hole (w\<lparr>cells := h\<rparr>))
                         else join (cmp t) nd (assemble nd hole (w\<lparr>cells := h\<rparr>))) of
                     None \<Rightarrow> None
                   | Some (newroot', h') \<Rightarrow>
                       let t1 = node_reclaim (t\<lparr>nodes := h'\<rparr>) nd
                       in Some (ITEM_OF t nd, t1\<lparr>root := newroot'\<rparr>)))"

section \<open>Traversals\<close>

text \<open>
  \<open>sml_tree_each\<close> with the function pointer \<open>visit\<close> as a state transformer on the item and the
  closure data: it may change the item in place, never the tree.
\<close>

partial_function (option) each_loop ::
  "('i \<Rightarrow> 's \<Rightarrow> 'i \<times> 's) \<Rightarrow> addr \<Rightarrow> addr \<Rightarrow> 'i nodes \<Rightarrow> 's \<Rightarrow> ('i nodes \<times> 's) option" where
  "each_loop visit nd prev h s =
     (if nd \<noteq> NULL then
        each_loop visit (child (h nd) LEFT) nd (set_back h nd (BackNode prev)) s
      else if prev \<noteq> NULL then
        let (x, s') = visit (item (h prev)) s;
            h' = h(prev := (h prev)\<lparr>item := x\<rparr>)
        in each_loop visit (child (h' prev) RIGHT) (back_node (nd_back (h prev))) h' s'
      else Some (h, s))"

definition sml_tree_each ::
  "('i \<Rightarrow> 's \<Rightarrow> 'i \<times> 's) \<Rightarrow> 'i sml_tree \<Rightarrow> 's \<Rightarrow> ('i sml_tree \<times> 's) option" where
  "sml_tree_each visit t s =
     map_option (\<lambda>(h, s'). (t\<lparr>nodes := h\<rparr>, s')) (each_loop visit (root t) NULL (nodes t) s)"

text \<open>\<open>sml_tree_reject\<close> walks with slots, so that it can unlink the node it stands on.\<close>

fun tree_slot :: "'i sml_tree \<Rightarrow> slot \<Rightarrow> addr" where
  "tree_slot t (Child nd d) = child (nodes t nd) d"
| "tree_slot t s = root t"

fun set_tree_slot :: "'i sml_tree \<Rightarrow> slot \<Rightarrow> addr \<Rightarrow> 'i sml_tree" where
  "set_tree_slot t (Child nd d) p = t\<lparr>nodes := set_child (nodes t) nd d p\<rparr>"
| "set_tree_slot t s p = t\<lparr>root := p\<rparr>"

fun back_slot :: "back_ref \<Rightarrow> slot option" where
  "back_slot (BackSlot s) = Some s"
| "back_slot (BackNode a) = None"

definition slot_back :: "slot option \<Rightarrow> back_ref" where
  "slot_back prev = (case prev of None \<Rightarrow> BackNode NULL | Some s \<Rightarrow> BackSlot s)"

partial_function (option) reject_loop ::
  "('i \<Rightarrow> 's \<Rightarrow> bool \<times> 's) \<Rightarrow> slot \<Rightarrow> slot option \<Rightarrow> 'i sml_tree \<Rightarrow> 's \<Rightarrow> ('i sml_tree \<times> 's) option" where
  "reject_loop reject nd prev t s =
     (if tree_slot t nd \<noteq> NULL then
        reject_loop reject (Child (tree_slot t nd) LEFT) (Some nd)
          (t\<lparr>nodes := set_back (nodes t) (tree_slot t nd) (slot_back prev)\<rparr>) s
      else case prev of
          None \<Rightarrow> Some (t, s)
        | Some nd' \<Rightarrow>
            let p = tree_slot t nd'; prev' = back_slot (nd_back (nodes t p));
                (r, s') = reject (item (nodes t p)) s
            in if \<not> r then reject_loop reject (Child p RIGHT) prev' t s'
               else
                 let t1 = node_reclaim t p in
                 if child (nodes t1 p) LEFT = NULL then
                   reject_loop reject nd' prev' (set_tree_slot t1 nd' (child (nodes t1 p) RIGHT)) s'
                 else case join (cmp t1) p (nodes t1) of
                     None \<Rightarrow> None
                   | Some (q, h) \<Rightarrow>
                       reject_loop reject (Child q RIGHT) prev' (set_tree_slot (t1\<lparr>nodes := h\<rparr>) nd' q) s')"

definition sml_tree_reject ::
  "('i \<Rightarrow> 's \<Rightarrow> bool \<times> 's) \<Rightarrow> 'i sml_tree \<Rightarrow> 's \<Rightarrow> ('i sml_tree \<times> 's) option" where
  "sml_tree_reject reject t s = reject_loop reject Root None t s"

partial_function (option) rebuild_loop ::
  "addr \<Rightarrow> addr \<Rightarrow> addr \<Rightarrow> 'i sml_tree \<Rightarrow> 'i sml_tree option" where
  "rebuild_loop nd prev lst t =
     (if nd \<noteq> NULL then
        rebuild_loop (child (nodes t nd) LEFT) nd lst
          (t\<lparr>nodes := set_back (nodes t) nd (BackNode prev)\<rparr>)
      else if prev = NULL then Some t
      else if child (nodes t prev) RIGHT \<noteq> NULL \<and> child (nodes t prev) RIGHT \<noteq> lst then
        rebuild_loop (child (nodes t prev) RIGHT) prev lst t
      else
        let prev' = back_node (nd_back (nodes t prev)) in
        case insert_node t prev of
          None \<Rightarrow> None
        | Some (n, t') \<Rightarrow> rebuild_loop NULL prev' prev (if n = 0 then node_reclaim t' prev else t'))"

definition sml_tree_rebuild :: "'i sml_tree \<Rightarrow> 'i sml_tree option" where
  "sml_tree_rebuild t = rebuild_loop (root t) NULL NULL (t\<lparr>root := NULL\<rparr>)"

section \<open>Compaction\<close>

text \<open>
  The new chunks are listed in the order of the final \<open>next\<close> links: \<open>forward\<close> allocates in the
  lst one and appends the chunk that \<open>chunk_alloc\<close> may add behind it.
\<close>

definition forward ::
  "(chunk list \<Rightarrow> addr) \<Rightarrow> chunk list \<times> 'i sml_tree \<Rightarrow> slot \<Rightarrow> chunk list \<times> 'i sml_tree" where
  "forward xmalloc st node_ref =
     (let (cs, t) = st; old = tree_slot t node_ref in
      if old = NULL then (cs, t)
      else
        let (newitem, r) = chunk_alloc (xmalloc (chunk t @ cs))
              (case cs of [] \<Rightarrow> [] | _ \<Rightarrow> [last cs]) (alloc_size t);
            new = NODE newitem (item_size t);
            t1 = t\<lparr>nodes := (nodes t)(new := nodes t old)\<rparr>
        in (butlast cs @ rev r, set_tree_slot t1 node_ref new))"

text \<open>The cursor is the index of the chunk in the list and an address inside it.\<close>

partial_function (option) compact_loop ::
  "(chunk list \<Rightarrow> addr) \<Rightarrow> nat \<Rightarrow> addr \<Rightarrow> chunk list \<times> 'i sml_tree \<Rightarrow> (chunk list \<times> 'i sml_tree) option" where
  "compact_loop xmalloc ci p st =
     (let nd = NODE p (item_size (snd st));
          st2 = forward xmalloc (forward xmalloc st (Child nd LEFT)) (Child nd RIGHT);
          p' = p + alloc_size (snd st2)
      in if p' \<ge> chunk_free (fst st2 ! ci) then
           (if Suc ci < length (fst st2) then
              compact_loop xmalloc (Suc ci) (chunk_begin (fst st2 ! Suc ci)) st2
            else Some st2)
         else compact_loop xmalloc ci p' st2)"

definition sml_tree_compact :: "(chunk list \<Rightarrow> addr) \<Rightarrow> 'i sml_tree \<Rightarrow> (addr list \<times> 'i sml_tree) option" where
  "sml_tree_compact xmalloc t =
     (let st = forward xmalloc ([], t) Root in
      case (if root (snd st) \<noteq> NULL then compact_loop xmalloc 0 (chunk_begin (hd (fst st))) st
            else Some st) of
        None \<Rightarrow> None
      | Some (cs, t') \<Rightarrow> Some (chunk_destroy (chunk t), t'\<lparr>chunk := cs, freelist := NULL\<rparr>))"


section \<open>Trees in the store\<close>

text \<open>The tree of node addresses that hangs at a pointer.\<close>

fun tree_at :: "'i nodes \<Rightarrow> addr \<Rightarrow> addr tree \<Rightarrow> bool" where
  "tree_at h p \<langle>\<rangle> \<longleftrightarrow> p = NULL"
| "tree_at h p \<langle>l, a, r\<rangle> \<longleftrightarrow>
     p = a \<and> a \<noteq> NULL \<and> tree_at h (child (h a) LEFT) l \<and> tree_at h (child (h a) RIGHT) r"

text \<open>A node by the subtree \<open>s\<close> in direction \<open>d\<close> and the opposite one, and the matching append.\<close>

fun dnode :: "direction \<Rightarrow> addr tree \<Rightarrow> addr \<Rightarrow> addr tree \<Rightarrow> addr tree" where
  "dnode RIGHT s a t = \<langle>t, a, s\<rangle>"
| "dnode LEFT s a t = \<langle>s, a, t\<rangle>"

fun dcat :: "direction \<Rightarrow> 'a list \<Rightarrow> 'a list \<Rightarrow> 'a list" where
  "dcat RIGHT xs ys = ys @ xs"
| "dcat LEFT xs ys = xs @ ys"

text \<open>
  The part of the tree that \<open>splay\<close> has linked away in direction \<open>d\<close>: the linked nodes, the last
  one first, each with its subtree in direction \<open>d\<close>.  The child of the last one in the opposite
  direction is the hole.
\<close>

type_synonym spine = "(addr \<times> addr tree) list"

fun hole_of :: "direction \<Rightarrow> spine \<Rightarrow> slot" where
  "hole_of d [] = Result d"
| "hole_of d ((a, s) # C) = Child a (OPP d)"

fun ctx_at :: "'i work \<Rightarrow> direction \<Rightarrow> spine \<Rightarrow> bool" where
  "ctx_at w d [] \<longleftrightarrow> True"
| "ctx_at w d ((a, s) # C) \<longleftrightarrow>
     a \<noteq> NULL \<and> read_slot w (hole_of d C) = a \<and>
     tree_at (cells w) (child (cells w a) d) s \<and> ctx_at w d C"

fun plug :: "direction \<Rightarrow> spine \<Rightarrow> addr tree \<Rightarrow> addr tree" where
  "plug d [] t = t"
| "plug d ((a, s) # C) t = plug d C (dnode d s a t)"

fun cin :: "direction \<Rightarrow> spine \<Rightarrow> addr list" where
  "cin d [] = []"
| "cin d ((a, s) # C) = dcat d (cin d C) (dcat d (inorder s) [a])"

lemma opp_opp [simp]: "OPP (OPP d) = d" "OPP d \<noteq> d" "d \<noteq> OPP d"
  by (cases d; simp)+

lemma set_dcat [simp]: "set (dcat d xs ys) = set xs \<union> set ys"
  by (cases d) auto

lemma inorder_dnode [simp]: "inorder (dnode d s a t) = dcat d (inorder s) (dcat d [a] (inorder t))"
  by (cases d) auto

lemma set_dnode [simp]: "set_tree (dnode d s a t) = insert a (set_tree s \<union> set_tree t)"
  by (cases d) auto

lemma size_dnode [simp]: "size (dnode d s a t) = Suc (size s + size t)"
  by (cases d) auto

lemma tree_at_dnode [simp]:
  "tree_at h p (dnode d s a t) \<longleftrightarrow>
     p = a \<and> a \<noteq> NULL \<and> tree_at h (child (h a) d) s \<and> tree_at h (child (h a) (OPP d)) t"
  by (cases d) auto

lemma inorder_plug: "inorder (plug d C t) = dcat d (cin d C) (inorder t)"
  by (induction d C t rule: plug.induct) (auto, (case_tac d; simp)+)

lemma tree_at_null: "tree_at h p t \<Longrightarrow> p = NULL \<longleftrightarrow> t = \<langle>\<rangle>"
  by (cases t) auto

lemma tree_at_nonnull: "tree_at h p t \<Longrightarrow> NULL \<notin> set_tree t"
  by (induction t arbitrary: p) auto

lemma tree_at_cong:
  "(\<And>a. a \<in> set_tree t \<Longrightarrow> child (h a) = child (h' a)) \<Longrightarrow> tree_at h p t = tree_at h' p t"
  by (induction t arbitrary: p) auto

lemma tree_at_cases:
  assumes "tree_at h p t" and "p \<noteq> NULL"
  obtains s u where "t = dnode d s p u" and "tree_at h (child (h p) d) s"
    and "tree_at h (child (h p) (OPP d)) u"
  using assms by (cases t; cases d) auto

lemma child_set_child [simp]:
  "child (set_child h a d p b) e = (if b = a \<and> e = d then p else child (h b) e)"
  by (simp add: set_child_def)

lemma fields_set_child [simp]:
  "item (set_child h a d p b) = item (h b)" "nd_back (set_child h a d p b) = nd_back (h b)"
  by (simp_all add: set_child_def)

lemma set_child_other [simp]: "b \<noteq> a \<Longrightarrow> set_child h a d p b = h b"
  by (simp add: set_child_def)

lemma set_inorder_tree [simp]: "set (inorder t) = set_tree t"
  by (rule set_inorder)

text \<open>A context depends on its own cells only, and not on its hole.\<close>

lemma ctx_at_cong:
  assumes "ctx_at w d C" and "distinct (cin d C)" and "C \<noteq> [] \<Longrightarrow> result w' d = result w d"
    and "\<And>a e. a \<in> set (cin d C) \<Longrightarrow> Child a e \<noteq> hole_of d C \<Longrightarrow> child (cells w' a) e = child (cells w a) e"
  shows "ctx_at w' d C"
  using assms
proof (induction C)
  case (Cons as C)
  obtain a s where as: "as = (a, s)" by (cases as)
  have notin: "a \<notin> set (cin d C)" "a \<notin> set_tree s" and dist: "distinct (cin d C)"
    and disj: "set (cin d C) \<inter> set_tree s = {}"
    using Cons.prems(2) unfolding as by (cases d; auto)+
  have same: "child (cells w' b) e = child (cells w b) e" if "b \<in> set (cin d C)" for b e
    using Cons.prems(4) [of b e] that notin as by auto
  have "ctx_at w' d C"
    using Cons.IH Cons.prems(1,3) dist same as by simp
  moreover have "read_slot w' (hole_of d C) = read_slot w (hole_of d C)"
    using Cons.prems(3) same by (cases C) auto
  moreover have "tree_at (cells w') (child (cells w' a) d) s = tree_at (cells w) (child (cells w a) d) s"
  proof -
    have "child (cells w' a) d = child (cells w a) d" using Cons.prems(4) [of a d] as by simp
    moreover have "child (cells w' b) = child (cells w b)" if "b \<in> set_tree s" for b
      using Cons.prems(4) [of b] that notin as by (intro ext) auto
    ultimately show ?thesis using tree_at_cong [of s "cells w'" "cells w"] by simp
  qed
  ultimately show ?case using Cons.prems(1) as by simp
qed simp

lemma ctx_plug:
  "ctx_at w d C \<Longrightarrow> read_slot w (hole_of d C) = p \<Longrightarrow> tree_at (cells w) p t \<Longrightarrow>
     tree_at (cells w) (result w d) (plug d C t)"
  by (induction C arbitrary: p t rule: cin.induct) auto


section \<open>The state of a splay\<close>

text \<open>The nodes of the whole tree in order: linked left, still to search, linked right.\<close>

definition whole :: "(direction \<Rightarrow> spine) \<Rightarrow> addr tree \<Rightarrow> addr list" where
  "whole C t = cin LEFT (C LEFT) @ inorder t @ cin RIGHT (C RIGHT)"

definition work_inv ::
  "'i work \<Rightarrow> addr \<Rightarrow> (direction \<Rightarrow> slot) \<Rightarrow> addr tree \<Rightarrow> (direction \<Rightarrow> spine) \<Rightarrow> bool" where
  "work_inv w nd hole t C \<longleftrightarrow>
     tree_at (cells w) nd t \<and> hole = (\<lambda>d. hole_of d (C d)) \<and> (\<forall>d. ctx_at w d (C d)) \<and>
     distinct (whole C t)"

lemma whole_distinctD:
  assumes "distinct (whole C t)"
  shows "distinct (cin d (C d))" "distinct (inorder t)" "set (cin d (C d)) \<inter> set_tree t = {}"
    "set (cin d (C d)) \<inter> set (cin (OPP d) (C (OPP d))) = {}"
  using assms by (cases d; auto simp: whole_def)+

lemma set_whole: "set (whole C t) = set (cin d (C d)) \<union> set_tree t \<union> set (cin (OPP d) (C (OPP d)))"
  by (cases d) (auto simp: whole_def)

lemma hole_of_cell: "hole_of d C = Child a e \<Longrightarrow> a \<in> set (cin d C) \<and> e = OPP d"
  by (cases C) auto

text \<open>Writing the hole of one direction disturbs nothing but the hole.\<close>

lemma write_hole_child:
  "Child b e \<noteq> hole_of d C \<Longrightarrow>
     child (cells (write_slot (hole_of d C) p w) b) e = child (cells w b) e"
  by (cases "hole_of d C") auto

lemma write_hole_fields [simp]:
  "item (cells (write_slot sl p w) b) = item (cells w b)"
  "nd_back (cells (write_slot sl p w) b) = nd_back (cells w b)"
  by (cases sl; simp)+

lemma write_hole_result: "e \<noteq> d \<Longrightarrow> result (write_slot (hole_of d C) p w) e = result w e"
  by (cases C) auto

lemma write_hole_result_same: "C \<noteq> [] \<Longrightarrow> result (write_slot (hole_of d C) p w) d = result w d"
  by (cases C) auto

lemma read_write_slot: "sl \<noteq> Root \<Longrightarrow> read_slot (write_slot sl p w) sl = p"
  by (cases sl) auto

lemma hole_of_not_root [simp]: "hole_of d C \<noteq> Root"
  by (cases C) auto

lemma write_hole_outside:
  "b \<notin> set (cin d C) \<Longrightarrow> cells (write_slot (hole_of d C) p w) b = cells w b"
  by (cases C) auto

lemma ctx_after_write:
  assumes "distinct (whole C t)" and "\<forall>e. ctx_at w e (C e)"
  shows "ctx_at (write_slot (hole_of d (C d)) p w) e (C e)"
proof (rule ctx_at_cong [of w])
  show "ctx_at w e (C e)" using assms(2) by simp
  show "distinct (cin e (C e))" using whole_distinctD(1) [OF assms(1)] .
  show "C e \<noteq> [] \<Longrightarrow> result (write_slot (hole_of d (C d)) p w) e = result w e"
    by (cases "e = d") (auto simp: write_hole_result write_hole_result_same)
next
  fix a f assume a: "a \<in> set (cin e (C e))" "Child a f \<noteq> hole_of e (C e)"
  have "Child a f \<noteq> hole_of d (C d)"
  proof
    assume h: "Child a f = hole_of d (C d)"
    then have "a \<in> set (cin d (C d))" using hole_of_cell by metis
    then have "e \<noteq> OPP d" using a(1) whole_distinctD(4) [OF assms(1), of d] by auto
    then have "e = d" by (cases e; cases d) auto
    with a(2) h show False by simp
  qed
  then show "child (cells (write_slot (hole_of d (C d)) p w) a) f = child (cells w a) f"
    by (rule write_hole_child)
qed

lemma tree_after_write:
  assumes "distinct (whole C t)" and "tree_at (cells w) q u" and "set_tree u \<subseteq> set_tree t"
  shows "tree_at (cells (write_slot (hole_of d (C d)) p w)) q u"
proof -
  have "cells (write_slot (hole_of d (C d)) p w) a = cells w a" if "a \<in> set_tree u" for a
    by (rule write_hole_outside) (use that assms(3) whole_distinctD(3) [OF assms(1), of d] in auto)
  then show ?thesis using tree_at_cong [of u "cells (write_slot (hole_of d (C d)) p w)" "cells w"] assms(2)
    by simp
qed

lemma link_step:
  assumes inv: "work_inv w nd hole (dnode d s nd u) C"
  shows "work_inv (write_slot (hole (OPP d)) nd w) (child (cells w nd) d) (hole(OPP d := Child nd d)) s
      (C(OPP d := (nd, u) # C (OPP d)))"
    and "whole (C(OPP d := (nd, u) # C (OPP d))) s = whole C (dnode d s nd u)"
proof -
  let ?C = "C(OPP d := (nd, u) # C (OPP d))" and ?w = "write_slot (hole_of (OPP d) (C (OPP d))) nd w"
  have t: "nd \<noteq> NULL" "tree_at (cells w) (child (cells w nd) d) s"
    "tree_at (cells w) (child (cells w nd) (OPP d)) u"
    and dist: "distinct (whole C (dnode d s nd u))" and ctx: "\<forall>e. ctx_at w e (C e)"
    and hole: "hole = (\<lambda>d. hole_of d (C d))"
    using inv by (auto simp: work_inv_def)
  show wh: "whole ?C s = whole C (dnode d s nd u)"
    by (cases d) (simp_all add: whole_def)
  have nd: "cells ?w nd = cells w nd"
    by (rule write_hole_outside) (use whole_distinctD(3) [OF dist, of "OPP d"] in auto)
  have tr: "tree_at (cells ?w) (child (cells ?w nd) d) s"
    "tree_at (cells ?w) (child (cells ?w nd) (OPP d)) u"
    unfolding nd by (auto intro!: tree_after_write [OF dist] t)
  have "ctx_at ?w e (?C e)" for e
    using t(1) tr(2) ctx_after_write [OF dist ctx, of "OPP d" nd] read_write_slot [of "hole_of (OPP d) (C (OPP d))"]
    by auto
  then show "work_inv (write_slot (hole (OPP d)) nd w) (child (cells w nd) d) (hole(OPP d := Child nd d)) s ?C"
    using tr(1) wh dist unfolding work_inv_def hole nd by auto
qed

lemma ctx_after_tree_change:
  assumes "distinct (whole C t)" and "ctx_at w e (C e)" and "result w' = result w"
    and "\<And>a. a \<notin> set_tree t \<Longrightarrow> cells w' a = cells w a"
  shows "ctx_at w' e (C e)"
proof (rule ctx_at_cong [OF assms(2) whole_distinctD(1) [OF assms(1)]])
  fix a f assume "a \<in> set (cin e (C e))"
  then have "a \<notin> set_tree t" using whole_distinctD(3) [OF assms(1), of e] by blast
  then show "child (cells w' a) f = child (cells w a) f" using assms(4) by simp
qed (use assms(3) in simp)

lemma rotate_step:
  assumes inv: "work_inv w nd hole (dnode d (dnode d s1 c s2) nd u) C"
    and w': "w' = w\<lparr>cells := set_child (set_child (cells w) nd d (child (cells w c) (OPP d))) c (OPP d) nd\<rparr>"
  shows "work_inv w' c hole (dnode d s1 c (dnode d s2 nd u)) C"
    and "whole C (dnode d s1 c (dnode d s2 nd u)) = whole C (dnode d (dnode d s1 c s2) nd u)"
proof -
  let ?t = "dnode d (dnode d s1 c s2) nd u" and ?t' = "dnode d s1 c (dnode d s2 nd u)"
  have dist: "distinct (whole C ?t)" and ctx: "\<forall>e. ctx_at w e (C e)"
    and hole: "hole = (\<lambda>d. hole_of d (C d))" and t: "tree_at (cells w) nd ?t"
    using inv by (auto simp: work_inv_def)
  show wh: "whole C ?t' = whole C ?t" by (cases d) (simp_all add: whole_def)
  have di: "distinct (inorder ?t)" using whole_distinctD(2) [OF dist] .
  then have ne: "nd \<noteq> c" "nd \<notin> set_tree s1" "nd \<notin> set_tree s2" "nd \<notin> set_tree u"
    "c \<notin> set_tree s1" "c \<notin> set_tree s2" "c \<notin> set_tree u"
    by (cases d; auto)+
  have out: "cells w' a = cells w a" if "a \<noteq> nd" "a \<noteq> c" for a using that unfolding w' by simp
  have "tree_at (cells w') q v = tree_at (cells w) q v" if "nd \<notin> set_tree v" "c \<notin> set_tree v" for q v
    by (rule tree_at_cong) (use that out in metis)
  then have "tree_at (cells w') c ?t'" using t ne unfolding w' by simp
  moreover have "ctx_at w' e (C e)" for e
    by (rule ctx_after_tree_change [OF dist]) (use ctx out w' in auto)
  ultimately show "work_inv w' c hole ?t' C"
    using hole wh dist by (simp add: work_inv_def)
qed


section \<open>What a splay establishes\<close>

text \<open>
  What the tree needs of its comparison function; every table of the runtime provides it with
  its own function.
\<close>

locale item_order =
  fixes cmp_fn :: "'i \<Rightarrow> 'i \<Rightarrow> int"
  assumes cmp_swap: "cmp_fn x y < 0 \<longleftrightarrow> 0 < cmp_fn y x"
    and cmp_trans: "cmp_fn x y < 0 \<Longrightarrow> cmp_fn y z < 0 \<Longrightarrow> cmp_fn x z < 0"
    and cmp_equal: "cmp_fn x y = 0 \<Longrightarrow> cmp_fn x z < 0 \<longleftrightarrow> cmp_fn y z < 0"

text \<open>The item \<open>a\<close> belongs to the part in direction \<open>d\<close> of \<open>x\<close>; items are in increasing order.\<close>

definition beyond :: "('i \<Rightarrow> 'i \<Rightarrow> int) \<Rightarrow> direction \<Rightarrow> 'i \<Rightarrow> 'i \<Rightarrow> bool" where
  "beyond cmp_fn d x a \<longleftrightarrow> cmp_fn x a \<noteq> 0 \<and> DIR (cmp_fn x a) \<noteq> d"

definition ordered :: "('i \<Rightarrow> 'i \<Rightarrow> int) \<Rightarrow> ('a \<Rightarrow> 'i) \<Rightarrow> 'a list \<Rightarrow> bool" where
  "ordered cmp_fn f xs \<longleftrightarrow> sorted_wrt (\<lambda>a b. cmp_fn (f a) (f b) < 0) xs"

lemma ordered_append:
  "ordered cmp_fn f (xs @ ys) \<longleftrightarrow>
     ordered cmp_fn f xs \<and> ordered cmp_fn f ys \<and> (\<forall>a\<in>set xs. \<forall>b\<in>set ys. cmp_fn (f a) (f b) < 0)"
  by (auto simp: ordered_def sorted_wrt_append)

lemma ordered_Cons:
  "ordered cmp_fn f (a # xs) \<longleftrightarrow> (\<forall>b\<in>set xs. cmp_fn (f a) (f b) < 0) \<and> ordered cmp_fn f xs"
  by (auto simp: ordered_def)

lemma ordered_cong:
  "(\<And>a. a \<in> set xs \<Longrightarrow> f a = g a) \<Longrightarrow> ordered cmp_fn f xs = ordered cmp_fn g xs"
  by (induction xs) (simp_all add: ordered_Cons, simp add: ordered_def)

lemmas ordered_simps = ordered_append ordered_Cons

text \<open>
  The state after a splay at \<open>x\<close>: the same nodes in the same order, all linked nodes beyond \<open>x\<close>
  on their side, and a current node that is equal to \<open>x\<close> or has no child towards it.
\<close>

definition splayed ::
  "('i \<Rightarrow> 'i \<Rightarrow> int) \<Rightarrow> 'i \<Rightarrow> 'i nodes \<Rightarrow> int \<Rightarrow> addr \<Rightarrow> (direction \<Rightarrow> slot) \<Rightarrow> 'i work
   \<Rightarrow> addr tree \<Rightarrow> (direction \<Rightarrow> spine) \<Rightarrow> bool" where
  "splayed cmp_fn x h n nd hole w t C \<longleftrightarrow>
     work_inv w nd hole t C \<and> nd \<noteq> NULL \<and> n = cmp_fn x (item (h nd)) \<and>
     (n \<noteq> 0 \<longrightarrow> child (cells w nd) (DIR n) = NULL) \<and>
     (\<forall>d. \<forall>a\<in>set (cin d (C d)). beyond cmp_fn d x (item (h a))) \<and>
     (\<forall>a. item (cells w a) = item (h a) \<and> nd_back (cells w a) = nd_back (h a)) \<and>
     (\<forall>a. a \<notin> set (whole C t) \<longrightarrow> cells w a = h a)"

text \<open>The state at the head of the loop.\<close>

definition splaying ::
  "('i \<Rightarrow> 'i \<Rightarrow> int) \<Rightarrow> 'i \<Rightarrow> 'i nodes \<Rightarrow> addr \<Rightarrow> (direction \<Rightarrow> slot) \<Rightarrow> 'i work
   \<Rightarrow> addr tree \<Rightarrow> (direction \<Rightarrow> spine) \<Rightarrow> bool" where
  "splaying cmp_fn x h nd hole w t C \<longleftrightarrow>
     work_inv w nd hole t C \<and> nd \<noteq> NULL \<and> ordered cmp_fn (\<lambda>a. item (h a)) (inorder t) \<and>
     (\<forall>d. \<forall>a\<in>set (cin d (C d)). beyond cmp_fn d x (item (h a))) \<and>
     (\<forall>a. item (cells w a) = item (h a) \<and> nd_back (cells w a) = nd_back (h a)) \<and>
     (\<forall>a. a \<notin> set (whole C t) \<longrightarrow> cells w a = h a)"

context item_order
begin

lemma beyond_mono:
  assumes "ordered cmp_fn f (inorder (dnode d s nd u))" and "cmp_fn x (f nd) \<noteq> 0"
    and "DIR (cmp_fn x (f nd)) = d" and "a \<in> insert nd (set_tree u)"
  shows "beyond cmp_fn (OPP d) x (f a)"
proof (cases d)
  case RIGHT
  have "cmp_fn (f nd) x < 0"
    using assms(2,3) RIGHT cmp_swap [of "f nd" x] by (auto simp: DIR_def split: if_splits)
  moreover have "a = nd \<or> cmp_fn (f a) (f nd) < 0"
    using assms(1,4) RIGHT by (auto simp: ordered_simps)
  ultimately have "cmp_fn (f a) x < 0" using cmp_trans by blast
  then have "0 < cmp_fn x (f a)" using cmp_swap by blast
  then show ?thesis using RIGHT by (simp add: beyond_def DIR_def)
next
  case LEFT
  have "cmp_fn x (f nd) < 0" using assms(2,3) LEFT by (auto simp: DIR_def split: if_splits)
  moreover have "a = nd \<or> cmp_fn (f nd) (f a) < 0"
    using assms(1,4) LEFT by (auto simp: ordered_simps)
  ultimately have "cmp_fn x (f a) < 0" using cmp_trans by blast
  then show ?thesis using LEFT by (simp add: beyond_def DIR_def)
qed

lemma link_splaying:
  assumes st: "splaying cmp_fn x h nd hole w (dnode d s nd u) C" and "s \<noteq> \<langle>\<rangle>"
    and n: "cmp_fn x (item (h nd)) \<noteq> 0" "DIR (cmp_fn x (item (h nd))) = d"
  shows "splaying cmp_fn x h (child (cells w nd) d) (hole(OPP d := Child nd d))
      (write_slot (hole (OPP d)) nd w) s (C(OPP d := (nd, u) # C (OPP d)))"
    and "whole (C(OPP d := (nd, u) # C (OPP d))) s = whole C (dnode d s nd u)"
proof -
  have inv: "work_inv w nd hole (dnode d s nd u) C"
    and ord: "ordered cmp_fn (\<lambda>a. item (h a)) (inorder (dnode d s nd u))"
    and out: "\<forall>a. a \<notin> set (whole C (dnode d s nd u)) \<longrightarrow> cells w a = h a"
    and hole: "hole = (\<lambda>d. hole_of d (C d))"
    using st by (auto simp: splaying_def work_inv_def)
  note link = link_step [OF inv]
  show wh: "whole (C(OPP d := (nd, u) # C (OPP d))) s = whole C (dnode d s nd u)" by (rule link(2))
  have "child (cells w nd) d \<noteq> NULL"
    using inv assms(2) tree_at_null by (fastforce simp: work_inv_def)
  moreover have "ordered cmp_fn (\<lambda>a. item (h a)) (inorder s)"
    using ord by (cases d) (auto simp: ordered_simps)
  moreover have "beyond cmp_fn e x (item (h a))"
    if "a \<in> set (cin e ((C(OPP d := (nd, u) # C (OPP d))) e))" for e a
    using that st beyond_mono [OF ord n] by (cases "e = OPP d") (auto simp: splaying_def)
  moreover have "cells (write_slot (hole (OPP d)) nd w) a = h a"
    if "a \<notin> set (whole C (dnode d s nd u))" for a
    using that out set_whole [of C "dnode d s nd u" "OPP d"]
    unfolding hole by (subst write_hole_outside) auto
  ultimately show "splaying cmp_fn x h (child (cells w nd) d) (hole(OPP d := Child nd d))
      (write_slot (hole (OPP d)) nd w) s (C(OPP d := (nd, u) # C (OPP d)))"
    using link(1) wh st by (simp add: splaying_def)
qed

lemma rotate_splaying:
  assumes st: "splaying cmp_fn x h nd hole w (dnode d (dnode d s1 c s2) nd u) C"
    and w': "w' = w\<lparr>cells := set_child (set_child (cells w) nd d (child (cells w c) (OPP d))) c (OPP d) nd\<rparr>"
  shows "splaying cmp_fn x h c hole w' (dnode d s1 c (dnode d s2 nd u)) C"
    and "whole C (dnode d s1 c (dnode d s2 nd u)) = whole C (dnode d (dnode d s1 c s2) nd u)"
proof -
  have inv: "work_inv w nd hole (dnode d (dnode d s1 c s2) nd u) C"
    using st by (simp add: splaying_def)
  note rot = rotate_step [OF inv w']
  show wh: "whole C (dnode d s1 c (dnode d s2 nd u)) = whole C (dnode d (dnode d s1 c s2) nd u)"
    by (rule rot(2))
  have io: "inorder (dnode d s1 c (dnode d s2 nd u)) = inorder (dnode d (dnode d s1 c s2) nd u)"
    by (cases d) auto
  have "c \<noteq> NULL" using inv by (simp add: work_inv_def)
  moreover have "cells w' a = h a" if "a \<notin> set (whole C (dnode d (dnode d s1 c s2) nd u))" for a
    using that st set_whole [of C "dnode d (dnode d s1 c s2) nd u" d] unfolding w'
    by (auto simp: splaying_def)
  ultimately show "splaying cmp_fn x h c hole w' (dnode d s1 c (dnode d s2 nd u)) C"
    using rot(1) st unfolding splaying_def wh io by (simp add: w')
qed

lemma splay_loop_splayed:
  assumes "splaying cmp_fn x h nd hole w t C"
  shows "\<exists>n nd' hole' w' t' C'.
    splay_loop cmp_fn x (cmp_fn x (item (h nd))) nd hole w = Some (n, nd', hole', w') \<and>
    splayed cmp_fn x h n nd' hole' w' t' C' \<and> whole C' t' = whole C t"
  using assms
proof (induction "size t" arbitrary: w nd hole t C rule: less_induct)
  case less
  let ?n = "cmp_fn x (item (h nd))" and ?d = "DIR (cmp_fn x (item (h nd)))"
  note st = less.prems
  have inv: "work_inv w nd hole t C" "nd \<noteq> NULL"
    and it: "\<And>a. item (cells w a) = item (h a)" using st by (auto simp: splaying_def)
  obtain s u where t: "t = dnode ?d s nd u" and s: "tree_at (cells w) (child (cells w nd) ?d) s"
  proof -
    have "tree_at (cells w) nd t" using inv(1) by (simp add: work_inv_def)
    from tree_at_cases [OF this inv(2), of ?d] that show ?thesis by blast
  qed
  let ?c = "child (cells w nd) ?d"
  show ?case
  proof (cases "?n = 0 \<or> ?c = NULL")
    case True
    then have "splay_loop cmp_fn x ?n nd hole w = Some (?n, nd, hole, w)"
      by (subst splay_loop.simps) (auto simp: Let_def)
    moreover have "splayed cmp_fn x h ?n nd hole w t C"
      using st True by (auto simp: splayed_def splaying_def)
    ultimately show ?thesis by blast
  next
    case False
    then have n: "?n \<noteq> 0" and c: "?c \<noteq> NULL" by auto
    then have "s \<noteq> \<langle>\<rangle>" using tree_at_null [OF s] by simp
    let ?n1 = "cmp_fn x (item (h ?c))"
    show ?thesis
    proof (cases "?n1 \<noteq> 0 \<and> DIR ?n1 = ?d")
      case False
      note link = link_splaying [OF st [unfolded t] \<open>s \<noteq> \<langle>\<rangle>\<close> n refl]
      have "splay_loop cmp_fn x ?n nd hole w
          = splay_loop cmp_fn x ?n1 ?c (hole(OPP ?d := Child nd ?d)) (write_slot (hole (OPP ?d)) nd w)"
        using n c False by (subst splay_loop.simps) (auto simp: Let_def it)
      then show ?thesis using less.hyps [OF _ link(1)] unfolding t link(2) by simp
    next
      case True
      obtain s1 s2 where s12: "s = dnode ?d s1 ?c s2"
        using tree_at_cases [OF s c, of ?d] by blast
      define w1 where "w1 = w\<lparr>cells := set_child (set_child (cells w) nd ?d
          (child (cells w ?c) (OPP ?d))) ?c (OPP ?d) nd\<rparr>"
      note rot = rotate_splaying [OF st [unfolded t s12] w1_def]
      have it1: "item (cells w1 a) = item (h a)" for a by (simp add: w1_def it)
      let ?c1 = "child (cells w1 ?c) ?d"
      have c1: "tree_at (cells w1) ?c1 s1" using rot(1) by (simp add: splaying_def work_inv_def)
      show ?thesis
      proof (cases "?c1 = NULL")
        case c1null: True
        have "splay_loop cmp_fn x ?n nd hole w = Some (?n1, ?c, hole, w1)"
          using n c True c1null by (subst splay_loop.simps) (simp add: Let_def it w1_def)
        moreover have "splayed cmp_fn x h ?n1 ?c hole w1 (dnode ?d s1 ?c (dnode ?d s2 nd u)) C"
          using rot(1) True c1null by (auto simp: splayed_def splaying_def)
        ultimately show ?thesis using rot(2) unfolding t s12 by blast
      next
        case c1: False
        then have "s1 \<noteq> \<langle>\<rangle>" using tree_at_null [OF \<open>tree_at (cells w1) ?c1 s1\<close>] by simp
        have n1: "?n1 \<noteq> 0" "DIR ?n1 = ?d" using True by auto
        note link = link_splaying [OF rot(1) \<open>s1 \<noteq> \<langle>\<rangle>\<close> n1]
        have "splay_loop cmp_fn x ?n nd hole w
            = splay_loop cmp_fn x (cmp_fn x (item (h ?c1))) ?c1 (hole(OPP ?d := Child ?c ?d))
                (write_slot (hole (OPP ?d)) ?c w1)"
          using n c True c1 by (subst splay_loop.simps) (simp add: Let_def it it1 w1_def)
        then show ?thesis using less.hyps [OF _ link(1)] unfolding t s12 link(2) rot(2) by simp
      qed
    qed
  qed
qed

lemma splay_splayed:
  assumes "tree_at h nd t" and "nd \<noteq> NULL" and "distinct (inorder t)"
    and "ordered cmp_fn (\<lambda>a. item (h a)) (inorder t)"
  shows "\<exists>n nd' hole w t' C. splay cmp_fn x nd INIT_HOLE (start_work h) = Some (n, nd', hole, w) \<and>
    splayed cmp_fn x h n nd' hole w t' C \<and> whole C t' = inorder t"
proof -
  have wh: "whole (\<lambda>_. []) t = inorder t" by (simp add: whole_def)
  have "splaying cmp_fn x h nd INIT_HOLE (start_work h) t (\<lambda>_. [])"
    using assms wh by (auto simp: splaying_def work_inv_def start_work_def INIT_HOLE_def)
  from splay_loop_splayed [OF this] show ?thesis
    unfolding wh by (simp add: splay_def start_work_def)
qed

text \<open>The order around the current node of a finished splay.\<close>

lemma before_iff: "cmp_fn y x < 0 \<longleftrightarrow> 0 < cmp_fn x y"
  by (rule cmp_swap)

lemma splayed_order:
  assumes sp: "splayed cmp_fn x h n nd hole w t C"
    and ord: "ordered cmp_fn (\<lambda>a. item (h a)) (whole C t)" and t: "t = \<langle>l, nd, r\<rangle>"
  shows "a \<in> set (cin LEFT (C LEFT)) \<Longrightarrow> 0 < cmp_fn x (item (h a))"
    and "a \<in> set (cin RIGHT (C RIGHT)) \<Longrightarrow> cmp_fn x (item (h a)) < 0"
    and "n = 0 \<Longrightarrow> a \<in> set_tree l \<Longrightarrow> 0 < cmp_fn x (item (h a))"
    and "n = 0 \<Longrightarrow> a \<in> set_tree r \<Longrightarrow> cmp_fn x (item (h a)) < 0"
    and "n < 0 \<Longrightarrow> l = \<langle>\<rangle> \<and> (a \<in> set_tree t \<longrightarrow> cmp_fn x (item (h a)) < 0)"
    and "0 < n \<Longrightarrow> r = \<langle>\<rangle> \<and> (a \<in> set_tree t \<longrightarrow> 0 < cmp_fn x (item (h a)))"
proof -
  let ?f = "\<lambda>a. item (h a)"
  have n: "n = cmp_fn x (?f nd)" and tr: "tree_at (cells w) nd t"
    and nul: "n \<noteq> 0 \<Longrightarrow> child (cells w nd) (DIR n) = NULL"
    and bey: "\<And>d a. a \<in> set (cin d (C d)) \<Longrightarrow> beyond cmp_fn d x (?f a)"
    using sp by (auto simp: splayed_def work_inv_def)
  have ot: "ordered cmp_fn ?f (inorder t)" using ord by (auto simp: whole_def ordered_simps)
  show "a \<in> set (cin LEFT (C LEFT)) \<Longrightarrow> 0 < cmp_fn x (?f a)"
    and "a \<in> set (cin RIGHT (C RIGHT)) \<Longrightarrow> cmp_fn x (?f a) < 0"
    using bey [of a LEFT] bey [of a RIGHT] by (auto simp: beyond_def DIR_def split: if_splits)
  have lt: "a \<in> set_tree l \<Longrightarrow> cmp_fn (?f a) (?f nd) < 0" "a \<in> set_tree r \<Longrightarrow> cmp_fn (?f nd) (?f a) < 0" for a
    using ot t by (auto simp: ordered_simps)
  show "n = 0 \<Longrightarrow> a \<in> set_tree l \<Longrightarrow> 0 < cmp_fn x (?f a)"
    using lt(1) [of a] n cmp_equal [of x "?f nd" "?f a"] cmp_equal [of x "?f a" "?f nd"]
      cmp_swap [of "?f a" "?f nd"] by fastforce
  show "n = 0 \<Longrightarrow> a \<in> set_tree r \<Longrightarrow> cmp_fn x (?f a) < 0"
    using lt(2) [of a] n cmp_equal [of x "?f nd" "?f a"] by simp
  show "n < 0 \<Longrightarrow> l = \<langle>\<rangle> \<and> (a \<in> set_tree t \<longrightarrow> cmp_fn x (?f a) < 0)"
  proof -
    assume neg: "n < 0"
    then have "l = \<langle>\<rangle>" using nul tr t tree_at_null [of "cells w" NULL l] by (auto simp: DIR_def)
    then show ?thesis using neg n t lt(2) [of a] cmp_trans [of x "?f nd" "?f a"] by auto
  qed
  show "0 < n \<Longrightarrow> r = \<langle>\<rangle> \<and> (a \<in> set_tree t \<longrightarrow> 0 < cmp_fn x (?f a))"
  proof -
    assume pos: "0 < n"
    then have "r = \<langle>\<rangle>" using nul tr t tree_at_null [of "cells w" NULL r] by (auto simp: DIR_def)
    then show ?thesis
      using pos n t lt(1) [of a] cmp_trans [of "?f a" "?f nd" x] cmp_swap by auto
  qed
qed

end

text \<open>\<open>assemble\<close> closes the two holes.\<close>

lemma assemble_tree:
  assumes inv: "work_inv w nd hole \<langle>l, nd, r\<rangle> C"
  shows "tree_at (assemble nd hole w) nd \<langle>plug LEFT (C LEFT) l, nd, plug RIGHT (C RIGHT) r\<rangle>"
    and "item (assemble nd hole w a) = item (cells w a)"
    and "nd_back (assemble nd hole w a) = nd_back (cells w a)"
    and "a \<notin> set (whole C \<langle>l, nd, r\<rangle>) \<Longrightarrow> assemble nd hole w a = cells w a"
proof -
  let ?t = "\<langle>l, nd, r\<rangle>"
  let ?w1 = "write_slot (hole_of RIGHT (C RIGHT)) (child (cells w nd) RIGHT) w"
  let ?w2 = "write_slot (hole_of LEFT (C LEFT)) (child (cells w nd) LEFT) ?w1"
  have dist: "distinct (whole C ?t)" and ctx: "\<forall>e. ctx_at w e (C e)"
    and t: "nd \<noteq> NULL" "tree_at (cells w) (child (cells w nd) LEFT) l"
      "tree_at (cells w) (child (cells w nd) RIGHT) r" and hole: "hole = (\<lambda>d. hole_of d (C d))"
    using inv by (auto simp: work_inv_def)
  have nd: "nd \<notin> set (cin d (C d))" for d
    using whole_distinctD(3) [OF dist, of d] by auto
  have c1: "cells ?w1 nd = cells w nd" and c2: "cells ?w2 nd = cells w nd"
    using nd by (simp_all add: write_hole_outside)
  have asm: "assemble nd hole w
      = set_child (set_child (cells ?w2) nd RIGHT (result ?w2 RIGHT)) nd LEFT (result ?w2 LEFT)"
    unfolding assemble_def hole Let_def c1 ..
  show "item (assemble nd hole w a) = item (cells w a)"
    "nd_back (assemble nd hole w a) = nd_back (cells w a)"
    by (simp_all add: asm)
  show "a \<notin> set (whole C ?t) \<Longrightarrow> assemble nd hole w a = cells w a"
    unfolding asm by (auto simp: write_hole_outside whole_def)
  have ctx1: "\<forall>e. ctx_at ?w1 e (C e)" using ctx_after_write [OF dist ctx] by blast
  have ctx2: "\<forall>e. ctx_at ?w2 e (C e)" using ctx_after_write [OF dist ctx1] by blast
  have "hole_of RIGHT (C RIGHT) \<noteq> hole_of LEFT (C LEFT)"
    using whole_distinctD(4) [OF dist, of RIGHT]
    by (cases "C RIGHT"; cases "C LEFT") auto
  then have rR: "read_slot ?w2 (hole_of RIGHT (C RIGHT)) = child (cells w nd) RIGHT"
    by (cases "C RIGHT"; cases "C LEFT") auto
  have rL: "read_slot ?w2 (hole_of LEFT (C LEFT)) = child (cells w nd) LEFT"
    by (rule read_write_slot) simp
  have "tree_at (cells ?w2) q u" if "tree_at (cells w) q u" "set_tree u \<subseteq> set_tree ?t" for q u
    using that by (intro tree_after_write [OF dist])
  then have "tree_at (cells ?w2) (result ?w2 RIGHT) (plug RIGHT (C RIGHT) r)"
    "tree_at (cells ?w2) (result ?w2 LEFT) (plug LEFT (C LEFT) l)"
    using t by (intro ctx_plug [OF ctx2 [rule_format] rR] ctx_plug [OF ctx2 [rule_format] rL]; auto)+
  moreover have "nd \<notin> set_tree (plug RIGHT (C RIGHT) r)" "nd \<notin> set_tree (plug LEFT (C LEFT) l)"
    using dist by (auto simp: whole_def simp flip: set_inorder_tree simp: inorder_plug)
  moreover have "tree_at (set_child (set_child (cells ?w2) nd RIGHT p) nd LEFT q) v u = tree_at (cells ?w2) v u"
    if "nd \<notin> set_tree u" for p q v u
    by (rule tree_at_cong) (use that in \<open>auto intro!: ext\<close>)
  ultimately show "tree_at (assemble nd hole w) nd \<langle>plug LEFT (C LEFT) l, nd, plug RIGHT (C RIGHT) r\<rangle>"
    unfolding asm using t(1) by simp
qed

lemma inorder_assembled:
  "inorder \<langle>plug LEFT (C LEFT) l, nd, plug RIGHT (C RIGHT) r\<rangle> = whole C \<langle>l, nd, r\<rangle>"
  by (simp add: inorder_plug whole_def)


section \<open>Well-formed trees\<close>

fun free_at :: "'i nodes \<Rightarrow> addr \<Rightarrow> addr list \<Rightarrow> bool" where
  "free_at h p [] \<longleftrightarrow> p = NULL"
| "free_at h p (a # as) \<longleftrightarrow> p = a \<and> a \<noteq> NULL \<and> free_at h (back_node (nd_back (h a))) as"

definition chunks_apart :: "chunk \<Rightarrow> chunk \<Rightarrow> bool" where
  "chunks_apart c c' \<longleftrightarrow>
     chunk_begin c + CHUNK_SIZE \<le> chunk_begin c' \<or> chunk_begin c' + CHUNK_SIZE \<le> chunk_begin c"

definition chunks_ok :: "chunk list \<Rightarrow> bool" where
  "chunks_ok cs \<longleftrightarrow>
     (\<forall>c\<in>set cs. 0 < chunk_begin c \<and> chunk_begin c \<le> chunk_free c \<and>
                  chunk_free c \<le> chunk_begin c + CHUNK_SIZE) \<and>
     sorted_wrt chunks_apart cs"

text \<open>\<open>xmalloc\<close> returns blocks that are not null and apart from the blocks in use.\<close>

definition xmalloc_ok :: "(chunk list \<Rightarrow> addr) \<Rightarrow> bool" where
  "xmalloc_ok xm \<longleftrightarrow>
     (\<forall>cs. 0 < xm cs \<and> (\<forall>c\<in>set cs. chunks_apart \<lparr>chunk_begin = xm cs, chunk_free = xm cs\<rparr> c))"

text \<open>The node at \<open>a\<close> lies in the used part of a chunk.\<close>

definition in_chunks :: "nat \<Rightarrow> chunk list \<Rightarrow> addr \<Rightarrow> bool" where
  "in_chunks isz cs a \<longleftrightarrow>
     (\<exists>c\<in>set cs. chunk_begin c + NODE_OFFSET isz \<le> a \<and> a + SIZEOF_STRUCT_NODE \<le> chunk_free c)"

text \<open>\<open>T\<close> is the tree of the nodes in use, \<open>F\<close> the free list.\<close>

definition tree_ok :: "'i sml_tree \<Rightarrow> addr tree \<Rightarrow> addr list \<Rightarrow> bool" where
  "tree_ok t T F \<longleftrightarrow>
     tree_at (nodes t) (root t) T \<and> distinct (inorder T @ F) \<and>
     ordered (cmp t) (\<lambda>a. item (nodes t a)) (inorder T) \<and>
     free_at (nodes t) (freelist t) F \<and> chunks_ok (chunk t) \<and>
     (\<forall>a\<in>set_tree T \<union> set F. in_chunks (item_size t) (chunk t) a) \<and>
     0 < item_size t \<and> alloc_size t = SIZEOF_NODE (item_size t) \<and> alloc_size t \<le> CHUNK_SIZE"

definition items :: "'i sml_tree \<Rightarrow> addr tree \<Rightarrow> 'i list" where
  "items t T = map (\<lambda>a. item (nodes t a)) (inorder T)"

lemma node_size_le: "0 < isz \<Longrightarrow> NODE_OFFSET isz + SIZEOF_STRUCT_NODE \<le> SIZEOF_NODE isz"
  using ceiling_ge [of isz "NODE_SIZE isz"] by (simp add: SIZEOF_NODE_def NODE_SIZE_def)

lemma free_at_cong:
  "(\<And>a. a \<in> set F \<Longrightarrow> nd_back (h a) = nd_back (h' a)) \<Longrightarrow> free_at h p F = free_at h' p F"
  by (induction F arbitrary: p) auto

lemma free_at_null: "free_at h p F \<Longrightarrow> p = NULL \<longleftrightarrow> F = []"
  by (cases F) auto

lemma chunk_alloc_fresh:
  assumes "chunks_ok cs" and "len \<le> CHUNK_SIZE" and "0 < fresh"
    and fr: "\<forall>c\<in>set cs. chunks_apart \<lparr>chunk_begin = fresh, chunk_free = fresh\<rparr> c"
    and alloc: "chunk_alloc fresh cs len = (p, cs')"
    and len: "NODE_OFFSET isz + SIZEOF_STRUCT_NODE \<le> len"
  shows "chunks_ok cs'" and "in_chunks isz cs' (NODE p isz)" and "\<not> in_chunks isz cs (NODE p isz)"
    and "in_chunks isz cs a \<Longrightarrow> in_chunks isz cs' a"
proof -
  let ?new = "\<lparr>chunk_begin = fresh, chunk_free = fresh\<rparr>"
  obtain c rest where c: "(case cs of [] \<Rightarrow> [?new]
      | c # _ \<Rightarrow> if CHUNK_REST c < len then ?new # cs else cs) = c # rest"
    by (cases cs; cases "CHUNK_REST (hd cs) < len") auto
  have p: "p = chunk_free c" and cs': "cs' = c\<lparr>chunk_free := chunk_free c + len\<rparr> # rest"
    using alloc unfolding chunk_alloc_def Let_def c by auto
  have ok: "chunks_ok (c # rest)" and room: "chunk_free c + len \<le> chunk_begin c + CHUNK_SIZE"
    and old: "c = ?new \<and> rest = cs \<or> c # rest = cs"
    using assms(1-4) c by (auto simp: chunks_ok_def CHUNK_REST_def split: list.splits if_splits)
  show "chunks_ok cs'" using ok room unfolding cs' by (auto simp: chunks_ok_def chunks_apart_def)
  show "in_chunks isz cs' (NODE p isz)"
    using ok len unfolding cs' p by (auto simp: in_chunks_def NODE_def chunks_ok_def)
  show "in_chunks isz cs a \<Longrightarrow> in_chunks isz cs' a"
    using old unfolding cs' in_chunks_def by fastforce
  show "\<not> in_chunks isz cs (NODE p isz)"
  proof
    assume "in_chunks isz cs (NODE p isz)"
    then obtain c2 where c2: "c2 \<in> set (c # rest)" "c2 \<in> set cs" "chunk_begin c2 \<le> NODE p isz"
      "NODE p isz + SIZEOF_STRUCT_NODE \<le> chunk_free c2"
      using old by (auto simp: in_chunks_def)
    have b: "chunk_begin c \<le> p" "p \<le> NODE p isz" "NODE p isz + SIZEOF_STRUCT_NODE \<le> chunk_begin c + CHUNK_SIZE"
      "chunk_free c2 \<le> chunk_begin c2 + CHUNK_SIZE"
      using ok room len c2(1) unfolding p NODE_def by (auto simp: chunks_ok_def)
    show False
    proof (cases "c2 = c")
      case True
      then show ?thesis using c2(4) b(2) p by simp
    next
      case False
      then have "chunks_apart c c2 \<or> chunks_apart c2 c" using ok c2(1) by (auto simp: chunks_ok_def)
      then show ?thesis using c2 b by (auto simp: chunks_apart_def)
    qed
  qed
qed

text \<open>A new node is fresh, and taking it keeps the tree and the rest of the free list.\<close>

lemma node_alloc_fresh:
  assumes ok: "tree_ok t T F" and xm: "xmalloc_ok xm" and alloc: "node_alloc xm t = (new, t')"
  shows "\<exists>F'. new \<notin> set_tree T \<and> new \<noteq> NULL \<and> NODE_OFFSET (item_size t) \<le> new \<and> new \<notin> set F' \<and> set F' \<subseteq> set F \<and>
    distinct F' \<and> free_at (nodes t) (freelist t') F' \<and> chunks_ok (chunk t') \<and>
    (\<forall>a\<in>insert new (set_tree T \<union> set F'). in_chunks (item_size t) (chunk t') a) \<and>
    t' = t\<lparr>freelist := freelist t', chunk := chunk t'\<rparr>"
proof (cases F)
  case Nil
  then have f: "freelist t = NULL" using ok free_at_null by (auto simp: tree_ok_def)
  obtain p cs where pc: "chunk_alloc (xm (chunk t)) (chunk t) (alloc_size t) = (p, cs)" by fastforce
  have eq: "new = NODE p (item_size t)" "t' = t\<lparr>chunk := cs\<rparr>"
    using alloc f pc by (auto simp: node_alloc_def)
  have k: "chunks_ok (chunk t)" "alloc_size t \<le> CHUNK_SIZE" "0 < item_size t" using ok by (auto simp: tree_ok_def)
  have len: "NODE_OFFSET (item_size t) + SIZEOF_STRUCT_NODE \<le> alloc_size t"
    using ok node_size_le [of "item_size t"] by (auto simp: tree_ok_def)
  note fresh = chunk_alloc_fresh [OF k(1,2) _ _ pc len]
  have x: "0 < xm (chunk t)"
    "\<forall>c\<in>set (chunk t). chunks_apart \<lparr>chunk_begin = xm (chunk t), chunk_free = xm (chunk t)\<rparr> c"
    using xm by (auto simp: xmalloc_ok_def)
  have pos: "0 < new" using fresh(2) [OF x] fresh(1) [OF x]
    unfolding eq by (auto simp: in_chunks_def chunks_ok_def)
  show ?thesis
  proof (intro exI [of _ "[]"] conjI)
    show "new \<notin> set_tree T"
      using fresh(3) [OF x] ok unfolding eq by (auto simp: tree_ok_def)
    show "\<forall>a\<in>insert new (set_tree T \<union> set []). in_chunks (item_size t) (chunk t') a"
      using fresh(2) [OF x] fresh(4) [OF x] ok unfolding eq by (auto simp: tree_ok_def)
  qed (use f fresh(1) [OF x] pos eq in \<open>auto simp: NODE_def\<close>)
next
  case (Cons a F')
  then have f: "freelist t = a" "a \<noteq> NULL" using ok by (auto simp: tree_ok_def)
  then have eq: "new = a" "t' = t\<lparr>freelist := back_node (nd_back (nodes t a))\<rparr>"
    using alloc by (auto simp: node_alloc_def)
  have "in_chunks (item_size t) (chunk t) a" using ok Cons by (auto simp: tree_ok_def)
  then have "NODE_OFFSET (item_size t) \<le> a" by (auto simp: in_chunks_def)
  then show ?thesis
    using ok Cons f eq by (intro exI [of _ F']) (auto simp: tree_ok_def)
qed


section \<open>Correctness of the operations\<close>

text \<open>Rewriting the store of a well-formed tree by a new tree over the same nodes.\<close>

lemma tree_ok_restructure:
  assumes ok: "tree_ok t T F" and tr: "tree_at h p T'" and io: "inorder T' = inorder T"
    and it: "\<And>a. item (h a) = item (nodes t a)" and bk: "\<And>a. nd_back (h a) = nd_back (nodes t a)"
  shows "tree_ok (t\<lparr>root := p, nodes := h\<rparr>) T' F"
    and "items (t\<lparr>root := p, nodes := h\<rparr>) T' = items t T"
proof -
  have "set_tree T' = set_tree T" using io by (metis set_inorder)
  moreover have "free_at h (freelist t) F = free_at (nodes t) (freelist t) F"
    by (rule free_at_cong) (simp add: bk)
  ultimately show "tree_ok (t\<lparr>root := p, nodes := h\<rparr>) T' F"
    using ok tr io it by (simp add: tree_ok_def)
  show "items (t\<lparr>root := p, nodes := h\<rparr>) T' = items t T"
    by (simp add: items_def io it)
qed

lemma item_of_pos:
  assumes "tree_ok t T F" and "a \<in> set_tree T"
  shows "ITEM_OF t a \<noteq> NULL" and "NODE (ITEM_OF t a) (item_size t) = a"
proof -
  have "in_chunks (item_size t) (chunk t) a" "chunks_ok (chunk t)"
    using assms by (auto simp: tree_ok_def)
  then obtain c where "c \<in> set (chunk t)" "chunk_begin c + NODE_OFFSET (item_size t) \<le> a"
    "0 < chunk_begin c"
    by (auto simp: in_chunks_def chunks_ok_def)
  then show "ITEM_OF t a \<noteq> NULL" and "NODE (ITEM_OF t a) (item_size t) = a"
    by (auto simp: ITEM_OF_def NODE_ITEM_def NODE_def)
qed

context item_order
begin

text \<open>The outcome of splaying the root, with the tree it is assembled to.\<close>

lemma splay_root_cases:
  assumes ok: "tree_ok t T F" and c: "cmp t = cmp_fn" and rt: "root t \<noteq> NULL"
  obtains n nd hole w l r C where
    "splay cmp_fn x (root t) INIT_HOLE (start_work (nodes t)) = Some (n, nd, hole, w)"
    and "splayed cmp_fn x (nodes t) n nd hole w \<langle>l, nd, r\<rangle> C"
    and "whole C \<langle>l, nd, r\<rangle> = inorder T"
    and "ordered cmp_fn (\<lambda>a. item (nodes t a)) (whole C \<langle>l, nd, r\<rangle>)"
    and "work_inv w nd hole \<langle>l, nd, r\<rangle> C"
proof -
  have "\<exists>n nd' hole w t' C. splay cmp_fn x (root t) INIT_HOLE (start_work (nodes t)) = Some (n, nd', hole, w) \<and>
    splayed cmp_fn x (nodes t) n nd' hole w t' C \<and> whole C t' = inorder T"
    by (rule splay_splayed) (use ok c rt in \<open>auto simp: tree_ok_def\<close>)
  then obtain n nd hole w t' C where 1:
    "splay cmp_fn x (root t) INIT_HOLE (start_work (nodes t)) = Some (n, nd, hole, w)"
    "splayed cmp_fn x (nodes t) n nd hole w t' C" "whole C t' = inorder T" by blast
  then obtain l r where "t' = \<langle>l, nd, r\<rangle>" by (cases t') (auto simp: splayed_def work_inv_def)
  with 1 show ?thesis
    using that ok c by (auto simp: tree_ok_def splayed_def)
qed

lemma find_spec:
  assumes ok: "tree_ok t T F" and c: "cmp t = cmp_fn"
  shows "\<exists>p t' T'. sml_tree_find t x = Some (p, t') \<and> tree_ok t' T' F \<and> cmp t' = cmp_fn \<and>
    item_size t' = item_size t \<and> items t' T' = items t T \<and> inorder T' = inorder T \<and>
    (if \<exists>y\<in>set (items t T). cmp_fn x y = 0
     then \<exists>a\<in>set_tree T. p = ITEM_OF t a \<and> cmp_fn x (item (nodes t a)) = 0
     else p = NULL)"
proof (cases "root t = NULL")
  case True
  then have "T = \<langle>\<rangle>" using ok tree_at_null by (auto simp: tree_ok_def)
  with True show ?thesis using ok c by (auto simp: sml_tree_find_def items_def)
next
  case False
  then obtain n nd hole w l r C where
    sp: "splay cmp_fn x (root t) INIT_HOLE (start_work (nodes t)) = Some (n, nd, hole, w)"
    and st: "splayed cmp_fn x (nodes t) n nd hole w \<langle>l, nd, r\<rangle> C"
    and wh: "whole C \<langle>l, nd, r\<rangle> = inorder T"
    and ord: "ordered cmp_fn (\<lambda>a. item (nodes t a)) (whole C \<langle>l, nd, r\<rangle>)"
    and inv: "work_inv w nd hole \<langle>l, nd, r\<rangle> C"
    using splay_root_cases [OF ok c] by metis
  let ?T = "\<langle>plug LEFT (C LEFT) l, nd, plug RIGHT (C RIGHT) r\<rangle>"
  let ?t = "t\<lparr>root := nd, nodes := assemble nd hole w\<rparr>"
  note asm = assemble_tree [OF inv]
  have io: "inorder ?T = inorder T" using inorder_assembled wh by metis
  have t': "tree_ok ?t ?T F" "items ?t ?T = items t T"
    using tree_ok_restructure [OF ok asm(1) io] asm(2,3) st by (auto simp: splayed_def)
  have setT: "set_tree T = set (whole C \<langle>l, nd, r\<rangle>)" using wh by (metis set_inorder)
  have nd: "nd \<in> set_tree T" using setT by (simp add: whole_def)
  have n: "n = cmp_fn x (item (nodes t nd))" using st by (simp add: splayed_def)
  have none: "cmp_fn x (item (nodes t a)) \<noteq> 0" if "n \<noteq> 0" "a \<in> set_tree T" for a
    using that splayed_order [OF st ord refl, of a] setT
    by (cases "n < 0") (auto simp: whole_def)
  have eq: "sml_tree_find t x = Some (if n = 0 then ITEM_OF t nd else NULL, ?t)"
    using False sp c by (simp add: sml_tree_find_def)
  have iff: "(\<exists>y\<in>set (items t T). cmp_fn x y = 0) \<longleftrightarrow> n = 0"
    using nd n none by (auto simp: items_def)
  show ?thesis
    unfolding iff
    by (intro exI conjI, rule eq, rule t'(1)) (use t'(2) io c nd n in auto)
qed

lemma splay_root_spec:
  assumes ok: "tree_ok t T F" and c: "cmp t = cmp_fn"
  obtains n nd hole w U C xs ys where
    "splay_root t x = Some (n, nd, hole, w)" and "work_inv w nd hole U C"
    and "whole C U = inorder T"
    and "\<forall>a. item (cells w a) = item (nodes t a) \<and> nd_back (cells w a) = nd_back (nodes t a)"
    and "\<forall>new. n \<noteq> 0 \<longrightarrow> whole C (dnode (DIR n) \<langle>\<rangle> new U) = xs @ new # ys"
    and "inorder T = (if n = 0 then xs @ nd # ys else xs @ ys)"
    and "n = 0 \<longrightarrow> (\<exists>l r. U = \<langle>l, nd, r\<rangle>) \<and> cmp_fn x (item (nodes t nd)) = 0"
    and "\<forall>a\<in>set xs. 0 < cmp_fn x (item (nodes t a))"
    and "\<forall>a\<in>set ys. cmp_fn x (item (nodes t a)) < 0"
proof (cases "root t = NULL")
  case True
  then have T: "T = \<langle>\<rangle>" using ok tree_at_null by (auto simp: tree_ok_def)
  show ?thesis
  proof (rule that [of 1 NULL INIT_HOLE "start_work (nodes t)" "\<langle>\<rangle>" "\<lambda>_. []" "[]" "[]"])
    show "splay_root t x = Some (1, NULL, INIT_HOLE, start_work (nodes t))"
      using True by (simp add: splay_root_def)
    show "work_inv (start_work (nodes t)) NULL INIT_HOLE \<langle>\<rangle> (\<lambda>_. [])"
      by (auto simp: work_inv_def whole_def INIT_HOLE_def)
  qed (auto simp: T whole_def DIR_def start_work_def)
next
  case False
  then obtain n nd hole w l r C where
    sp: "splay cmp_fn x (root t) INIT_HOLE (start_work (nodes t)) = Some (n, nd, hole, w)"
    and st: "splayed cmp_fn x (nodes t) n nd hole w \<langle>l, nd, r\<rangle> C"
    and wh: "whole C \<langle>l, nd, r\<rangle> = inorder T"
    and ord: "ordered cmp_fn (\<lambda>a. item (nodes t a)) (whole C \<langle>l, nd, r\<rangle>)"
    and inv: "work_inv w nd hole \<langle>l, nd, r\<rangle> C"
    using splay_root_cases [OF ok c] by metis
  note so = splayed_order [OF st ord refl]
  let ?U = "\<langle>l, nd, r\<rangle>"
  define xs where "xs = cin LEFT (C LEFT) @
    (if n = 0 then inorder l else if n < 0 then [] else inorder ?U)"
  define ys where "ys = (if n = 0 then inorder r else if n < 0 then inorder ?U else []) @ cin RIGHT (C RIGHT)"
  show ?thesis
  proof (rule that [of n nd hole w ?U C xs ys])
    show "splay_root t x = Some (n, nd, hole, w)" using sp False c by (simp add: splay_root_def)
    show "\<forall>new. n \<noteq> 0 \<longrightarrow> whole C (dnode (DIR n) \<langle>\<rangle> new ?U) = xs @ new # ys"
      by (auto simp: whole_def xs_def ys_def DIR_def)
    show "inorder T = (if n = 0 then xs @ nd # ys else xs @ ys)"
      using wh by (auto simp: whole_def xs_def ys_def)
    show "\<forall>a\<in>set xs. 0 < cmp_fn x (item (nodes t a))"
    proof
      fix a assume "a \<in> set xs"
      then show "0 < cmp_fn x (item (nodes t a))"
        using so(1) [of a] so(3) [of a] so(6) [of a] by (auto simp: xs_def split: if_splits)
    qed
    show "\<forall>a\<in>set ys. cmp_fn x (item (nodes t a)) < 0"
    proof
      fix a assume "a \<in> set ys"
      then show "cmp_fn x (item (nodes t a)) < 0"
        using so(2) [of a] so(4) [of a] so(5) [of a] by (auto simp: ys_def split: if_splits)
    qed
  qed (use inv wh st in \<open>auto simp: splayed_def\<close>)
qed

end

lemma work_inv_new_root:
  assumes inv: "work_inv w nd hole U C" and new: "new \<notin> set (whole C U)" "new \<noteq> NULL"
    and h: "h = set_child (set_child (cells w) new d NULL) new (OPP d) nd"
  shows "work_inv (w\<lparr>cells := h\<rparr>) new hole (dnode d \<langle>\<rangle> new U) C"
proof -
  have dist: "distinct (whole C U)" using inv by (simp add: work_inv_def)
  have nin: "new \<notin> set_tree U" "\<And>e. new \<notin> set (cin e (C e))"
    using new(1) by (auto simp: whole_def) (case_tac e; simp)
  have out: "a \<noteq> new \<Longrightarrow> h a = cells w a" for a by (simp add: h)
  have "tree_at h nd U = tree_at (cells w) nd U"
    by (rule tree_at_cong) (use nin(1) out in metis)
  then have "tree_at h new (dnode d \<langle>\<rangle> new U)" using inv new(2) by (simp add: work_inv_def h)
  moreover have "ctx_at (w\<lparr>cells := h\<rparr>) e (C e)" for e
    by (rule ctx_at_cong [of w]) (use inv whole_distinctD(1) [OF dist] nin(2) out in \<open>auto simp: work_inv_def, metis\<close>)
  moreover have "distinct (whole C (dnode d \<langle>\<rangle> new U))"
    using dist nin(1) nin(2) [of LEFT] nin(2) [of RIGHT] by (cases d) (auto simp: whole_def)
  ultimately show ?thesis using inv by (simp add: work_inv_def)
qed

lemma node_alloc_store:
  assumes "\<And>a. nd_back (h a) = nd_back (nodes t a)" and "node_alloc xm t = (new, t')"
  shows "node_alloc xm (t\<lparr>root := p, nodes := h\<rparr>) = (new, t'\<lparr>root := p, nodes := h\<rparr>)"
  using assms by (auto simp: node_alloc_def split: prod.splits if_splits)


context item_order
begin

text \<open>A root with a new item between the smaller and the larger items.\<close>

lemma root_item_ok:
  assumes ok: "tree_ok t T F" and c: "cmp t = cmp_fn"
    and tr: "tree_at h a T'" and io: "inorder T' = xs @ a # ys"
    and sub: "set xs \<union> set ys \<subseteq> set_tree T" and di: "distinct (xs @ a # ys @ F')"
    and it: "\<And>b. item (h b) = item (nodes t b)"
    and fr: "free_at h (freelist t') F'" and ch: "chunks_ok (chunk t')"
    and inc: "\<forall>b\<in>insert a (set xs \<union> set ys \<union> set F'). in_chunks (item_size t) (chunk t') b"
    and ord: "ordered cmp_fn (\<lambda>b. item (nodes t b)) (xs @ ys)"
    and lo: "\<And>b. b \<in> set xs \<Longrightarrow> 0 < cmp_fn x (item (nodes t b))"
    and hi: "\<And>b. b \<in> set ys \<Longrightarrow> cmp_fn x (item (nodes t b)) < 0"
    and t': "t'' = t\<lparr>root := a, freelist := freelist t', chunk := chunk t', nodes := h(a := (h a)\<lparr>item := x\<rparr>)\<rparr>"
  shows "tree_ok t'' T' F'"
    and "items t'' T' = map (\<lambda>b. item (nodes t b)) xs @ x # map (\<lambda>b. item (nodes t b)) ys"
proof -
  let ?h = "h(a := (h a)\<lparr>item := x\<rparr>)"
  have na: "a \<notin> set xs" "a \<notin> set ys" using di by auto
  have same: "item (?h b) = item (nodes t b)" if "b \<in> set xs \<union> set ys" for b
    using that na it by auto
  have "tree_at ?h a T'" using tr tree_at_cong [of T' ?h h a] by auto
  moreover have "free_at ?h (freelist t') F'" using fr free_at_cong [of F' ?h h] by auto
  moreover have "ordered cmp_fn (\<lambda>b. item (?h b)) (xs @ ys)"
    using ord ordered_cong [of "xs @ ys" "\<lambda>b. item (?h b)" "\<lambda>b. item (nodes t b)"] same by simp
  then have "ordered cmp_fn (\<lambda>b. item (?h b)) (xs @ a # ys)"
    using lo hi same cmp_swap na by (simp add: ordered_simps)
  ultimately show "tree_ok t'' T' F'"
    using ok c di inc ch io unfolding t' tree_ok_def
    by (auto simp flip: set_inorder_tree simp: io)
  show "items t'' T' = map (\<lambda>b. item (nodes t b)) xs @ x # map (\<lambda>b. item (nodes t b)) ys"
    unfolding items_def io t' using same by simp
qed

lemma insert_shape:
  assumes ok: "tree_ok t T F" and c: "cmp t = cmp_fn" and xm: "xmalloc_ok xm"
  shows "\<exists>p t' T' F'. sml_tree_insert xm t x = Some (p, t') \<and> tree_ok t' T' F' \<and> cmp t' = cmp_fn \<and>
    item_size t' = item_size t \<and>
    (\<exists>a\<in>set_tree T'. p = ITEM_OF t a \<and> item (nodes t' a) = x) \<and>
    items t' T' = filter (\<lambda>y. cmp_fn y x < 0) (items t T) @ x # filter (\<lambda>y. cmp_fn x y < 0) (items t T) \<and>
    (\<exists>a xs ys. p = ITEM_OF t a \<and> inorder T' = xs @ a # ys \<and>
      (inorder T = xs @ ys \<or> inorder T = xs @ a # ys \<and> cmp_fn x (item (nodes t a)) = 0) \<and>
      (\<forall>b. item (nodes t' b) = (if b = a then x else item (nodes t b))))"
proof -
  obtain n nd hole w U C xs ys where sp: "splay_root t x = Some (n, nd, hole, w)"
    and inv: "work_inv w nd hole U C" and wh: "whole C U = inorder T"
    and fl': "\<forall>a. item (cells w a) = item (nodes t a) \<and> nd_back (cells w a) = nd_back (nodes t a)"
    and ins': "\<forall>new. n \<noteq> 0 \<longrightarrow> whole C (dnode (DIR n) \<langle>\<rangle> new U) = xs @ new # ys"
    and io: "inorder T = (if n = 0 then xs @ nd # ys else xs @ ys)"
    and eq0': "n = 0 \<longrightarrow> (\<exists>l r. U = \<langle>l, nd, r\<rangle>) \<and> cmp_fn x (item (nodes t nd)) = 0"
    and lo': "\<forall>a\<in>set xs. 0 < cmp_fn x (item (nodes t a))"
    and hi': "\<forall>a\<in>set ys. cmp_fn x (item (nodes t a)) < 0"
    by (rule splay_root_spec [OF ok c, of x]) (rule that; assumption)
  note fl = fl' [rule_format] and ins = ins' [rule_format] and eq0 = eq0' [rule_format]
    and lo = lo' [rule_format] and hi = hi' [rule_format]
  have okd: "distinct (inorder T @ F)" "ordered cmp_fn (\<lambda>b. item (nodes t b)) (inorder T)"
    "free_at (nodes t) (freelist t) F" "chunks_ok (chunk t)"
    "\<forall>a\<in>set_tree T \<union> set F. in_chunks (item_size t) (chunk t) a"
    using ok c by (auto simp: tree_ok_def)
  have ord: "ordered cmp_fn (\<lambda>b. item (nodes t b)) (xs @ ys)"
    using okd(2) io by (auto simp: ordered_simps split: if_splits)
  have setT: "set_tree T = (if n = 0 then insert nd (set xs \<union> set ys) else set xs \<union> set ys)"
    using io by (metis set_inorder Un_insert_right list.simps(15) set_append)
  have flt: "map (\<lambda>b. item (nodes t b)) xs = filter (\<lambda>y. cmp_fn y x < 0) (items t T)"
    "map (\<lambda>b. item (nodes t b)) ys = filter (\<lambda>y. cmp_fn x y < 0) (items t T)"
  proof -
    have "\<not> cmp_fn (item (nodes t nd)) x < 0" "\<not> cmp_fn x (item (nodes t nd)) < 0" if "n = 0"
      using eq0 that cmp_swap by auto
    then show "map (\<lambda>b. item (nodes t b)) xs = filter (\<lambda>y. cmp_fn y x < 0) (items t T)"
      "map (\<lambda>b. item (nodes t b)) ys = filter (\<lambda>y. cmp_fn x y < 0) (items t T)"
      using lo hi cmp_swap unfolding items_def io
      by (auto simp: filter_empty_conv o_def intro!: filter_True [symmetric] dest: less_asym)
  qed
  show ?thesis
  proof (cases "n = 0")
    case True
    then obtain l r where U: "U = \<langle>l, nd, r\<rangle>" using eq0 by blast
    let ?T = "\<langle>plug LEFT (C LEFT) l, nd, plug RIGHT (C RIGHT) r\<rangle>"
    let ?h = "assemble nd hole w"
    let ?t = "t\<lparr>root := nd, freelist := freelist t, chunk := chunk t, nodes := ?h(nd := (?h nd)\<lparr>item := x\<rparr>)\<rparr>"
    note asm = assemble_tree [OF inv [unfolded U]]
    have ioT: "inorder ?T = xs @ nd # ys" using inorder_assembled wh io True U by metis
    have fr: "free_at ?h (freelist t) F" using okd(3) free_at_cong [of F ?h "nodes t"] asm(3) fl by auto
    have eq: "sml_tree_insert xm t x = Some (ITEM_OF t nd, ?t)"
      using sp True by (simp add: sml_tree_insert_def Let_def)
    have k: "set xs \<union> set ys \<subseteq> set_tree T" "distinct (xs @ nd # ys @ F)"
      "\<forall>b\<in>insert nd (set xs \<union> set ys \<union> set F). in_chunks (item_size t) (chunk t) b"
      "\<And>b. item (?h b) = item (nodes t b)"
      using okd(1,5) io setT True asm(2) fl by auto
    note fin = root_item_ok [OF ok c asm(1) ioT k(1,2,4) fr okd(4) k(3) ord lo hi refl]
    have nd: "nd \<in> set_tree ?T" by simp
    have sh: "\<exists>a xs ys. ITEM_OF t nd = ITEM_OF t a \<and> inorder ?T = xs @ a # ys \<and>
      (inorder T = xs @ ys \<or> inorder T = xs @ a # ys \<and> cmp_fn x (item (nodes t a)) = 0) \<and>
      (\<forall>b. item (nodes ?t b) = (if b = a then x else item (nodes t b)))"
      by (rule exI [of _ nd], rule exI [of _ xs], rule exI [of _ ys]) (use ioT io True eq0 k(4) in simp)
    show ?thesis
    proof (rule exI [of _ "ITEM_OF t nd"], rule exI [of _ ?t], rule exI [of _ ?T], rule exI [of _ F], intro conjI)
      show "items ?t ?T = filter (\<lambda>y. cmp_fn y x < 0) (items t T) @ x # filter (\<lambda>y. cmp_fn x y < 0) (items t T)"
        using fin(2) flt by simp
      show "sml_tree_insert xm t x = Some (ITEM_OF t nd, ?t)" by (rule eq)
      show "tree_ok ?t ?T F" by (rule fin(1))
      show "\<exists>a\<in>set_tree ?T. ITEM_OF t nd = ITEM_OF t a \<and> item (nodes ?t a) = x" by (rule bexI [OF _ nd]) simp
      show "\<exists>a xs ys. ITEM_OF t nd = ITEM_OF t a \<and> inorder ?T = xs @ a # ys \<and>
        (inorder T = xs @ ys \<or> inorder T = xs @ a # ys \<and> cmp_fn x (item (nodes t a)) = 0) \<and>
        (\<forall>b. item (nodes ?t b) = (if b = a then x else item (nodes t b)))" by (rule sh)
    qed (use c in simp_all)
  next
    case False
    obtain new t2 where al: "node_alloc xm t = (new, t2)" by fastforce
    from node_alloc_fresh [OF ok xm al] obtain F' where
      new: "new \<notin> set_tree T" "new \<noteq> NULL" "new \<notin> set F'" "set F' \<subseteq> set F" "distinct F'"
      and fr2: "free_at (nodes t) (freelist t2) F'" and ch: "chunks_ok (chunk t2)"
      and inc: "\<forall>a\<in>insert new (set_tree T \<union> set F'). in_chunks (item_size t) (chunk t2) a"
      and t2: "t2 = t\<lparr>freelist := freelist t2, chunk := chunk t2\<rparr>" by metis
    let ?h2 = "set_child (set_child (cells w) new (DIR n) NULL) new (OPP (DIR n)) nd"
    let ?w = "w\<lparr>cells := ?h2\<rparr>"
    have "new \<notin> set (whole C U)" using new(1) wh by simp
    from work_inv_new_root [OF inv this new(2) refl, of "DIR n"]
    have inv2: "work_inv ?w new hole (dnode (DIR n) \<langle>\<rangle> new U) C" .
    obtain l r where lr: "dnode (DIR n) \<langle>\<rangle> new U = \<langle>l, new, r\<rangle>" by (cases "DIR n") auto
    let ?T = "\<langle>plug LEFT (C LEFT) l, new, plug RIGHT (C RIGHT) r\<rangle>"
    let ?h = "assemble new hole ?w"
    let ?t = "t\<lparr>root := new, freelist := freelist t2, chunk := chunk t2, nodes := ?h(new := (?h new)\<lparr>item := x\<rparr>)\<rparr>"
    note asm = assemble_tree [OF inv2 [unfolded lr]]
    have ioT: "inorder ?T = xs @ new # ys" using inorder_assembled ins [OF False, of new] lr by metis
    have bk: "nd_back (?h b) = nd_back (nodes t b)" for b using asm(3) fl by simp
    have fr: "free_at ?h (freelist t2) F'" using fr2 free_at_cong [of F' ?h "nodes t"] bk by auto
    have "node_alloc xm (t\<lparr>root := nd, nodes := cells w\<rparr>) = (new, t2\<lparr>root := nd, nodes := cells w\<rparr>)"
      by (rule node_alloc_store [OF _ al]) (simp add: fl)
    then have eq: "sml_tree_insert xm t x = Some (ITEM_OF t new, ?t)"
      using sp False by (subst (asm) t2, subst (asm) t2) (simp add: sml_tree_insert_def Let_def)
    have k: "set xs \<union> set ys \<subseteq> set_tree T" "distinct (xs @ new # ys @ F')"
      "\<forall>b\<in>insert new (set xs \<union> set ys \<union> set F'). in_chunks (item_size t) (chunk t2) b"
      "\<And>b. item (?h b) = item (nodes t b)"
      using okd(1) io setT False asm(2) fl new inc by auto
    note fin = root_item_ok [OF ok c asm(1) ioT k(1,2,4) fr ch k(3) ord lo hi refl]
    have nd: "new \<in> set_tree ?T" by simp
    have sh: "\<exists>a xs ys. ITEM_OF t new = ITEM_OF t a \<and> inorder ?T = xs @ a # ys \<and>
      (inorder T = xs @ ys \<or> inorder T = xs @ a # ys \<and> cmp_fn x (item (nodes t a)) = 0) \<and>
      (\<forall>b. item (nodes ?t b) = (if b = a then x else item (nodes t b)))"
      by (rule exI [of _ new], rule exI [of _ xs], rule exI [of _ ys]) (use ioT io False k(4) in simp)
    show ?thesis
    proof (rule exI [of _ "ITEM_OF t new"], rule exI [of _ ?t], rule exI [of _ ?T], rule exI [of _ F'], intro conjI)
      show "items ?t ?T = filter (\<lambda>y. cmp_fn y x < 0) (items t T) @ x # filter (\<lambda>y. cmp_fn x y < 0) (items t T)"
        using fin(2) flt by simp
      show "sml_tree_insert xm t x = Some (ITEM_OF t new, ?t)" by (rule eq)
      show "tree_ok ?t ?T F'" by (rule fin(1))
      show "\<exists>a\<in>set_tree ?T. ITEM_OF t new = ITEM_OF t a \<and> item (nodes ?t a) = x" by (rule bexI [OF _ nd]) simp
      show "\<exists>a xs ys. ITEM_OF t new = ITEM_OF t a \<and> inorder ?T = xs @ a # ys \<and>
        (inorder T = xs @ ys \<or> inorder T = xs @ a # ys \<and> cmp_fn x (item (nodes t a)) = 0) \<and>
        (\<forall>b. item (nodes ?t b) = (if b = a then x else item (nodes t b)))" by (rule sh)
    qed (use c in simp_all)
  qed
qed

lemma insert_spec:
  assumes "tree_ok t T F" and "cmp t = cmp_fn" and "xmalloc_ok xm"
  shows "\<exists>p t' T' F'. sml_tree_insert xm t x = Some (p, t') \<and> tree_ok t' T' F' \<and> cmp t' = cmp_fn \<and>
    item_size t' = item_size t \<and>
    (\<exists>a\<in>set_tree T'. p = ITEM_OF t a \<and> item (nodes t' a) = x) \<and>
    items t' T' = filter (\<lambda>y. cmp_fn y x < 0) (items t T) @ x # filter (\<lambda>y. cmp_fn x y < 0) (items t T)"
  using insert_shape [OF assms, of x] by metis

lemma join_shape:
  assumes tr: "tree_at h nd \<langle>l, nd, r\<rangle>" and di: "distinct (inorder \<langle>l, nd, r\<rangle>)"
    and ord: "ordered cmp_fn (\<lambda>a. item (h a)) (inorder \<langle>l, nd, r\<rangle>)"
  shows "\<exists>p h' T'. join cmp_fn nd h = Some (p, h') \<and> tree_at h' p T' \<and> inorder T' = inorder l @ inorder r \<and>
    (\<forall>a. item (h' a) = item (h a) \<and> nd_back (h' a) = nd_back (h a)) \<and>
    (\<forall>a. a \<notin> set_tree l \<union> set_tree r \<longrightarrow> h' a = h a) \<and>
    (l \<noteq> \<langle>\<rangle> \<longrightarrow> (\<exists>l'. T' = \<langle>l', p, r\<rangle>))"
proof (cases "l = \<langle>\<rangle>")
  case True
  then show ?thesis using tr by (intro exI [of _ "child (h nd) RIGHT"] exI [of _ h] exI [of _ r])
      (auto simp: join_def)
next
  case False
  let ?L = "child (h nd) LEFT" and ?x = "item (h nd)"
  have L: "tree_at h ?L l" "?L \<noteq> NULL" "distinct (inorder l)" "ordered cmp_fn (\<lambda>a. item (h a)) (inorder l)"
    using tr di ord False tree_at_null by (auto simp: ordered_simps)
  from splay_splayed [OF L, of ?x] obtain n nd' hole w t' C where
    sp: "splay cmp_fn ?x ?L INIT_HOLE (start_work h) = Some (n, nd', hole, w)"
    and st: "splayed cmp_fn ?x h n nd' hole w t' C" and wh: "whole C t' = inorder l" by blast
  obtain l1 r1 where t': "t' = \<langle>l1, nd', r1\<rangle>" using st by (cases t') (auto simp: splayed_def work_inv_def)
  have inv: "work_inv w nd' hole \<langle>l1, nd', r1\<rangle> C" using st t' by (simp add: splayed_def)
  note so = splayed_order [OF st [unfolded t'], of l1 r1]
  have setl: "set_tree l = set (whole C t')" using wh by (metis set_inorder)
  have lt: "0 < cmp_fn ?x (item (h a))" if "a \<in> set_tree l" for a
    using ord that cmp_swap by (auto simp: ordered_simps)
  have nl: "nd' \<in> set_tree l" using setl t' by (simp add: whole_def)
  have ordw: "ordered cmp_fn (\<lambda>a. item (h a)) (whole C \<langle>l1, nd', r1\<rangle>)" using L(4) wh t' by simp
  have "0 < n" using lt [OF nl] st by (simp add: splayed_def)
  then have r1: "r1 = \<langle>\<rangle>" using so(6) [OF ordw refl] by blast
  have "a \<notin> set (cin RIGHT (C RIGHT))" for a
    using so(2) [OF ordw refl, of a] lt [of a] setl by (auto simp: whole_def)
  then have CR: "C RIGHT = []" by (cases "C RIGHT") fastforce+
  have out: "cells w a = h a" if "a \<notin> set_tree l" for a
    using st that setl t' by (auto simp: splayed_def)
  have dj: "set_tree l \<inter> set_tree r = {}" "nd \<notin> set_tree l" using di by auto
  let ?w = "w\<lparr>cells := set_child (cells w) nd' RIGHT (child (cells w nd) RIGHT)\<rparr>"
  have "tree_at (cells ?w) (child (h nd) RIGHT) r = tree_at h (child (h nd) RIGHT) r"
  proof (rule tree_at_cong)
    fix a assume "a \<in> set_tree r"
    then have "a \<notin> set_tree l" "a \<noteq> nd'" using dj nl by auto
    then show "child (cells ?w a) = child (h a)" using out by simp
  qed
  moreover have "tree_at (cells ?w) q l1 = tree_at (cells w) q l1" for q
    by (rule tree_at_cong)
      (use inv whole_distinctD(2) [of C "\<langle>l1, nd', r1\<rangle>"] in \<open>auto simp: work_inv_def intro!: ext\<close>)
  ultimately have tr': "tree_at (cells ?w) nd' \<langle>l1, nd', r\<rangle>"
    using inv tr out [OF dj(2)] by (simp add: work_inv_def)
  have ct: "ctx_at ?w e (C e)" for e
    by (rule ctx_after_tree_change [of C "\<langle>l1, nd', r1\<rangle>" w]) (use inv in \<open>auto simp: work_inv_def\<close>)
  have wh': "whole C \<langle>l1, nd', r\<rangle> = inorder l @ inorder r"
    using wh t' r1 CR by (simp add: whole_def)
  have inv': "work_inv ?w nd' hole \<langle>l1, nd', r\<rangle> C"
    using tr' ct inv wh' di by (simp add: work_inv_def)
  let ?h = "assemble nd' hole ?w"
  let ?T = "\<langle>plug LEFT (C LEFT) l1, nd', plug RIGHT (C RIGHT) r\<rangle>"
  note asm = assemble_tree [OF inv']
  have eq: "join cmp_fn nd h = Some (nd', ?h)" using sp L(2) by (simp add: join_def Let_def)
  have io: "inorder ?T = inorder l @ inorder r" using inorder_assembled wh' by metis
  have it: "item (?h a) = item (h a) \<and> nd_back (?h a) = nd_back (h a)" for a
    using asm(2,3) [of a] st by (simp add: splayed_def)
  have "?h a = h a" if "a \<notin> set_tree l \<union> set_tree r" for a
  proof -
    have "a \<noteq> nd'" using that nl by auto
    then show ?thesis using asm(4) [of a] that out [of a] unfolding wh' by simp
  qed
  then show ?thesis using eq asm(1) io it unfolding CR plug.simps by blast
qed

lemma join_spec:
  assumes "tree_at h nd \<langle>l, nd, r\<rangle>" and "distinct (inorder \<langle>l, nd, r\<rangle>)"
    and "ordered cmp_fn (\<lambda>a. item (h a)) (inorder \<langle>l, nd, r\<rangle>)"
  shows "\<exists>p h' T'. join cmp_fn nd h = Some (p, h') \<and> tree_at h' p T' \<and> inorder T' = inorder l @ inorder r \<and>
    (\<forall>a. item (h' a) = item (h a) \<and> nd_back (h' a) = nd_back (h a)) \<and>
    (\<forall>a. a \<notin> set_tree l \<union> set_tree r \<longrightarrow> h' a = h a)"
  using join_shape [OF assms] by metis


text \<open>Removing the node \<open>nd\<close> from the tree and putting it on the free list.\<close>

lemma reclaim_ok:
  assumes ok: "tree_ok t T F" and c: "cmp t = cmp_fn" and io: "inorder T = xs @ nd # ys"
    and tr: "tree_at h p T'" and io': "inorder T' = xs @ ys"
    and it: "\<And>a. item (h a) = item (nodes t a)" and bk: "\<And>a. nd_back (h a) = nd_back (nodes t a)"
    and t': "t' = (node_reclaim (t\<lparr>nodes := h\<rparr>) nd)\<lparr>root := p\<rparr>"
  shows "tree_ok t' T' (nd # F)" and "items t' T' = map (\<lambda>b. item (nodes t b)) (xs @ ys)"
proof -
  let ?h = "set_back h nd (BackNode (freelist t))"
  have same: "item (?h a) = item (nodes t a)" "child (?h a) = child (h a)"
    "a \<noteq> nd \<Longrightarrow> nd_back (?h a) = nd_back (nodes t a)" for a
    using it bk by (simp_all add: set_back_def)
  have setT: "set_tree T = insert nd (set xs \<union> set ys)" "set_tree T' = set xs \<union> set ys"
    using io io' by (metis set_inorder Un_insert_right list.simps(15) set_append)+
  have nn: "nd \<noteq> NULL"
  proof -
    have "NULL \<notin> set_tree T" using ok tree_at_nonnull by (auto simp: tree_ok_def)
    then show ?thesis using setT by auto
  qed
  have nF: "nd \<notin> set F" "distinct (xs @ nd # ys @ F)" using ok io by (auto simp: tree_ok_def)
  have "tree_at ?h p T'" using tr tree_at_cong [of T' ?h h] same(2) by simp
  moreover have "free_at ?h (freelist t) F = free_at (nodes t) (freelist t) F"
    by (rule free_at_cong) (use same(3) nF in metis)
  then have "free_at ?h (freelist t) F" using ok by (simp add: tree_ok_def)
  moreover have "ordered cmp_fn (\<lambda>a. item (?h a)) (xs @ ys)"
    using ok c io same(1) by (auto simp: tree_ok_def ordered_simps)
  ultimately show "tree_ok t' T' (nd # F)"
    using ok c io' nF nn setT unfolding t' tree_ok_def node_reclaim_def
    by (auto simp: set_back_def)
  show "items t' T' = map (\<lambda>b. item (nodes t b)) (xs @ ys)"
    unfolding items_def io' t' node_reclaim_def using same(1) by simp
qed

lemma delete_join:
  assumes ok: "tree_ok t T F" and c: "cmp t = cmp_fn" and rt: "root t \<noteq> NULL"
    and sp: "splay cmp_fn x (root t) INIT_HOLE (start_work (nodes t)) = Some (n, nd, hole, w)"
    and st: "splayed cmp_fn x (nodes t) n nd hole w \<langle>l, nd, r\<rangle> C"
    and wh: "whole C \<langle>l, nd, r\<rangle> = inorder T"
    and inv: "work_inv w nd hole \<langle>l, nd, r\<rangle> C" and z: "n = 0"
    and xs: "xs = cin LEFT (C LEFT) @ inorder l" and ys: "ys = inorder r @ cin RIGHT (C RIGHT)"
  shows "\<exists>p h T'. sml_tree_delete t x = Some (ITEM_OF t nd, (node_reclaim (t\<lparr>nodes := h\<rparr>) nd)\<lparr>root := p\<rparr>) \<and>
    tree_at h p T' \<and> inorder T' = xs @ ys \<and>
    (\<forall>a. item (h a) = item (nodes t a) \<and> nd_back (h a) = nd_back (nodes t a))"
proof -
  have fl: "item (cells w a) = item (nodes t a)" "nd_back (cells w a) = nd_back (nodes t a)" for a
    using st by (auto simp: splayed_def)
  have diT: "distinct (inorder T)" "ordered cmp_fn (\<lambda>a. item (nodes t a)) (inorder T)"
    using ok c by (auto simp: tree_ok_def)
  have dist: "distinct (whole C \<langle>l, nd, r\<rangle>)" using diT wh by simp
  have ord: "ordered cmp_fn (\<lambda>a. item (cells w a)) (inorder \<langle>l, nd, r\<rangle>)"
    using diT(2) unfolding wh [symmetric] fl by (simp add: whole_def ordered_simps)
  have "tree_at (cells w) nd \<langle>l, nd, r\<rangle>" using inv by (simp add: work_inv_def)
  from join_spec [OF this whole_distinctD(2) [OF dist] ord] obtain p h T1 where
    j: "join cmp_fn nd (cells w) = Some (p, h)" and t1: "tree_at h p T1"
    and io1: "inorder T1 = inorder l @ inorder r"
    and fh: "\<And>a. item (h a) = item (nodes t a) \<and> nd_back (h a) = nd_back (nodes t a)"
    and out: "\<And>a. a \<notin> set_tree l \<union> set_tree r \<Longrightarrow> h a = cells w a"
    unfolding fl by blast
  show ?thesis
  proof (cases "p = NULL")
    case False
    then obtain l2 r2 where T1: "T1 = \<langle>l2, p, r2\<rangle>" using t1 by (cases T1) auto
    have w1: "whole C T1 = xs @ ys" using io1 by (simp add: whole_def xs ys)
    have "ctx_at (w\<lparr>cells := h\<rparr>) e (C e)" for e
      by (rule ctx_after_tree_change [OF dist]) (use inv out in \<open>auto simp: work_inv_def\<close>)
    moreover have "distinct (whole C T1)" using dist unfolding w1 xs ys by (auto simp: whole_def)
    ultimately have inv1: "work_inv (w\<lparr>cells := h\<rparr>) p hole \<langle>l2, p, r2\<rangle> C"
      using inv t1 T1 by (simp add: work_inv_def)
    note asm = assemble_tree [OF inv1]
    have "sml_tree_delete t x = Some (ITEM_OF t nd,
        (node_reclaim (t\<lparr>nodes := assemble p hole (w\<lparr>cells := h\<rparr>)\<rparr>) nd)\<lparr>root := p\<rparr>)"
      using rt sp c z j False by (simp add: sml_tree_delete_def Let_def)
    moreover have "inorder \<langle>plug LEFT (C LEFT) l2, p, plug RIGHT (C RIGHT) r2\<rangle> = xs @ ys"
      using inorder_assembled w1 T1 by metis
    moreover have "\<forall>a. item (assemble p hole (w\<lparr>cells := h\<rparr>) a) = item (nodes t a) \<and>
        nd_back (assemble p hole (w\<lparr>cells := h\<rparr>) a) = nd_back (nodes t a)"
      using asm(2,3) fh by simp
    ultimately show ?thesis using asm(1) by blast
  next
    case True
    then have "T1 = \<langle>\<rangle>" using t1 by (cases T1) auto
    then have e: "l = \<langle>\<rangle>" "r = \<langle>\<rangle>" using io1 by (auto simp: eq_inorder_Nil [symmetric] simp del: eq_inorder_Nil)
    then have h: "h = cells w" using out by auto
    note asm = assemble_tree [OF inv]
    let ?h = "assemble nd hole w" and ?l = "plug LEFT (C LEFT) l" and ?r = "plug RIGHT (C RIGHT) r"
    have io: "inorder \<langle>?l, nd, ?r\<rangle> = inorder T" using inorder_assembled wh by metis
    have "ordered cmp_fn (\<lambda>a. item (?h a)) (inorder \<langle>?l, nd, ?r\<rangle>)"
      unfolding io asm(2) fl by (rule diT(2))
    from join_spec [OF asm(1) _ this] obtain q h' T' where
      "join cmp_fn nd ?h = Some (q, h')" "tree_at h' q T'" "inorder T' = inorder ?l @ inorder ?r"
      "\<forall>a. item (h' a) = item (nodes t a) \<and> nd_back (h' a) = nd_back (nodes t a)"
      unfolding io asm(2,3) fl using diT(1) by blast
    moreover have "inorder ?l @ inorder ?r = xs @ ys" using e by (simp add: inorder_plug xs ys)
    moreover have "(w\<lparr>cells := h\<rparr>) = w" using h by simp
    ultimately show ?thesis
      using rt sp c z j True by (fastforce simp: sml_tree_delete_def Let_def)
  qed
qed

lemma delete_spec:
  assumes ok: "tree_ok t T F" and c: "cmp t = cmp_fn"
  shows "\<exists>p t' T' F'. sml_tree_delete t x = Some (p, t') \<and> tree_ok t' T' F' \<and> cmp t' = cmp_fn \<and>
    item_size t' = item_size t \<and> items t' T' = filter (\<lambda>y. cmp_fn x y \<noteq> 0) (items t T) \<and>
    (if \<exists>y\<in>set (items t T). cmp_fn x y = 0
     then \<exists>a\<in>set_tree T. p = ITEM_OF t a \<and> cmp_fn x (item (nodes t' a)) = 0 \<and> F' = a # F
     else p = NULL \<and> F' = F)"
proof (cases "root t = NULL")
  case True
  then have "T = \<langle>\<rangle>" using ok tree_at_null by (auto simp: tree_ok_def)
  with True show ?thesis using ok c by (auto simp: sml_tree_delete_def items_def)
next
  case False
  then obtain n nd hole w l r C where
    sp: "splay cmp_fn x (root t) INIT_HOLE (start_work (nodes t)) = Some (n, nd, hole, w)"
    and st: "splayed cmp_fn x (nodes t) n nd hole w \<langle>l, nd, r\<rangle> C"
    and wh: "whole C \<langle>l, nd, r\<rangle> = inorder T"
    and ord: "ordered cmp_fn (\<lambda>a. item (nodes t a)) (whole C \<langle>l, nd, r\<rangle>)"
    and inv: "work_inv w nd hole \<langle>l, nd, r\<rangle> C"
    using splay_root_cases [OF ok c] by metis
  let ?T = "\<langle>plug LEFT (C LEFT) l, nd, plug RIGHT (C RIGHT) r\<rangle>"
  note asm = assemble_tree [OF inv] and so = splayed_order [OF st ord refl]
  have fl: "item (cells w a) = item (nodes t a)" "nd_back (cells w a) = nd_back (nodes t a)" for a
    using st by (auto simp: splayed_def)
  have n: "n = cmp_fn x (item (nodes t nd))" using st by (simp add: splayed_def)
  have setT: "set_tree T = set (whole C \<langle>l, nd, r\<rangle>)" using wh by (metis set_inorder)
  show ?thesis
  proof (cases "n = 0")
    case nz: False
    have io: "inorder ?T = inorder T" using inorder_assembled wh by metis
    have none: "cmp_fn x (item (nodes t a)) \<noteq> 0" if "a \<in> set_tree T" for a
      using nz that so [of a] setT by (cases "n < 0") (auto simp: whole_def)
    let ?t = "t\<lparr>root := nd, nodes := assemble nd hole w\<rparr>"
    have t': "tree_ok ?t ?T F" "items ?t ?T = items t T"
      using tree_ok_restructure [OF ok asm(1) io] asm(2,3) fl by auto
    have eq: "sml_tree_delete t x = Some (NULL, ?t)" using False sp c nz by (simp add: sml_tree_delete_def)
    have no: "(\<exists>y\<in>set (items t T). cmp_fn x y = 0) = False" using none by (auto simp: items_def)
    have flt: "filter (\<lambda>y. cmp_fn x y \<noteq> 0) (items t T) = items t T"
      using none by (intro filter_True) (auto simp: items_def)
    show ?thesis unfolding no if_False flt
      by (intro exI conjI, rule eq, rule t'(1)) (use t'(2) c in auto)
  next
    case z: True
    define xs where "xs = cin LEFT (C LEFT) @ inorder l"
    define ys where "ys = inorder r @ cin RIGHT (C RIGHT)"
    have io: "inorder T = xs @ nd # ys" using wh by (simp add: whole_def xs_def ys_def)
    have ne: "cmp_fn x (item (nodes t a)) \<noteq> 0" if "a \<in> set (xs @ ys)" for a
      using that so(1-4) [of a] z by (auto simp: xs_def ys_def)
    have flt: "filter (\<lambda>y. cmp_fn x y \<noteq> 0) (items t T) = map (\<lambda>b. item (nodes t b)) (xs @ ys)"
      using ne n z by (auto simp: items_def io filter_map o_def intro!: filter_True)
    have ex: "(\<exists>y\<in>set (items t T). cmp_fn x y = 0) = True" using n z by (auto simp: items_def io)
    have fin: "\<exists>p h T'. sml_tree_delete t x
          = Some (ITEM_OF t nd, (node_reclaim (t\<lparr>nodes := h\<rparr>) nd)\<lparr>root := p\<rparr>) \<and>
        tree_at h p T' \<and> inorder T' = xs @ ys \<and>
        (\<forall>a. item (h a) = item (nodes t a) \<and> nd_back (h a) = nd_back (nodes t a))"
      by (rule delete_join [OF ok c False sp st wh inv z]) (simp_all add: xs_def ys_def)
    then obtain p h T' where eq: "sml_tree_delete t x
          = Some (ITEM_OF t nd, (node_reclaim (t\<lparr>nodes := h\<rparr>) nd)\<lparr>root := p\<rparr>)"
      and tr: "tree_at h p T'" and io': "inorder T' = xs @ ys"
      and hh: "\<And>a. item (h a) = item (nodes t a)" "\<And>a. nd_back (h a) = nd_back (nodes t a)" by blast
    note rc = reclaim_ok [OF ok c io tr io' hh refl]
    have nd: "nd \<in> set_tree T" using setT by (simp add: whole_def)
    show ?thesis unfolding ex if_True flt
      by (intro exI conjI, rule eq, rule rc(1))
        (use rc(2) c nd n z hh in \<open>auto simp: node_reclaim_def set_back_def intro!: bexI [of _ nd]\<close>)
  qed
qed

end


section \<open>Traversal in order\<close>

fun visit_items :: "('i \<Rightarrow> 's \<Rightarrow> 'i \<times> 's) \<Rightarrow> 'i list \<Rightarrow> 's \<Rightarrow> 'i list \<times> 's" where
  "visit_items visit [] s = ([], s)"
| "visit_items visit (x # xs) s =
     (let (y, s1) = visit x s; (ys, s2) = visit_items visit xs s1 in (y # ys, s2))"

lemma visit_items_append:
  "visit_items visit (xs @ ys) s =
     (let (us, s1) = visit_items visit xs s; (vs, s2) = visit_items visit ys s1 in (us @ vs, s2))"
  by (induction xs arbitrary: s) (auto simp: Let_def split: prod.splits)

lemma set_back_fields [simp]:
  "child (set_back h a b c) = child (h c)" "item (set_back h a b c) = item (h c)"
  "c \<noteq> a \<Longrightarrow> set_back h a b c = h c" "nd_back (set_back h a b a) = b"
  by (simp_all add: set_back_def)

text \<open>From a subtree the loop comes back to the pointer it was entered with.\<close>

lemma each_loop_tree:
  assumes "tree_at h nd T" and "distinct (inorder T)" and "prev \<notin> set_tree T"
  shows "\<exists>h' s'. each_loop visit nd prev h s = each_loop visit NULL prev h' s' \<and>
    (map (\<lambda>a. item (h' a)) (inorder T), s') = visit_items visit (map (\<lambda>a. item (h a)) (inorder T)) s \<and>
    (\<forall>a. child (h' a) = child (h a)) \<and> (\<forall>a. a \<notin> set_tree T \<longrightarrow> h' a = h a)"
  using assms
proof (induction T arbitrary: nd prev h s)
  case Leaf
  then show ?case by auto
next
  case (Node l a r)
  let ?h1 = "set_back h a (BackNode prev)"
  have nd: "nd = a" "a \<noteq> NULL" and d: "a \<notin> set_tree l" "a \<notin> set_tree r" "set_tree l \<inter> set_tree r = {}"
    using Node.prems by auto
  have t1: "tree_at ?h1 (child (h a) LEFT) l" "tree_at ?h1 (child (h a) RIGHT) r"
    using Node.prems tree_at_cong [of l ?h1 h] tree_at_cong [of r ?h1 h] by auto
  from Node.IH(1) [OF t1(1), of a s] Node.prems obtain h2 s2 where
    2: "each_loop visit (child (h a) LEFT) a ?h1 s = each_loop visit NULL a h2 s2"
    and v2: "(map (\<lambda>a. item (h2 a)) (inorder l), s2) = visit_items visit (map (\<lambda>a. item (h a)) (inorder l)) s"
    and c2: "\<And>a. child (h2 a) = child (h a)" and o2: "\<And>b. b \<notin> set_tree l \<Longrightarrow> h2 b = ?h1 b"
    by auto
  obtain y s3 where y: "visit (item (h2 a)) s2 = (y, s3)" by fastforce
  let ?h3 = "h2(a := (h2 a)\<lparr>item := y\<rparr>)"
  have t3: "tree_at ?h3 (child (h a) RIGHT) r"
    using t1(2) tree_at_cong [of r ?h3 ?h1] c2 by auto
  have pr: "distinct (inorder r)" "prev \<notin> set_tree r" using Node.prems by auto
  from Node.IH(2) [OF t3 pr, of s3] obtain h4 s4 where
    4: "each_loop visit (child (h a) RIGHT) prev ?h3 s3 = each_loop visit NULL prev h4 s4"
    and v4: "(map (\<lambda>a. item (h4 a)) (inorder r), s4) = visit_items visit (map (\<lambda>a. item (?h3 a)) (inorder r)) s3"
    and c4: "\<And>a. child (h4 a) = child (?h3 a)" and o4: "\<And>b. b \<notin> set_tree r \<Longrightarrow> h4 b = ?h3 b"
    by blast
  have h2a: "h2 a = ?h1 a" by (rule o2 [OF d(1)])
  have run: "each_loop visit nd prev h s = each_loop visit NULL prev h4 s4"
    using nd 2 4 y h2a
    by (subst each_loop.simps, simp, subst each_loop.simps) (simp add: Let_def c2)
  have l4: "map (\<lambda>a. item (h4 a)) (inorder l) = map (\<lambda>a. item (h2 a)) (inorder l)"
    by (rule map_cong) (use o4 d in \<open>auto simp: disjoint_iff\<close>)
  have r3: "map (\<lambda>a. item (?h3 a)) (inorder r) = map (\<lambda>a. item (h a)) (inorder r)"
  proof (rule map_cong [OF refl])
    fix b assume "b \<in> set (inorder r)"
    then have "b \<noteq> a" "b \<notin> set_tree l" using d by auto
    then show "item (?h3 b) = item (h b)" using o2 by simp
  qed
  have a4: "item (h4 a) = y" using o4 [OF d(2)] by simp
  have "(map (\<lambda>a. item (h4 a)) (inorder \<langle>l, a, r\<rangle>), s4)
      = visit_items visit (map (\<lambda>a. item (h a)) (inorder \<langle>l, a, r\<rangle>)) s"
    using y by (simp add: visit_items_append Let_def v2 [symmetric] v4 [symmetric, unfolded r3] h2a l4 a4
        del: map_eq_conv)
  moreover have "child (h4 b) = child (h b)" for b using c4 c2 by auto
  moreover have "h4 b = h b" if "b \<notin> set_tree \<langle>l, a, r\<rangle>" for b
    using that o4 [of b] o2 [of b] by auto
  ultimately show ?case using run by blast
qed

lemma each_spec:
  assumes ok: "tree_ok t T F"
  shows "\<exists>t' s'. sml_tree_each visit t s = Some (t', s') \<and>
    (items t' T, s') = visit_items visit (items t T) s \<and> tree_at (nodes t') (root t') T \<and>
    (\<forall>a. a \<notin> set_tree T \<longrightarrow> nodes t' a = nodes t a) \<and> t' = t\<lparr>nodes := nodes t'\<rparr>"
proof -
  have tr: "tree_at (nodes t) (root t) T" and d: "distinct (inorder T)" using ok by (auto simp: tree_ok_def)
  from each_loop_tree [OF tr d tree_at_nonnull [OF tr], of visit s] obtain h' s' where
    1: "each_loop visit (root t) NULL (nodes t) s = each_loop visit NULL NULL h' s'"
    and v: "(map (\<lambda>a. item (h' a)) (inorder T), s') = visit_items visit (map (\<lambda>a. item (nodes t a)) (inorder T)) s"
    and c: "\<And>a. child (h' a) = child (nodes t a)" and o: "\<And>a. a \<notin> set_tree T \<Longrightarrow> h' a = nodes t a"
    by blast
  have "each_loop visit NULL NULL h' s' = Some (h', s')" by (subst each_loop.simps) simp
  then have "sml_tree_each visit t s = Some (t\<lparr>nodes := h'\<rparr>, s')" using 1 by (simp add: sml_tree_each_def)
  moreover have "tree_at h' (root t) T" using tr tree_at_cong [of T h' "nodes t"] c by simp
  ultimately show ?thesis using v o by (auto simp: items_def)
qed

section \<open>Properties\<close>

text \<open>A working allocator and a tree of one node, for the witnesses.\<close>

definition sample_xmalloc :: "chunk list \<Rightarrow> addr" where
  "sample_xmalloc cs = Suc (sum_list (map (\<lambda>c. chunk_begin c + CHUNK_SIZE) cs))"

lemma sample_xmalloc_ok: "xmalloc_ok sample_xmalloc"
proof -
  have "chunk_begin c + CHUNK_SIZE \<le> sum_list (map (\<lambda>c. chunk_begin c + CHUNK_SIZE) cs)"
    if "c \<in> set cs" for c cs using that by (auto intro: member_le_sum_list)
  then show ?thesis by (fastforce simp: xmalloc_ok_def sample_xmalloc_def chunks_apart_def)
qed

lemma sizeof_node_bound: "isz \<in> {8, 16, 24} \<Longrightarrow> SIZEOF_NODE isz \<le> CHUNK_SIZE"
  by (auto simp: SIZEOF_NODE_def NODE_SIZE_def NODE_OFFSET_def CEILING_def CHUNK_SIZE_def)

lemma tree_new_ok:
  "0 < isz \<Longrightarrow> SIZEOF_NODE isz \<le> CHUNK_SIZE \<Longrightarrow> tree_ok (sml_tree_new cmp_fn isz mem) \<langle>\<rangle> []"
  by (simp add: tree_ok_def sml_tree_new_def ordered_def chunks_ok_def)

definition sample_tree :: "int sml_tree" where
  "sample_tree =
     \<lparr>cmp = (\<lambda>x y. x - y), item_size = 8, alloc_size = SIZEOF_NODE 8, root = 24,
      chunk = [\<lparr>chunk_begin = 16, chunk_free = 48\<rparr>], freelist = NULL,
      nodes = (\<lambda>a. \<lparr>child = (\<lambda>d. NULL), nd_back = BackNode NULL, item = 5\<rparr>)\<rparr>"

lemma sample_tree_ok: "tree_ok sample_tree \<langle>\<langle>\<rangle>, 24, \<langle>\<rangle>\<rangle> []"
  using sizeof_node_bound [of 8]
  by (simp add: tree_ok_def sample_tree_def ordered_def chunks_ok_def in_chunks_def NODE_OFFSET_def
      CEILING_def CHUNK_SIZE_def)

lemma sample_tree_cmp: "cmp sample_tree = (\<lambda>x y. x - y)"
  by (simp add: sample_tree_def)

lemma sample_tree_items: "items sample_tree \<langle>\<langle>\<rangle>, 24, \<langle>\<rangle>\<rangle> = [5]"
  by (simp add: items_def sample_tree_def)

interpretation int_order: item_order "\<lambda>x y. x - y :: int"
  by unfold_locales auto

text \<open>
  \<open>sml_tree_find\<close> returns, keeps the sequence of items and the free list, and answers null
  exactly when no item compares equal to the key; otherwise it answers the address of the
  item of a node that does.
\<close>

lemma tree_find_correct:
  assumes "item_order (cmp t)" and "tree_ok t T F"
  shows "\<exists>p t' T'. sml_tree_find t x = Some (p, t') \<and> tree_ok t' T' F \<and> items t' T' = items t T \<and>
    (if \<exists>y\<in>set (items t T). cmp t x y = 0
     then p \<noteq> NULL \<and> (\<exists>a\<in>set_tree T. p = ITEM_OF t a \<and> cmp t x (item (nodes t a)) = 0)
     else p = NULL)"
proof -
  from item_order.find_spec [OF assms refl, of x] obtain p t' T' where
    "sml_tree_find t x = Some (p, t')" "tree_ok t' T' F" "items t' T' = items t T"
    "if \<exists>y\<in>set (items t T). cmp t x y = 0
     then \<exists>a\<in>set_tree T. p = ITEM_OF t a \<and> cmp t x (item (nodes t a)) = 0 else p = NULL" by blast
  then show ?thesis using item_of_pos(1) [OF assms(2)] by (auto split: if_splits)
qed

lemma sample_tree_order: "item_order (cmp sample_tree)"
  using int_order.item_order_axioms by (simp add: sample_tree_def)

text \<open>
  C12: \<open>sml_tree_insert\<close> returns and puts the item between the smaller and the larger items, in
  place of an item that compares equal; all other items stay in order.  The answer is the
  address of the node's item, which now holds the new item.
\<close>

theorem tree_insert_correct:
  assumes "item_order (cmp t)" and "tree_ok t T F" and "xmalloc_ok xmalloc"
  shows "\<exists>p t' T' F'. sml_tree_insert xmalloc t x = Some (p, t') \<and> tree_ok t' T' F' \<and>
    (\<exists>a\<in>set_tree T'. p = ITEM_OF t a \<and> item (nodes t' a) = x) \<and>
    items t' T' = filter (\<lambda>y. cmp t y x < 0) (items t T) @ x # filter (\<lambda>y. cmp t x y < 0) (items t T)"
  using item_order.insert_spec [OF assms(1,2) refl assms(3), of x] by blast

theorem tree_insert_correct_witness:
  "\<exists>p t' T' F'. sml_tree_insert sample_xmalloc sample_tree 3 = Some (p, t') \<and> tree_ok t' T' F' \<and>
     items t' T' = [3, 5]"
  using tree_insert_correct [OF sample_tree_order sample_tree_ok sample_xmalloc_ok, of 3]
  unfolding sample_tree_items sample_tree_cmp by auto

text \<open>
  C13: \<open>sml_tree_delete\<close> returns and removes exactly the item that compares equal to the key.  When
  there is one, the answer is the address of its node, which is put in front of the free list
  with the item still readable; otherwise the answer is null.
\<close>

theorem tree_delete_correct:
  assumes "item_order (cmp t)" and "tree_ok t T F"
  shows "\<exists>p t' T' F'. sml_tree_delete t x = Some (p, t') \<and> tree_ok t' T' F' \<and>
    items t' T' = filter (\<lambda>y. cmp t x y \<noteq> 0) (items t T) \<and>
    (if \<exists>y\<in>set (items t T). cmp t x y = 0
     then \<exists>a\<in>set_tree T. p = ITEM_OF t a \<and> cmp t x (item (nodes t' a)) = 0 \<and> F' = a # F
     else p = NULL \<and> F' = F)"
  using item_order.delete_spec [OF assms refl, of x] by blast

theorem tree_delete_correct_witness:
  "\<exists>p t' T' F'. sml_tree_delete sample_tree 5 = Some (p, t') \<and> tree_ok t' T' F' \<and> items t' T' = [] \<and> F' = [24]"
  using tree_delete_correct [OF sample_tree_order sample_tree_ok, of 5]
  unfolding sample_tree_items sample_tree_cmp by auto

text \<open>
  \<open>sml_tree_each\<close> returns, calls the function on every item once, in increasing order, and
  leaves the items it stored back in the same nodes of the same tree.
\<close>

lemma tree_each_in_order:
  assumes "tree_ok t T F"
  shows "\<exists>t' s'. sml_tree_each visit t s = Some (t', s') \<and>
    (items t' T, s') = visit_items visit (items t T) s \<and> tree_at (nodes t') (root t') T"
  using each_spec [OF assms, of visit s] by blast

end
