(* ===== verification/Splay_Walk.thy ===== *)
theory Splay_Walk
  imports Splay
begin

text \<open>
  The traversals of \<open>splay.c\<close> that change the tree: \<open>sml_tree_reject\<close>, which removes items while it
  walks through the tree by slots, and \<open>sml_tree_rebuild\<close>, which inserts all nodes again.
\<close>

section \<open>Frames of a walk\<close>

text \<open>
  What a walk below the slot \<open>sl\<close> leaves alone: the items, and outside of the nodes \<open>X\<close> everything but
  the pointer in the slot.
\<close>

definition walk_frame :: "slot \<Rightarrow> addr set \<Rightarrow> 'i sml_tree \<Rightarrow> 'i sml_tree \<Rightarrow> bool" where
  "walk_frame sl X t t' \<longleftrightarrow>
     (\<forall>a. item (nodes t' a) = item (nodes t a)) \<and>
     (\<forall>a. a \<notin> X \<longrightarrow> nd_back (nodes t' a) = nd_back (nodes t a)) \<and>
     (\<forall>a d. a \<notin> X \<longrightarrow> sl \<noteq> Child a d \<longrightarrow> child (nodes t' a) d = child (nodes t a) d) \<and>
     (sl \<noteq> Root \<longrightarrow> root t' = root t) \<and>
     cmp t' = cmp t \<and> item_size t' = item_size t \<and> alloc_size t' = alloc_size t \<and> chunk t' = chunk t"

fun slot_node :: "slot \<Rightarrow> addr set" where
  "slot_node (Child a d) = {a}"
| "slot_node s = {}"

fun real_slot :: "slot \<Rightarrow> bool" where
  "real_slot (Result d) = False"
| "real_slot s = True"

lemma walk_frame_item: "walk_frame sl X t t' \<Longrightarrow> item (nodes t' a) = item (nodes t a)"
  by (simp add: walk_frame_def)

lemma walk_frame_back: "walk_frame sl X t t' \<Longrightarrow> a \<notin> X \<Longrightarrow> nd_back (nodes t' a) = nd_back (nodes t a)"
  by (simp add: walk_frame_def)

lemma walk_frame_child:
  "walk_frame sl X t t' \<Longrightarrow> a \<notin> X \<Longrightarrow> sl \<noteq> Child a d \<Longrightarrow> child (nodes t' a) d = child (nodes t a) d"
  by (simp add: walk_frame_def)

lemma walk_frame_cmp: "walk_frame sl X t t' \<Longrightarrow> cmp t' = cmp t"
  by (simp add: walk_frame_def)

lemma walk_frame_slot:
  assumes "walk_frame sl X t t'" and "sl' \<noteq> sl" and "slot_node sl' \<inter> X = {}" and "real_slot sl" "real_slot sl'"
  shows "tree_slot t' sl' = tree_slot t sl'"
  using assms by (cases sl') (auto simp: walk_frame_def)

lemma walk_frame_tree:
  assumes "walk_frame sl X t t'" and "set_tree V \<inter> X = {}" and "set_tree V \<inter> slot_node sl = {}"
  shows "tree_at (nodes t') p V = tree_at (nodes t) p V"
proof (rule tree_at_cong, rule ext)
  fix a d assume "a \<in> set_tree V"
  then have "a \<notin> X" "sl \<noteq> Child a d" using assms(2,3) by auto
  then show "child (nodes t' a) d = child (nodes t a) d" using assms(1) by (rule walk_frame_child [rotated])
qed

lemma walk_frame_free:
  assumes "walk_frame sl X t t'" and "set F \<inter> X = {}"
  shows "free_at (nodes t') p F = free_at (nodes t) p F"
  by (rule free_at_cong) (use walk_frame_back [OF assms(1)] assms(2) in blast)

lemma walk_frame_refl: "walk_frame sl X t t"
  by (simp add: walk_frame_def)

lemma walk_frame_trans:
  assumes 1: "walk_frame sl1 X1 t t1" and 2: "walk_frame sl2 X2 t1 t2"
    and "X1 \<subseteq> X" "X2 \<subseteq> X" and "sl1 = sl \<or> slot_node sl1 \<subseteq> X \<and> sl1 \<noteq> Root" and "sl2 = sl \<or> slot_node sl2 \<subseteq> X \<and> sl2 \<noteq> Root"
  shows "walk_frame sl X t t2"
proof -
  have "child (nodes t2 a) d = child (nodes t a) d" if "a \<notin> X" "sl \<noteq> Child a d" for a d
  proof -
    have "sl1 \<noteq> Child a d" "sl2 \<noteq> Child a d" "a \<notin> X1" "a \<notin> X2" using that assms(3-6) by auto
    then show ?thesis using walk_frame_child [OF 1] walk_frame_child [OF 2] by metis
  qed
  then show ?thesis
    using 1 2 assms(3-6) unfolding walk_frame_def by (metis subsetD)
qed


section \<open>Removal of items\<close>

text \<open>The items kept and rejected by a sequence of calls, in order.\<close>

fun reject_items :: "('i \<Rightarrow> 's \<Rightarrow> bool \<times> 's) \<Rightarrow> ('a \<Rightarrow> 'i) \<Rightarrow> 'a list \<Rightarrow> 's \<Rightarrow> 'a list \<times> 'a list \<times> 's" where
  "reject_items rj f [] s = ([], [], s)"
| "reject_items rj f (a # as) s =
     (let (r, s1) = rj (f a) s; (ks, rs, s2) = reject_items rj f as s1
      in (if r then (ks, a # rs, s2) else (a # ks, rs, s2)))"

lemma reject_items_append:
  "reject_items rj f (xs @ ys) s =
     (let (k1, r1, s1) = reject_items rj f xs s; (k2, r2, s2) = reject_items rj f ys s1 in (k1 @ k2, r1 @ r2, s2))"
  by (induction xs arbitrary: s) (auto simp: Let_def split: prod.splits)

lemma reject_items_sets: "reject_items rj f xs s = (ks, rs, s') \<Longrightarrow> set ks \<union> set rs = set xs"
proof (induction xs arbitrary: s ks rs)
  case (Cons a xs)
  obtain r s1 where 1: "rj (f a) s = (r, s1)" by fastforce
  obtain k2 r2 s2 where 2: "reject_items rj f xs s1 = (k2, r2, s2)" by (cases "reject_items rj f xs s1") auto
  then have "s2 = s'" using Cons.prems 1 by (cases r) simp_all
  then have "set k2 \<union> set r2 = set xs" using Cons.IH 2 by blast
  moreover have "set ks \<union> set rs = insert a (set k2 \<union> set r2)" using Cons.prems 1 2 by (cases r) auto
  ultimately show ?case by simp
qed simp

lemma reject_items_cong:
  "(\<And>a. a \<in> set xs \<Longrightarrow> f a = g a) \<Longrightarrow> reject_items rj f xs s = reject_items rj g xs s"
  by (induction xs arbitrary: s) (simp_all add: Let_def case_prod_beta)

lemma reject_items_map:
  "reject_items rj f xs s = (ks, rs, s') \<Longrightarrow> reject_items rj id (map f xs) s = (map f ks, map f rs, s')"
  by (induction xs arbitrary: s ks rs) (auto simp: Let_def split: prod.splits if_splits)

text \<open>A subtree that hangs in a slot, with the free list.\<close>

definition walkable :: "slot \<Rightarrow> 'i sml_tree \<Rightarrow> addr tree \<Rightarrow> addr list \<Rightarrow> bool" where
  "walkable sl t U F \<longleftrightarrow> real_slot sl \<and> slot_node sl \<inter> set_tree U = {} \<and> tree_at (nodes t) (tree_slot t sl) U \<and>
     distinct (inorder U @ F) \<and> ordered (cmp t) (\<lambda>a. item (nodes t a)) (inorder U) \<and> free_at (nodes t) (freelist t) F"

lemma dcat_set [simp]: "set (dcat d xs ys) = set xs \<union> set ys"
  by (cases d) auto

lemma ordered_dnode:
  "ordered c f (inorder (dnode d u a v)) \<longleftrightarrow>
     ordered c f (inorder u) \<and> ordered c f (inorder v) \<and>
     (\<forall>x\<in>set_tree u. \<forall>y\<in>insert a (set_tree v). (case d of LEFT \<Rightarrow> c (f x) (f y) < 0 | RIGHT \<Rightarrow> c (f y) (f x) < 0)) \<and>
     (\<forall>y\<in>set_tree v. (case d of LEFT \<Rightarrow> c (f a) (f y) < 0 | RIGHT \<Rightarrow> c (f y) (f a) < 0))"
  by (cases d) (auto simp: ordered_simps)

lemma distinct_dnode:
  "distinct (inorder (dnode d u a v) @ F) \<longleftrightarrow>
     distinct (inorder u @ F) \<and> distinct (inorder v) \<and> a \<notin> set_tree u \<union> set_tree v \<union> set F \<and>
     set_tree v \<inter> (set_tree u \<union> set F) = {}"
  by (cases d) auto

lemma walkable_sub:
  assumes "walkable sl t (dnode d u a v) F"
  shows "walkable (Child a d) t u F" and "tree_slot t sl = a" and "a \<noteq> NULL" and "sl \<noteq> Child a e"
proof -
  show "walkable (Child a d) t u F" and "tree_slot t sl = a" and "a \<noteq> NULL"
    using assms by (auto simp: walkable_def distinct_dnode ordered_dnode simp del: distinct_append inorder_dnode)
  show "sl \<noteq> Child a e" using assms by (cases sl) (auto simp: walkable_def)
qed

lemma walkable_back:
  assumes "walkable sl t U F" and "a \<in> set_tree U" and t': "t' = t\<lparr>nodes := set_back (nodes t) a b\<rparr>"
  shows "walkable sl t' U F" and "walk_frame sl (set_tree U) t t'"
proof -
  have "tree_slot t' sl = tree_slot t sl" unfolding t' by (cases sl) auto
  moreover have "tree_at (nodes t') p V = tree_at (nodes t) p V" for p V
    unfolding t' by (rule tree_at_cong) simp
  moreover have "free_at (nodes t') p F = free_at (nodes t) p F" for p
    unfolding t' by (rule free_at_cong) (use assms(1,2) in \<open>auto simp: walkable_def set_back_def\<close>)
  ultimately show "walkable sl t' U F" using assms(1) unfolding walkable_def t' by simp
  show "walk_frame sl (set_tree U) t t'" unfolding walk_frame_def t' using assms(2) by (auto simp: set_back_def)
qed

text \<open>After a walk through one of the subtrees of a node.\<close>

lemma walkable_after_sub:
  assumes w: "walkable sl t (dnode d u a v) F" and w': "walkable (Child a d) t' u' F'"
    and fr: "walk_frame (Child a d) (set_tree u) t t'"
    and sub: "set_tree u' \<subseteq> set_tree u" "set F' \<subseteq> set_tree u \<union> set F"
  shows "walkable sl t' (dnode d u' a v) F'"
proof -
  have sl: "real_slot sl" "slot_node sl \<inter> insert a (set_tree u \<union> set_tree v) = {}"
    and di: "a \<notin> set_tree u \<union> set_tree v \<union> set F" "set_tree v \<inter> (set_tree u \<union> set F) = {}" "distinct (inorder v)"
    and od: "ordered (cmp t) (\<lambda>a. item (nodes t a)) (inorder (dnode d u a v))"
    and tr: "tree_at (nodes t) (child (nodes t a) (OPP d)) v"
    using w by (auto simp: walkable_def distinct_dnode simp del: distinct_append inorder_dnode)
  have "tree_slot t' sl = tree_slot t sl"
    by (rule walk_frame_slot [OF fr]) (use sl walkable_sub(4) [OF w] in auto)
  then have s': "tree_slot t' sl = a" using walkable_sub(2) [OF w] by simp
  have "child (nodes t' a) (OPP d) = child (nodes t a) (OPP d)"
  proof (rule walk_frame_child [OF fr])
    show "a \<notin> set_tree u" using di by auto
    show "Child a d \<noteq> Child a (OPP d)" by (cases d) auto
  qed
  moreover have "tree_at (nodes t') p v = tree_at (nodes t) p v" for p
    by (rule walk_frame_tree [OF fr]) (use di in auto)
  ultimately have "tree_at (nodes t') (tree_slot t' sl) (dnode d u' a v)"
    using tr w' s' walkable_sub(3) [OF w] by (simp add: walkable_def)
  moreover have "distinct (inorder (dnode d u' a v) @ F')"
    using w' di sub by (auto simp: walkable_def distinct_dnode simp del: distinct_append inorder_dnode)
  moreover have "ordered (cmp t') (\<lambda>a. item (nodes t' a)) (inorder (dnode d u' a v))"
    using od w' sub unfolding walkable_def ordered_dnode walk_frame_cmp [OF fr] walk_frame_item [OF fr] by blast
  ultimately show ?thesis using sl sub w' by (auto simp: walkable_def simp del: distinct_append inorder_dnode)
qed

text \<open>A node is taken out of the tree in a slot and put on the free list.\<close>

lemma set_tree_slot_fields [simp]:
  "cmp (set_tree_slot t sl p) = cmp t" "freelist (set_tree_slot t sl p) = freelist t"
  "item_size (set_tree_slot t sl p) = item_size t" "alloc_size (set_tree_slot t sl p) = alloc_size t"
  "chunk (set_tree_slot t sl p) = chunk t" "item (nodes (set_tree_slot t sl p) b) = item (nodes t b)"
  "nd_back (nodes (set_tree_slot t sl p) b) = nd_back (nodes t b)"
  "real_slot sl \<Longrightarrow> tree_slot (set_tree_slot t sl p) sl = p"
  by (cases sl; simp)+

lemma walkable_reclaim:
  assumes w: "walkable sl t U F" and a: "a \<in> set_tree U" and io: "inorder U = xs @ a # ys"
    and tr: "tree_at h p V" and io': "inorder V = xs @ ys"
    and it: "\<And>b. item (h b) = item (nodes t b)" and bk: "\<And>b. nd_back (h b) = nd_back (nodes (node_reclaim t a) b)"
    and out: "\<And>b. b \<notin> set_tree U \<Longrightarrow> h b = nodes t b"
    and t': "t' = set_tree_slot (node_reclaim t a\<lparr>nodes := h\<rparr>) sl p"
  shows "walkable sl t' V (a # F)" and "walk_frame sl (set_tree U) t t'"
proof -
  have setU: "set_tree U = insert a (set_tree V)" and aV: "a \<notin> set_tree V" "a \<notin> set F" "distinct (xs @ ys @ F)"
    using w io io' by (auto simp: walkable_def simp flip: set_inorder_tree)
  have nd: "child (nodes t' b) d = child (h b) d" if "sl \<noteq> Child b d" for b d
    using that unfolding t' by (cases sl) auto
  have slV: "slot_node sl \<inter> set_tree V = {}" "real_slot sl" using w setU by (auto simp: walkable_def)
  have "tree_at (nodes t') p V = tree_at h p V"
  proof (rule tree_at_cong, rule ext)
    fix b d assume "b \<in> set_tree V"
    then have "sl \<noteq> Child b d" using slV by auto
    then show "child (nodes t' b) d = child (h b) d" by (rule nd)
  qed
  moreover have "free_at (nodes t') (freelist t) F = free_at (nodes t) (freelist t) F"
    by (rule free_at_cong) (use aV bk in \<open>auto simp: t' node_reclaim_def set_back_def\<close>)
  moreover have "nd_back (nodes t' a) = BackNode (freelist t)" "freelist t' = a"
    using bk [of a] by (simp_all add: t' node_reclaim_def set_back_def)
  moreover have "a \<noteq> NULL" using w a tree_at_nonnull by (fastforce simp: walkable_def)
  moreover have "cmp t' = cmp t" "item (nodes t' b) = item (nodes t b)" "tree_slot t' sl = p" for b
    using slV it by (simp_all add: t' node_reclaim_def)
  moreover have "ordered (cmp t) (\<lambda>a. item (nodes t a)) (inorder V)"
    using w io io' by (auto simp: walkable_def ordered_simps)
  ultimately show "walkable sl t' V (a # F)"
    using w tr aV io' slV by (simp add: walkable_def flip: set_inorder_tree)
  have "nd_back (nodes t' b) = nd_back (nodes t b)" if "b \<notin> set_tree U" for b
    using that setU bk [of b] by (auto simp: t' node_reclaim_def set_back_def)
  moreover have "sl \<noteq> Root \<Longrightarrow> real_slot sl \<Longrightarrow> root t' = root t" by (cases sl) (auto simp: t' node_reclaim_def)
  ultimately show "walk_frame sl (set_tree U) t t'"
    using it out nd slV(2) unfolding walk_frame_def by (simp add: t' node_reclaim_def)
qed

context item_order
begin

lemma reject_step:
  assumes w: "walkable sl t \<langle>l, a, r\<rangle> F" and c: "cmp t = cmp_fn"
    and null: "tree_slot t sl0 = NULL" and bk: "nd_back (nodes t a) = slot_back prev"
    and rj: "rj (item (nodes t a)) s = (b, s1)"
  shows "\<exists>sl1 t1 V. reject_loop rj sl0 (Some sl) t s = reject_loop rj sl1 prev t1 s1 \<and>
    walkable sl t1 V (if b then a # F else F) \<and> inorder V = (if b then inorder l @ inorder r else inorder \<langle>l, a, r\<rangle>) \<and>
    walk_frame sl (set_tree \<langle>l, a, r\<rangle>) t t1 \<and>
    (V = r \<and> sl1 = sl \<and> b \<and> l = \<langle>\<rangle> \<or> (\<exists>q l'. V = \<langle>l', q, r\<rangle> \<and> sl1 = Child q RIGHT))"
proof -
  have sa: "tree_slot t sl = a" and tr: "tree_at (nodes t) a \<langle>l, a, r\<rangle>"
    and di: "distinct (inorder \<langle>l, a, r\<rangle>)" and od: "ordered cmp_fn (\<lambda>a. item (nodes t a)) (inorder \<langle>l, a, r\<rangle>)"
    using w c by (auto simp: walkable_def)
  have bs: "back_slot (slot_back prev) = prev" by (cases prev) (auto simp: slot_back_def)
  show ?thesis
  proof (cases b)
    case False
    then have "reject_loop rj sl0 (Some sl) t s = reject_loop rj (Child a RIGHT) prev t s1"
      using null bk rj sa bs by (subst reject_loop.simps) (simp add: Let_def)
    then show ?thesis using False w by (intro exI [of _ "Child a RIGHT"] exI [of _ t] exI [of _ "\<langle>l, a, r\<rangle>"]) (auto simp: walk_frame_refl)
  next
    case True
    let ?t = "node_reclaim t a"
    have ch: "child (nodes ?t b) d = child (nodes t b) d" "item (nodes ?t b) = item (nodes t b)" for b d
      by (simp_all add: node_reclaim_def)
    have tr': "tree_at (nodes ?t) p V = tree_at (nodes t) p V" for p V
      by (rule tree_at_cong) (simp add: node_reclaim_def)
    have io: "inorder \<langle>l, a, r\<rangle> = inorder l @ a # inorder r" by simp
    show ?thesis
    proof (cases "l = \<langle>\<rangle>")
      case leaf: True
      let ?t1 = "set_tree_slot ?t sl (child (nodes t a) RIGHT)"
      have "reject_loop rj sl0 (Some sl) t s = reject_loop rj sl prev ?t1 s1"
        using null bk rj sa bs True leaf tr by (subst reject_loop.simps) (simp add: Let_def ch)
      moreover note walkable_reclaim [OF w _ io, of "nodes ?t" "child (nodes t a) RIGHT" r ?t1]
      moreover have "nodes ?t b = nodes t b" if "b \<notin> set_tree \<langle>l, a, r\<rangle>" for b
        using that by (simp add: node_reclaim_def)
      ultimately show ?thesis using True leaf tr by (intro exI [of _ sl] exI [of _ ?t1] exI [of _ r]) (simp add: tr' ch)
    next
      case False
      from join_shape [of "nodes ?t" a l r] tr di od obtain q h l' where
        j: "join cmp_fn a (nodes ?t) = Some (q, h)" and q: "tree_at h q \<langle>l', q, r\<rangle>"
        and qi: "inorder \<langle>l', q, r\<rangle> = inorder l @ inorder r"
        and f: "\<And>b. item (h b) = item (nodes ?t b) \<and> nd_back (h b) = nd_back (nodes ?t b)"
        and o: "\<And>b. b \<notin> set_tree l \<union> set_tree r \<Longrightarrow> h b = nodes ?t b"
        unfolding tr' ch using False by blast
      let ?t1 = "set_tree_slot (?t\<lparr>nodes := h\<rparr>) sl q"
      have "cmp ?t = cmp_fn" using c by (simp add: node_reclaim_def)
      then have "reject_loop rj sl0 (Some sl) t s = reject_loop rj (Child q RIGHT) prev ?t1 s1"
        using null bk rj sa bs True False tr j tree_at_null [of "nodes t" "child (nodes t a) LEFT" l]
        by (subst reject_loop.simps) (simp add: Let_def ch)
      moreover have "walkable sl ?t1 \<langle>l', q, r\<rangle> (a # F)" "walk_frame sl (set_tree \<langle>l, a, r\<rangle>) t ?t1"
        by (rule walkable_reclaim [OF w _ io q qi]; use f o in \<open>simp add: node_reclaim_def\<close>)+
      ultimately show ?thesis using True qi
        by (intro exI [of _ "Child q RIGHT"] exI [of _ ?t1] exI [of _ "\<langle>l', q, r\<rangle>"]) auto
    qed
  qed
qed

lemma reject_walk:
  assumes "walkable sl t U F" and "cmp t = cmp_fn"
    and "reject_items rj (\<lambda>a. item (nodes t a)) (inorder U) s = (ks, rs, s')"
  shows "\<exists>sl' t' U'. reject_loop rj sl prev t s = reject_loop rj sl' prev t' s' \<and> tree_slot t' sl' = NULL \<and>
    walkable sl t' U' (rev rs @ F) \<and> inorder U' = ks \<and> walk_frame sl (set_tree U) t t'"
  using assms
proof (induction U arbitrary: sl prev t s F ks rs s')
  case Leaf
  then show ?case by (intro exI [of _ sl] exI [of _ t] exI [of _ "\<langle>\<rangle>"]) (simp add: walkable_def walk_frame_refl)
next
  case (Node l a r)
  let ?f = "\<lambda>a. item (nodes t a)"
  define t1 where "t1 = t\<lparr>nodes := set_back (nodes t) a (slot_back prev)\<rparr>"
  have w1: "walkable sl t1 (dnode LEFT l a r) F" and f1: "walk_frame sl (set_tree \<langle>l, a, r\<rangle>) t t1"
    using walkable_back [OF Node.prems(1) _ t1_def] by simp_all
  have a: "tree_slot t sl = a" "a \<noteq> NULL" using walkable_sub(2,3) [of sl t LEFT l a r F] Node.prems(1) by simp_all
  have dis: "a \<notin> set_tree l" "set_tree l \<inter> set_tree r = {}" using Node.prems(1) by (auto simp: walkable_def)
  obtain k1 r1 s1 where 1: "reject_items rj ?f (inorder l) s = (k1, r1, s1)" by (metis prod_cases3)
  obtain b s2 where b: "rj (?f a) s1 = (b, s2)" by fastforce
  obtain k2 r2 s3 where 2: "reject_items rj ?f (inorder r) s2 = (k2, r2, s3)" by (metis prod_cases3)
  have res: "ks = k1 @ (if b then k2 else a # k2)" "rs = r1 @ (if b then a # r2 else r2)" "s' = s3"
    using Node.prems(3) 1 b 2 by (auto simp: reject_items_append Let_def split: if_splits)
  note sets = reject_items_sets [OF 1, unfolded set_inorder] reject_items_sets [OF 2, unfolded set_inorder]
  have i1: "item (nodes t1 c) = ?f c" and c1: "cmp t1 = cmp_fn" for c
    using walk_frame_item [OF f1] walk_frame_cmp [OF f1] Node.prems(2) by simp_all
  from Node.IH(1) [OF walkable_sub(1) [OF w1] c1, unfolded i1, OF 1, of "Some sl"] obtain sl2 t2 l2 where
    run1: "reject_loop rj (Child a LEFT) (Some sl) t1 s = reject_loop rj sl2 (Some sl) t2 s1"
    and n2: "tree_slot t2 sl2 = NULL" and wl2: "walkable (Child a LEFT) t2 l2 (rev r1 @ F)"
    and l2: "inorder l2 = k1" and f2: "walk_frame (Child a LEFT) (set_tree l) t1 t2" by blast
  have sl2: "set_tree l2 \<subseteq> set_tree l" using sets(1) l2 by (auto simp flip: set_inorder_tree)
  have w2: "walkable sl t2 \<langle>l2, a, r\<rangle> (rev r1 @ F)"
    using walkable_after_sub [OF w1 wl2 f2 sl2] sets(1) by (auto simp: Un_commute)
  have i2: "item (nodes t2 c) = ?f c" and c2: "cmp t2 = cmp_fn" for c
    using walk_frame_item [OF f2] walk_frame_cmp [OF f2] i1 c1 by simp_all
  have bk: "nd_back (nodes t2 a) = slot_back prev"
    using walk_frame_back [OF f2 dis(1)] by (simp add: t1_def)
  from reject_step [OF w2 c2 n2 bk, unfolded i2, of rj s1 b s2] b obtain sl3 t3 V where
    run2: "reject_loop rj sl2 (Some sl) t2 s1 = reject_loop rj sl3 prev t3 s2"
    and w3: "walkable sl t3 V (if b then a # rev r1 @ F else rev r1 @ F)"
    and V: "inorder V = (if b then inorder l2 @ inorder r else inorder \<langle>l2, a, r\<rangle>)"
    and f3: "walk_frame sl (set_tree \<langle>l2, a, r\<rangle>) t2 t3"
    and sh: "V = r \<and> sl3 = sl \<and> b \<and> l2 = \<langle>\<rangle> \<or> (\<exists>q l'. V = \<langle>l', q, r\<rangle> \<and> sl3 = Child q RIGHT)" by metis
  let ?F3 = "if b then a # rev r1 @ F else rev r1 @ F"
  have run: "reject_loop rj sl prev t s = reject_loop rj sl3 prev t3 s2"
    using run1 run2 a by (subst reject_loop.simps) (simp add: t1_def)
  have i3: "item (nodes t3 c) = ?f c" and c3: "cmp t3 = cmp_fn" for c
    using walk_frame_item [OF f3] walk_frame_cmp [OF f3] i2 c2 by simp_all
  have "walk_frame sl (set_tree \<langle>l, a, r\<rangle>) t t2" by (rule walk_frame_trans [OF f1 f2]) auto
  then have f13: "walk_frame sl (set_tree \<langle>l, a, r\<rangle>) t t3" by (rule walk_frame_trans [OF _ f3]) (use sl2 in auto)
  have rv: "rev r2 @ ?F3 = rev rs @ F" using res(2) by simp
  from sh show ?case
  proof (elim disjE exE conjE)
    assume h: "V = r" "sl3 = sl" b "l2 = \<langle>\<rangle>"
    have wr: "walkable sl t3 r ?F3" using w3 h by simp
    from Node.IH(2) [OF wr c3, unfolded i3, OF 2, of prev] obtain sl4 t4 U4 where
      "reject_loop rj sl prev t3 s2 = reject_loop rj sl4 prev t4 s3" "tree_slot t4 sl4 = NULL"
      "walkable sl t4 U4 (rev rs @ F)" "inorder U4 = k2" and f4: "walk_frame sl (set_tree r) t3 t4"
      unfolding rv by blast
    moreover have "walk_frame sl (set_tree \<langle>l, a, r\<rangle>) t t4" by (rule walk_frame_trans [OF f13 f4]) auto
    ultimately show ?thesis using run h l2 res by (intro exI [of _ sl4] exI [of _ t4] exI [of _ U4]) simp
  next
    fix q l' assume h: "V = \<langle>l', q, r\<rangle>" "sl3 = Child q RIGHT"
    have w3': "walkable sl t3 (dnode RIGHT r q l') ?F3" using w3 h by simp
    from Node.IH(2) [OF walkable_sub(1) [OF w3'] c3, unfolded i3, OF 2, of prev] obtain sl4 t4 r4 where
      run4: "reject_loop rj (Child q RIGHT) prev t3 s2 = reject_loop rj sl4 prev t4 s3" "tree_slot t4 sl4 = NULL"
      and w4: "walkable (Child q RIGHT) t4 r4 (rev r2 @ ?F3)" and r4: "inorder r4 = k2"
      and f4: "walk_frame (Child q RIGHT) (set_tree r) t3 t4" by blast
    have sr4: "set_tree r4 \<subseteq> set_tree r" using sets(2) r4 by (auto simp flip: set_inorder_tree)
    have "set (rev r2 @ ?F3) \<subseteq> set_tree r \<union> set ?F3" using sets(2) by auto
    from walkable_after_sub [OF w3' w4 f4 sr4 this] have wU: "walkable sl t4 \<langle>l', q, r4\<rangle> (rev rs @ F)"
      unfolding rv by simp
    have lq: "inorder l' @ [q] = (if b then k1 else k1 @ [a])"
      using V h(1) l2 append_same_eq [of "inorder l' @ [q]" "inorder r"] by (auto split: if_splits)
    then have U: "inorder \<langle>l', q, r4\<rangle> = ks" using r4 res(1) by (auto split: if_splits)
    have "q \<in> set (if b then k1 else k1 @ [a])" using lq by (metis in_set_conv_decomp)
    then have "q \<in> set_tree \<langle>l, a, r\<rangle>" using sets(1) by (auto split: if_splits)
    then have "walk_frame sl (set_tree \<langle>l, a, r\<rangle>) t t4" by (intro walk_frame_trans [OF f13 f4]) auto
    then show ?thesis using run h run4 wU U res(3)
      by (intro exI [of _ sl4] exI [of _ t4] exI [of _ "\<langle>l', q, r4\<rangle>"]) simp
  qed
qed

lemma reject_spec:
  assumes ok: "tree_ok t T F" and c: "cmp t = cmp_fn"
    and rj: "reject_items rj id (items t T) s = (ks, rs, s')"
  shows "\<exists>t' T' F'. sml_tree_reject rj t s = Some (t', s') \<and> tree_ok t' T' F' \<and> cmp t' = cmp_fn \<and>
    item_size t' = item_size t \<and> items t' T' = ks \<and> set_tree T' \<union> set F' = set_tree T \<union> set F \<and>
    (\<forall>a. item (nodes t' a) = item (nodes t a))"
proof -
  let ?f = "\<lambda>a. item (nodes t a)"
  obtain k r s1 where 1: "reject_items rj ?f (inorder T) s = (k, r, s1)" by (metis prod_cases3)
  then have e: "ks = map ?f k" "s' = s1" using reject_items_map [OF 1] rj by (auto simp: items_def)
  have "walkable Root t T F" using ok by (auto simp: walkable_def tree_ok_def)
  from reject_walk [OF this c 1, of None] obtain sl' t' U' where
    run: "reject_loop rj Root None t s = reject_loop rj sl' None t' s1" and n: "tree_slot t' sl' = NULL"
    and w: "walkable Root t' U' (rev r @ F)" and U: "inorder U' = k" and f: "walk_frame Root (set_tree T) t t'" by blast
  have sets: "set k \<union> set r = set_tree T" using reject_items_sets [OF 1] by simp
  have "sml_tree_reject rj t s = Some (t', s')"
    using run n e(2) by (simp add: sml_tree_reject_def) (subst reject_loop.simps, simp)
  moreover have "tree_ok t' U' (rev r @ F)"
    using w f ok sets U by (auto simp: tree_ok_def walkable_def walk_frame_def simp flip: set_inorder_tree)
  moreover have "items t' U' = ks" using U e(1) walk_frame_item [OF f] by (simp add: items_def)
  moreover have "set_tree U' \<union> set (rev r @ F) = set_tree T \<union> set F"
    using sets U by (auto simp flip: set_inorder_tree)
  ultimately show ?thesis using f c by (intro exI [of _ t'] exI [of _ U'] exI [of _ "rev r @ F"]) (simp add: walk_frame_def)
qed


text \<open>Reinsertion of a node.\<close>

lemma splay_root_frame:
  assumes ok: "tree_ok t T F" and c: "cmp t = cmp_fn" and sp: "splay_root t x = Some (n, nd, hole, w)" and a: "a \<notin> set_tree T"
  shows "cells w a = nodes t a"
proof (cases "root t = NULL")
  case True
  then show ?thesis using sp by (auto simp: splay_root_def start_work_def)
next
  case False
  obtain n' nd' hole' w' l r C where
    "splay cmp_fn x (root t) INIT_HOLE (start_work (nodes t)) = Some (n', nd', hole', w')"
    "splayed cmp_fn x (nodes t) n' nd' hole' w' \<langle>l, nd', r\<rangle> C" "whole C \<langle>l, nd', r\<rangle> = inorder T"
    using splay_root_cases [OF ok c False] by metis
  then show ?thesis using sp c a False by (simp add: splay_root_def splayed_def)
qed

lemma insert_node_spec:
  assumes ok: "tree_ok t T F" and c: "cmp t = cmp_fn" and new: "new \<notin> set_tree T \<union> set F" "new \<noteq> NULL"
    and ch: "in_chunks (item_size t) (chunk t) new"
  shows "\<exists>n t' T'. insert_node t new = Some (n, t') \<and> tree_ok t' T' F \<and>
    (if n = 0 then set_tree T' = set_tree T \<and> (\<exists>b\<in>set_tree T. cmp_fn (item (nodes t new)) (item (nodes t b)) = 0)
     else set_tree T' = insert new (set_tree T)) \<and>
    t' = t\<lparr>root := root t', nodes := nodes t'\<rparr> \<and>
    (\<forall>a. item (nodes t' a) = item (nodes t a) \<and> nd_back (nodes t' a) = nd_back (nodes t a)) \<and>
    (\<forall>a. a \<notin> insert new (set_tree T) \<longrightarrow> nodes t' a = nodes t a)"
proof -
  let ?x = "item (nodes t new)"
  obtain n nd hole w U C xs ys where
    sp: "splay_root t ?x = Some (n, nd, hole, w)" and inv: "work_inv w nd hole U C" and wh: "whole C U = inorder T"
    and fl: "\<forall>a. item (cells w a) = item (nodes t a) \<and> nd_back (cells w a) = nd_back (nodes t a)"
    and wn: "\<forall>new. n \<noteq> 0 \<longrightarrow> whole C (dnode (DIR n) \<langle>\<rangle> new U) = xs @ new # ys"
    and ioT: "inorder T = (if n = 0 then xs @ nd # ys else xs @ ys)"
    and z: "n = 0 \<longrightarrow> (\<exists>l r. U = \<langle>l, nd, r\<rangle>) \<and> cmp_fn ?x (item (nodes t nd)) = 0"
    and lo: "\<forall>a\<in>set xs. 0 < cmp_fn ?x (item (nodes t a))" and hi: "\<forall>a\<in>set ys. cmp_fn ?x (item (nodes t a)) < 0"
    by (rule splay_root_spec [OF ok c, of ?x])
  note out = splay_root_frame [OF ok c sp]
  show ?thesis
  proof (cases "n = 0")
    case True
    then obtain l r where U: "U = \<langle>l, nd, r\<rangle>" using z by blast
    note asm = assemble_tree [OF inv [unfolded U]]
    let ?h = "assemble nd hole w" and ?T = "\<langle>plug LEFT (C LEFT) l, nd, plug RIGHT (C RIGHT) r\<rangle>"
    have io: "inorder ?T = inorder T" using inorder_assembled wh U by metis
    have "insert_node t new = Some (n, t\<lparr>root := nd, nodes := ?h\<rparr>)"
      using sp True by (simp add: insert_node_def)
    moreover have "tree_ok (t\<lparr>root := nd, nodes := ?h\<rparr>) ?T F"
      using tree_ok_restructure(1) [OF ok asm(1) io] asm(2,3) fl by simp
    moreover have "set_tree ?T = set_tree T" using io by (metis set_inorder)
    moreover have "nd \<in> set_tree T" using ioT True by (simp flip: set_inorder_tree)
    moreover have "?h a = nodes t a" if "a \<notin> set_tree T" for a
      using asm(4) [of a] out [OF that] that wh U by simp
    ultimately show ?thesis using True z asm(2,3) fl
      by (intro exI [of _ n] exI [of _ "t\<lparr>root := nd, nodes := ?h\<rparr>"] exI [of _ ?T]) auto
  next
    case False
    let ?g = "set_child (set_child (cells w) new (DIR n) NULL) new (OPP (DIR n)) nd"
    let ?w = "w\<lparr>cells := ?g\<rparr>" and ?h = "assemble new hole (w\<lparr>cells := ?g\<rparr>)"
    have nw: "new \<notin> set (whole C U)" using new wh by simp
    note inv' = work_inv_new_root [OF inv nw new(2) refl, of "DIR n"]
    obtain l r where lr: "dnode (DIR n) \<langle>\<rangle> new U = \<langle>l, new, r\<rangle>" by (cases "DIR n") auto
    note asm = assemble_tree [OF inv' [unfolded lr]]
    let ?T = "\<langle>plug LEFT (C LEFT) l, new, plug RIGHT (C RIGHT) r\<rangle>"
    have io: "inorder ?T = xs @ new # ys" using inorder_assembled wn [rule_format, OF False] lr by metis
    have setT: "set_tree T = set xs \<union> set ys" using ioT False by (simp flip: set_inorder_tree)
    have it: "item (?h a) = item (nodes t a)" "nd_back (?h a) = nd_back (nodes t a)" for a
      using asm(2,3) fl by (simp_all add: set_child_def)
    have h: "?h(new := (?h new)\<lparr>item := ?x\<rparr>) = ?h" using it(1) [of new] by (intro ext) simp
    have "insert_node t new = Some (n, t\<lparr>root := new, nodes := ?h\<rparr>)"
      using sp False by (simp add: insert_node_def)
    moreover have "free_at ?h (freelist t) F"
      using ok free_at_cong [of F ?h "nodes t"] it(2) by (simp add: tree_ok_def)
    then have "tree_ok (t\<lparr>root := new, nodes := ?h\<rparr>) ?T F"
    proof (intro root_item_ok(1) [OF ok c asm(1) io, of F t ?x])
      show "set xs \<union> set ys \<subseteq> set_tree T" by (simp add: setT)
      show "distinct (xs @ new # ys @ F)" using ok ioT False new setT by (auto simp: tree_ok_def)
      show "ordered cmp_fn (\<lambda>b. item (nodes t b)) (xs @ ys)" using ok c ioT False by (simp add: tree_ok_def)
      show "\<forall>b\<in>insert new (set xs \<union> set ys \<union> set F). in_chunks (item_size t) (chunk t) b"
        using ok ch setT by (auto simp: tree_ok_def)
      show "t\<lparr>root := new, nodes := ?h\<rparr> = t\<lparr>root := new, freelist := freelist t, chunk := chunk t, nodes := ?h(new := (?h new)\<lparr>item := ?x\<rparr>)\<rparr>"
        unfolding h by simp
    qed (use ok it lo hi in \<open>auto simp: tree_ok_def\<close>)
    moreover have "set_tree ?T = insert new (set_tree T)" using io setT by (metis set_inorder Un_insert_right list.simps(15) set_append)
    moreover have "?h a = nodes t a" if "a \<notin> insert new (set_tree T)" for a
      using asm(4) [of a] out [of a] that wn [rule_format, OF False, of new] lr setT by simp
    ultimately show ?thesis using False it
      by (intro exI [of _ n] exI [of _ "t\<lparr>root := new, nodes := ?h\<rparr>"] exI [of _ ?T]) simp
  qed
qed


lemma cmp_refl: "cmp_fn x x = 0"
  using cmp_swap [of x x] by linarith

end

section \<open>Rebuilding\<close>

text \<open>
  The nodes \<open>X\<close> have been moved to the tree or, when an equal item was there, to the free list.
\<close>

definition rebuilt ::
  "'i sml_tree \<Rightarrow> addr tree \<Rightarrow> addr list \<Rightarrow> addr set \<Rightarrow> 'i sml_tree \<Rightarrow> addr tree \<Rightarrow> addr list \<Rightarrow> bool" where
  "rebuilt t N F X t' N' F' \<longleftrightarrow> tree_ok t' N' F' \<and> cmp t' = cmp t \<and> item_size t' = item_size t \<and> chunk t' = chunk t \<and>
     (\<forall>a. item (nodes t' a) = item (nodes t a)) \<and> set_tree N \<subseteq> set_tree N' \<and>
     set_tree N' \<union> set F' = set_tree N \<union> set F \<union> X \<and> set F \<subseteq> set F' \<and>
     (\<forall>a\<in>X. \<exists>b\<in>set_tree N'. cmp t (item (nodes t a)) (item (nodes t b)) = 0) \<and>
     (\<forall>a. a \<notin> X \<union> set_tree N \<union> set F \<longrightarrow> nodes t' a = nodes t a)"

lemma rebuiltD:
  assumes "rebuilt t N F X t' N' F'"
  shows "tree_ok t' N' F'" "cmp t' = cmp t" "item_size t' = item_size t" "chunk t' = chunk t"
    "item (nodes t' a) = item (nodes t a)" "set_tree N \<subseteq> set_tree N'" "set F \<subseteq> set F'"
    "set_tree N' \<union> set F' = set_tree N \<union> set F \<union> X"
    "a \<notin> X \<union> set_tree N \<union> set F \<Longrightarrow> nodes t' a = nodes t a"
    "a \<in> X \<Longrightarrow> \<exists>b\<in>set_tree N'. cmp t (item (nodes t a)) (item (nodes t b)) = 0"
  using assms by (auto simp: rebuilt_def)

lemma rebuilt_refl: "tree_ok t N F \<Longrightarrow> rebuilt t N F {} t N F"
  by (simp add: rebuilt_def)

lemma rebuilt_trans:
  assumes 1: "rebuilt t N F X t1 N1 F1" and 2: "rebuilt t1 N1 F1 Y t2 N2 F2"
  shows "rebuilt t N F (X \<union> Y) t2 N2 F2"
proof -
  note d1 = rebuiltD [OF 1] and d2 = rebuiltD [OF 2]
  have "\<exists>b\<in>set_tree N2. cmp t (item (nodes t a)) (item (nodes t b)) = 0" if "a \<in> X \<union> Y" for a
    using that d1(10) [of a] d2(10) [of a] d2(6) unfolding d1(2,5) by blast
  moreover have "nodes t2 a = nodes t a" if "a \<notin> X \<union> Y \<union> set_tree N \<union> set F" for a
    using that d1(9) [of a] d2(9) [of a] d1(8) by auto
  moreover have "set_tree N2 \<union> set F2 = set_tree N \<union> set F \<union> (X \<union> Y)" using d1(8) d2(8) by auto
  moreover have "set_tree N \<subseteq> set_tree N2" "set F \<subseteq> set F2" using d1(6,7) d2(6,7) by auto
  ultimately show ?thesis
    using d1(2,3,4,5) d2(1,2,3,4,5) unfolding rebuilt_def by simp
qed

lemma rebuilt_back:
  assumes "rebuilt (t\<lparr>nodes := set_back (nodes t) a b\<rparr>) N F X t' N' F'" and "a \<in> X"
  shows "rebuilt t N F X t' N' F'"
proof -
  have "nodes t' c = nodes t c" if "c \<notin> X \<union> set_tree N \<union> set F" for c
    using rebuiltD(9) [OF assms(1) that] that assms(2) by (auto simp: set_back_def)
  then show ?thesis using assms(1) unfolding rebuilt_def by simp
qed

lemma tree_ok_back:
  assumes "tree_ok t N F" and "a \<notin> set F"
  shows "tree_ok (t\<lparr>nodes := set_back (nodes t) a b\<rparr>) N F"
proof -
  have "tree_at (set_back (nodes t) a b) p N = tree_at (nodes t) p N" for p by (rule tree_at_cong) simp
  moreover have "free_at (set_back (nodes t) a b) p F = free_at (nodes t) p F" for p
    by (rule free_at_cong) (use assms(2) in \<open>auto simp: set_back_def\<close>)
  ultimately show ?thesis using assms(1) by (simp add: tree_ok_def)
qed

lemma tree_ok_reclaim:
  assumes ok: "tree_ok t N F" and a: "a \<notin> set_tree N \<union> set F" "a \<noteq> NULL" "in_chunks (item_size t) (chunk t) a"
  shows "tree_ok (node_reclaim t a) N (a # F)"
  using tree_ok_back [OF ok, of a "BackNode (freelist t)"] a by (auto simp: tree_ok_def node_reclaim_def)

context item_order
begin

lemma insert_node_rebuilt:
  assumes ok: "tree_ok t N F" and c: "cmp t = cmp_fn" and a: "a \<notin> set_tree N \<union> set F" "a \<noteq> NULL"
    "in_chunks (item_size t) (chunk t) a"
  shows "\<exists>n t' N' F'. insert_node t a = Some (n, t') \<and>
    rebuilt t N F {a} (if n = 0 then node_reclaim t' a else t') N' F'"
proof -
  from insert_node_spec [OF ok c a] obtain n t' T' where
    1: "insert_node t a = Some (n, t')" and ok': "tree_ok t' T' F"
    and n: "if n = 0 then set_tree T' = set_tree N \<and> (\<exists>b\<in>set_tree N. cmp_fn (item (nodes t a)) (item (nodes t b)) = 0)
      else set_tree T' = insert a (set_tree N)"
    and t': "t' = t\<lparr>root := root t', nodes := nodes t'\<rparr>"
    and it: "\<And>b. item (nodes t' b) = item (nodes t b) \<and> nd_back (nodes t' b) = nd_back (nodes t b)"
    and out: "\<And>b. b \<notin> insert a (set_tree N) \<Longrightarrow> nodes t' b = nodes t b" by blast
  have f: "item_size t' = item_size t" "chunk t' = chunk t" "cmp t' = cmp t" by (subst t', simp)+
  show ?thesis
  proof (cases "n = 0")
    case True
    have "tree_ok (node_reclaim t' a) T' (a # F)"
      using tree_ok_reclaim [OF ok', of a] a n True f by simp
    then have "rebuilt t N F {a} (node_reclaim t' a) T' (a # F)"
      using n True f it out c by (auto simp: rebuilt_def node_reclaim_def)
    then show ?thesis using 1 True by auto
  next
    case False
    have "rebuilt t N F {a} t' T' F"
      using n False f it out c ok' cmp_refl by (auto simp: rebuilt_def)
    then show ?thesis using 1 False by auto
  qed
qed

lemma rebuild_insert:
  assumes ok: "tree_ok t N F" and c: "cmp t = cmp_fn" and a: "a \<notin> set_tree N \<union> set F" "a \<noteq> NULL"
    "in_chunks (item_size t) (chunk t) a"
    and r: "child (nodes t a) RIGHT = NULL \<or> child (nodes t a) RIGHT = lst" and bk: "nd_back (nodes t a) = BackNode prev"
  shows "\<exists>t' N' F'. rebuild_loop NULL a lst t = rebuild_loop NULL prev a t' \<and> rebuilt t N F {a} t' N' F'"
proof -
  from insert_node_rebuilt [OF ok c a] obtain n t' N' F' where
    1: "insert_node t a = Some (n, t')" and 2: "rebuilt t N F {a} (if n = 0 then node_reclaim t' a else t') N' F'" by blast
  have "rebuild_loop NULL a lst t = rebuild_loop NULL prev a (if n = 0 then node_reclaim t' a else t')"
    using 1 r bk a(2) by (subst rebuild_loop.simps) (auto simp: Let_def)
  with 2 show ?thesis by blast
qed

text \<open>From a subtree the loop comes back to the node above it, with all nodes of the subtree moved.\<close>

lemma rebuild_walk:
  assumes "tree_ok t N F" and "cmp t = cmp_fn" and "tree_at (nodes t) nd U" and "distinct (inorder U)"
    and "set_tree U \<inter> (set_tree N \<union> set F) = {}" and "\<forall>a\<in>set_tree U. in_chunks (item_size t) (chunk t) a"
    and "lst \<notin> set_tree U"
  shows "\<exists>t' N' F'. rebuild_loop nd prev lst t = rebuild_loop NULL prev (if nd = NULL then lst else nd) t' \<and>
    rebuilt t N F (set_tree U) t' N' F'"
  using assms
proof (induction U arbitrary: nd prev lst t N F)
  case Leaf
  then show ?case using rebuilt_refl [OF Leaf(1)] by (intro exI [of _ t] exI [of _ N] exI [of _ F]) simp
next
  case (Node l a r)
  define t1 where "t1 = t\<lparr>nodes := set_back (nodes t) a (BackNode prev)\<rparr>"
  have nd: "nd = a" "a \<noteq> NULL" and di: "a \<notin> set_tree l" "a \<notin> set_tree r" "set_tree l \<inter> set_tree r = {}"
    "distinct (inorder l)" "distinct (inorder r)" and aN: "a \<notin> set_tree N \<union> set F"
    using Node.prems by auto
  have c1: "child (nodes t1 b) = child (nodes t b)" for b by (simp add: t1_def)
  have t1: "tree_at (nodes t1) p V = tree_at (nodes t) p V" for p V by (rule tree_at_cong) (simp add: c1)
  have ok1: "tree_ok t1 N F" unfolding t1_def by (rule tree_ok_back [OF Node.prems(1)]) (use aN in auto)
  have f1: "cmp t1 = cmp_fn" "item_size t1 = item_size t" "chunk t1 = chunk t" using Node.prems(2) by (simp_all add: t1_def)
  let ?L = "child (nodes t a) LEFT" and ?R = "child (nodes t a) RIGHT"
  have trL: "tree_at (nodes t1) ?L l" using Node.prems(3) t1 by simp
  have lst: "lst \<notin> set_tree l" "lst \<notin> set_tree r" using Node.prems(7) by auto
  have "\<exists>t' N' F'. rebuild_loop ?L a lst t1 = rebuild_loop NULL a (if ?L = NULL then lst else ?L) t' \<and>
    rebuilt t1 N F (set_tree l) t' N' F'"
    by (rule Node.IH(1) [OF ok1 f1(1) trL di(4)]) (use Node.prems(5,6) lst f1 in auto)
  then obtain t2 N2 F2 where
    run2: "rebuild_loop ?L a lst t1 = rebuild_loop NULL a (if ?L = NULL then lst else ?L) t2"
    and rb2: "rebuilt t1 N F (set_tree l) t2 N2 F2" by blast
  note d2 = rebuiltD [OF rb2]
  let ?lst = "if ?L = NULL then lst else ?L"
  have run1: "rebuild_loop nd prev lst t = rebuild_loop NULL a ?lst t2"
    using run2 nd by (subst rebuild_loop.simps) (simp add: t1_def)
  have aN2: "a \<notin> set_tree N2 \<union> set F2" "set_tree r \<inter> (set_tree N2 \<union> set F2) = {}"
    using d2(8) di aN Node.prems(5) by auto
  have n2a: "nodes t2 a = nodes t1 a" using d2(9) [of a] di aN by auto
  have R: "child (nodes t2 a) RIGHT = ?R" "nd_back (nodes t2 a) = BackNode prev" using n2a c1 by (simp_all add: t1_def)
  have trR: "tree_at (nodes t2) ?R r"
  proof -
    have "nodes t2 b = nodes t1 b" if "b \<in> set_tree r" for b
      using d2(9) [of b] that di(3) Node.prems(5) by auto
    then have "tree_at (nodes t2) ?R r = tree_at (nodes t1) ?R r" by (intro tree_at_cong) simp
    then show ?thesis using Node.prems(3) t1 by simp
  qed
  have ch: "\<forall>b\<in>insert a (set_tree r). in_chunks (item_size t2) (chunk t2) b"
    using Node.prems(6) d2(3,4) f1 by auto
  have c2: "cmp t2 = cmp_fn" using d2(2) f1 by simp
  have "\<exists>t' N' F'. rebuild_loop NULL a ?lst t2 = rebuild_loop NULL prev a t' \<and>
    rebuilt t2 N2 F2 (insert a (set_tree r)) t' N' F'"
  proof (cases "?R = NULL")
    case True
    then have "r = \<langle>\<rangle>" using trR tree_at_null by blast
    then show ?thesis
      using rebuild_insert [OF d2(1) c2 aN2(1) nd(2), of ?lst prev] R True ch by auto
  next
    case False
    have nl: "?lst \<noteq> ?R" "?lst \<notin> set_tree r"
    proof -
      have "?R \<in> set_tree r" using trR False tree_at_null by (cases r) auto
      moreover have "?L \<noteq> NULL \<Longrightarrow> ?L \<in> set_tree l" using trL tree_at_null by (cases l) auto
      ultimately show "?lst \<noteq> ?R" "?lst \<notin> set_tree r" using lst di(3) by auto
    qed
    have "\<exists>t' N' F'. rebuild_loop ?R a ?lst t2 = rebuild_loop NULL a (if ?R = NULL then ?lst else ?R) t' \<and>
      rebuilt t2 N2 F2 (set_tree r) t' N' F'"
      by (rule Node.IH(2) [OF d2(1) c2 trR di(5) aN2(2) _ nl(2)]) (use ch in auto)
    then obtain t3 N3 F3 where run3: "rebuild_loop ?R a ?lst t2 = rebuild_loop NULL a ?R t3"
      and rb3: "rebuilt t2 N2 F2 (set_tree r) t3 N3 F3" using False by auto
    note d3 = rebuiltD [OF rb3]
    have "nodes t3 a = nodes t2 a" using d3(9) [of a] aN2(1) di(2) by auto
    then have 3: "child (nodes t3 a) RIGHT = NULL \<or> child (nodes t3 a) RIGHT = ?R" "nd_back (nodes t3 a) = BackNode prev"
      using R by simp_all
    have "a \<notin> set_tree N3 \<union> set F3" using d3(8) aN2(1) di(2) by auto
    then obtain t4 N4 F4 where run4: "rebuild_loop NULL a ?R t3 = rebuild_loop NULL prev a t4"
      and rb4: "rebuilt t3 N3 F3 {a} t4 N4 F4"
      using rebuild_insert [OF d3(1) _ _ nd(2) _ 3] d3(2,3,4) c2 ch by auto
    have "rebuild_loop NULL a ?lst t2 = rebuild_loop ?R a ?lst t2"
      using False nl R nd(2) by (subst rebuild_loop.simps) simp
    moreover have "rebuilt t2 N2 F2 (insert a (set_tree r)) t4 N4 F4" using rebuilt_trans [OF rb3 rb4] by simp
    ultimately show ?thesis using run3 run4 by auto
  qed
  then obtain t4 N4 F4 where run4: "rebuild_loop NULL a ?lst t2 = rebuild_loop NULL prev a t4"
    and rb4: "rebuilt t2 N2 F2 (insert a (set_tree r)) t4 N4 F4" by blast
  have "rebuilt t1 N F (set_tree \<langle>l, a, r\<rangle>) t4 N4 F4" using rebuilt_trans [OF rb2 rb4] by (simp add: insert_commute Un_insert_right)
  then have "rebuilt t N F (set_tree \<langle>l, a, r\<rangle>) t4 N4 F4" unfolding t1_def by (rule rebuilt_back) simp
  then show ?case using run1 run4 nd by auto
qed

text \<open>The tree of a store whose items need not be in order any more.\<close>

lemma rebuild_spec:
  assumes ok: "tree_ok (t\<lparr>root := NULL\<rparr>) \<langle>\<rangle> F" and c: "cmp t = cmp_fn" and tr: "tree_at (nodes t) (root t) T"
    and di: "distinct (inorder T @ F)" and ch: "\<forall>a\<in>set_tree T. in_chunks (item_size t) (chunk t) a"
  shows "\<exists>t' T' F'. sml_tree_rebuild t = Some t' \<and> rebuilt (t\<lparr>root := NULL\<rparr>) \<langle>\<rangle> F (set_tree T) t' T' F'"
proof -
  have "\<exists>t' N' F'. rebuild_loop (root t) NULL NULL (t\<lparr>root := NULL\<rparr>) =
      rebuild_loop NULL NULL (if root t = NULL then NULL else root t) t' \<and>
      rebuilt (t\<lparr>root := NULL\<rparr>) \<langle>\<rangle> F (set_tree T) t' N' F'"
    by (rule rebuild_walk [OF ok]) (use c tr di ch tree_at_nonnull [OF tr] in auto)
  then obtain t' N' F' where "rebuild_loop (root t) NULL NULL (t\<lparr>root := NULL\<rparr>) = rebuild_loop NULL NULL (root t) t'"
    and rb: "rebuilt (t\<lparr>root := NULL\<rparr>) \<langle>\<rangle> F (set_tree T) t' N' F'" by (auto split: if_splits)
  moreover have "rebuild_loop NULL NULL x t' = Some t'" for x by (subst rebuild_loop.simps) simp
  ultimately show ?thesis by (auto simp: sml_tree_rebuild_def)
qed

text \<open>A tree that is in order is rebuilt with the same items.\<close>

lemma ordered_unique:
  assumes "ordered cmp_fn f xs" and "ordered cmp_fn f ys" and "set xs = set ys"
  shows "xs = ys"
  using assms
proof (induction xs arbitrary: ys)
  case (Cons x xs)
  have irr: "\<not> cmp_fn u u < 0" for u using cmp_refl [of u] by simp
  obtain y zs where ys: "ys = y # zs" using Cons.prems(3) by (cases ys) auto
  have lt: "\<forall>b\<in>set xs. cmp_fn (f x) (f b) < 0" "\<forall>b\<in>set zs. cmp_fn (f y) (f b) < 0"
    "ordered cmp_fn f xs" "ordered cmp_fn f zs" using Cons.prems ys by (auto simp: ordered_Cons)
  have "x = y"
  proof (rule ccontr)
    assume "x \<noteq> y"
    then have "x \<in> set zs" "y \<in> set xs" using Cons.prems(3) ys by auto
    then show False using lt cmp_trans irr by blast
  qed
  moreover have "x \<notin> set xs" "y \<notin> set zs" using lt irr by blast+
  ultimately have "set xs = set zs" using Cons.prems(3) ys by auto
  then show ?case using Cons.IH lt ys \<open>x = y\<close> by blast
qed simp

lemma ordered_inj:
  assumes "ordered cmp_fn f xs" and "a \<in> set xs" and "b \<in> set xs" and "cmp_fn (f a) (f b) = 0"
  shows "a = b"
  using assms
proof (induction xs)
  case (Cons x xs)
  then show ?case using cmp_swap [of "f b" "f a"] by (fastforce simp: ordered_Cons)
qed simp

lemma rebuild_ordered:
  assumes ok: "tree_ok t T F" and c: "cmp t = cmp_fn"
  shows "\<exists>t' T' F'. sml_tree_rebuild t = Some t' \<and> tree_ok t' T' F' \<and> cmp t' = cmp_fn \<and> item_size t' = item_size t \<and>
    inorder T' = inorder T \<and> items t' T' = items t T"
proof -
  have tr: "tree_at (nodes t) (root t) T" "distinct (inorder T @ F)" "\<forall>a\<in>set_tree T. in_chunks (item_size t) (chunk t) a"
    and od: "ordered cmp_fn (\<lambda>a. item (nodes t a)) (inorder T)"
    using ok c by (auto simp: tree_ok_def)
  have "tree_ok (t\<lparr>root := NULL\<rparr>) \<langle>\<rangle> F" using ok by (auto simp: tree_ok_def ordered_def)
  from rebuild_spec [OF this c tr] obtain t' T' F' where
    1: "sml_tree_rebuild t = Some t'" and rb: "rebuilt (t\<lparr>root := NULL\<rparr>) \<langle>\<rangle> F (set_tree T) t' T' F'" by blast
  note d = rebuiltD [OF rb]
  have od': "ordered cmp_fn (\<lambda>a. item (nodes t a)) (inorder T')"
    using d(1,2,5) c by (simp add: tree_ok_def)
  have sub: "set_tree T' \<subseteq> set_tree T" using d(1,7,8) by (auto simp: tree_ok_def)
  have "a \<in> set_tree T'" if a: "a \<in> set_tree T" for a
  proof -
    obtain b where b: "b \<in> set_tree T'" "cmp_fn (item (nodes t a)) (item (nodes t b)) = 0"
      using d(10) [OF a] c by auto
    then have "a = b" using ordered_inj [OF od, of a b] a sub by auto
    then show ?thesis using b by simp
  qed
  then have "inorder T' = inorder T" using sub by (intro ordered_unique [OF od' od]) auto
  then show ?thesis using 1 d c by (intro exI [of _ t'] exI [of _ T'] exI [of _ F']) (simp add: items_def)
qed

end

section \<open>Items by address\<close>

text \<open>Clients read and write the items whose addresses the tree has given them.\<close>

definition read_item :: "'i sml_tree \<Rightarrow> addr \<Rightarrow> 'i" where
  "read_item t p = item (nodes t (NODE p (item_size t)))"

definition write_item :: "'i sml_tree \<Rightarrow> addr \<Rightarrow> ('i \<Rightarrow> 'i) \<Rightarrow> 'i sml_tree" where
  "write_item t p f =
     (let a = NODE p (item_size t) in t\<lparr>nodes := (nodes t)(a := (nodes t a)\<lparr>item := f (item (nodes t a))\<rparr>)\<rparr>)"

lemma read_item_of:
  assumes "tree_ok t T F" and "a \<in> set_tree T" and "item_size t' = item_size t"
  shows "read_item t' (ITEM_OF t a) = item (nodes t' a)"
  using item_of_pos(2) [OF assms(1,2)] assms(3) by (simp add: read_item_def)

text \<open>A write that does not change the order.\<close>

lemma write_item_ok:
  assumes ok: "tree_ok t T F" and a: "a \<in> set_tree T"
    and key: "\<And>z. cmp t (f (item (nodes t a))) z = cmp t (item (nodes t a)) z"
      "\<And>z. cmp t z (f (item (nodes t a))) = cmp t z (item (nodes t a))"
  shows "tree_ok (write_item t (ITEM_OF t a) f) T F"
    and "item (nodes (write_item t (ITEM_OF t a) f) b) = (if b = a then f (item (nodes t a)) else item (nodes t b))"
    and "cmp (write_item t p f) = cmp t" and "item_size (write_item t p f) = item_size t"
proof -
  let ?h = "(nodes t)(a := (nodes t a)\<lparr>item := f (item (nodes t a))\<rparr>)"
  have w: "write_item t (ITEM_OF t a) f = t\<lparr>nodes := ?h\<rparr>"
    using item_of_pos(2) [OF ok a] by (simp add: write_item_def Let_def)
  have "tree_at ?h p T = tree_at (nodes t) p T" for p by (rule tree_at_cong) simp
  moreover have "free_at ?h p F = free_at (nodes t) p F" for p by (rule free_at_cong) simp
  moreover have "ordered (cmp t) (\<lambda>b. item (?h b)) xs = ordered (cmp t) (\<lambda>b. item (nodes t b)) xs" for xs
  proof -
    have "(cmp t (item (?h u)) (item (?h v)) < 0) = (cmp t (item (nodes t u)) (item (nodes t v)) < 0)" for u v
      using key [of "item (nodes t v)"] key [of "item (nodes t u)"] key [of "f (item (nodes t a))"] by auto
    then show ?thesis unfolding ordered_def by simp
  qed
  ultimately show "tree_ok (write_item t (ITEM_OF t a) f) T F" using ok by (simp add: w tree_ok_def)
  show "item (nodes (write_item t (ITEM_OF t a) f) b) = (if b = a then f (item (nodes t a)) else item (nodes t b))"
    by (simp add: w)
  show "cmp (write_item t p f) = cmp t" "item_size (write_item t p f) = item_size t"
    by (simp_all add: write_item_def Let_def)
qed

end
