(* ===== verification/Finalize.thy ===== *)
theory Finalize
  imports Splay_Walk
begin

text \<open>
  The finalizers of \<open>finalize.c\<close>: a splay tree of objects with their finalizer functions, ordered by
  the address of the object.  Calls of finalizers, which are user code, and the question whether
  an object is alive, which the heap answers, are parameters; the lock around each operation makes
  it one step.
\<close>

section \<open>The table\<close>

record finalizer =
  obj :: addr
  fin :: addr

definition voidp_cmp :: "addr \<Rightarrow> addr \<Rightarrow> int" where
  "voidp_cmp m n = (if m < n then -1 else if m > n then 1 else 0)"

definition finalizer_cmp :: "finalizer \<Rightarrow> finalizer \<Rightarrow> int" where
  "finalizer_cmp final1 final2 = voidp_cmp (obj final1) (obj final2)"

abbreviation (input) SIZEOF_FINALIZER :: nat where "SIZEOF_FINALIZER \<equiv> 16"

definition sml_finalize_init :: "finalizer nodes \<Rightarrow> finalizer sml_tree" where
  "sml_finalize_init mem = sml_tree_new finalizer_cmp SIZEOF_FINALIZER mem"

definition each_destroy :: "(addr \<Rightarrow> addr \<Rightarrow> 'w \<Rightarrow> 'w) \<Rightarrow> finalizer \<Rightarrow> 'w \<Rightarrow> finalizer \<times> 'w" where
  "each_destroy call final w = (final, if fin final \<noteq> NULL then call (fin final) (obj final) w else w)"

definition sml_finalize_destroy :: "(addr \<Rightarrow> addr \<Rightarrow> 'w \<Rightarrow> 'w) \<Rightarrow> finalizer sml_tree \<Rightarrow> 'w \<Rightarrow> (addr list \<times> 'w) option" where
  "sml_finalize_destroy call finalizer_set w =
     map_option (\<lambda>(t, w'). (sml_tree_destroy t, w')) (sml_tree_each (each_destroy call) finalizer_set w)"

text \<open>The function pointer of the key is not initialised: \<open>junk\<close>.\<close>

definition sml_set_finalizer ::
  "(chunk list \<Rightarrow> addr) \<Rightarrow> addr \<Rightarrow> addr \<Rightarrow> addr \<Rightarrow> finalizer sml_tree \<Rightarrow> finalizer sml_tree option" where
  "sml_set_finalizer xmalloc junk ob f t =
     (let key = \<lparr>obj = ob, fin = junk\<rparr>
      in Option.bind (sml_tree_find t key) (\<lambda>(it, t1).
           Option.bind (if it = NULL then sml_tree_insert xmalloc t1 key else Some (it, t1)) (\<lambda>(it', t2).
             Some (write_item t2 it' (\<lambda>x. x\<lparr>fin := f\<rparr>)))))"

definition each_run :: "('w \<Rightarrow> addr \<Rightarrow> bool) \<Rightarrow> (addr \<Rightarrow> addr \<Rightarrow> 'w \<Rightarrow> 'w) \<Rightarrow> finalizer \<Rightarrow> 'w \<Rightarrow> bool \<times> 'w" where
  "each_run alive call final w =
     (if alive w (obj final) then (False, w)
      else (True, if fin final \<noteq> NULL then call (fin final) (obj final) w else w))"

definition sml_run_finalizer ::
  "('w \<Rightarrow> addr \<Rightarrow> bool) \<Rightarrow> (addr \<Rightarrow> addr \<Rightarrow> 'w \<Rightarrow> 'w) \<Rightarrow> finalizer sml_tree \<Rightarrow> 'w \<Rightarrow> (finalizer sml_tree \<times> 'w) option" where
  "sml_run_finalizer alive call finalizer_set w =
     Option.bind (sml_tree_reject (each_run alive call) finalizer_set w) (\<lambda>(t, w').
       map_option (\<lambda>t'. (t', w')) (sml_tree_rebuild t))"

section \<open>The order of objects\<close>

lemma voidp_cmp_simps:
  "voidp_cmp m n < 0 \<longleftrightarrow> m < n" "0 < voidp_cmp m n \<longleftrightarrow> n < m" "voidp_cmp m n = 0 \<longleftrightarrow> m = n"
  by (auto simp: voidp_cmp_def)

interpretation finalizers: item_order finalizer_cmp
  by unfold_locales (auto simp: finalizer_cmp_def voidp_cmp_simps)

text \<open>The table as a map from objects to finalizer functions.\<close>

definition finalizers_of :: "finalizer sml_tree \<Rightarrow> addr tree \<Rightarrow> addr \<rightharpoonup> addr" where
  "finalizers_of t T = map_of (map (\<lambda>x. (obj x, fin x)) (items t T))"

lemma ordered_distinct_objects:
  "ordered finalizer_cmp f xs \<Longrightarrow> distinct (map (\<lambda>a. obj (f a)) xs)"
  by (induction xs) (auto simp: ordered_Cons finalizer_cmp_def voidp_cmp_simps)

lemma table_lookup:
  assumes "tree_ok t T F" and "cmp t = finalizer_cmp"
  shows "finalizers_of t T ob = Some g \<longleftrightarrow> (\<exists>a\<in>set_tree T. obj (item (nodes t a)) = ob \<and> fin (item (nodes t a)) = g)"
proof -
  have "distinct (map (\<lambda>a. obj (item (nodes t a))) (inorder T))"
    using assms ordered_distinct_objects by (auto simp: tree_ok_def)
  then have "distinct (map fst (map (\<lambda>x. (obj x, fin x)) (items t T)))" by (simp add: items_def o_def)
  then show ?thesis unfolding finalizers_of_def by (auto simp: items_def)
qed

section \<open>Properties\<close>

text \<open>The map determined by the nodes of the tree after \<open>sml_set_finalizer\<close>.\<close>

lemma table_update:
  assumes ok: "tree_ok t T F" and c: "cmp t = finalizer_cmp" and ok': "tree_ok t' T' F'" and c': "cmp t' = finalizer_cmp"
    and a: "a \<in> set_tree T'" and T': "set_tree T' = insert a (set_tree T)"
    and it: "\<And>b. item (nodes t' b) = (if b = a then \<lparr>obj = ob, fin = f\<rparr> else item (nodes t b))"
    and old: "a \<in> set_tree T \<Longrightarrow> obj (item (nodes t a)) = ob"
    and new: "\<And>b. b \<in> set_tree T \<Longrightarrow> obj (item (nodes t b)) = ob \<Longrightarrow> b = a"
  shows "finalizers_of t' T' = (finalizers_of t T)(ob \<mapsto> f)"
proof
  fix x
  show "finalizers_of t' T' x = ((finalizers_of t T)(ob \<mapsto> f)) x"
  proof (cases "x = ob")
    case True
    then show ?thesis using table_lookup [OF ok' c', of x f] a it by auto
  next
    case False
    have "finalizers_of t' T' x = Some g \<longleftrightarrow> finalizers_of t T x = Some g" for g
      unfolding table_lookup [OF ok' c'] table_lookup [OF ok c] T' it using False old by (auto split: if_splits) metis
    then have "finalizers_of t' T' x = finalizers_of t T x" by (metis option.exhaust)
    then show ?thesis using False by simp
  qed
qed


lemma set_finalizer_spec:
  assumes ok: "tree_ok t T F" and c: "cmp t = finalizer_cmp" and xm: "xmalloc_ok xmalloc"
  shows "\<exists>t' T' F'. sml_set_finalizer xmalloc junk ob f t = Some t' \<and> tree_ok t' T' F' \<and> cmp t' = finalizer_cmp \<and>
    finalizers_of t' T' = (finalizers_of t T)(ob \<mapsto> f)"
proof -
  let ?key = "\<lparr>obj = ob, fin = junk\<rparr>" and ?set = "\<lambda>x. x\<lparr>fin := f\<rparr>"
  have eq0: "finalizer_cmp ?key y = 0 \<longleftrightarrow> obj y = ob" for y by (auto simp: finalizer_cmp_def voidp_cmp_simps)
  from finalizers.find_spec [OF ok c, of ?key] obtain p t1 T1 where
    1: "sml_tree_find t ?key = Some (p, t1)" and ok1: "tree_ok t1 T1 F" and c1: "cmp t1 = finalizer_cmp"
    and sz: "item_size t1 = item_size t" and i1: "items t1 T1 = items t T" and T1: "inorder T1 = inorder T"
    and p: "if \<exists>y\<in>set (items t T). obj y = ob then \<exists>a\<in>set_tree T. p = ITEM_OF t a \<and> obj (item (nodes t a)) = ob else p = NULL"
    unfolding eq0 by blast
  have s1: "set_tree T1 = set_tree T" using T1 by (metis set_inorder)
  have n1: "item (nodes t1 b) = item (nodes t b)" if "b \<in> set_tree T" for b
    using i1 that by (simp add: items_def T1)
  have t1: "finalizers_of t1 T1 = finalizers_of t T" by (simp add: finalizers_of_def i1)
  show ?thesis
  proof (cases "\<exists>y\<in>set (items t T). obj y = ob")
    case True
    then obtain a where a: "a \<in> set_tree T" "p = ITEM_OF t1 a" "obj (item (nodes t1 a)) = ob"
      using p n1 sz by (auto simp: ITEM_OF_def)
    have a1: "a \<in> set_tree T1" using a s1 by simp
    note w = write_item_ok [OF ok1 a1, of ?set]
    let ?t = "write_item t1 p ?set"
    have ok2: "tree_ok ?t T1 F" "cmp ?t = finalizer_cmp" and n2: "item (nodes ?t b) = (if b = a then \<lparr>obj = ob, fin = f\<rparr> else item (nodes t1 b))" for b
      using w a c1 by (simp_all add: finalizer_cmp_def)
    have "finalizers_of ?t T1 = (finalizers_of t1 T1)(ob \<mapsto> f)"
    proof (rule table_update [OF ok1 c1 ok2 a1 _ n2])
      fix b assume b: "b \<in> set_tree T1" "obj (item (nodes t1 b)) = ob"
      have "ordered finalizer_cmp (\<lambda>a. item (nodes t1 a)) (inorder T1)" using ok1 c1 by (simp add: tree_ok_def)
      then show "b = a" by (rule finalizers.ordered_inj) (use a a1 b in \<open>auto simp: finalizer_cmp_def voidp_cmp_simps\<close>)
    qed (use a a1 in auto)
    moreover have "sml_set_finalizer xmalloc junk ob f t = Some ?t"
      using 1 item_of_pos(1) [OF ok1 a1] a by (simp add: sml_set_finalizer_def)
    ultimately show ?thesis using ok2 t1 by auto
  next
    case False
    then have p0: "p = NULL" and no: "\<And>b. b \<in> set_tree T1 \<Longrightarrow> obj (item (nodes t1 b)) \<noteq> ob"
      using p s1 n1 by (auto simp: items_def)
    from finalizers.insert_shape [OF ok1 c1 xm, of ?key] obtain q t2 T2 F2 a xs ys where
      2: "sml_tree_insert xmalloc t1 ?key = Some (q, t2)" and ok2: "tree_ok t2 T2 F2" and c2: "cmp t2 = finalizer_cmp"
      and sz2: "item_size t2 = item_size t1" and q: "q = ITEM_OF t1 a" and T2: "inorder T2 = xs @ a # ys"
      and T1': "inorder T1 = xs @ ys \<or> inorder T1 = xs @ a # ys \<and> obj (item (nodes t1 a)) = ob"
      and n2: "\<And>b. item (nodes t2 b) = (if b = a then ?key else item (nodes t1 b))"
      unfolding eq0 by blast
    have a1: "a \<in> set_tree T2" using T2 by (simp flip: set_inorder_tree)
    have "inorder T1 = xs @ ys" using T1' no [of a] by (auto simp flip: set_inorder_tree)
    then have sT: "set_tree T2 = insert a (set_tree T1)" "a \<notin> set_tree T1"
      using T2 ok2 by (auto simp: tree_ok_def simp flip: set_inorder_tree)
    have q2: "q = ITEM_OF t2 a" using q sz2 by (simp add: ITEM_OF_def)
    note w = write_item_ok [OF ok2 a1, of ?set]
    let ?t = "write_item t2 q ?set"
    have ok3: "tree_ok ?t T2 F2" "cmp ?t = finalizer_cmp" and n3: "item (nodes ?t b) = (if b = a then \<lparr>obj = ob, fin = f\<rparr> else item (nodes t1 b))" for b
      using w q2 c2 n2 by (simp_all add: finalizer_cmp_def)
    have "finalizers_of ?t T2 = (finalizers_of t1 T1)(ob \<mapsto> f)"
      by (rule table_update [OF ok1 c1 ok3 a1 sT(1) n3]) (use sT no in auto)
    moreover have "sml_set_finalizer xmalloc junk ob f t = Some ?t"
      using 1 2 p0 by (simp add: sml_set_finalizer_def)
    ultimately show ?thesis using ok3 t1 by auto
  qed
qed

text \<open>The calls of \<open>each_run\<close> on a sequence of entries.\<close>

lemma each_run_items:
  assumes "\<And>g ob w. alive (call g ob w) = alive w"
  shows "reject_items (each_run alive call) id xs w =
    (filter (\<lambda>x. alive w (obj x)) xs, filter (\<lambda>x. \<not> alive w (obj x)) xs,
     fold (\<lambda>x. call (fin x) (obj x)) (filter (\<lambda>x. \<not> alive w (obj x) \<and> fin x \<noteq> NULL) xs) w)"
  by (induction xs arbitrary: w) (auto simp: each_run_def assms)

lemma run_finalizer_spec:
  assumes ok: "tree_ok t T F" and c: "cmp t = finalizer_cmp" and call: "\<And>g ob w. alive (call g ob w) = alive w"
  shows "\<exists>t' T' F'. sml_run_finalizer alive call t w =
      Some (t', fold (\<lambda>x. call (fin x) (obj x)) (filter (\<lambda>x. \<not> alive w (obj x) \<and> fin x \<noteq> NULL) (items t T)) w) \<and>
    tree_ok t' T' F' \<and> cmp t' = finalizer_cmp \<and> items t' T' = filter (\<lambda>x. alive w (obj x)) (items t T)"
proof -
  from finalizers.reject_spec [OF ok c each_run_items [of alive call, OF call]] obtain t1 T1 F1 where
    1: "sml_tree_reject (each_run alive call) t w =
      Some (t1, fold (\<lambda>x. call (fin x) (obj x)) (filter (\<lambda>x. \<not> alive w (obj x) \<and> fin x \<noteq> NULL) (items t T)) w)"
    and 2: "tree_ok t1 T1 F1" "cmp t1 = finalizer_cmp" "items t1 T1 = filter (\<lambda>x. alive w (obj x)) (items t T)" by blast
  from finalizers.rebuild_ordered [OF 2(1,2)] show ?thesis using 1 2(3) by (auto simp: sml_run_finalizer_def)
qed

text \<open>A table with one entry, for the witnesses.\<close>

definition no_nodes :: "finalizer nodes" where
  "no_nodes = (\<lambda>_. \<lparr>child = (\<lambda>_. NULL), nd_back = BackNode NULL, item = \<lparr>obj = 4096, fin = 8\<rparr>\<rparr>)"

definition sample_finalizers :: "finalizer sml_tree" where
  "sample_finalizers =
     \<lparr>cmp = finalizer_cmp, item_size = 16, alloc_size = SIZEOF_NODE 16, root = 32,
      chunk = [\<lparr>chunk_begin = 16, chunk_free = 64\<rparr>], freelist = NULL, nodes = no_nodes\<rparr>"

lemma sample_finalizers_ok:
  "tree_ok sample_finalizers \<langle>\<langle>\<rangle>, 32, \<langle>\<rangle>\<rangle> []" "cmp sample_finalizers = finalizer_cmp"
  "items sample_finalizers \<langle>\<langle>\<rangle>, 32, \<langle>\<rangle>\<rangle> = [\<lparr>obj = 4096, fin = 8\<rparr>]"
  using sizeof_node_bound [of 16]
  by (simp_all add: tree_ok_def items_def sample_finalizers_def no_nodes_def ordered_def chunks_ok_def in_chunks_def
      NODE_OFFSET_def CEILING_def CHUNK_SIZE_def)

text \<open>
  C30: the table of finalizers is a map from objects to functions, and \<open>sml_set_finalizer\<close> returns and
  updates it at one object, whether or not the object had a finalizer; the uninitialised field of
  the search key does not matter.
\<close>

theorem set_finalizer_updates_map:
  assumes "tree_ok t T F" and "cmp t = finalizer_cmp" and "xmalloc_ok xmalloc"
  shows "\<exists>t' T' F'. sml_set_finalizer xmalloc junk ob f t = Some t' \<and> tree_ok t' T' F' \<and> cmp t' = finalizer_cmp \<and>
    finalizers_of t' T' = (finalizers_of t T)(ob \<mapsto> f)"
  using set_finalizer_spec [OF assms] .

theorem set_finalizer_updates_map_witness:
  "\<exists>t' T' F'. sml_set_finalizer sample_xmalloc 77 5000 24 sample_finalizers = Some t' \<and> tree_ok t' T' F' \<and>
     cmp t' = finalizer_cmp \<and> finalizers_of t' T' = [4096 \<mapsto> 8, 5000 \<mapsto> 24]"
  using set_finalizer_updates_map [OF sample_finalizers_ok(1,2) sample_xmalloc_ok, of 77 5000 24]
  by (simp add: finalizers_of_def sample_finalizers_ok(3) fun_upd_twist)

text \<open>
  C31: \<open>sml_run_finalizer\<close> returns; it calls the finalizers of exactly the dead objects of the table,
  each once and in the order of their addresses, removes their entries, and keeps the entries of
  the live objects in a well-formed table.  Finalizers do not change which objects are alive.
\<close>

theorem run_finalizer_dead_objects:
  assumes "tree_ok t T F" and "cmp t = finalizer_cmp" and "\<And>g ob w. alive (call g ob w) = alive w"
  shows "\<exists>t' T' F'. sml_run_finalizer alive call t w =
      Some (t', fold (\<lambda>x. call (fin x) (obj x)) (filter (\<lambda>x. \<not> alive w (obj x) \<and> fin x \<noteq> NULL) (items t T)) w) \<and>
    tree_ok t' T' F' \<and> items t' T' = filter (\<lambda>x. alive w (obj x)) (items t T)"
  using run_finalizer_spec [of t T F alive call w, OF assms] by blast

theorem run_finalizer_dead_objects_witness:
  "\<exists>t' T' F'. sml_run_finalizer (\<lambda>_ ob. ob < 100) (\<lambda>g ob w. w @ [(g, ob)]) sample_finalizers [] = Some (t', [(8, 4096)]) \<and>
     tree_ok t' T' F' \<and> items t' T' = []"
  using run_finalizer_dead_objects [OF sample_finalizers_ok(1,2), of "\<lambda>_ ob. ob < 100" "\<lambda>g ob w. w @ [(g, ob)]" "[]"]
  by (simp add: sample_finalizers_ok(3))

end
