(* ===== verification/Callback.thy ===== *)
theory Callback
  imports Finalize Object
begin

text \<open>
  The callback closures of \<open>callback.c\<close>: for every code address and closure environment, compared
  by \<open>sml_obj_equal\<close>, one slot that holds the trampoline of the callback.  The slots live in a splay tree
  ordered by code address and a running number, and the slots of one code address form a list.
\<close>

section \<open>The table\<close>

text \<open>
  The number \<open>cb_count\<close>, an \<open>int\<close> in the code, starts at zero and is counted up, so that it is a natural number here;
  it stays below the number of callbacks of one code address, and its overflow is not modelled.
\<close>

record callback_item =
  cb_trampoline :: addr
  cb_env :: addr
  cb_codeaddr :: addr
  cb_count :: nat
  cb_next :: addr

definition callback_cmp :: "callback_item \<Rightarrow> callback_item \<Rightarrow> int" where
  "callback_cmp item1 item2 =
     (let r = voidp_cmp (cb_codeaddr item1) (cb_codeaddr item2)
      in if r \<noteq> 0 then r else int (cb_count item1) - int (cb_count item2))"

abbreviation (input) SIZEOF_CALLBACK_ITEM :: nat where "SIZEOF_CALLBACK_ITEM \<equiv> 40"

definition sml_callback_init :: "callback_item nodes \<Rightarrow> callback_item sml_tree" where
  "sml_callback_init mem = sml_tree_new callback_cmp SIZEOF_CALLBACK_ITEM mem"

definition sml_callback_destroy :: "callback_item sml_tree \<Rightarrow> addr list" where
  "sml_callback_destroy callback_closures = sml_tree_destroy callback_closures"

text \<open>
  The environments that \<open>trace_each\<close> gives to the trace function for one item: its own and those of
  the items behind it.
\<close>

partial_function (option) trace_chain :: "callback_item sml_tree \<Rightarrow> addr \<Rightarrow> addr list \<Rightarrow> addr list option" where
  "trace_chain t cb envs =
     (if cb = NULL then Some envs else trace_chain t (cb_next (read_item t cb)) (envs @ [cb_env (read_item t cb)]))"

definition trace_each :: "callback_item sml_tree \<Rightarrow> callback_item \<Rightarrow> addr list option \<Rightarrow> callback_item \<times> addr list option" where
  "trace_each t it s = (it, Option.bind s (\<lambda>envs. trace_chain t (cb_next it) (envs @ [cb_env it])))"

definition sml_callback_enum_ptr :: "callback_item sml_tree \<Rightarrow> (addr list \<times> callback_item sml_tree) option" where
  "sml_callback_enum_ptr t =
     Option.bind (sml_tree_each (trace_each t) t (Some [])) (\<lambda>(t', s). map_option (\<lambda>envs. (envs, t')) s)"

text \<open>
  The loop of \<open>sml_find_callback\<close> along the list of a code address: whether an equal environment was
  found, the item it stopped at, and the next number.
\<close>

partial_function (option) search_callback ::
  "(addr \<Rightarrow> addr \<Rightarrow> bool result option) \<Rightarrow> addr \<Rightarrow> callback_item sml_tree \<Rightarrow> addr \<Rightarrow> nat \<Rightarrow> (bool \<times> addr \<times> nat) result option" where
  "search_callback equal env t found n =
     andthen (equal env (cb_env (read_item t found))) (\<lambda>eq.
       if eq then ret (True, found, n)
       else if cb_next (read_item t found) = NULL then ret (False, found, n + 1)
       else search_callback equal env t (cb_next (read_item t found)) (n + 1))"

definition init_callback :: "addr \<Rightarrow> addr \<Rightarrow> addr \<Rightarrow> callback_item sml_tree \<Rightarrow> callback_item sml_tree" where
  "init_callback codeaddr env it t =
     write_item t it (\<lambda>x. x\<lparr>cb_codeaddr := codeaddr, cb_trampoline := NULL, cb_env := env, cb_next := NULL\<rparr>)"

text \<open>
  \<open>sml_find_callback\<close> for a comparison of environments: the code compares them by \<open>sml_obj_equal\<close>.  The result is the
  address of the slot.  The other fields of the key are not initialised: \<open>junk\<close>.
\<close>

definition find_callback ::
  "(chunk list \<Rightarrow> addr) \<Rightarrow> (addr \<Rightarrow> addr \<Rightarrow> bool result option) \<Rightarrow> callback_item \<Rightarrow> addr \<Rightarrow> addr
   \<Rightarrow> callback_item sml_tree \<Rightarrow> (addr \<times> callback_item sml_tree) result option" where
  "find_callback xmalloc equal junk codeaddr env t =
     (let key = junk\<lparr>cb_codeaddr := codeaddr, cb_count := 0\<rparr>
      in Option.bind (sml_tree_find t key) (\<lambda>(found, t1).
           if found \<noteq> NULL then
             andthen (search_callback equal env t1 found 0) (\<lambda>(hit, last_item, n).
               if hit then ret (last_item, t1)
               else Option.bind (sml_tree_insert xmalloc t1 (key\<lparr>cb_count := n\<rparr>)) (\<lambda>(it, t2).
                 ret (it, init_callback codeaddr env it (write_item t2 last_item (\<lambda>x. x\<lparr>cb_next := it\<rparr>)))))
           else
             Option.bind (sml_tree_insert xmalloc t1 key) (\<lambda>(it, t2).
               ret (it, init_callback codeaddr env it t2))))"

definition sml_find_callback ::
  "(chunk list \<Rightarrow> addr) \<Rightarrow> (addr \<Rightarrow> addr \<Rightarrow> int) \<Rightarrow> mem \<Rightarrow> nat \<Rightarrow> callback_item \<Rightarrow> addr \<Rightarrow> addr
   \<Rightarrow> callback_item sml_tree \<Rightarrow> (addr \<times> callback_item sml_tree) result option" where
  "sml_find_callback xmalloc sml_intinf_cmp m fuel = find_callback xmalloc (sml_obj_equal sml_intinf_cmp m fuel)"

section \<open>Trampolines\<close>

definition TRAMPOLINE_SIZE :: nat where "TRAMPOLINE_SIZE = 80"

text \<open>
  \<open>sml_alloc_code\<close> cuts trampolines out of pages from \<open>mmap\<close>, a parameter: the address of a new page, or
  none, which is fatal.  The heap is given by its \<open>base\<close> and \<open>end\<close>.
\<close>

definition sml_alloc_code :: "addr option \<Rightarrow> nat \<Rightarrow> addr \<times> addr \<Rightarrow> (addr \<times> addr \<times> addr) result" where
  "sml_alloc_code mmap pagesize trampoline_heap =
     (case (if snd trampoline_heap - fst trampoline_heap < TRAMPOLINE_SIZE
            then map_option (\<lambda>p. (p, p + pagesize)) mmap else Some trampoline_heap) of
        None \<Rightarrow> Inl (Fatal ''mmap'')
      | Some (base, lim) \<Rightarrow> Inr (base, base + TRAMPOLINE_SIZE, lim))"

section \<open>The order of slots\<close>

lemma callback_cmp_simps:
  "callback_cmp x y < 0 \<longleftrightarrow> cb_codeaddr x < cb_codeaddr y \<or> cb_codeaddr x = cb_codeaddr y \<and> cb_count x < cb_count y"
  "0 < callback_cmp x y \<longleftrightarrow> cb_codeaddr y < cb_codeaddr x \<or> cb_codeaddr x = cb_codeaddr y \<and> cb_count y < cb_count x"
  "callback_cmp x y = 0 \<longleftrightarrow> cb_codeaddr x = cb_codeaddr y \<and> cb_count x = cb_count y"
  by (auto simp: callback_cmp_def voidp_cmp_def Let_def)

lemma callback_cmp_key:
  assumes "cb_codeaddr x' = cb_codeaddr x" and "cb_count x' = cb_count x"
  shows "callback_cmp x' z = callback_cmp x z" and "callback_cmp z x' = callback_cmp z x"
  using assms by (simp_all add: callback_cmp_def Let_def)

interpretation callbacks: item_order callback_cmp
  by unfold_locales (auto simp: callback_cmp_simps)

text \<open>The slots of the table \<open>S\<close> with their contents \<open>h\<close> and their addresses \<open>A\<close>.\<close>

abbreviation (input) same_code :: "(addr \<Rightarrow> callback_item) \<Rightarrow> addr \<Rightarrow> addr \<Rightarrow> bool" where
  "same_code h a b \<equiv> cb_codeaddr (h b) = cb_codeaddr (h a)"

definition linked :: "(addr \<Rightarrow> callback_item) \<Rightarrow> addr set \<Rightarrow> (addr \<Rightarrow> addr) \<Rightarrow> bool" where
  "linked h S A \<longleftrightarrow>
     (\<forall>a\<in>S. cb_count (h a) = 0 \<or> (\<exists>b\<in>S. same_code h a b \<and> Suc (cb_count (h b)) = cb_count (h a))) \<and>
     (\<forall>a\<in>S. cb_next (h a) = NULL \<longrightarrow> (\<forall>b\<in>S. same_code h a b \<longrightarrow> cb_count (h b) \<noteq> Suc (cb_count (h a)))) \<and>
     (\<forall>a\<in>S. cb_next (h a) \<noteq> NULL \<longrightarrow> (\<exists>b\<in>S. cb_next (h a) = A b \<and> same_code h a b \<and> cb_count (h b) = Suc (cb_count (h a))))"

definition envs_differ :: "(addr \<Rightarrow> addr \<Rightarrow> bool) \<Rightarrow> (addr \<Rightarrow> callback_item) \<Rightarrow> addr set \<Rightarrow> bool" where
  "envs_differ eq h S \<longleftrightarrow> (\<forall>a\<in>S. \<forall>b\<in>S. a \<noteq> b \<longrightarrow> same_code h a b \<longrightarrow> \<not> eq (cb_env (h a)) (cb_env (h b)))"

definition keys_unique :: "(addr \<Rightarrow> callback_item) \<Rightarrow> addr set \<Rightarrow> bool" where
  "keys_unique h S \<longleftrightarrow> (\<forall>a\<in>S. \<forall>b\<in>S. same_code h a b \<longrightarrow> cb_count (h b) = cb_count (h a) \<longrightarrow> a = b)"

abbreviation (input) contents :: "callback_item sml_tree \<Rightarrow> addr \<Rightarrow> callback_item" where
  "contents t \<equiv> \<lambda>a. item (nodes t a)"

definition callbacks_ok :: "(addr \<Rightarrow> addr \<Rightarrow> bool) \<Rightarrow> callback_item sml_tree \<Rightarrow> addr tree \<Rightarrow> bool" where
  "callbacks_ok eq t T \<longleftrightarrow> cmp t = callback_cmp \<and> linked (contents t) (set_tree T) (ITEM_OF t) \<and>
     envs_differ eq (contents t) (set_tree T)"

lemma tree_keys_unique:
  assumes "tree_ok t T F" and "cmp t = callback_cmp"
  shows "keys_unique (contents t) (set_tree T)"
proof -
  have od: "ordered callback_cmp (contents t) (inorder T)" using assms by (simp add: tree_ok_def)
  show ?thesis
    unfolding keys_unique_def
    by (intro ballI impI callbacks.ordered_inj [OF od]) (simp_all add: callback_cmp_simps)
qed

lemma linked_nextD:
  "linked h S A \<Longrightarrow> a \<in> S \<Longrightarrow> cb_next (h a) \<noteq> NULL \<Longrightarrow>
     \<exists>b\<in>S. cb_next (h a) = A b \<and> same_code h a b \<and> cb_count (h b) = Suc (cb_count (h a))"
  by (simp add: linked_def)

text \<open>The numbers of a code address have no gaps.\<close>

lemma linked_down:
  assumes "linked h S A" and "a \<in> S" and "i \<le> cb_count (h a)"
  shows "\<exists>b\<in>S. same_code h a b \<and> cb_count (h b) = i"
  using assms(2,3)
proof (induction "cb_count (h a) - i" arbitrary: a)
  case (Suc k)
  then have "cb_count (h a) \<noteq> 0" by auto
  then obtain b where b: "b \<in> S" "same_code h a b" "Suc (cb_count (h b)) = cb_count (h a)"
    using assms(1) Suc.prems(1) unfolding linked_def by metis
  have "k = cb_count (h b) - i" "i \<le> cb_count (h b)" using Suc.hyps(2) Suc.prems(2) b(3) by auto
  from Suc.hyps(1) [OF this(1) b(1) this(2)] show ?case using b(2) by auto
qed auto

section \<open>Searching a slot\<close>

lemma search_spec:
  assumes ok: "tree_ok t T F" and c: "cmp t = callback_cmp" and lk: "linked (contents t) (set_tree T) (ITEM_OF t)"
    and equal: "\<And>a. a \<in> set_tree T \<Longrightarrow> equal env (cb_env (contents t a)) = ret (eq env (cb_env (contents t a)))"
    and "a \<in> set_tree T" and "cb_codeaddr (contents t a) = code"
    and "\<forall>b\<in>set_tree T. cb_codeaddr (contents t b) = code \<longrightarrow> cb_count (contents t b) < cb_count (contents t a) \<longrightarrow>
      \<not> eq env (cb_env (contents t b))"
  shows "\<exists>hit b. search_callback equal env t (ITEM_OF t a) (cb_count (contents t a)) =
      ret (hit, ITEM_OF t b, if hit then cb_count (contents t b) else Suc (cb_count (contents t b))) \<and>
    b \<in> set_tree T \<and> cb_codeaddr (contents t b) = code \<and>
    (if hit then eq env (cb_env (contents t b))
     else cb_next (contents t b) = NULL \<and> (\<forall>d\<in>set_tree T. cb_codeaddr (contents t d) = code \<longrightarrow> \<not> eq env (cb_env (contents t d))))"
  using assms(5-7)
proof (induction "card {d \<in> set_tree T. cb_codeaddr (contents t d) = code \<and> cb_count (contents t a) \<le> cb_count (contents t d)}"
    arbitrary: a rule: less_induct)
  case less
  let ?h = "contents t" and ?S = "set_tree T"
  have rd: "read_item t (ITEM_OF t a) = ?h a" by (rule read_item_of [OF ok less.prems(1) refl])
  have key: "d = a" if "d \<in> ?S" "cb_codeaddr (?h d) = code" "cb_count (?h d) = cb_count (?h a)" for d
    using tree_keys_unique [OF ok c] that less.prems(1,2) unfolding keys_unique_def by metis
  note run = search_callback.simps [of equal env t "ITEM_OF t a" "cb_count (?h a)", unfolded rd equal [OF less.prems(1)]]
  consider (hit) "eq env (cb_env (?h a))"
    | (stop) "\<not> eq env (cb_env (?h a))" "cb_next (?h a) = NULL"
    | (go) "\<not> eq env (cb_env (?h a))" "cb_next (?h a) \<noteq> NULL" by blast
  then show ?case
  proof cases
    case hit
    then show ?thesis using run less.prems by (intro exI [of _ True] exI [of _ a]) simp
  next
    case stop
    have "\<not> eq env (cb_env (?h d))" if d: "d \<in> ?S" "cb_codeaddr (?h d) = code" for d
    proof (cases "cb_count (?h d)" "cb_count (?h a)" rule: linorder_cases)
      case greater
      then obtain e where "e \<in> ?S" "cb_codeaddr (?h e) = cb_codeaddr (?h d)" "cb_count (?h e) = Suc (cb_count (?h a))"
        using linked_down [OF lk d(1), of "Suc (cb_count (?h a))"] by auto
      then show ?thesis using lk stop(2) less.prems(1,2) d(2) unfolding linked_def by metis
    qed (use less.prems(3) d key stop in auto)
    then show ?thesis using run stop less.prems by (intro exI [of _ False] exI [of _ a]) simp
  next
    case go
    then obtain b where b: "b \<in> ?S" "cb_next (?h a) = ITEM_OF t b" "cb_codeaddr (?h b) = code" "cb_count (?h b) = Suc (cb_count (?h a))"
      using lk less.prems(1,2) unfolding linked_def by metis
    have "\<forall>d\<in>?S. cb_codeaddr (?h d) = code \<longrightarrow> cb_count (?h d) < cb_count (?h b) \<longrightarrow> \<not> eq env (cb_env (?h d))"
      using less.prems(3) key go(1) b(4) by (metis less_Suc_eq)
    moreover have "card {d \<in> ?S. cb_codeaddr (?h d) = code \<and> cb_count (?h b) \<le> cb_count (?h d)}
        < card {d \<in> ?S. cb_codeaddr (?h d) = code \<and> cb_count (?h a) \<le> cb_count (?h d)}"
    proof (rule psubset_card_mono)
      let ?L = "{d \<in> ?S. cb_codeaddr (?h d) = code \<and> cb_count (?h b) \<le> cb_count (?h d)}"
      let ?R = "{d \<in> ?S. cb_codeaddr (?h d) = code \<and> cb_count (?h a) \<le> cb_count (?h d)}"
      have "a \<in> ?R" "a \<notin> ?L" "?L \<subseteq> ?R" using less.prems b(4) by auto
      then show "?L \<subset> ?R" by blast
    qed simp
    moreover have "search_callback equal env t (ITEM_OF t a) (cb_count (?h a)) = search_callback equal env t (ITEM_OF t b) (cb_count (?h b))"
      using run go b(2,4) by simp
    ultimately show ?thesis using less.hyps [of b] b(1,3) by simp
  qed
qed

text \<open>A new slot behind the last one of its code address, or the first one of a new code address.\<close>

lemma linked_extend:
  assumes lk: "linked h S A" and a: "a \<notin> S" "A a \<noteq> NULL"
    and ha: "cb_codeaddr (h' a) = code" "cb_count (h' a) = n" "cb_next (h' a) = NULL"
    and top: "\<And>d. d \<in> S \<Longrightarrow> cb_codeaddr (h d) = code \<Longrightarrow> cb_count (h d) < n"
    and pre: "n = 0 \<or> (\<exists>b\<in>S. cb_codeaddr (h b) = code \<and> Suc (cb_count (h b)) = n)"
    and same: "\<And>d. d \<in> S \<Longrightarrow> cb_codeaddr (h' d) = cb_codeaddr (h d)" "\<And>d. d \<in> S \<Longrightarrow> cb_count (h' d) = cb_count (h d)"
    and nx: "\<And>d. d \<in> S \<Longrightarrow> cb_next (h' d) = (if cb_codeaddr (h d) = code \<and> Suc (cb_count (h d)) = n then A a else cb_next (h d))"
  shows "linked h' (insert a S) A"
proof -
  have p1: "cb_count (h' d) = 0 \<or> (\<exists>b\<in>insert a S. same_code h' d b \<and> Suc (cb_count (h' b)) = cb_count (h' d))"
    if d: "d \<in> insert a S" for d
  proof (cases "d = a")
    case True
    then show ?thesis using pre ha same by force
  next
    case False
    then have "cb_count (h d) = 0 \<or> (\<exists>b\<in>S. same_code h d b \<and> Suc (cb_count (h b)) = cb_count (h d))"
      using lk d unfolding linked_def by blast
    then show ?thesis using d False same by (metis insert_iff)
  qed
  have p2: "cb_count (h' b) \<noteq> Suc (cb_count (h' d))"
    if d: "d \<in> insert a S" "cb_next (h' d) = NULL" and b: "b \<in> insert a S" "same_code h' d b" for b d
  proof (cases "d = a")
    case True
    then show ?thesis using b ha top [of b] same [of b] by fastforce
  next
    case False
    then have dS: "d \<in> S" and n: "\<not> (cb_codeaddr (h d) = code \<and> Suc (cb_count (h d)) = n)" "cb_next (h d) = NULL"
      using d nx [of d] a(2) by (auto split: if_splits)
    show ?thesis
    proof (cases "b = a")
      case True
      then show ?thesis using n(1) b(2) ha same [OF dS] by auto
    next
      case False
      then have "b \<in> S" using b by simp
      then show ?thesis using lk dS n(2) b(2) same unfolding linked_def by metis
    qed
  qed
  have p3: "\<exists>b\<in>insert a S. cb_next (h' d) = A b \<and> same_code h' d b \<and> cb_count (h' b) = Suc (cb_count (h' d))"
    if d: "d \<in> insert a S" "cb_next (h' d) \<noteq> NULL" for d
  proof -
    have dS: "d \<in> S" using d ha(3) by auto
    show ?thesis
    proof (cases "cb_codeaddr (h d) = code \<and> Suc (cb_count (h d)) = n")
      case True
      then show ?thesis using nx [OF dS] ha same [OF dS] by auto
    next
      case False
      then have "cb_next (h' d) = cb_next (h d)" using nx [OF dS] by (simp only: if_False)
      then obtain b where "b \<in> S" "cb_next (h' d) = A b" "same_code h d b" "cb_count (h b) = Suc (cb_count (h d))"
        using linked_nextD [OF lk dS] d(2) by auto
      then show ?thesis using same [OF dS] same [of b] by (intro bexI [of _ b]) simp_all
    qed
  qed
  show ?thesis unfolding linked_def using p1 p2 p3 by (intro conjI ballI impI)
qed

lemma envs_differ_extend:
  assumes "envs_differ eq h S" and "\<And>d. d \<in> S \<Longrightarrow> cb_codeaddr (h d) = cb_codeaddr (h' a) \<Longrightarrow> \<not> eq (cb_env (h' a)) (cb_env (h d))"
    and "\<And>d. d \<in> S \<Longrightarrow> cb_codeaddr (h' d) = cb_codeaddr (h d) \<and> cb_env (h' d) = cb_env (h d)" and "\<And>x y. eq x y \<longleftrightarrow> eq y x"
  shows "envs_differ eq h' (insert a S)"
  using assms unfolding envs_differ_def by (metis insert_iff)

text \<open>The insertion of a new slot, with the link from the last slot of its code address if there is one.\<close>

definition link_last :: "callback_item sml_tree \<Rightarrow> addr option \<Rightarrow> addr \<Rightarrow> callback_item sml_tree \<Rightarrow> callback_item sml_tree" where
  "link_last t1 lst q t2 = (case lst of None \<Rightarrow> t2 | Some b \<Rightarrow> write_item t2 (ITEM_OF t1 b) (\<lambda>x. x\<lparr>cb_next := q\<rparr>))"

lemma add_slot:
  assumes ok: "tree_ok t T F" and cb: "callbacks_ok eq t T" and xm: "xmalloc_ok xm" and sym: "\<And>x y. eq x y \<longleftrightarrow> eq y x"
    and key: "cb_codeaddr key = code" "cb_count key = n"
    and top: "\<And>d. d \<in> set_tree T \<Longrightarrow> cb_codeaddr (contents t d) = code \<Longrightarrow> cb_count (contents t d) < n"
    and none: "\<And>d. d \<in> set_tree T \<Longrightarrow> cb_codeaddr (contents t d) = code \<Longrightarrow> \<not> eq env (cb_env (contents t d))"
    and pre: "lst = None \<and> n = 0 \<or>
      (\<exists>b. lst = Some b \<and> b \<in> set_tree T \<and> cb_codeaddr (contents t b) = code \<and> Suc (cb_count (contents t b)) = n)"
  shows "\<exists>a t2 t' T' F'. sml_tree_insert xm t key = Some (ITEM_OF t a, t2) \<and>
    t' = init_callback code env (ITEM_OF t a) (link_last t lst (ITEM_OF t a) t2) \<and>
    tree_ok t' T' F' \<and> callbacks_ok eq t' T' \<and> item_size t' = item_size t \<and> a \<notin> set_tree T \<and> set_tree T' = insert a (set_tree T) \<and>
    cb_codeaddr (contents t' a) = code \<and> cb_env (contents t' a) = env \<and> cb_trampoline (contents t' a) = NULL \<and>
    (\<forall>b\<in>set_tree T. contents t' b = (contents t b)\<lparr>cb_next := cb_next (contents t' b)\<rparr>)"
proof -
  have c: "cmp t = callback_cmp" and lk: "linked (contents t) (set_tree T) (ITEM_OF t)" and ed: "envs_differ eq (contents t) (set_tree T)"
    using cb by (simp_all add: callbacks_ok_def)
  from callbacks.insert_shape [OF ok c xm, of key] obtain q t2 T2 F2 a xs ys where
    ins: "sml_tree_insert xm t key = Some (q, t2)" and ok2: "tree_ok t2 T2 F2" and c2: "cmp t2 = callback_cmp"
    and sz: "item_size t2 = item_size t" and q: "q = ITEM_OF t a" and T2: "inorder T2 = xs @ a # ys"
    and T: "inorder T = xs @ ys \<or> inorder T = xs @ a # ys \<and> callback_cmp key (contents t a) = 0"
    and h2: "\<And>b. contents t2 b = (if b = a then key else contents t b)" by blast
  have a2: "a \<in> set_tree T2" using T2 by (simp flip: set_inorder_tree)
  have "inorder T = xs @ ys"
  proof (rule ccontr)
    assume "inorder T \<noteq> xs @ ys"
    then have "a \<in> set_tree T" "callback_cmp key (contents t a) = 0" using T by (auto simp flip: set_inorder_tree)
    then show False using top [of a] key by (simp add: callback_cmp_simps)
  qed
  then have sT: "set_tree T2 = insert a (set_tree T)" "a \<notin> set_tree T"
    using T2 ok2 by (auto simp: tree_ok_def simp flip: set_inorder_tree)
  have A2: "ITEM_OF t2 b = ITEM_OF t b" for b using sz by (simp add: ITEM_OF_def)
  let ?t3 = "link_last t lst q t2"
  let ?nx = "\<lambda>b. if cb_codeaddr (contents t b) = code \<and> Suc (cb_count (contents t b)) = n then q else cb_next (contents t b)"
  have t3: "tree_ok ?t3 T2 F2 \<and> cmp ?t3 = callback_cmp \<and> item_size ?t3 = item_size t \<and>
    (\<forall>b\<in>set_tree T. contents ?t3 b = (contents t b)\<lparr>cb_next := ?nx b\<rparr>) \<and> contents ?t3 a = key"
    using pre
  proof (elim disjE exE conjE)
    assume "lst = None" "n = 0"
    then show ?thesis using ok2 c2 sz h2 sT(2) by (auto simp: link_last_def)
  next
    fix b assume b: "lst = Some b" "b \<in> set_tree T" "cb_codeaddr (contents t b) = code" "Suc (cb_count (contents t b)) = n"
    have b2: "b \<in> set_tree T2" "b \<noteq> a" using b sT by auto
    have e: "?t3 = write_item t2 (ITEM_OF t2 b) (\<lambda>x. x\<lparr>cb_next := q\<rparr>)" using b by (simp add: link_last_def A2)
    have k: "cmp t2 (x\<lparr>cb_next := q\<rparr>) z = cmp t2 x z" "cmp t2 z (x\<lparr>cb_next := q\<rparr>) = cmp t2 z x" for x z
      using c2 callback_cmp_key [of "x\<lparr>cb_next := q\<rparr>" x z] by simp_all
    note w = write_item_ok [OF ok2 b2(1), of "\<lambda>x. x\<lparr>cb_next := q\<rparr>", OF k]
    have uq: "d = b" if "d \<in> set_tree T" "cb_codeaddr (contents t d) = code" "Suc (cb_count (contents t d)) = n" for d
      using tree_keys_unique [OF ok c] that b unfolding keys_unique_def by (metis Suc_inject)
    have "contents ?t3 d = (contents t d)\<lparr>cb_next := ?nx d\<rparr>" if "d \<in> set_tree T" for d
    proof (cases "d = b")
      case True
      then show ?thesis using b b2 unfolding e w(2) h2 by simp
    next
      case False
      then have "?nx d = cb_next (contents t d)" using uq [OF that] by auto
      then show ?thesis using False that sT(2) unfolding e w(2) h2 by auto
    qed
    then show ?thesis using w(1,2,3,4) c2 sz h2 b2 unfolding e by simp
  qed
  let ?f = "\<lambda>x :: callback_item. x\<lparr>cb_codeaddr := code, cb_trampoline := NULL, cb_env := env, cb_next := NULL\<rparr>"
  let ?t4 = "init_callback code env q ?t3"
  have A3: "q = ITEM_OF ?t3 a" using q t3 by (simp add: ITEM_OF_def)
  have e4: "?t4 = write_item ?t3 (ITEM_OF ?t3 a) ?f" using A3 by (simp add: init_callback_def)
  have w4: "tree_ok ?t4 T2 F2" "contents ?t4 d = (if d = a then ?f key else contents ?t3 d)" "cmp ?t4 = callback_cmp" "item_size ?t4 = item_size t" for d
    using write_item_ok [of ?t3 T2 F2 a ?f] t3 a2 callback_cmp_key [of "?f key" key] key unfolding e4 by simp_all
  have h4: "contents ?t4 a = ?f key" "\<And>b. b \<in> set_tree T \<Longrightarrow> contents ?t4 b = (contents t b)\<lparr>cb_next := ?nx b\<rparr>"
    using w4(2) t3 sT(2) by auto
  have "linked (contents ?t4) (insert a (set_tree T)) (ITEM_OF t)"
  proof (rule linked_extend [OF lk sT(2)])
    show "ITEM_OF t a \<noteq> NULL" using item_of_pos(1) [OF ok2 a2] A2 by simp
    show "n = 0 \<or> (\<exists>b\<in>set_tree T. cb_codeaddr (contents t b) = code \<and> Suc (cb_count (contents t b)) = n)" using pre by auto
  qed (use h4 key top q in auto)
  moreover have "envs_differ eq (contents ?t4) (insert a (set_tree T))"
    by (rule envs_differ_extend [OF ed _ _ sym]) (use h4 none in auto)
  moreover have "ITEM_OF ?t4 = ITEM_OF t" using w4(4) by (intro ext) (simp add: ITEM_OF_def)
  ultimately have "callbacks_ok eq ?t4 T2"
    using w4(3) sT(1) by (simp add: callbacks_ok_def)
  moreover have "\<forall>b\<in>set_tree T. contents ?t4 b = (contents t b)\<lparr>cb_next := cb_next (contents ?t4 b)\<rparr>" using h4(2) by simp
  ultimately show ?thesis
    using ins q w4(1,4) sT h4(1)
    by (intro exI [of _ a] exI [of _ t2] exI [of _ ?t4] exI [of _ T2] exI [of _ F2]) simp
qed

lemma find_callback_spec:
  assumes ok: "tree_ok t T F" and cb: "callbacks_ok eq t T" and xm: "xmalloc_ok xm" and sym: "\<And>x y. eq x y \<longleftrightarrow> eq y x"
    and equal: "\<And>a. a \<in> set_tree T \<Longrightarrow> equal env (cb_env (contents t a)) = ret (eq env (cb_env (contents t a)))"
  shows "\<exists>a t' T' F'. find_callback xm equal junk code env t = ret (ITEM_OF t a, t') \<and>
    tree_ok t' T' F' \<and> callbacks_ok eq t' T' \<and> item_size t' = item_size t \<and> cb_codeaddr (contents t' a) = code \<and>
    (if \<exists>b\<in>set_tree T. cb_codeaddr (contents t b) = code \<and> eq env (cb_env (contents t b))
     then a \<in> set_tree T \<and> eq env (cb_env (contents t a)) \<and> set_tree T' = set_tree T \<and> (\<forall>b\<in>set_tree T. contents t' b = contents t b)
     else a \<notin> set_tree T \<and> set_tree T' = insert a (set_tree T) \<and> cb_env (contents t' a) = env \<and> cb_trampoline (contents t' a) = NULL \<and>
       (\<forall>b\<in>set_tree T. contents t' b = (contents t b)\<lparr>cb_next := cb_next (contents t' b)\<rparr>))"
proof -
  let ?key = "junk\<lparr>cb_codeaddr := code, cb_count := 0\<rparr>"
  have c: "cmp t = callback_cmp" using cb by (simp add: callbacks_ok_def)
  have k0: "callback_cmp ?key y = 0 \<longleftrightarrow> cb_codeaddr y = code \<and> cb_count y = 0" for y by (auto simp: callback_cmp_simps)
  from callbacks.find_spec [OF ok c, of ?key] obtain p t1 T1 where
    1: "sml_tree_find t ?key = Some (p, t1)" and ok1: "tree_ok t1 T1 F" and c1: "cmp t1 = callback_cmp"
    and sz: "item_size t1 = item_size t" and i1: "items t1 T1 = items t T" and T1: "inorder T1 = inorder T"
    and p: "if \<exists>y\<in>set (items t T). cb_codeaddr y = code \<and> cb_count y = 0
      then \<exists>a\<in>set_tree T. p = ITEM_OF t a \<and> cb_codeaddr (contents t a) = code \<and> cb_count (contents t a) = 0 else p = NULL"
    unfolding k0 by blast
  have s1: "set_tree T1 = set_tree T" using T1 by (metis set_inorder)
  have h1: "contents t1 b = contents t b" if "b \<in> set_tree T" for b using i1 that by (simp add: items_def T1)
  have A1: "ITEM_OF t1 = ITEM_OF t" using sz by (intro ext) (simp add: ITEM_OF_def)
  have cb1: "callbacks_ok eq t1 T1"
    using cb c1 h1 unfolding callbacks_ok_def linked_def envs_differ_def s1 A1 by simp
  have lk1: "linked (contents t1) (set_tree T1) (ITEM_OF t1)" using cb1 by (simp add: callbacks_ok_def)
  have equal1: "equal env (cb_env (contents t1 b)) = ret (eq env (cb_env (contents t1 b)))" if "b \<in> set_tree T1" for b
    using that equal h1 s1 by simp
  have ex: "(\<exists>b\<in>set_tree T. cb_codeaddr (contents t b) = code \<and> eq env (cb_env (contents t b))) \<longleftrightarrow>
    (\<exists>b\<in>set_tree T1. cb_codeaddr (contents t1 b) = code \<and> eq env (cb_env (contents t1 b)))" using h1 s1 by auto
  have added: ?thesis
    if none: "\<not> (\<exists>b\<in>set_tree T. cb_codeaddr (contents t b) = code \<and> eq env (cb_env (contents t b)))"
      and add: "\<exists>a t2 t' T' F'. sml_tree_insert xm t1 key = Some (ITEM_OF t1 a, t2) \<and>
        t' = init_callback code env (ITEM_OF t1 a) (link_last t1 lst (ITEM_OF t1 a) t2) \<and>
        tree_ok t' T' F' \<and> callbacks_ok eq t' T' \<and> item_size t' = item_size t1 \<and> a \<notin> set_tree T1 \<and> set_tree T' = insert a (set_tree T1) \<and>
        cb_codeaddr (contents t' a) = code \<and> cb_env (contents t' a) = env \<and> cb_trampoline (contents t' a) = NULL \<and>
        (\<forall>b\<in>set_tree T1. contents t' b = (contents t1 b)\<lparr>cb_next := cb_next (contents t' b)\<rparr>)"
      and run: "\<And>q t2. sml_tree_insert xm t1 key = Some (q, t2) \<Longrightarrow>
        find_callback xm equal junk code env t = ret (q, init_callback code env q (link_last t1 lst q t2))" for key lst
  proof -
    from add obtain a t2 t' T' F' where i: "sml_tree_insert xm t1 key = Some (ITEM_OF t1 a, t2)"
      and t': "t' = init_callback code env (ITEM_OF t1 a) (link_last t1 lst (ITEM_OF t1 a) t2)"
      and r: "tree_ok t' T' F'" "callbacks_ok eq t' T'" "item_size t' = item_size t1" "a \<notin> set_tree T1" "set_tree T' = insert a (set_tree T1)"
        "cb_codeaddr (contents t' a) = code" "cb_env (contents t' a) = env" "cb_trampoline (contents t' a) = NULL"
        "\<forall>b\<in>set_tree T1. contents t' b = (contents t1 b)\<lparr>cb_next := cb_next (contents t' b)\<rparr>" by blast
    have "\<forall>b\<in>set_tree T. contents t' b = (contents t b)\<lparr>cb_next := cb_next (contents t' b)\<rparr>" using r(9) h1 s1 by metis
    then show ?thesis unfolding if_not_P [OF none] using run [OF i] t' r sz s1 A1
      by (intro exI [of _ a] exI [of _ t'] exI [of _ T'] exI [of _ F']) simp
  qed
  show ?thesis
  proof (cases "\<exists>y\<in>set (items t T). cb_codeaddr y = code \<and> cb_count y = 0")
    case True
    then obtain a0 where a0: "a0 \<in> set_tree T1" "p = ITEM_OF t1 a0" "cb_codeaddr (contents t1 a0) = code" "cb_count (contents t1 a0) = 0"
      using p h1 s1 A1 by auto
    have pn: "p \<noteq> NULL" using item_of_pos(1) [OF ok1 a0(1)] a0(2) by simp
    from search_spec [of t1 T1 F equal env eq a0 code, OF ok1 c1 lk1 equal1 a0(1,3)] a0(4) obtain hit b where
      sr: "search_callback equal env t1 p 0 = ret (hit, ITEM_OF t1 b, if hit then cb_count (contents t1 b) else Suc (cb_count (contents t1 b)))"
      and b: "b \<in> set_tree T1" "cb_codeaddr (contents t1 b) = code"
      and h: "if hit then eq env (cb_env (contents t1 b))
        else cb_next (contents t1 b) = NULL \<and> (\<forall>d\<in>set_tree T1. cb_codeaddr (contents t1 d) = code \<longrightarrow> \<not> eq env (cb_env (contents t1 d)))"
      unfolding a0(2) [symmetric] by auto
    show ?thesis
    proof (cases hit)
      case True
      then have "find_callback xm equal junk code env t = ret (ITEM_OF t b, t1)"
        using 1 pn sr A1 by (simp add: find_callback_def)
      moreover have "\<exists>b\<in>set_tree T. cb_codeaddr (contents t b) = code \<and> eq env (cb_env (contents t b))"
        unfolding ex using b h True by auto
      ultimately show ?thesis using ok1 cb1 sz b h True h1 s1
        by (intro exI [of _ b] exI [of _ t1] exI [of _ T1] exI [of _ F]) auto
    next
      case False
      let ?n = "Suc (cb_count (contents t1 b))"
      have none: "\<not> eq env (cb_env (contents t1 d))" if "d \<in> set_tree T1" "cb_codeaddr (contents t1 d) = code" for d
        using h False that by simp
      have top: "cb_count (contents t1 d) < ?n" if d: "d \<in> set_tree T1" "cb_codeaddr (contents t1 d) = code" for d
      proof (rule ccontr)
        assume "\<not> cb_count (contents t1 d) < ?n"
        then obtain e where "e \<in> set_tree T1" "cb_codeaddr (contents t1 e) = code" "cb_count (contents t1 e) = ?n"
          using linked_down [OF lk1 d(1), of ?n] d(2) by auto
        then show False using lk1 b h False unfolding linked_def by metis
      qed
      have "link_last t1 (Some b) q t2 = write_item t2 (ITEM_OF t1 b) (\<lambda>x. x\<lparr>cb_next := q\<rparr>)" for q t2
        by (simp add: link_last_def)
      then show ?thesis
        by (intro added [OF _ add_slot [OF ok1 cb1 xm sym, of "?key\<lparr>cb_count := ?n\<rparr>" code ?n env "Some b"]])
          (use none top b ex 1 pn sr False in \<open>auto simp: find_callback_def\<close>)
    qed
  next
    case False
    then have p0: "p = NULL" using p by simp
    have nc: "cb_codeaddr (contents t1 d) \<noteq> code" if d: "d \<in> set_tree T1" for d
      using linked_down [OF lk1 d, of 0] False h1 s1 by (auto simp: items_def)
    show ?thesis
      by (intro added [OF _ add_slot [OF ok1 cb1 xm sym, of ?key code 0 env None]])
        (use nc ex 1 p0 in \<open>auto simp: find_callback_def link_last_def\<close>)
  qed
qed

section \<open>Enumeration\<close>

lemma trace_chain_spec:
  assumes ok: "tree_ok t T F" and cb: "callbacks_ok eq t T" and "a \<in> set_tree T"
  shows "\<exists>l. trace_chain t (ITEM_OF t a) envs = Some (envs @ l) \<and> set l \<subseteq> (\<lambda>a. cb_env (contents t a)) ` set_tree T"
  using assms(3)
proof (induction "card {d \<in> set_tree T. cb_codeaddr (contents t d) = cb_codeaddr (contents t a) \<and> cb_count (contents t a) \<le> cb_count (contents t d)}"
    arbitrary: a envs rule: less_induct)
  case less
  let ?h = "contents t" and ?S = "set_tree T"
  have lk: "linked ?h ?S (ITEM_OF t)" using cb by (simp add: callbacks_ok_def)
  have rd: "read_item t (ITEM_OF t a) = ?h a" by (rule read_item_of [OF ok less.prems refl])
  note run = trace_chain.simps [of t "ITEM_OF t a" envs, unfolded rd]
  have nn: "ITEM_OF t a \<noteq> NULL" by (rule item_of_pos(1) [OF ok less.prems])
  show ?case
  proof (cases "cb_next (?h a) = NULL")
    case True
    then have "trace_chain t (ITEM_OF t a) envs = Some (envs @ [cb_env (?h a)])"
      using run nn by (simp add: trace_chain.simps)
    then show ?thesis using less.prems by auto
  next
    case False
    then obtain b where b: "b \<in> ?S" "cb_next (?h a) = ITEM_OF t b" "same_code ?h a b" "cb_count (?h b) = Suc (cb_count (?h a))"
      using linked_nextD [OF lk less.prems] by auto
    let ?L = "\<lambda>a. {d \<in> ?S. cb_codeaddr (?h d) = cb_codeaddr (?h a) \<and> cb_count (?h a) \<le> cb_count (?h d)}"
    have "a \<in> ?L a" "a \<notin> ?L b" "?L b \<subseteq> ?L a" using less.prems b(3,4) by auto
    then have "card (?L b) < card (?L a)" by (intro psubset_card_mono) auto
    from less.hyps [OF this b(1), of "envs @ [cb_env (?h a)]"] obtain l where
      "trace_chain t (ITEM_OF t b) (envs @ [cb_env (?h a)]) = Some ((envs @ [cb_env (?h a)]) @ l)"
      "set l \<subseteq> (\<lambda>a. cb_env (?h a)) ` ?S" by blast
    then show ?thesis using run nn b(2) less.prems by (intro exI [of _ "cb_env (?h a) # l"]) simp
  qed
qed

lemma trace_each_spec:
  assumes ok: "tree_ok t T F" and cb: "callbacks_ok eq t T" and a: "a \<in> set_tree T"
  shows "\<exists>l. trace_each t (contents t a) (Some envs) = (contents t a, Some (envs @ cb_env (contents t a) # l)) \<and>
    set l \<subseteq> (\<lambda>a. cb_env (contents t a)) ` set_tree T"
proof (cases "cb_next (contents t a) = NULL")
  case True
  then show ?thesis by (simp add: trace_each_def trace_chain.simps)
next
  case False
  then obtain b where b: "b \<in> set_tree T" "cb_next (contents t a) = ITEM_OF t b"
    using linked_nextD [of "contents t" "set_tree T" "ITEM_OF t" a] cb a by (auto simp: callbacks_ok_def)
  from trace_chain_spec [OF ok cb b(1), of "envs @ [cb_env (contents t a)]"] show ?thesis
    using b(2) by (auto simp: trace_each_def)
qed

lemma trace_all_spec:
  assumes ok: "tree_ok t T F" and cb: "callbacks_ok eq t T" and "set as \<subseteq> set_tree T"
  shows "\<exists>l. visit_items (trace_each t) (map (contents t) as) (Some envs) = (map (contents t) as, Some (envs @ l)) \<and>
    (\<lambda>a. cb_env (contents t a)) ` set as \<subseteq> set l \<and> set l \<subseteq> (\<lambda>a. cb_env (contents t a)) ` set_tree T"
  using assms(3)
proof (induction as arbitrary: envs)
  case (Cons a as)
  from trace_each_spec [OF ok cb, of a envs] Cons.prems obtain l1 where
    1: "trace_each t (contents t a) (Some envs) = (contents t a, Some (envs @ cb_env (contents t a) # l1))"
    "set l1 \<subseteq> (\<lambda>a. cb_env (contents t a)) ` set_tree T" by auto
  from Cons.IH [of "envs @ cb_env (contents t a) # l1"] Cons.prems obtain l2 where
    2: "visit_items (trace_each t) (map (contents t) as) (Some (envs @ cb_env (contents t a) # l1)) =
      (map (contents t) as, Some ((envs @ cb_env (contents t a) # l1) @ l2))"
    "(\<lambda>a. cb_env (contents t a)) ` set as \<subseteq> set l2" "set l2 \<subseteq> (\<lambda>a. cb_env (contents t a)) ` set_tree T" by auto
  show ?case
    by (rule exI [of _ "cb_env (contents t a) # l1 @ l2"]) (use 1 2 Cons.prems in auto)
qed simp

lemma callback_enum_spec:
  assumes ok: "tree_ok t T F" and cb: "callbacks_ok eq t T"
  shows "\<exists>envs t'. sml_callback_enum_ptr t = Some (envs, t') \<and> set envs = (\<lambda>a. cb_env (contents t a)) ` set_tree T \<and>
    items t' T = items t T \<and> tree_at (nodes t') (root t') T"
proof -
  from trace_all_spec [OF ok cb, of "inorder T" "[]"] obtain l where
    v: "visit_items (trace_each t) (items t T) (Some []) = (items t T, Some l)" and
    l: "set l = (\<lambda>a. cb_env (contents t a)) ` set_tree T" by (auto simp: items_def)
  from each_spec [OF ok, of "trace_each t" "Some []"] obtain t' s' where
    "sml_tree_each (trace_each t) t (Some []) = Some (t', s')" "(items t' T, s') = visit_items (trace_each t) (items t T) (Some [])"
    "tree_at (nodes t') (root t') T" by blast
  then show ?thesis using v l by (intro exI [of _ l] exI [of _ t']) (simp add: sml_callback_enum_ptr_def)
qed

section \<open>Properties\<close>

definition empty_callback :: callback_item where
  "empty_callback = \<lparr>cb_trampoline = NULL, cb_env = NULL, cb_codeaddr = NULL, cb_count = 0, cb_next = NULL\<rparr>"

definition no_callbacks :: "callback_item sml_tree" where
  "no_callbacks = sml_callback_init (\<lambda>_. \<lparr>child = (\<lambda>_. NULL), nd_back = BackNode NULL, item = empty_callback\<rparr>)"

lemma no_callbacks_ok: "tree_ok no_callbacks \<langle>\<rangle> []" "callbacks_ok eq no_callbacks \<langle>\<rangle>"
proof -
  show "tree_ok no_callbacks \<langle>\<rangle> []"
    unfolding no_callbacks_def sml_callback_init_def
    by (rule tree_new_ok) (simp_all add: SIZEOF_NODE_def NODE_SIZE_def NODE_OFFSET_def CEILING_def CHUNK_SIZE_def)
  show "callbacks_ok eq no_callbacks \<langle>\<rangle>"
    by (simp add: callbacks_ok_def linked_def envs_differ_def no_callbacks_def sml_callback_init_def sml_tree_new_def)
qed

section \<open>Environments\<close>

text \<open>Equality of the values that environments denote, as \<open>sml_obj_equal\<close> decides it.\<close>

definition env_equal :: "(addr \<Rightarrow> addr \<Rightarrow> int) \<Rightarrow> mem \<Rightarrow> addr set \<Rightarrow> addr \<Rightarrow> addr \<Rightarrow> bool" where
  "env_equal sml_intinf_cmp m D x y \<longleftrightarrow> x \<in> insert NULL D \<and> y \<in> insert NULL D \<and> value_equal sml_intinf_cmp m x y"

lemma env_equal_decided:
  assumes cmp: "\<And>x y. icmp x y = 0 \<longleftrightarrow> icmp y x = (0 :: int)" and hp: "wf_heap m D" and D: "x \<in> insert NULL D" "y \<in> insert NULL D"
  shows "env_equal icmp m D x y \<longleftrightarrow> (\<exists>fuel. sml_obj_equal icmp m fuel x y = ret True)"
  using obj_equal_sound [where cmp = icmp, OF cmp hp D] obj_equal_complete [where cmp = icmp, OF cmp hp _ D] D by (auto simp only: env_equal_def)

lemma env_equal_commute:
  assumes cmp: "\<And>x y. icmp x y = 0 \<longleftrightarrow> icmp y x = (0 :: int)" and hp: "wf_heap m D"
  shows "env_equal icmp m D x y \<longleftrightarrow> env_equal icmp m D y x"
proof (cases "x \<in> insert NULL D \<and> y \<in> insert NULL D")
  case True
  then have D: "x \<in> insert NULL D" "y \<in> insert NULL D" by auto
  show ?thesis
    unfolding env_equal_decided [where icmp = icmp, OF cmp hp D] env_equal_decided [where icmp = icmp, OF cmp hp D(2,1)]
    by (subst sml_obj_equal_commute [of icmp, OF cmp]) (rule refl)
qed (auto simp: env_equal_def)

lemma obj_equal_decides:
  assumes cmp: "\<And>x y. icmp x y = 0 \<longleftrightarrow> icmp y x = (0 :: int)" and hp: "wf_heap m D" "ranked m D rk"
    and D: "x \<in> insert NULL D" "y \<in> insert NULL D" and fuel: "Suc (Suc (rk x)) \<le> fuel"
  shows "sml_obj_equal icmp m fuel x y = ret (env_equal icmp m D x y)"
proof -
  have "x = NULL \<or> y = NULL \<or> min (rk x) (rk y) < Suc (rk x)" by (auto simp: min_def)
  from obj_equal_returns [OF hp D this] obtain r where "sml_obj_equal icmp m (Suc (Suc (rk x))) x y = ret r" by blast
  from obj_equal_mono [OF this fuel] have r: "sml_obj_equal icmp m fuel x y = ret r" .
  have "r \<longleftrightarrow> env_equal icmp m D x y"
    unfolding env_equal_decided [where icmp = icmp, OF cmp hp(1) D]
  proof
    assume "\<exists>k. sml_obj_equal icmp m k x y = ret True"
    then obtain k where "sml_obj_equal icmp m k x y = ret True" by blast
    from obj_equal_mono [OF this, of "max k fuel"] obj_equal_mono [OF r, of "max k fuel"] show r by simp
  qed (use r in auto)
  then show ?thesis using r by simp
qed

text \<open>
  C15: \<open>sml_find_callback\<close> returns one slot for every code address and environment up to the equality
  of values that \<open>sml_obj_equal\<close> decides.  When the table has a slot for an equal environment it is returned and the table
  keeps its contents; otherwise a new slot without a trampoline is added behind the slots of the
  code address, and the other slots keep their addresses and contents but for the link to it.  The
  table stays well-formed: the slots of a code address are numbered without gaps, linked in this
  order, and have different environments.
\<close>

theorem find_callback_one_slot:
  assumes "tree_ok t T F" and "callbacks_ok (env_equal icmp m D) t T" and "xmalloc_ok xmalloc"
    and "\<And>x y. icmp x y = 0 \<longleftrightarrow> icmp y x = (0 :: int)" and "wf_heap m D" and "ranked m D rk"
    and "\<And>a. a \<in> set_tree T \<Longrightarrow> cb_env (contents t a) \<in> insert NULL D" and "env \<in> insert NULL D" and "Suc (Suc (rk env)) \<le> fuel"
  shows "\<exists>a t' T' F'. sml_find_callback xmalloc icmp m fuel junk code env t = ret (ITEM_OF t a, t') \<and>
    tree_ok t' T' F' \<and> callbacks_ok (env_equal icmp m D) t' T' \<and> item_size t' = item_size t \<and> cb_codeaddr (contents t' a) = code \<and>
    (if \<exists>b\<in>set_tree T. cb_codeaddr (contents t b) = code \<and> env_equal icmp m D env (cb_env (contents t b))
     then a \<in> set_tree T \<and> env_equal icmp m D env (cb_env (contents t a)) \<and> set_tree T' = set_tree T \<and> (\<forall>b\<in>set_tree T. contents t' b = contents t b)
     else a \<notin> set_tree T \<and> set_tree T' = insert a (set_tree T) \<and> cb_env (contents t' a) = env \<and> cb_trampoline (contents t' a) = NULL \<and>
       (\<forall>b\<in>set_tree T. contents t' b = (contents t b)\<lparr>cb_next := cb_next (contents t' b)\<rparr>))"
proof -
  have eq: "sml_obj_equal icmp m fuel env (cb_env (contents t a)) = ret (env_equal icmp m D env (cb_env (contents t a)))"
    if "a \<in> set_tree T" for a
    by (rule obj_equal_decides [where icmp = icmp, OF assms(4,5,6,8) assms(7) [OF that] assms(9)])
  show ?thesis unfolding sml_find_callback_def
    using find_callback_spec [of t T F "env_equal icmp m D" xmalloc "sml_obj_equal icmp m fuel" env junk code,
        OF assms(1,2,3) env_equal_commute [where icmp = icmp, OF assms(4,5)] eq] .
qed

theorem find_callback_one_slot_witness:
  "\<exists>p t1 t2. sml_find_callback sample_xmalloc (\<lambda>x y. int x - int y) sample_heap 3 empty_callback 4096 16 no_callbacks = ret (p, t1) \<and>
     sml_find_callback sample_xmalloc (\<lambda>x y. int x - int y) sample_heap 3 empty_callback 4096 16 t1 = ret (p, t2)"
proof -
  let ?cmp = "\<lambda>x y. int x - int y" and ?D = "{16, 32, 48} :: addr set"
  let ?find = "sml_find_callback sample_xmalloc ?cmp sample_heap 3 empty_callback 4096 16"
  have cmp: "?cmp x y = 0 \<longleftrightarrow> ?cmp y x = (0 :: int)" for x y :: nat by auto
  have env: "(16 :: addr) \<in> insert NULL ?D" "Suc (Suc (if (16 :: addr) = 32 then 0 else 1)) \<le> (3 :: nat)" by simp_all
  note find = find_callback_one_slot [where icmp = ?cmp and junk = empty_callback and code = 4096,
      OF _ _ sample_xmalloc_ok cmp sample_wf sample_ranked _ env]
  obtain a t1 T1 F1 where 1: "?find no_callbacks = ret (ITEM_OF no_callbacks a, t1)" "tree_ok t1 T1 F1" "callbacks_ok (env_equal ?cmp sample_heap ?D) t1 T1"
    "item_size t1 = item_size no_callbacks" "cb_codeaddr (contents t1 a) = 4096" "set_tree T1 = {a}" "cb_env (contents t1 a) = 16"
    using find [OF no_callbacks_ok] by (simp only: tree.set bex_simps if_False empty_iff) blast
  have refl: "env_equal ?cmp sample_heap ?D 16 16" by (simp add: env_equal_def value_equal.same)
  have "\<exists>b\<in>set_tree T1. cb_codeaddr (contents t1 b) = 4096 \<and> env_equal ?cmp sample_heap ?D 16 (cb_env (contents t1 b))" using 1(5,6,7) refl by simp
  moreover have "cb_env (contents t1 b) \<in> insert NULL ?D" if "b \<in> set_tree T1" for b using that 1(6,7) by simp
  ultimately obtain b t2 where "?find t1 = ret (ITEM_OF t1 b, t2)" "b \<in> set_tree T1"
    using find [OF 1(2,3)] by (simp only: if_True simp_thms) blast
  then have "?find t1 = ret (ITEM_OF t1 a, t2)" using 1(6) by simp
  moreover have "ITEM_OF t1 a = ITEM_OF no_callbacks a" using 1(4) by (simp add: ITEM_OF_def)
  ultimately show ?thesis using 1(1) by auto
qed

end
