(* ===== verification/Exn.thy ===== *)
theory Exn
  imports Object
begin

text \<open>
  Exceptions (\<open>exn.c\<close>): raising, the search for landing pads in the tables that LLVM emits for every
  function, and the personality function that the unwinder calls for every frame, first to search
  a handler and then to run the cleanups up to it.  The unwinder itself is a parameter: it gives the
  frames and acts on the answers.
\<close>

section \<open>Exception objects\<close>

record exception =
  exn_obj :: addr
  handler_addr :: addr
  num_cleanup :: u32

definition OFFSETOF_HEADER :: nat where "OFFSETOF_HEADER = 16"

definition UE_TO_EXCEPTION :: "addr \<Rightarrow> addr" where
  "UE_TO_EXCEPTION ue = ue - OFFSETOF_HEADER"

text \<open>
  The message of an ML exception, null when there is none: the tag says whether it is in the
  exception itself or in its argument, and at which offset.
\<close>

definition exn_msg :: "mem \<Rightarrow> addr \<Rightarrow> addr" where
  "exn_msg m e =
     (let tag = load64 m (load64 m e); index = load32 m (tag + 8)
      in if index = 0 then NULL
         else let base = (if index AND 1 \<noteq> 0 then load64 m (e + 16) else e)
              in load64 m (base + unat (index AND NOT 1)))"

partial_function (option) c_string :: "mem \<Rightarrow> addr \<Rightarrow> string \<Rightarrow> string option" where
  "c_string m p acc = (if m p = 0 then Some acc else c_string m (p + 1) (acc @ [char_of (unat (m p))]))"

definition uncaught_exception :: "mem \<Rightarrow> addr \<Rightarrow> fatal option" where
  "uncaught_exception m e =
     Option.bind (c_string m (load64 m (load64 m (load64 m e))) []) (\<lambda>name.
       Option.bind (if exn_msg m e = NULL then Some [] else map_option (\<lambda>msg. '' \"'' @ msg @ ''\"'') (c_string m (exn_msg m e) [])) (\<lambda>quoted.
         map_option (\<lambda>loc. Fatal (''uncaught exception: '' @ name @ quoted @ '' at '' @ loc)) (c_string m (load64 m (e + 8)) [])))"

definition sml_matchcomp_bug :: fatal where
  "sml_matchcomp_bug = Fatal ''match compiler bug''"

section \<open>The tables of landing pads\<close>

text \<open>A shift by 64 or more is not defined in C; it does not occur for numbers of 64 bits.\<close>

partial_function (option) uleb128_loop :: "mem \<Rightarrow> addr \<Rightarrow> u64 \<Rightarrow> nat \<Rightarrow> (u64 \<times> addr) option" where
  "uleb128_loop m src res shift =
     (let c = m src; res' = res OR push_bit shift (ucast (c AND 0x7f))
      in if c AND 0x80 \<noteq> 0 then uleb128_loop m (src + 1) res' (shift + 7) else Some (res', src + 1))"

definition read_uleb128 :: "mem \<Rightarrow> addr \<Rightarrow> (u64 \<times> addr) option" where
  "read_uleb128 m src = uleb128_loop m src 0 0"

definition read_udata4 :: "mem \<Rightarrow> addr \<Rightarrow> (u64 \<times> addr) option" where
  "read_udata4 m src = Some (ucast (load32 m src), src + 4)"

definition DW_EH_PE_omit :: u8 where "DW_EH_PE_omit = 0xff"
definition DW_EH_PE_uleb128 :: u8 where "DW_EH_PE_uleb128 = 0x01"
definition DW_EH_PE_udata4 :: u8 where "DW_EH_PE_udata4 = 0x03"
definition CATCH :: u32 where "CATCH = 1"
definition CLEANUP :: u32 where "CLEANUP = 2"

text \<open>The address of a landing pad is not set when the type is zero; null means that the program terminates.\<close>

record landing_pad =
  lp_type :: u32
  lp_addr :: addr

definition no_pad :: landing_pad where "no_pad = \<lparr>lp_type = 0, lp_addr = NULL\<rparr>"

text \<open>The context of the unwinder: language-specific data, region start and instruction pointer of a frame.\<close>

record frame =
  fr_lsda :: addr
  fr_region :: u64
  fr_ip :: u64

definition read_site :: "mem \<Rightarrow> u8 \<Rightarrow> addr \<Rightarrow> (u64 \<times> addr) option" where
  "read_site m encoding = (if encoding = DW_EH_PE_uleb128 then read_uleb128 m else read_udata4 m)"

partial_function (option) lpad_loop :: "mem \<Rightarrow> u8 \<Rightarrow> addr \<Rightarrow> u64 \<Rightarrow> u64 \<Rightarrow> addr \<Rightarrow> landing_pad result option" where
  "lpad_loop m encoding actiontab lpstart ip src =
     (if src < actiontab then
        Option.bind (read_site m encoding src) (\<lambda>(start0, src1).
        Option.bind (read_site m encoding src1) (\<lambda>(len, src2).
        Option.bind (read_site m encoding src2) (\<lambda>(lpad, src3).
          let action = m src3; start = start0 + lpstart
          in if action \<ge> 0x80 then Some (Inl (Fatal ''action too large''))
             else if ip < start then ret \<lparr>lp_type = CATCH, lp_addr = NULL\<rparr>
             else if ip < start + len then
               ret \<lparr>lp_type = (if lpad = 0 then 0
                              else if action = 0 then CLEANUP
                              else if m (actiontab + unat action) = 0 then CATCH
                              else CLEANUP OR CATCH),
                    lp_addr = unat (lpad + lpstart)\<rparr>
             else lpad_loop m encoding actiontab lpstart ip (src3 + 1))))
      else ret \<lparr>lp_type = CATCH, lp_addr = NULL\<rparr>)"

definition search_lpad :: "mem \<Rightarrow> frame \<Rightarrow> landing_pad result option" where
  "search_lpad m fr =
     (let src = fr_lsda fr
      in if src = NULL then ret no_pad
         else if m src \<noteq> DW_EH_PE_omit then Some (Inl (Fatal ''@LPStart must be omitted''))
         else
           let src1 = src + 1
           in Option.bind (if m src1 \<noteq> DW_EH_PE_omit then map_option snd (read_uleb128 m (src1 + 1)) else Some (src1 + 1)) (\<lambda>src2.
                let encoding = m src2
                in if encoding \<noteq> DW_EH_PE_udata4 \<and> encoding \<noteq> DW_EH_PE_uleb128
                   then Some (Inl (Fatal ''call-site table encoding must be either udata4 or uleb128''))
                   else Option.bind (read_uleb128 m (src2 + 1)) (\<lambda>(tablen, src3).
                     if tablen = 0 then ret no_pad
                     else lpad_loop m encoding (src3 + unat tablen) (fr_region fr) (fr_ip fr - 1) src3)))"

section \<open>The personality function\<close>

text \<open>What the unwinder asks, and what the function answers; \<open>Install\<close> carries the address and the two pointers for the landing pad.\<close>

record actions =
  SEARCH_PHASE :: bool
  CLEANUP_PHASE :: bool
  HANDLER_FRAME :: bool

datatype reason = FATAL_PHASE1_ERROR | FATAL_PHASE2_ERROR | HANDLER_FOUND | CONTINUE_UNWIND | INSTALL_CONTEXT addr addr addr

definition terminate :: "mem \<Rightarrow> addr \<Rightarrow> 'a result option" where
  "terminate m exnobj =
     (if exnobj \<noteq> NULL then map_option Inl (uncaught_exception m exnobj) else Some (Inl (Fatal ''abort'')))"

definition install :: "mem \<Rightarrow> addr \<Rightarrow> addr \<Rightarrow> addr \<Rightarrow> exception \<Rightarrow> (reason \<times> exception) result option" where
  "install m lpad ret1 ret2 e =
     (if lpad = NULL then terminate m ret2 else ret (INSTALL_CONTEXT lpad ret1 ret2, e))"

text \<open>\<open>smlsharp\<close> says that the exception class is that of SML\#; the exception object is used in this case only.\<close>

definition sml_personality ::
  "mem \<Rightarrow> nat \<Rightarrow> actions \<Rightarrow> bool \<Rightarrow> addr \<Rightarrow> frame \<Rightarrow> exception \<Rightarrow> (reason \<times> exception) result option" where
  "sml_personality m version acts smlsharp ue fr e =
     (if version \<noteq> 1 then ret (FATAL_PHASE1_ERROR, e)
      else if SEARCH_PHASE acts then
        andthen (search_lpad m fr) (\<lambda>lpad.
          if lp_type lpad AND CATCH \<noteq> 0
          then ret (HANDLER_FOUND, if smlsharp then e\<lparr>handler_addr := lp_addr lpad\<rparr> else e)
          else ret (CONTINUE_UNWIND, if lp_type lpad AND CLEANUP \<noteq> 0 \<and> smlsharp then e\<lparr>num_cleanup := num_cleanup e + 1\<rparr> else e))
      else if \<not> CLEANUP_PHASE acts then ret (FATAL_PHASE2_ERROR, e)
      else if HANDLER_FRAME acts then
        (if smlsharp then install m (handler_addr e) NULL (UE_TO_EXCEPTION ue) e
         else andthen (search_lpad m fr) (\<lambda>lpad. install m (lp_addr lpad) NULL NULL e))
      else if smlsharp \<and> num_cleanup e = 0 then ret (CONTINUE_UNWIND, e)
      else
        andthen (search_lpad m fr) (\<lambda>lpad.
          if lp_type lpad AND CLEANUP = 0 then ret (CONTINUE_UNWIND, e)
          else if smlsharp then install m (lp_addr lpad) ue (UE_TO_EXCEPTION ue) (e\<lparr>num_cleanup := num_cleanup e - 1\<rparr>)
          else install m (lp_addr lpad) ue NULL e))"

text \<open>
  \<open>sml_raise\<close>: \<open>raise_exception\<close> is the unwinder, which returns only when it fails, with \<open>True\<close> for the end of the
  stack.
\<close>

definition sml_raise :: "mem \<Rightarrow> (exception \<Rightarrow> bool) \<Rightarrow> exception \<Rightarrow> fatal option" where
  "sml_raise m raise_exception e =
     (if raise_exception (e\<lparr>handler_addr := NULL, num_cleanup := 0\<rparr>) then uncaught_exception m (exn_obj e)
      else Some (Fatal ''unwinding failed''))"

section \<open>Encodings\<close>

text \<open>The formats of the tables: bytes in memory, numbers, call sites and the data of a function.\<close>

fun bytes_at :: "mem \<Rightarrow> addr \<Rightarrow> u8 list \<Rightarrow> bool" where
  "bytes_at m p [] \<longleftrightarrow> True"
| "bytes_at m p (b # bs) \<longleftrightarrow> m p = b \<and> bytes_at m (p + 1) bs"

lemma bytes_at_append [simp]: "bytes_at m p (xs @ ys) \<longleftrightarrow> bytes_at m p xs \<and> bytes_at m (p + length xs) ys"
  by (induction xs arbitrary: p) (auto simp: add.assoc)

lemma bytes_at_nth: "bytes_at m p bs \<Longrightarrow> i < length bs \<Longrightarrow> m (p + i) = bs ! i"
proof (induction bs arbitrary: p i)
  case (Cons b bs)
  then show ?case using Cons.IH [of "Suc p" "i - 1"] by (cases i) auto
qed simp

fun uleb128 :: "nat \<Rightarrow> u8 list" where
  "uleb128 n = (if n < 128 then [word_of_nat n] else word_of_nat (n mod 128 + 128) # uleb128 (n div 128))"

declare uleb128.simps [simp del]

fun udata :: "nat \<Rightarrow> nat \<Rightarrow> u8 list" where
  "udata 0 n = []"
| "udata (Suc k) n = word_of_nat n # udata k (n div 256)"

lemma length_udata [simp]: "length (udata k n) = k"
  by (induction k arbitrary: n) auto

record call_site =
  cs_start :: nat
  cs_len :: nat
  cs_lpad :: nat
  cs_action :: nat

definition site_number :: "u8 \<Rightarrow> nat \<Rightarrow> u8 list" where
  "site_number encoding n = (if encoding = DW_EH_PE_uleb128 then uleb128 n else udata 4 n)"

definition site_bytes :: "u8 \<Rightarrow> call_site \<Rightarrow> u8 list" where
  "site_bytes encoding c =
     site_number encoding (cs_start c) @ site_number encoding (cs_len c) @ site_number encoding (cs_lpad c) @ [word_of_nat (cs_action c)]"

definition lsda_bytes :: "(u8 \<times> nat) option \<Rightarrow> u8 \<Rightarrow> call_site list \<Rightarrow> u8 list \<Rightarrow> u8 list" where
  "lsda_bytes ttype encoding cs acts =
     [DW_EH_PE_omit] @ (case ttype of None \<Rightarrow> [DW_EH_PE_omit] | Some (enc, off) \<Rightarrow> enc # uleb128 off) @ [encoding] @
     (let table = concat (map (site_bytes encoding) cs) in uleb128 (length table) @ table @ acts)"

text \<open>Reading a number back.\<close>

lemma word_of_nat_split7:
  "(word_of_nat n :: u64) = word_of_nat (n mod 128) OR push_bit 7 (word_of_nat (n div 128))"
proof (rule bit_eqI)
  fix k assume "possible_bit TYPE(u64) k"
  then have "k < 64" by simp
  then show "bit (word_of_nat n :: u64) k = bit (word_of_nat (n mod 128) OR push_bit 7 (word_of_nat (n div 128)) :: u64) k"
    using bit_take_bit_iff [of 7 n k] bit_drop_bit_eq [of 7 n]
    by (auto simp: bit_or_iff bit_push_bit_iff bit_of_nat_iff take_bit_eq_mod drop_bit_eq_div)
qed

lemma low_byte: "ucast ((word_of_nat k :: u8) AND 0x7f) = (word_of_nat (k mod 128) :: u64)"
proof -
  have "(word_of_nat k :: u8) AND 0x7f = take_bit 7 (word_of_nat k)"
    by (simp add: take_bit_eq_mask mask_eq_exp_minus_1)
  also have "\<dots> = word_of_nat (take_bit 7 k)" by (rule take_bit_of_nat)
  also have "take_bit 7 k = k mod 128" by (simp add: take_bit_eq_mod)
  finally have e: "(word_of_nat k :: u8) AND 0x7f = word_of_nat (k mod 128)" .
  have "k mod 128 < 256" by (rule less_trans [of _ 128]) simp_all
  then show ?thesis unfolding e unsigned_of_nat by (simp add: take_bit_nat_eq_self)
qed

lemma high_bit: "(word_of_nat k :: u8) AND 0x80 = 0 \<longleftrightarrow> even (k div 128)"
proof -
  have "(word_of_nat k :: u8) AND 2 ^ 7 = 0 \<longleftrightarrow> \<not> bit (word_of_nat k :: u8) 7" by (rule and_exp_eq_0_iff_not_bit)
  also have "bit (word_of_nat k :: u8) 7 \<longleftrightarrow> bit k 7" by (simp add: bit_of_nat_iff del: bit_0)
  also have "bit k 7 \<longleftrightarrow> odd (k div 128)" by (simp add: bit_iff_odd)
  finally show ?thesis by simp
qed

lemma uleb128_loop_reads:
  "bytes_at m p (uleb128 n) \<Longrightarrow>
     uleb128_loop m p res shift = Some (res OR push_bit shift (word_of_nat n), p + length (uleb128 n))"
proof (induction n arbitrary: p res shift rule: uleb128.induct)
  case (1 n)
  show ?case
  proof (cases "n < 128")
    case True
    then have "m p = word_of_nat n" using 1(2) by (subst (asm) uleb128.simps) simp
    then show ?thesis using True low_byte [of n] high_bit [of n]
      by (subst uleb128_loop.simps) (simp add: Let_def uleb128.simps [of n])
  next
    case False
    then have b: "m p = word_of_nat (n mod 128 + 128)" "bytes_at m (p + 1) (uleb128 (n div 128))"
      using 1(2) by (subst (asm) uleb128.simps, simp)+
    have l: "length (uleb128 n) = Suc (length (uleb128 (n div 128)))" using False by (subst uleb128.simps) simp
    have "(n mod 128 + 128) div 128 = 1" by simp
    then have bt: "(word_of_nat (n mod 128 + 128) :: u8) AND 0x80 \<noteq> 0" "ucast ((word_of_nat (n mod 128 + 128) :: u8) AND 0x7f) = (word_of_nat (n mod 128) :: u64)"
      using low_byte [of "n mod 128 + 128"] high_bit [of "n mod 128 + 128"] by (simp_all del: of_nat_add)
    have "uleb128_loop m p res shift = uleb128_loop m (p + 1) (res OR push_bit shift (word_of_nat (n mod 128))) (shift + 7)"
      using bt unfolding b(1) [symmetric] by (subst uleb128_loop.simps) (simp add: Let_def)
    also have "\<dots> = Some (res OR push_bit shift (word_of_nat (n mod 128)) OR push_bit (shift + 7) (word_of_nat (n div 128)), p + 1 + length (uleb128 (n div 128)))"
      using 1(1) [OF False b(2)] by (simp add: or.assoc)
    also have "\<dots> = Some (res OR push_bit shift (word_of_nat n), p + length (uleb128 n))"
      by (subst word_of_nat_split7 [of n]) (simp add: l push_bit_or push_bit_push_bit or.assoc add.commute)
    finally show ?thesis .
  qed
qed

lemma read_uleb128_reads:
  "bytes_at m p (uleb128 n) \<Longrightarrow> read_uleb128 m p = Some (word_of_nat n, p + length (uleb128 n))"
  by (simp add: read_uleb128_def uleb128_loop_reads)

lemma udata_reads: "bytes_at m p (udata k n) \<Longrightarrow> n < 256 ^ k \<Longrightarrow> load_le m p k = n"
proof (induction k arbitrary: p n)
  case (Suc k)
  then have "load_le m (Suc p) k = n div 256" using Suc.IH [of "Suc p" "n div 256"] by (simp add: less_mult_imp_div_less mult.commute)
  moreover have "unat (m p) = n mod 256" using Suc.prems(1) by (simp add: unsigned_of_nat take_bit_eq_mod)
  ultimately show ?case by simp
qed simp

lemma read_udata4_reads: "bytes_at m p (udata 4 n) \<Longrightarrow> n < 2 ^ 32 \<Longrightarrow> read_udata4 m p = Some (word_of_nat n, p + 4)"
  by (simp add: read_udata4_def load32_def udata_reads unsigned_of_nat take_bit_nat_eq_self)

lemma read_site_reads:
  "bytes_at m p (site_number encoding n) \<Longrightarrow> n < 2 ^ 32 \<Longrightarrow>
     read_site m encoding p = Some (word_of_nat n, p + length (site_number encoding n))"
  by (cases "encoding = DW_EH_PE_uleb128") (simp_all add: read_site_def site_number_def read_uleb128_reads read_udata4_reads del: udata.simps)

section \<open>The search\<close>

text \<open>A site fits its encoding and the address space; it covers a range of calls.\<close>

definition site_fits :: "nat \<Rightarrow> u8 list \<Rightarrow> call_site \<Rightarrow> bool" where
  "site_fits region acts c \<longleftrightarrow>
     cs_start c < 2 ^ 32 \<and> cs_len c < 2 ^ 32 \<and> cs_lpad c < 2 ^ 32 \<and> cs_action c < 128 \<and> cs_action c < length acts \<and>
     region + cs_start c + cs_len c < 2 ^ 64 \<and> region + cs_lpad c < 2 ^ 64"

definition covers :: "nat \<Rightarrow> nat \<Rightarrow> call_site \<Rightarrow> bool" where
  "covers region ip c \<longleftrightarrow> region + cs_start c \<le> ip \<and> ip < region + cs_start c + cs_len c"

definition pad_of :: "nat \<Rightarrow> u8 list \<Rightarrow> call_site \<Rightarrow> landing_pad" where
  "pad_of region acts c =
     \<lparr>lp_type = (if cs_lpad c = 0 then 0
                else if cs_action c = 0 then CLEANUP
                else if acts ! cs_action c = 0 then CATCH
                else CLEANUP OR CATCH),
      lp_addr = region + cs_lpad c\<rparr>"

definition the_pad :: "nat \<Rightarrow> u8 list \<Rightarrow> call_site list \<Rightarrow> nat \<Rightarrow> landing_pad" where
  "the_pad region acts cs ip =
     (case find (covers region ip) cs of None \<Rightarrow> \<lparr>lp_type = CATCH, lp_addr = NULL\<rparr> | Some c \<Rightarrow> pad_of region acts c)"

lemma site_words:
  assumes "site_fits (unat lpstart) acts c"
  shows "unat (word_of_nat (cs_start c) + lpstart :: u64) = unat lpstart + cs_start c"
    and "unat (word_of_nat (cs_start c) + lpstart + word_of_nat (cs_len c) :: u64) = unat lpstart + cs_start c + cs_len c"
    and "unat (word_of_nat (cs_lpad c) + lpstart :: u64) = unat lpstart + cs_lpad c"
    and "unat (word_of_nat (cs_action c) :: u8) = cs_action c"
    and "(word_of_nat (cs_lpad c) :: u64) = 0 \<longleftrightarrow> cs_lpad c = 0"
    and "(word_of_nat (cs_action c) :: u8) = 0 \<longleftrightarrow> cs_action c = 0"
proof -
  have f: "unat (word_of_nat n :: u64) = n" if "n < 2 ^ 64" for n using that by (simp add: unsigned_of_nat take_bit_nat_eq_self)
  have plus: "unat (a + b :: u64) = unat a + unat b" if "unat a + unat b < 2 ^ 64" for a b
    using that by (simp add: unat_word_ariths)
  note b = assms [unfolded site_fits_def]
  show s: "unat (word_of_nat (cs_start c) + lpstart :: u64) = unat lpstart + cs_start c"
    using b by (subst plus) (simp_all add: f)
  show "unat (word_of_nat (cs_start c) + lpstart + word_of_nat (cs_len c) :: u64) = unat lpstart + cs_start c + cs_len c"
    using b by (subst plus) (simp_all add: f s)
  show "unat (word_of_nat (cs_lpad c) + lpstart :: u64) = unat lpstart + cs_lpad c"
    using b by (subst plus) (simp_all add: f)
  show a: "unat (word_of_nat (cs_action c) :: u8) = cs_action c" using b by (simp add: unsigned_of_nat take_bit_nat_eq_self)
  show "(word_of_nat (cs_lpad c) :: u64) = 0 \<longleftrightarrow> cs_lpad c = 0"
    using f [of "cs_lpad c"] b by auto
  show "(word_of_nat (cs_action c) :: u8) = 0 \<longleftrightarrow> cs_action c = 0" using a by auto
qed

lemma read_site_bytes:
  assumes at: "bytes_at m src (site_bytes encoding c)" and fits: "site_fits region acts c"
  obtains src1 src2 src3 where
    "read_site m encoding src = Some (word_of_nat (cs_start c), src1)"
    "read_site m encoding src1 = Some (word_of_nat (cs_len c), src2)"
    "read_site m encoding src2 = Some (word_of_nat (cs_lpad c), src3)"
    "m src3 = word_of_nat (cs_action c)"
    "src3 + 1 = src + length (site_bytes encoding c)"
proof -
  define src1 where "src1 = src + length (site_number encoding (cs_start c))"
  define src2 where "src2 = src1 + length (site_number encoding (cs_len c))"
  define src3 where "src3 = src2 + length (site_number encoding (cs_lpad c))"
  note d = src1_def src2_def src3_def
  have b: "bytes_at m src (site_number encoding (cs_start c))" "bytes_at m src1 (site_number encoding (cs_len c))"
    "bytes_at m src2 (site_number encoding (cs_lpad c))" "m src3 = word_of_nat (cs_action c)"
    using at by (simp_all add: site_bytes_def d add.assoc)
  have l: "cs_start c < 2 ^ 32" "cs_len c < 2 ^ 32" "cs_lpad c < 2 ^ 32" using fits by (simp_all add: site_fits_def)
  show thesis
  proof (rule that)
    show "read_site m encoding src = Some (word_of_nat (cs_start c), src1)" using read_site_reads [OF b(1) l(1)] by (simp add: src1_def)
    show "read_site m encoding src1 = Some (word_of_nat (cs_len c), src2)" using read_site_reads [OF b(2) l(2)] by (simp add: src2_def)
    show "read_site m encoding src2 = Some (word_of_nat (cs_lpad c), src3)" using read_site_reads [OF b(3) l(3)] by (simp add: src3_def)
    show "m src3 = word_of_nat (cs_action c)" by (rule b(4))
    show "src3 + 1 = src + length (site_bytes encoding c)" by (simp add: site_bytes_def d)
  qed
qed

lemma the_pad_past: "\<forall>c \<in> set cs. ip < region + cs_start c \<Longrightarrow>
    the_pad region acts cs ip = \<lparr>lp_type = CATCH, lp_addr = NULL\<rparr>"
proof -
  assume "\<forall>c \<in> set cs. ip < region + cs_start c"
  then have "find (covers region ip) cs = None" by (auto simp: find_None_iff covers_def)
  then show ?thesis by (simp add: the_pad_def)
qed

lemma lpad_loop_spec:
  "bytes_at m src (concat (map (site_bytes encoding) cs)) \<Longrightarrow>
   bytes_at m (src + length (concat (map (site_bytes encoding) cs))) acts \<Longrightarrow>
   sorted (map cs_start cs) \<Longrightarrow> list_all (site_fits (unat lpstart) acts) cs \<Longrightarrow>
     lpad_loop m encoding (src + length (concat (map (site_bytes encoding) cs))) lpstart ip src = ret (the_pad (unat lpstart) acts cs (unat ip))"
proof (induction cs arbitrary: src)
  case Nil
  then show ?case by (subst lpad_loop.simps) (simp add: the_pad_def)
next
  case (Cons c cs)
  define tab where "tab = src + length (concat (map (site_bytes encoding) (c # cs)))"
  have at: "bytes_at m src (site_bytes encoding c)"
    "bytes_at m (src + length (site_bytes encoding c)) (concat (map (site_bytes encoding) cs))"
    and tab: "tab = src + length (site_bytes encoding c) + length (concat (map (site_bytes encoding) cs))"
    using Cons.prems(1) by (simp_all add: tab_def)
  have acts: "bytes_at m tab acts" using Cons.prems(2) by (simp only: tab_def)
  have fits: "site_fits (unat lpstart) acts c" using Cons.prems(4) by simp
  note w = site_words [OF fits]
  obtain src1 src2 src3 where r: "read_site m encoding src = Some (word_of_nat (cs_start c), src1)"
    "read_site m encoding src1 = Some (word_of_nat (cs_len c), src2)"
    "read_site m encoding src2 = Some (word_of_nat (cs_lpad c), src3)"
    and a: "m src3 = word_of_nat (cs_action c)" and e: "src3 + 1 = src + length (site_bytes encoding c)"
    using read_site_bytes [OF at(1) fits] .
  have act: "cs_action c < 128" "cs_action c < length acts" using fits by (simp_all add: site_fits_def)
  have small: "\<not> (0x80 :: u8) \<le> word_of_nat (cs_action c)" using act w(4) by (simp add: word_le_nat_alt)
  have ma: "m (tab + cs_action c) = acts ! cs_action c" by (rule bytes_at_nth [OF acts act(2)])
  have lt: "src < tab" by (simp add: tab_def site_bytes_def)
  have "lpad_loop m encoding tab lpstart ip src = ret (the_pad (unat lpstart) acts (c # cs) (unat ip))"
  proof (cases "unat ip < unat lpstart + cs_start c")
    case True
    then have "the_pad (unat lpstart) acts (c # cs) (unat ip) = \<lparr>lp_type = CATCH, lp_addr = NULL\<rparr>"
      using Cons.prems(3) by (intro the_pad_past) (auto intro: less_le_trans)
    then show ?thesis using True lt small
      by (subst lpad_loop.simps) (simp add: r a w Let_def word_less_nat_alt)
  next
    case ge: False
    show ?thesis
    proof (cases "unat ip < unat lpstart + cs_start c + cs_len c")
      case True
      then have "the_pad (unat lpstart) acts (c # cs) (unat ip) = pad_of (unat lpstart) acts c" using ge by (simp add: the_pad_def covers_def)
      then show ?thesis using True ge lt small
        by (subst lpad_loop.simps) (simp add: r a w ma Let_def word_less_nat_alt pad_of_def)
    next
      case False
      then have "the_pad (unat lpstart) acts (c # cs) (unat ip) = the_pad (unat lpstart) acts cs (unat ip)" by (simp add: the_pad_def covers_def)
      moreover have "lpad_loop m encoding tab lpstart ip (src3 + 1) = ret (the_pad (unat lpstart) acts cs (unat ip))"
        unfolding e tab
      proof (rule Cons.IH [OF at(2)])
        show "bytes_at m (src + length (site_bytes encoding c) + length (concat (map (site_bytes encoding) cs))) acts"
          using acts by (simp only: tab)
      qed (use Cons.prems(3,4) in simp_all)
      ultimately show ?thesis using False ge lt small
        by (subst lpad_loop.simps) (simp add: r a w Let_def word_less_nat_alt)
    qed
  qed
  then show ?case by (simp only: tab_def)
qed

lemma search_lpad_table:
  assumes lsda: "fr_lsda fr \<noteq> NULL" "bytes_at m (fr_lsda fr) (lsda_bytes ttype encoding cs acts)"
    and enc: "encoding = DW_EH_PE_udata4 \<or> encoding = DW_EH_PE_uleb128"
    and ttype: "case ttype of None \<Rightarrow> True | Some (tenc, off) \<Rightarrow> tenc \<noteq> DW_EH_PE_omit"
    and len: "length (concat (map (site_bytes encoding) cs)) < 2 ^ 64"
    and sorted: "sorted (map cs_start cs)"
    and fits: "list_all (site_fits (unat (fr_region fr)) acts) cs"
  shows "search_lpad m fr =
           ret (if cs = [] then no_pad else the_pad (unat (fr_region fr)) acts cs (unat (fr_ip fr - 1)))"
proof -
  define src where "src = fr_lsda fr"
  define table where "table = concat (map (site_bytes encoding) cs)"
  define src2 where "src2 = (case ttype of None \<Rightarrow> src + 2 | Some (tenc, off) \<Rightarrow> src + 2 + length (uleb128 off))"
  define src3 where "src3 = src2 + 1 + length (uleb128 (length table))"
  note b = lsda(2) [folded src_def, unfolded lsda_bytes_def Let_def, folded table_def]
  have omit: "m src = DW_EH_PE_omit" using b by simp
  have skip: "(if m (src + 1) \<noteq> DW_EH_PE_omit then map_option snd (read_uleb128 m (src + 1 + 1)) else Some (src + 1 + 1)) = Some src2"
    using b ttype read_uleb128_reads [of m "src + 1 + 1"] by (cases ttype) (auto simp: src2_def)
  have at: "m src2 = encoding" "bytes_at m (src2 + 1) (uleb128 (length table))" "bytes_at m src3 table" "bytes_at m (src3 + length table) acts"
    using b by (cases ttype; auto simp: src2_def src3_def add.assoc)+
  have tablen: "unat (word_of_nat (length table) :: u64) = length table"
    using len by (simp add: table_def [symmetric] unsigned_of_nat take_bit_nat_eq_self)
  have zero: "(word_of_nat (length table) :: u64) = 0 \<longleftrightarrow> cs = []"
    using tablen by (cases cs) (auto simp: table_def site_bytes_def)
  note loop = lpad_loop_spec [where ip = "fr_ip fr - 1", OF at(3,4) [unfolded table_def] sorted fits, folded table_def]
  have "search_lpad m fr = Option.bind (Some src2) (\<lambda>src2.
      if m src2 \<noteq> DW_EH_PE_udata4 \<and> m src2 \<noteq> DW_EH_PE_uleb128
      then Some (Inl (Fatal ''call-site table encoding must be either udata4 or uleb128''))
      else Option.bind (read_uleb128 m (src2 + 1)) (\<lambda>(tablen, src3).
             if tablen = 0 then ret no_pad
             else lpad_loop m (m src2) (src3 + unat tablen) (fr_region fr) (fr_ip fr - 1) src3))"
    unfolding search_lpad_def Let_def src_def [symmetric] skip using lsda(1) omit by (simp add: src_def [symmetric])
  also have "\<dots> = ret (if cs = [] then no_pad else the_pad (unat (fr_region fr)) acts cs (unat (fr_ip fr - 1)))"
    using at(1) enc read_uleb128_reads [OF at(2), folded src3_def] tablen zero loop by auto
  finally show ?thesis .
qed

text \<open>
  C32: the search reads the table of a function in either encoding and gives the landing pad of the first call site
  that covers the call: none, cleanup, catch or both as its landing pad and action say, at the address relative
  to the function.  A call that no site covers terminates the program; a function with an empty
  table has no landing pad.
\<close>

theorem search_lpad_finds_site:
  assumes lsda: "fr_lsda fr \<noteq> NULL" "bytes_at m (fr_lsda fr) (lsda_bytes ttype encoding cs acts)"
    and enc: "encoding = DW_EH_PE_udata4 \<or> encoding = DW_EH_PE_uleb128"
    and ttype: "case ttype of None \<Rightarrow> True | Some (tenc, off) \<Rightarrow> tenc \<noteq> DW_EH_PE_omit"
    and len: "length (concat (map (site_bytes encoding) cs)) < 2 ^ 64"
    and sorted: "sorted (map cs_start cs)"
    and fits: "list_all (site_fits (unat (fr_region fr)) acts) cs"
  shows "search_lpad m fr =
           ret (if cs = [] then no_pad else the_pad (unat (fr_region fr)) acts cs (unat (fr_ip fr - 1)))"
  using assms by (rule search_lpad_table)

section \<open>Unwinding in two phases\<close>

text \<open>The calls of the personality function for frames in turn, with their answers.\<close>

primrec personality_calls ::
  "mem \<Rightarrow> actions \<Rightarrow> addr \<Rightarrow> frame list \<Rightarrow> exception \<Rightarrow> (reason list \<times> exception) result option" where
  "personality_calls m acts ue [] e = ret ([], e)"
| "personality_calls m acts ue (fr # frs) e =
     andthen (sml_personality m 1 acts True ue fr e) (\<lambda>(r, e1).
       andthen (personality_calls m acts ue frs e1) (\<lambda>(rs, e2). ret (r # rs, e2)))"

lemma andthen_eq_ret: "andthen a f = ret y \<longleftrightarrow> (\<exists>x. a = ret x \<and> f x = ret y)"
proof (cases a)
  case (Some r)
  then show ?thesis by (cases r) simp_all
qed simp

lemma personality_calls_append:
  "personality_calls m acts ue xs e = ret (rs, e1) \<Longrightarrow> personality_calls m acts ue ys e1 = ret (rs', e2) \<Longrightarrow>
     personality_calls m acts ue (xs @ ys) e = ret (rs @ rs', e2)"
  by (induction xs arbitrary: e rs) (fastforce simp: andthen_eq_ret)+

definition search :: actions where "search = \<lparr>SEARCH_PHASE = True, CLEANUP_PHASE = False, HANDLER_FRAME = False\<rparr>"
definition unwind :: actions where "unwind = \<lparr>SEARCH_PHASE = False, CLEANUP_PHASE = True, HANDLER_FRAME = False\<rparr>"
definition handler :: actions where "handler = \<lparr>SEARCH_PHASE = False, CLEANUP_PHASE = True, HANDLER_FRAME = True\<rparr>"

definition passes :: "landing_pad \<Rightarrow> bool" where
  "passes p \<longleftrightarrow> lp_type p = 0 \<or> lp_type p = CLEANUP \<and> lp_addr p \<noteq> NULL"

definition cleanups :: "landing_pad list \<Rightarrow> nat" where
  "cleanups ps = length (filter (\<lambda>p. lp_type p = CLEANUP) ps)"

definition cleanup_reason :: "addr \<Rightarrow> landing_pad \<Rightarrow> reason" where
  "cleanup_reason ue p = (if lp_type p = CLEANUP then INSTALL_CONTEXT (lp_addr p) ue (UE_TO_EXCEPTION ue) else CONTINUE_UNWIND)"

lemma pad_bits [simp]: "CLEANUP AND CATCH = 0" "CATCH AND CLEANUP = 0" "CLEANUP AND CLEANUP \<noteq> 0" "CLEANUP \<noteq> 0"
  by (simp_all add: CLEANUP_def CATCH_def)

lemma search_calls:
  "list_all2 (\<lambda>fr p. search_lpad m fr = ret p \<and> passes p) frs ps \<Longrightarrow>
     personality_calls m search ue frs e =
       ret (replicate (length frs) CONTINUE_UNWIND, e\<lparr>num_cleanup := num_cleanup e + word_of_nat (cleanups ps)\<rparr>)"
proof (induction frs ps arbitrary: e rule: list_all2_induct)
  case Nil
  then show ?case by (simp add: cleanups_def)
next
  case (Cons fr frs p ps)
  then show ?case by (auto simp: sml_personality_def search_def passes_def cleanups_def ac_simps)
qed

lemma unwind_calls:
  "list_all2 (\<lambda>fr p. search_lpad m fr = ret p \<and> passes p) frs ps \<Longrightarrow> length frs < 2 ^ 32 \<Longrightarrow>
   num_cleanup e = word_of_nat (cleanups ps) \<Longrightarrow>
     personality_calls m unwind ue frs e = ret (map (cleanup_reason ue) ps, e\<lparr>num_cleanup := 0\<rparr>)"
proof (induction frs ps arbitrary: e rule: list_all2_induct)
  case Nil
  then show ?case by (simp add: cleanups_def)
next
  case (Cons fr frs p ps)
  have "cleanups (p # ps) \<le> length (p # ps)" unfolding cleanups_def by (rule length_filter_le)
  also have "\<dots> < 2 ^ 32" using Cons.prems(1) list_all2_lengthD [OF Cons.hyps(2)] by simp
  finally have n: "(word_of_nat (cleanups (p # ps)) :: u32) = 0 \<longleftrightarrow> cleanups (p # ps) = 0"
    using unsigned_of_nat [where 'a = nat and 'b = 32, of "cleanups (p # ps)"] by (auto simp: take_bit_nat_eq_self)
  show ?case
  proof (cases "lp_type p = CLEANUP")
    case True
    then have "cleanups (p # ps) = Suc (cleanups ps)" by (simp add: cleanups_def)
    then show ?thesis using Cons True n by (simp add: sml_personality_def unwind_def install_def passes_def cleanup_reason_def)
  next
    case False
    then have c: "cleanups (p # ps) = cleanups ps" by (simp add: cleanups_def)
    have "sml_personality m 1 unwind True ue fr e = ret (CONTINUE_UNWIND, e)"
      using Cons.hyps(1) False by (auto simp: sml_personality_def unwind_def passes_def)
    then show ?thesis using Cons False c by (simp add: cleanup_reason_def)
  qed
qed

text \<open>
  C11: unwinding in two phases.  The calls of the search phase pass every frame up to the one with the handler, count the
  frames with a cleanup and remember the handler; the calls of the cleanup phase go to the landing pad of exactly these
  frames, in order, although they stop to look for landing pads as soon as the count is down to zero; and the
  last call goes to the handler that was remembered, with the exception and without the header.
\<close>

theorem two_phase_unwinding:
  assumes frames: "list_all2 (\<lambda>fr p. search_lpad m fr = ret p \<and> passes p) frs ps" "length frs < 2 ^ 32"
    and handler: "search_lpad m h = ret hp" "lp_type hp AND CATCH \<noteq> 0" "lp_addr hp \<noteq> NULL"
    and start: "num_cleanup e = 0"
  shows "personality_calls m search ue (frs @ [h]) e =
           ret (replicate (length frs) CONTINUE_UNWIND @ [HANDLER_FOUND],
                e\<lparr>handler_addr := lp_addr hp, num_cleanup := word_of_nat (cleanups ps)\<rparr>) \<and>
         personality_calls m unwind ue frs (e\<lparr>handler_addr := lp_addr hp, num_cleanup := word_of_nat (cleanups ps)\<rparr>) =
           ret (map (cleanup_reason ue) ps, e\<lparr>handler_addr := lp_addr hp\<rparr>) \<and>
         personality_calls m handler ue [h] (e\<lparr>handler_addr := lp_addr hp\<rparr>) =
           ret ([INSTALL_CONTEXT (lp_addr hp) NULL (UE_TO_EXCEPTION ue)], e\<lparr>handler_addr := lp_addr hp\<rparr>)"
proof (intro conjI)
  show "personality_calls m search ue (frs @ [h]) e =
           ret (replicate (length frs) CONTINUE_UNWIND @ [HANDLER_FOUND],
                e\<lparr>handler_addr := lp_addr hp, num_cleanup := word_of_nat (cleanups ps)\<rparr>)"
    using handler start by (intro personality_calls_append [OF search_calls [OF frames(1)]]) (simp add: sml_personality_def search_def)
  show "personality_calls m unwind ue frs (e\<lparr>handler_addr := lp_addr hp, num_cleanup := word_of_nat (cleanups ps)\<rparr>) =
           ret (map (cleanup_reason ue) ps, e\<lparr>handler_addr := lp_addr hp\<rparr>)"
    using start by (subst unwind_calls [OF frames]) simp_all
  show "personality_calls m handler ue [h] (e\<lparr>handler_addr := lp_addr hp\<rparr>) =
           ret ([INSTALL_CONTEXT (lp_addr hp) NULL (UE_TO_EXCEPTION ue)], e\<lparr>handler_addr := lp_addr hp\<rparr>)"
    using handler(3) by (simp add: sml_personality_def handler_def install_def)
qed

text \<open>Two functions with tables in memory, one with a cleanup and one with a handler.\<close>

definition put_bytes :: "addr \<Rightarrow> u8 list \<Rightarrow> mem \<Rightarrow> mem" where
  "put_bytes p bs m = (\<lambda>q. if p \<le> q \<and> q < p + length bs then bs ! (q - p) else m q)"

definition tables :: mem where
  "tables =
     put_bytes 100 (lsda_bytes None DW_EH_PE_uleb128 [\<lparr>cs_start = 0, cs_len = 16, cs_lpad = 200, cs_action = 0\<rparr>] [0])
       (put_bytes 200 (lsda_bytes (Some (0, 300)) DW_EH_PE_udata4
          [\<lparr>cs_start = 0, cs_len = 16, cs_lpad = 0, cs_action = 0\<rparr>, \<lparr>cs_start = 16, cs_len = 8, cs_lpad = 64, cs_action = 1\<rparr>] [1, 0]) (\<lambda>_. 0))"

lemma tables_bytes:
  "bytes_at tables 100 (lsda_bytes None DW_EH_PE_uleb128 [\<lparr>cs_start = 0, cs_len = 16, cs_lpad = 200, cs_action = 0\<rparr>] [0])"
  "bytes_at tables 200 (lsda_bytes (Some (0, 300)) DW_EH_PE_udata4
     [\<lparr>cs_start = 0, cs_len = 16, cs_lpad = 0, cs_action = 0\<rparr>, \<lparr>cs_start = 16, cs_len = 8, cs_lpad = 64, cs_action = 1\<rparr>] [1, 0])"
  by code_simp+

lemma tables_pads:
  "search_lpad tables \<lparr>fr_lsda = 100, fr_region = 8192, fr_ip = 8200\<rparr> = ret \<lparr>lp_type = CLEANUP, lp_addr = 8392\<rparr>"
  "search_lpad tables \<lparr>fr_lsda = 200, fr_region = 4096, fr_ip = 4115\<rparr> = ret \<lparr>lp_type = CATCH, lp_addr = 4160\<rparr>"
proof -
  let ?fr = "\<lparr>fr_lsda = 100, fr_region = 8192, fr_ip = 8200\<rparr>" and ?fr' = "\<lparr>fr_lsda = 200, fr_region = 4096, fr_ip = 4115\<rparr>"
  let ?cs = "[\<lparr>cs_start = 0, cs_len = 16, cs_lpad = 200, cs_action = 0\<rparr>]"
  let ?cs' = "[\<lparr>cs_start = 0, cs_len = 16, cs_lpad = 0, cs_action = 0\<rparr>, \<lparr>cs_start = 16, cs_len = 8, cs_lpad = 64, cs_action = 1\<rparr>]"
  have "search_lpad tables ?fr = ret (if ?cs = [] then no_pad else the_pad (unat (fr_region ?fr)) [0] ?cs (unat (fr_ip ?fr - 1)))"
  proof (rule search_lpad_table)
    show "bytes_at tables (fr_lsda ?fr) (lsda_bytes None DW_EH_PE_uleb128 ?cs [0])" using tables_bytes(1) by simp
    show "length (concat (map (site_bytes DW_EH_PE_uleb128) ?cs)) < 2 ^ 64"
      by (simp add: site_bytes_def site_number_def uleb128.simps DW_EH_PE_udata4_def DW_EH_PE_uleb128_def)
  qed (simp_all add: site_fits_def)
  also have "\<dots> = ret \<lparr>lp_type = CLEANUP, lp_addr = 8392\<rparr>" by code_simp
  finally show "search_lpad tables ?fr = ret \<lparr>lp_type = CLEANUP, lp_addr = 8392\<rparr>" .
  have "search_lpad tables ?fr' = ret (if ?cs' = [] then no_pad else the_pad (unat (fr_region ?fr')) [1, 0] ?cs' (unat (fr_ip ?fr' - 1)))"
  proof (rule search_lpad_table)
    show "bytes_at tables (fr_lsda ?fr') (lsda_bytes (Some (0, 300)) DW_EH_PE_udata4 ?cs' [1, 0])" using tables_bytes(2) by simp
    show "length (concat (map (site_bytes DW_EH_PE_udata4) ?cs')) < 2 ^ 64"
      by (simp add: site_bytes_def site_number_def uleb128.simps DW_EH_PE_udata4_def DW_EH_PE_uleb128_def)
  qed (simp_all add: DW_EH_PE_omit_def site_fits_def)
  also have "\<dots> = ret \<lparr>lp_type = CATCH, lp_addr = 4160\<rparr>" by code_simp
  finally show "search_lpad tables ?fr' = ret \<lparr>lp_type = CATCH, lp_addr = 4160\<rparr>" .
qed

theorem search_lpad_finds_site_witness:
  "search_lpad tables \<lparr>fr_lsda = 200, fr_region = 4096, fr_ip = 4115\<rparr> = ret \<lparr>lp_type = CATCH, lp_addr = 4160\<rparr>"
proof -
  let ?fr = "\<lparr>fr_lsda = 200, fr_region = 4096, fr_ip = 4115\<rparr>"
  let ?cs = "[\<lparr>cs_start = 0, cs_len = 16, cs_lpad = 0, cs_action = 0\<rparr>, \<lparr>cs_start = 16, cs_len = 8, cs_lpad = 64, cs_action = 1\<rparr>]"
  have "search_lpad tables ?fr =
      ret (if ?cs = [] then no_pad else the_pad (unat (fr_region ?fr)) [1, 0] ?cs (unat (fr_ip ?fr - 1)))"
  proof (rule search_lpad_finds_site)
    show "bytes_at tables (fr_lsda ?fr) (lsda_bytes (Some (0, 300)) DW_EH_PE_udata4 ?cs [1, 0])"
      using tables_bytes(2) by simp
    show "length (concat (map (site_bytes DW_EH_PE_udata4) ?cs)) < 2 ^ 64"
      by (simp add: site_bytes_def site_number_def DW_EH_PE_udata4_def DW_EH_PE_uleb128_def)
  qed (simp_all add: DW_EH_PE_omit_def site_fits_def)
  also have "\<dots> = ret \<lparr>lp_type = CATCH, lp_addr = 4160\<rparr>" by code_simp
  finally show ?thesis .
qed

theorem two_phase_unwinding_witness:
  "personality_calls tables unwind 5016 [\<lparr>fr_lsda = 100, fr_region = 8192, fr_ip = 8200\<rparr>, \<lparr>fr_lsda = 0, fr_region = 0, fr_ip = 1\<rparr>]
     (\<lparr>exn_obj = 6000, handler_addr = 4160, num_cleanup = 1\<rparr>) =
   ret ([INSTALL_CONTEXT 8392 5016 5000, CONTINUE_UNWIND], \<lparr>exn_obj = 6000, handler_addr = 4160, num_cleanup = 0\<rparr>)"
proof -
  let ?f = "\<lparr>fr_lsda = 100, fr_region = 8192, fr_ip = 8200\<rparr>" and ?g = "\<lparr>fr_lsda = 0, fr_region = 0, fr_ip = 1\<rparr>"
  let ?p = "\<lparr>lp_type = CLEANUP, lp_addr = 8392\<rparr>" and ?hp = "\<lparr>lp_type = CATCH, lp_addr = 4160\<rparr>"
  note h = tables_pads(2) and f = tables_pads(1)
  have g: "search_lpad tables ?g = ret no_pad" by (simp add: search_lpad_def)
  have "personality_calls tables unwind 5016 [?f, ?g]
      (\<lparr>exn_obj = 6000, handler_addr = 0, num_cleanup = 0\<rparr>\<lparr>handler_addr := lp_addr ?hp, num_cleanup := word_of_nat (cleanups [?p, no_pad])\<rparr>) =
    ret (map (cleanup_reason 5016) [?p, no_pad], \<lparr>exn_obj = 6000, handler_addr = 0, num_cleanup = 0\<rparr>\<lparr>handler_addr := lp_addr ?hp\<rparr>)"
    by (rule two_phase_unwinding [OF _ _ h, THEN conjunct2, THEN conjunct1]) (simp_all add: f g passes_def no_pad_def CATCH_def)
  then show ?thesis by (simp add: cleanups_def cleanup_reason_def no_pad_def UE_TO_EXCEPTION_def OFFSETOF_HEADER_def)
qed

end
