(* ===== verification/Spec2Isabelle.thy ===== *)
theory Spec2Isabelle
  imports Top Alloc Whole Signal Init Handshake Callback Exn
begin

text \<open>
  A verification development for the run-time system of the SML# compiler, the C program under
  \<open>src/src/runtime\<close>: a concurrent, non-moving garbage collector with per-thread allocators, the control that moves
  all threads through the phases of a collection, and the services that compiled ML programs call.

  \<^bold>\<open>The program and its parts.\<close>  Compiled code allocates with \<open>sml_alloc\<close> and stores pointers with \<open>sml_write\<close>
  (\<open>heap_concurrent.c\<close>).  Every thread has a user context and runs on a worker context (\<open>control.c\<close>); a
  worker owns an allocator.  \<open>sml_gc\<close> starts a collection by changing the phase of all workers; every worker notices at
  \<open>sml_check\<close>, \<open>sml_leave\<close> or \<open>sml_enter\<close>, or another worker helps it, and the last one to answer changes the phase again:
  \<open>ASYNC\<close>, \<open>SYNC1\<close>, \<open>SYNC2\<close> (the roots are pushed), \<open>MARK\<close>, and \<open>ASYNC\<close> with the sweep.  The roots come from the stacks, whose frames
  are described by the tables of \<open>top.c\<close>, from the global objects (\<open>top.c\<close>) and from the callbacks (\<open>callback.c\<close>).
  Finalizers (\<open>finalize.c\<close>) run between marking and sweeping.  Callbacks and finalizers are kept in splay trees
  (\<open>splay.c\<close>).  \<open>object.c\<close> knows the format of objects, \<open>exn.c\<close> unwinds stacks for exceptions, \<open>signal.c\<close>
  turns signals into check hooks, \<open>prim.c\<close> holds primitives of the Basis Library.

  \<^bold>\<open>Theories.\<close>  Definitions keep the names of the C functions, macros and fields.
  \<^item> \<open>Prelude\<close>, \<open>Memory\<close>: machine words, addresses, fatal errors as values, size macros, byte memory with little-endian words.
  \<^item> \<open>Bitptr\<close> (\<open>smlsharp.h\<close>): bit pointers; the carry tricks agree with a linear scan; concurrent calls of the test-and-set lose no update, let one caller win each bit, and return.
  \<^item> \<open>Object\<close> (\<open>object.h\<close>, \<open>object.c\<close>): headers, bitmaps, enumeration of pointers, structural equality and its termination, strings, array copies.
  \<^item> \<open>Splay\<close>, \<open>Splay_Walk\<close> (\<open>splay.c\<close>): the tree at pointer level, with its parent-free rotations and node allocator; find, insert, delete, traversal, rejection and
    rebuilding implement operations on the sequence of items.  The order of items is the locale \<open>item_order\<close>.
  \<^item> \<open>Top\<close> (\<open>top.c\<close>): registration of object files from frame tables in their documented format, sorting and searching of safe points, unloading.
  \<^item> \<open>Segment\<close> (\<open>heap_concurrent.c\<close>): layout of segments, two-level bitmaps, search for free blocks.
  \<^item> \<open>Marking\<close>, \<open>Trace\<close>: the interface of marking as a locale, and \<open>visit\<close>, \<open>push\<close>, \<open>trace\<close> as its instance: exactly the reachable objects get marked.
  \<^item> \<open>Seglist\<close>, \<open>Pool\<close>, \<open>Collect\<close>, \<open>Sweep\<close>, \<open>Alloc\<close>: intrusive lists (a locale with two instances), the segment pool and allocators, the steps of a collection, sweeping, allocation and the write barrier.
  \<^item> \<open>Phase\<close>, \<open>Worker\<close>, \<open>Control\<close> (\<open>control.c\<close>): state words, worker lists, actions of workers, stack enumeration, entering, leaving, checking, helping.
    The heap is the record \<open>runtime\<close> of the operations of \<open>heap.h\<close>.
  \<^item> \<open>Handshake\<close> (\<open>control.c\<close>): all threads as one step relation; the counter protocol is safe, and a collection can be completed unless its counter has been lost.
  \<^item> \<open>Cycle\<close>, \<open>Solo\<close>, \<open>Whole\<close>: a complete mark and sweep of a heap; \<open>sml_gc\<close> of a program with one worker, over any heap; and both together.
  \<^item> \<open>Finalize\<close>, \<open>Callback\<close>, \<open>Exn\<close>, \<open>Signal\<close>, \<open>Prim\<close>: the services named above; \<open>Init\<close> (\<open>init.c\<close>): the size of the heap from the environment.

  \<^bold>\<open>What the theorems show.\<close>  For the collector: a collection from \<open>sml_gc\<close> to the last bit keeps exactly the reachable objects (\<open>Whole\<close>); the
  same for the mark and sweep of an allocator with the malloc segments, from its root and remembered sets (\<open>Cycle\<close>); the sweep of a subheap
  puts each segment into the list that its marks and its snapshot call for (\<open>Sweep\<close>); several workers together mark exactly what their root and remembered sets
  reach (\<open>Collect\<close>); in every interleaving the thread that changes the phase is the last one to answer (\<open>Handshake\<close>);
  allocation gives the first free block, and the write barrier remembers exactly what it has to (\<open>Alloc\<close>).  For the
  data structures: refinement of abstract sequences, maps and values.  For the services: round trips, exactness of
  the reported signals, two-phase unwinding.  Some theorems state what the code does where this is not what it means to do:
  overlapping array copies, a collection that is never completed,
  inverted results of polling, cut-off symbolic links.

  \<^bold>\<open>Conventions.\<close>  Sizes and addresses are natural numbers, flags and bitmaps words of their width.  A fatal error is \<open>Inl\<close>.  Loops over linked
  structures, which need not end on arbitrary memory, are partial functions into \<open>option\<close>: \<open>None\<close> is a loop without end, a busy wait, or an undefined operation of C; the
  theorems state that there is a result.  \<open>sml_obj_equal\<close>, which recurses along pointers, has a fuel argument; a theorem of \<open>Object\<close> shows that on
  acyclic objects the rank of the object is enough.  All other recursion is structural or has a measure.  Assertions of the code, which the build
  compiles out (\<open>NDEBUG\<close>), are not part of the model: where a theorem needs one, it is a hypothesis.
  Floating point sizes of the heap are rationals, with \<open>None\<close> for a number that is none.  Parameters stand for \<open>mmap\<close>, \<open>malloc\<close>, the unwinder, the
  finalizers, system calls, rounding of floating point numbers and the library of big integers; hypotheses about them are those of their documentation.

  \<^bold>\<open>Not modelled.\<close>  The calls that start and end the parts (\<open>sml_init\<close>, \<open>sml_finish\<close>, \<open>main.c\<close>), messages and \<open>malloc\<close> wrappers (\<open>error.c\<close>, \<open>xmalloc.c\<close>), logs, timers and
  statistics, debugging code of the heap; the functions of \<open>prim.c\<close> that are single calls of a library; the heaps that no build file
  compiles (\<open>heap_bitmap.c\<close>, \<open>heap_otomo.c\<close>, \<open>heap_reppy.c\<close>, \<open>heap_cheney.c\<close>, \<open>heap_malloc.c\<close>, \<open>heap_boehm.c\<close>); third-party code (\<open>netlib/dtoa.c\<close>); and everything written in
  Standard ML.  Weak memory is not modelled: atomic operations are atomic steps in one order.  The composition of control and heap
  in \<open>Whole\<close> is for one worker, with finalizers that leave the heap alone; with several workers the handshake and the marking are verified each by itself.
\<close>

end
